(* ===== verification/Prelude.thy ===== *)
theory Prelude
  imports Main "HOL-Library.Word" "HOL-Library.Monad_Syntax"
begin

text \<open>
  Shared vocabulary of the development: the machine integer types of the C sources, the
  \<open>named_theorems\<close> collections that the component theories extend, and the generic lemmas on
  words, lists and options that several components use.
\<close>

unbundle bit_operations_syntax

section \<open>Machine types\<close>

type_synonym u8 = "8 word"
type_synonym u16 = "16 word"
type_synonym u32 = "32 word"
type_synonym u64 = "64 word"

text \<open>A pointer of the modelled x86-64 process; 0 is NULL.\<close>
type_synonym addr = u64

abbreviation NULL :: addr where "NULL \<equiv> 0"

section \<open>Collections\<close>

named_theorems rb_shape \<open>shape and inorder facts on red-black trees and their contexts\<close>
named_theorems rb_heap \<open>evaluation of the pointer primitives on a heap\<close>
named_theorems ring_simps \<open>arithmetic of circular buffer indices\<close>

section \<open>Words\<close>

text \<open>A node address is aligned to four bytes, so its two low bits are free for flags.\<close>

definition aligned :: "addr \<Rightarrow> bool" where
  "aligned a \<longleftrightarrow> a AND 3 = 0"

lemma aligned_0 [simp]: "aligned 0"
  by (simp add: aligned_def)

lemma aligned_and_not3:
  assumes "aligned a"
  shows "a AND NOT 3 = a"
proof -
  have "a = (a AND 3) OR (a AND NOT 3)"
    by (simp add: bit_eq_iff bit_simps) blast
  with assms show ?thesis
    by (simp add: aligned_def)
qed

lemmas aligned_and_minus4 = aligned_and_not3[simplified]

lemma aligned_and_1:
  assumes "aligned a"
  shows "a AND 1 = 0"
proof -
  have "a AND 1 = (a AND 3) AND (1 :: addr)"
    by (simp add: and.assoc)
  with assms show ?thesis
    by (simp add: aligned_def)
qed

section \<open>Lists\<close>

lemma sorted_wrt_insert_middle:
  assumes "sorted_wrt P (xs @ ys)" and "\<forall>x\<in>set xs. P x z" and "\<forall>y\<in>set ys. P z y"
  shows "sorted_wrt P (xs @ z # ys)"
  using assms by (auto simp: sorted_wrt_append)

lemma take_Suc_snoc: "i < length xs \<Longrightarrow> take (Suc i) xs = take i xs @ [xs ! i]"
  by (simp add: take_Suc_conv_app_nth)

lemma nth_update_if: "j < length xs \<Longrightarrow> xs[i := x] ! j = (if i = j then x else xs ! j)"
  by simp

lemma length_filter_update:
  assumes "i < length xs"
  shows "length (filter P (xs[i := y])) + (if P (xs ! i) then 1 else 0) =
    length (filter P xs) + (if P y then 1 else 0)"
  using assms
proof (induction xs arbitrary: i)
  case (Cons x xs)
  then show ?case by (cases i) auto
qed simp

end
