(* ===== verification/Rbtree_Model.thy ===== *)
theory Rbtree_Model
  imports Prelude
begin

text \<open>
  Red-black trees as algebraic data, with a position inside a tree as a context (the path of
  parents from the position to the root, which the parent pointers of \<open>struct rb_node\<close> keep).
  The functions \<open>ins_fix\<close>, \<open>del_fix\<close> and \<open>erase_at\<close> say what one call of
  \<open>rb_insert_color\<close> and \<open>rb_erase\<close> (src/utils/rbtree.c) does to the tree; theory \<open>Rbtree\<close>
  translates the pointer code itself and proves that it computes them.
  Proved here: both operations keep the red-black invariant, insertion keeps the in-order
  sequence of the linked tree and erasure removes exactly the erased element.
\<close>

section \<open>Trees and contexts\<close>

datatype rb_color = RB_RED | RB_BLACK

datatype 'a rbt = Leaf | Node rb_color "'a rbt" 'a "'a rbt"

datatype 'a frame =
    LeftOf rb_color 'a "'a rbt"   \<comment> \<open>the position is the left child; the right subtree\<close>
  | RightOf rb_color "'a rbt" 'a  \<comment> \<open>the position is the right child; the left subtree\<close>

type_synonym 'a ctx = "'a frame list"

fun inorder :: "'a rbt \<Rightarrow> 'a list" where
  "inorder Leaf = []"
| "inorder (Node c l a r) = inorder l @ a # inorder r"

fun plug :: "'a ctx \<Rightarrow> 'a rbt \<Rightarrow> 'a rbt" where
  "plug [] t = t"
| "plug (LeftOf c a r # k) t = plug k (Node c t a r)"
| "plug (RightOf c l a # k) t = plug k (Node c l a t)"

fun before :: "'a ctx \<Rightarrow> 'a list" where
  "before [] = []"
| "before (LeftOf c a r # k) = before k"
| "before (RightOf c l a # k) = before k @ inorder l @ [a]"

fun after :: "'a ctx \<Rightarrow> 'a list" where
  "after [] = []"
| "after (LeftOf c a r # k) = a # inorder r @ after k"
| "after (RightOf c l a # k) = after k"

lemma inorder_plug [simp, rb_shape]: "inorder (plug k t) = before k @ inorder t @ after k"
  by (induction k t rule: plug.induct) auto

lemma plug_append: "plug (k @ k') t = plug k' (plug k t)"
  by (induction k t rule: plug.induct) auto

lemma before_append: "before (k @ k') = before k' @ before k"
  by (induction k rule: before.induct) auto

lemma after_append: "after (k @ k') = after k @ after k'"
  by (induction k rule: after.induct) auto

fun color_of :: "'a rbt \<Rightarrow> rb_color" where
  "color_of Leaf = RB_BLACK"
| "color_of (Node c l a r) = c"

fun paint :: "rb_color \<Rightarrow> 'a rbt \<Rightarrow> 'a rbt" where
  "paint c Leaf = Leaf"
| "paint c (Node _ l a r) = Node c l a r"

lemma not_red [simp]: "c \<noteq> RB_RED \<longleftrightarrow> c = RB_BLACK"
  by (cases c) auto

lemma not_black [simp]: "c \<noteq> RB_BLACK \<longleftrightarrow> c = RB_RED"
  by (cases c) auto

lemma inorder_paint [simp, rb_shape]: "inorder (paint c t) = inorder t"
  by (cases t) auto

lemma paint_id: "color_of t = RB_BLACK \<Longrightarrow> paint RB_BLACK t = t"
  by (cases t) auto

section \<open>The red-black invariant\<close>

fun bheight :: "'a rbt \<Rightarrow> nat" where
  "bheight Leaf = 0"
| "bheight (Node c l a r) = bheight l + (if c = RB_BLACK then 1 else 0)"

text \<open>Rule 4 of the kernel's comment: both children of a red node are black.\<close>

fun inv_color :: "'a rbt \<Rightarrow> bool" where
  "inv_color Leaf = True"
| "inv_color (Node c l a r) \<longleftrightarrow>
     (c = RB_RED \<longrightarrow> color_of l = RB_BLACK \<and> color_of r = RB_BLACK) \<and> inv_color l \<and> inv_color r"

text \<open>Rule 5: every path to a leaf holds the same number of black nodes.\<close>

fun inv_height :: "'a rbt \<Rightarrow> bool" where
  "inv_height Leaf = True"
| "inv_height (Node c l a r) \<longleftrightarrow> bheight l = bheight r \<and> inv_height l \<and> inv_height r"

definition is_rbt :: "'a rbt \<Rightarrow> bool" where
  "is_rbt t \<longleftrightarrow> inv_color t \<and> inv_height t \<and> color_of t = RB_BLACK"

lemma is_rbt_Node:
  "is_rbt (Node c l a r) \<longleftrightarrow> c = RB_BLACK \<and> inv_color l \<and> inv_color r \<and>
     inv_height l \<and> inv_height r \<and> bheight l = bheight r"
  by (auto simp: is_rbt_def)

text \<open>
  \<open>fits k c h\<close>: a valid subtree with a root of color \<open>c\<close> and black height \<open>h\<close> can stand at
  the position \<open>k\<close> of a red-black tree.
\<close>

fun fits :: "'a ctx \<Rightarrow> rb_color \<Rightarrow> nat \<Rightarrow> bool" where
  "fits [] col h \<longleftrightarrow> col = RB_BLACK"
| "fits (LeftOf c a r # k) col h \<longleftrightarrow>
     inv_color r \<and> inv_height r \<and> bheight r = h \<and>
     (c = RB_RED \<longrightarrow> col = RB_BLACK \<and> color_of r = RB_BLACK) \<and>
     fits k c (h + (if c = RB_BLACK then 1 else 0))"
| "fits (RightOf c l a # k) col h \<longleftrightarrow>
     inv_color l \<and> inv_height l \<and> bheight l = h \<and>
     (c = RB_RED \<longrightarrow> col = RB_BLACK \<and> color_of l = RB_BLACK) \<and>
     fits k c (h + (if c = RB_BLACK then 1 else 0))"

lemma fits_black: "fits k c h \<Longrightarrow> fits k RB_BLACK h"
  by (cases k rule: fits.cases[of "(k, c, h)" for k c h]) auto

lemma fits_singleton: "fits [f] RB_RED h \<longleftrightarrow> fits [f] RB_BLACK h"
  by (cases f) auto

lemma bheight_paint_black: "color_of t = RB_RED \<Longrightarrow> bheight (paint RB_BLACK t) = Suc (bheight t)"
  by (cases t) auto

lemma inv_height_paint [simp]: "inv_height (paint c t) = inv_height t"
  by (cases t) auto

lemma inv_color_paint_black: "inv_color t \<Longrightarrow> inv_color (paint RB_BLACK t)"
  by (cases t) auto

lemma color_paint_black [simp]: "color_of (paint RB_BLACK t) = RB_BLACK"
  by (cases t) auto

lemma is_rbt_plug:
  "is_rbt (plug k t) \<longleftrightarrow> inv_color t \<and> inv_height t \<and> fits k (color_of t) (bheight t)"
proof (induction k t rule: plug.induct)
  case (1 t)
  then show ?case by (auto simp: is_rbt_def)
next
  case (2 c a r k t)
  then show ?case by (cases c) auto
next
  case (3 c l a k t)
  then show ?case by (cases c) auto
qed

section \<open>Rebalancing after an insertion\<close>

text \<open>
  \<open>ins_fix l n r k\<close>: the tree after \<open>rb_insert_color\<close> starts at the red node \<open>n\<close> with
  subtrees \<open>l\<close> and \<open>r\<close> at position \<open>k\<close>. The equations follow the cases of
  \<open>__rb_insert\<close>: root, black parent, red uncle (case 1, color flip and move up), then
  the rotations of cases 2 and 3 and their mirror images.
\<close>

fun ins_fix :: "'a rbt \<Rightarrow> 'a \<Rightarrow> 'a rbt \<Rightarrow> 'a ctx \<Rightarrow> 'a rbt" where
  "ins_fix l n r [] = Node RB_BLACK l n r"
| "ins_fix l n r (LeftOf RB_RED p s # LeftOf gc g u # k) =
     (if color_of u = RB_RED
      then ins_fix (Node RB_BLACK (Node RB_RED l n r) p s) g (paint RB_BLACK u) k
      else plug k (Node gc (Node RB_RED l n r) p (Node RB_RED (paint RB_BLACK s) g u)))"
| "ins_fix l n r (RightOf RB_RED s p # LeftOf gc g u # k) =
     (if color_of u = RB_RED
      then ins_fix (Node RB_BLACK s p (Node RB_RED l n r)) g (paint RB_BLACK u) k
      else plug k (Node gc (Node RB_RED s p (paint RB_BLACK l)) n
                           (Node RB_RED (paint RB_BLACK r) g u)))"
| "ins_fix l n r (RightOf RB_RED s p # RightOf gc u g # k) =
     (if color_of u = RB_RED
      then ins_fix (paint RB_BLACK u) g (Node RB_BLACK s p (Node RB_RED l n r)) k
      else plug k (Node gc (Node RB_RED u g (paint RB_BLACK s)) p (Node RB_RED l n r)))"
| "ins_fix l n r (LeftOf RB_RED p s # RightOf gc u g # k) =
     (if color_of u = RB_RED
      then ins_fix (paint RB_BLACK u) g (Node RB_BLACK (Node RB_RED l n r) p s) k
      else plug k (Node gc (Node RB_RED u g (paint RB_BLACK l)) n
                           (Node RB_RED (paint RB_BLACK r) p s)))"
| "ins_fix l n r k = plug k (Node RB_RED l n r)"

lemma inorder_ins_fix [rb_shape]:
  "inorder (ins_fix l n r k) = before k @ inorder l @ n # inorder r @ after k"
  by (induction l n r k rule: ins_fix.induct) auto

text \<open>
  The rebalancing repairs a tree that is valid but for the red node \<open>n\<close>, which may be the root
  or have a red parent (\<open>fits k RB_BLACK\<close> says nothing about the color of the parent).
\<close>

lemmas ins_fix_simps =
  bheight_paint_black inv_color_paint_black fits_black is_rbt_plug paint_id

lemma is_rbt_ins_fix:
  assumes "inv_color (Node RB_RED l n r)" and "inv_height (Node RB_RED l n r)"
    and "fits k RB_BLACK (bheight l)"
  shows "is_rbt (ins_fix l n r k)"
  using assms
proof (induction l n r k rule: ins_fix.induct)
  case (1 l n r)
  then show ?case by (auto simp: is_rbt_def)
next
  case (2 l n r p s gc g u k)
  then show ?case by (cases gc; cases "color_of u") (auto simp: ins_fix_simps)
next
  case (3 l n r s p gc g u k)
  then show ?case by (cases gc; cases "color_of u") (auto simp: ins_fix_simps)
next
  case (4 l n r s p gc u g k)
  then show ?case by (cases gc; cases "color_of u") (auto simp: ins_fix_simps)
next
  case (5 l n r p s gc u g k)
  then show ?case by (cases gc; cases "color_of u") (auto simp: ins_fix_simps)
qed (auto simp: is_rbt_plug is_rbt_Node fits_singleton)

section \<open>Rebalancing after an erasure\<close>

text \<open>
  \<open>del_left c t p s\<close>: the subtree after cases 2 to 4 of \<open>____rb_erase_color\<close> at the parent
  \<open>p\<close> of color \<open>c\<close>, when the left subtree \<open>t\<close> misses one black node and the sibling \<open>s\<close> is
  black. The flag says that the new subtree still misses one (case 2 at a black parent).
\<close>

fun del_left :: "rb_color \<Rightarrow> 'a rbt \<Rightarrow> 'a \<Rightarrow> 'a rbt \<Rightarrow> 'a rbt \<times> bool" where
  "del_left c t p Leaf = (Node c t p Leaf, False)"
| "del_left c t p (Node sc sl s sr) =
     (if color_of sr = RB_RED
      then (Node c (Node RB_BLACK t p sl) s (paint RB_BLACK sr), False)
      else case sl of
             Node RB_RED l2 s2 r2 \<Rightarrow>
               (Node c (Node RB_BLACK t p l2) s2 (Node RB_BLACK (paint RB_BLACK r2) s sr), False)
           | _ \<Rightarrow> (Node RB_BLACK t p (Node RB_RED sl s sr), c = RB_BLACK))"

fun del_right :: "rb_color \<Rightarrow> 'a rbt \<Rightarrow> 'a \<Rightarrow> 'a rbt \<Rightarrow> 'a rbt \<times> bool" where
  "del_right c Leaf p t = (Node c Leaf p t, False)"
| "del_right c (Node sc sl s sr) p t =
     (if color_of sl = RB_RED
      then (Node c (paint RB_BLACK sl) s (Node RB_BLACK sr p t), False)
      else case sr of
             Node RB_RED l2 s2 r2 \<Rightarrow>
               (Node c (Node RB_BLACK sl s (paint RB_BLACK l2)) s2 (Node RB_BLACK r2 p t), False)
           | _ \<Rightarrow> (Node RB_BLACK (Node RB_RED sl s sr) p t, c = RB_BLACK))"

text \<open>
  The loop of \<open>____rb_erase_color\<close>: a red sibling is first rotated above the parent (case 1),
  which makes the parent red, so the loop ends there.
\<close>

fun del_fix :: "'a rbt \<Rightarrow> 'a ctx \<Rightarrow> 'a rbt" where
  "del_fix t [] = t"
| "del_fix t (LeftOf c p s # k) =
     (case s of
        Node RB_RED sl sa sr \<Rightarrow>
          plug k (Node c (fst (del_left RB_RED t p (paint RB_BLACK sl))) sa sr)
      | _ \<Rightarrow> (case del_left c t p s of (t', again) \<Rightarrow> if again then del_fix t' k else plug k t'))"
| "del_fix t (RightOf c s p # k) =
     (case s of
        Node RB_RED sl sa sr \<Rightarrow>
          plug k (Node c sl sa (fst (del_right RB_RED (paint RB_BLACK sr) p t)))
      | _ \<Rightarrow> (case del_right c s p t of (t', again) \<Rightarrow> if again then del_fix t' k else plug k t'))"

text \<open>The leftmost node of a nonempty tree: its position, color, element and right subtree.\<close>

fun split_min :: "'a rbt \<Rightarrow> 'a ctx \<Rightarrow> 'a ctx \<times> rb_color \<times> 'a \<times> 'a rbt" where
  "split_min (Node c Leaf a r) k = (k, c, a, r)"
| "split_min (Node c l a r) k = split_min l (LeftOf c a r # k)"
| "split_min Leaf k = (k, RB_BLACK, undefined, Leaf)"

text \<open>
  \<open>erase_at c l a r k\<close>: the tree after \<open>rb_erase\<close> of the node \<open>a\<close> at position \<open>k\<close>, by the
  cases of \<open>__rb_erase_augmented\<close>: at most one child (the child takes the node's place and
  color), or two children (the successor takes the node's place and color).
\<close>

fun erase_at :: "rb_color \<Rightarrow> 'a rbt \<Rightarrow> 'a \<Rightarrow> 'a rbt \<Rightarrow> 'a ctx \<Rightarrow> 'a rbt" where
  "erase_at c Leaf a Leaf k = (if c = RB_BLACK then del_fix Leaf k else plug k Leaf)"
| "erase_at c Leaf a r k = plug k (paint c r)"
| "erase_at c l a Leaf k = plug k (paint c l)"
| "erase_at c l a r k =
     (case split_min r [] of (ks, cs, s, child2) \<Rightarrow>
        (let k' = ks @ RightOf c l s # k in
         case child2 of
           Leaf \<Rightarrow> if cs = RB_BLACK then del_fix Leaf k' else plug k' Leaf
         | Node _ _ _ _ \<Rightarrow> plug k' (paint RB_BLACK child2)))"

subsection \<open>Elements\<close>

lemma inorder_del_left: "inorder (fst (del_left c t p s)) = inorder t @ p # inorder s"
  by (cases s) (auto split: rbt.split rb_color.split)

lemma inorder_del_right: "inorder (fst (del_right c s p t)) = inorder s @ p # inorder t"
  by (cases s) (auto split: rbt.split rb_color.split)

lemma inorder_del_fix [rb_shape]: "inorder (del_fix t k) = before k @ inorder t @ after k"
proof (induction t k rule: del_fix.induct)
  case (2 t c p s k)
  then show ?case
    using inorder_del_left[of c t p s] inorder_del_left[of RB_RED t p]
    by (auto split: rbt.split rb_color.split prod.split)
next
  case (3 t c s p k)
  then show ?case
    using inorder_del_right[of c s p t] inorder_del_right[of RB_RED _ p t]
    by (auto split: rbt.split rb_color.split prod.split)
qed simp

lemma split_min_plug:
  "t \<noteq> Leaf \<Longrightarrow> split_min t k = (k', c, a, r) \<Longrightarrow> plug k' (Node c Leaf a r) = plug k t"
  by (induction t k rule: split_min.induct) auto

lemma split_min_before: "t \<noteq> Leaf \<Longrightarrow> split_min t k = (k', c, a, r) \<Longrightarrow> before k' = before k"
  by (induction t k rule: split_min.induct) auto

lemma inorder_erase_at [rb_shape]:
  "inorder (erase_at c l a r k) = before k @ inorder l @ inorder r @ after k"
proof (cases l)
  case Leaf
  then show ?thesis by (cases r) (auto simp: inorder_del_fix)
next
  case l: (Node lc ll la lr)
  show ?thesis
  proof (cases r)
    case Leaf
    with l show ?thesis by simp
  next
    case r: (Node rc rl ra rr)
    obtain ks cs s child2 where m: "split_min r [] = (ks, cs, s, child2)"
      by (cases "split_min r []") auto
    from split_min_before[OF _ m] r have b: "before ks = []" by simp
    from split_min_plug[OF _ m] r have "plug ks (Node cs Leaf s child2) = r" by simp
    with b have "s # inorder child2 @ after ks = inorder r"
      by (metis inorder_plug append_Nil append_Cons inorder.simps)
    with l r m b show ?thesis
      by (auto simp: inorder_del_fix before_append after_append Let_def split: rbt.split)
  qed
qed

subsection \<open>Balance\<close>

lemma del_left_inv:
  assumes "inv_color t" "inv_height t" "color_of t = RB_BLACK"
    and "inv_color s" "inv_height s" "color_of s = RB_BLACK" "bheight s = Suc (bheight t)"
    and "del_left c t p s = (t', again)"
  shows "inv_color t' \<and> inv_height t' \<and>
    (if again then c = RB_BLACK \<and> color_of t' = RB_BLACK \<and> bheight t' = bheight s
     else bheight t' = bheight s + (if c = RB_BLACK then 1 else 0) \<and>
          (color_of t' = RB_RED \<longrightarrow> c = RB_RED))"
  using assms
  by (cases s) (auto simp: bheight_paint_black inv_color_paint_black paint_id
      split: rbt.splits rb_color.splits if_splits)

lemma del_right_inv:
  assumes "inv_color t" "inv_height t" "color_of t = RB_BLACK"
    and "inv_color s" "inv_height s" "color_of s = RB_BLACK" "bheight s = Suc (bheight t)"
    and "del_right c s p t = (t', again)"
  shows "inv_color t' \<and> inv_height t' \<and>
    (if again then c = RB_BLACK \<and> color_of t' = RB_BLACK \<and> bheight t' = bheight s
     else bheight t' = bheight s + (if c = RB_BLACK then 1 else 0) \<and>
          (color_of t' = RB_RED \<longrightarrow> c = RB_RED))"
  using assms
  by (cases s) (auto simp: bheight_paint_black inv_color_paint_black paint_id
      split: rbt.splits rb_color.splits if_splits)

lemma fits_left_sibling:
  assumes "fits (LeftOf c p s # k) col (Suc h)"
  obtains sc sl sa sr where "s = Node sc sl sa sr"
  using assms by (cases s) auto

lemma fits_right_sibling:
  assumes "fits (RightOf c s p # k) col (Suc h)"
  obtains sc sl sa sr where "s = Node sc sl sa sr"
  using assms by (cases s) auto

text \<open>The position of a black subtree that misses one black node is repaired up to the root.\<close>

lemma is_rbt_del_fix:
  assumes "inv_color t" "inv_height t" "color_of t = RB_BLACK"
    and "k \<noteq> [] \<Longrightarrow> fits k RB_BLACK (Suc (bheight t))"
  shows "is_rbt (del_fix t k)"
  using assms
proof (induction t k rule: del_fix.induct)
  case (1 t)
  then show ?case by (simp add: is_rbt_def)
next
  case (2 t c p s k)
  note t = "2.prems"(1-3)
  from "2.prems"(4) have fit: "fits (LeftOf c p s # k) RB_BLACK (Suc (bheight t))" by simp
  then obtain sc sl sa sr where s: "s = Node sc sl sa sr" by (rule fits_left_sibling)
  show ?case
  proof (cases sc)
    case RB_RED
    obtain t' again where d: "del_left RB_RED t p (paint RB_BLACK sl) = (t', again)"
      by (cases "del_left RB_RED t p (paint RB_BLACK sl)") auto
    from fit s RB_RED have "inv_color t' \<and> inv_height t' \<and> bheight t' = Suc (bheight t)"
      using del_left_inv[OF t _ _ _ _ d] by (simp add: paint_id split: if_splits)
    with fit s RB_RED d show ?thesis by (auto simp: is_rbt_plug)
  next
    case RB_BLACK
    obtain t' again where d: "del_left c t p s = (t', again)"
      by (cases "del_left c t p s") auto
    have inv: "inv_color t' \<and> inv_height t' \<and>
      (if again then c = RB_BLACK \<and> color_of t' = RB_BLACK \<and> bheight t' = bheight s
       else bheight t' = bheight s + (if c = RB_BLACK then 1 else 0) \<and>
            (color_of t' = RB_RED \<longrightarrow> c = RB_RED))"
      by (rule del_left_inv[OF t _ _ _ _ d]) (use fit s RB_BLACK in auto)
    show ?thesis
    proof (cases again)
      case True
      have "is_rbt (del_fix t' k)"
        by (rule "2.IH"(2)[OF s RB_BLACK d[symmetric] True]) (use True inv fit in auto)
      with s RB_BLACK d True show ?thesis by simp
    next
      case False
      with fit inv have "fits k (color_of t') (bheight t')"
        by (cases "color_of t'"; cases c) (auto intro: fits_black)
      with s RB_BLACK d False inv show ?thesis by (simp add: is_rbt_plug)
    qed
  qed
next
  case (3 t c s p k)
  note t = "3.prems"(1-3)
  from "3.prems"(4) have fit: "fits (RightOf c s p # k) RB_BLACK (Suc (bheight t))" by simp
  then obtain sc sl sa sr where s: "s = Node sc sl sa sr" by (rule fits_right_sibling)
  show ?case
  proof (cases sc)
    case RB_RED
    obtain t' again where d: "del_right RB_RED (paint RB_BLACK sr) p t = (t', again)"
      by (cases "del_right RB_RED (paint RB_BLACK sr) p t") auto
    from fit s RB_RED have "inv_color t' \<and> inv_height t' \<and> bheight t' = Suc (bheight t)"
      using del_right_inv[OF t _ _ _ _ d] by (simp add: paint_id split: if_splits)
    with fit s RB_RED d show ?thesis by (auto simp: is_rbt_plug)
  next
    case RB_BLACK
    obtain t' again where d: "del_right c s p t = (t', again)"
      by (cases "del_right c s p t") auto
    have inv: "inv_color t' \<and> inv_height t' \<and>
      (if again then c = RB_BLACK \<and> color_of t' = RB_BLACK \<and> bheight t' = bheight s
       else bheight t' = bheight s + (if c = RB_BLACK then 1 else 0) \<and>
            (color_of t' = RB_RED \<longrightarrow> c = RB_RED))"
      by (rule del_right_inv[OF t _ _ _ _ d]) (use fit s RB_BLACK in auto)
    show ?thesis
    proof (cases again)
      case True
      have "is_rbt (del_fix t' k)"
        by (rule "3.IH"(2)[OF s RB_BLACK d[symmetric] True]) (use True inv fit in auto)
      with s RB_BLACK d True show ?thesis by simp
    next
      case False
      with fit inv have "fits k (color_of t') (bheight t')"
        by (cases "color_of t'"; cases c) (auto intro: fits_black)
      with s RB_BLACK d False inv show ?thesis by (simp add: is_rbt_plug)
    qed
  qed
qed

lemma fits_payload: "fits (ks @ RightOf c l a # k) col h = fits (ks @ RightOf c l b # k) col h"
proof (induction ks arbitrary: col h)
  case (Cons f ks)
  then show ?case by (cases f) auto
qed simp

theorem is_rbt_erase_at:
  assumes "is_rbt (plug k (Node c l a r))"
  shows "is_rbt (erase_at c l a r k)"
proof (cases "l = Leaf \<or> r = Leaf")
  case True
  with assms show ?thesis
    by (cases l; cases r; cases c)
       (auto simp: is_rbt_plug fits_black intro!: is_rbt_del_fix)
next
  case False
  then obtain ks cs s child2 where m: "split_min r [] = (ks, cs, s, child2)"
    by (cases "split_min r []") auto
  with False have "plug ks (Node cs Leaf s child2) = r"
    using split_min_plug[of r "[]"] by auto
  then have "plug (ks @ RightOf c l a # k) (Node cs Leaf s child2) = plug k (Node c l a r)"
    by (simp add: plug_append)
  with assms have "is_rbt (plug (ks @ RightOf c l a # k) (Node cs Leaf s child2))" by simp
  then have inv: "inv_color (Node cs Leaf s child2)" "inv_height (Node cs Leaf s child2)"
      "fits (ks @ RightOf c l s # k) cs (if cs = RB_BLACK then 1 else 0)"
    unfolding is_rbt_plug fits_payload[of ks c l a k _ _ s] by auto
  from False m have "erase_at c l a r k =
      (case child2 of
         Leaf \<Rightarrow> if cs = RB_BLACK then del_fix Leaf (ks @ RightOf c l s # k)
                else plug (ks @ RightOf c l s # k) Leaf
       | Node _ _ _ _ \<Rightarrow> plug (ks @ RightOf c l s # k) (paint RB_BLACK child2))"
    by (cases l; cases r) (auto simp: Let_def)
  with inv show ?thesis
    by (cases cs; cases child2)
       (auto simp: is_rbt_plug fits_black intro!: is_rbt_del_fix)
qed

end
