(* ===== verification/Rbtree.thy ===== *)
theory Rbtree
  imports Rbtree_Model
begin

text \<open>
  The pointer code of src/utils/rbtree.c and include/rbtree.h: nodes live in a store indexed by
  addresses, the parent pointer and the color share the word \<open>__rb_parent_color\<close>, and every
  operation reads and writes the store exactly as the C statements do. Dereferencing NULL or an
  address that holds no node is the value \<open>None\<close>. The callbacks of the augmented variants are
  the no-op \<open>dummy_*\<close> functions the library passes. The theorems say that on a store that
  represents a tree the code never faults, terminates, and leaves a store that represents the
  tree computed by the functions of \<open>Rbtree_Model\<close>.
\<close>

section \<open>The store\<close>

record rb_node =
  rb_parent_color :: u64
  rb_right :: addr
  rb_left :: addr

text \<open>The nodes and the field \<open>rb_node\<close> of the \<open>struct rb_root\<close> the operation is given.\<close>

record rb_store =
  mem :: "addr \<Rightarrow> rb_node option"
  root_node :: addr

definition deref :: "rb_store \<Rightarrow> addr \<Rightarrow> rb_node option" where
  "deref s p = (if p = NULL then None else mem s p)"

definition modify :: "rb_store \<Rightarrow> addr \<Rightarrow> (rb_node \<Rightarrow> rb_node) \<Rightarrow> rb_store option" where
  "modify s p f = do { n \<leftarrow> deref s p; Some (s\<lparr>mem := (mem s)(p \<mapsto> f n)\<rparr>) }"

definition set_left :: "rb_store \<Rightarrow> addr \<Rightarrow> addr \<Rightarrow> rb_store option" where
  "set_left s p v = modify s p (\<lambda>n. n\<lparr>rb_left := v\<rparr>)"

definition set_right :: "rb_store \<Rightarrow> addr \<Rightarrow> addr \<Rightarrow> rb_store option" where
  "set_right s p v = modify s p (\<lambda>n. n\<lparr>rb_right := v\<rparr>)"

definition set_pc :: "rb_store \<Rightarrow> addr \<Rightarrow> u64 \<Rightarrow> rb_store option" where
  "set_pc s p v = modify s p (\<lambda>n. n\<lparr>rb_parent_color := v\<rparr>)"

section \<open>Parent and color in one word\<close>

fun col :: "rb_color \<Rightarrow> u64" where
  "col RB_RED = 0"
| "col RB_BLACK = 1"

definition pc_parent :: "u64 \<Rightarrow> addr" where
  "pc_parent pc = pc AND NOT 3"

definition pc_is_black :: "u64 \<Rightarrow> bool" where
  "pc_is_black pc \<longleftrightarrow> pc AND 1 \<noteq> 0"

definition rb_parent :: "rb_node \<Rightarrow> addr" where
  "rb_parent n = pc_parent (rb_parent_color n)"

definition rb_is_black :: "rb_node \<Rightarrow> bool" where
  "rb_is_black n = pc_is_black (rb_parent_color n)"

definition rb_is_red :: "rb_node \<Rightarrow> bool" where
  "rb_is_red n \<longleftrightarrow> \<not> pc_is_black (rb_parent_color n)"

definition rb_red_parent :: "rb_node \<Rightarrow> addr" where
  "rb_red_parent n = rb_parent_color n"

text \<open>The short-circuit conditions \<open>tmp && rb_is_red(tmp)\<close> and \<open>!tmp || rb_is_black(tmp)\<close>.\<close>

definition red_ptr :: "rb_store \<Rightarrow> addr \<Rightarrow> bool option" where
  "red_ptr s p = (if p = NULL then Some False else do { n \<leftarrow> deref s p; Some (rb_is_red n) })"

definition black_ptr :: "rb_store \<Rightarrow> addr \<Rightarrow> bool option" where
  "black_ptr s p = (if p = NULL then Some True else do { n \<leftarrow> deref s p; Some (rb_is_black n) })"

definition rb_set_parent_color :: "rb_store \<Rightarrow> addr \<Rightarrow> addr \<Rightarrow> rb_color \<Rightarrow> rb_store option" where
  "rb_set_parent_color s rb p c = set_pc s rb (p OR col c)"

definition rb_set_parent :: "rb_store \<Rightarrow> addr \<Rightarrow> addr \<Rightarrow> rb_store option" where
  "rb_set_parent s rb p =
     do { n \<leftarrow> deref s rb; set_pc s rb ((rb_parent_color n AND 1) OR p) }"

definition rb_set_black :: "rb_store \<Rightarrow> addr \<Rightarrow> rb_store option" where
  "rb_set_black s rb = do { n \<leftarrow> deref s rb; set_pc s rb (rb_parent_color n OR 1) }"

text \<open>The guarded statement \<open>if (tmp) rb_set_parent_color(tmp, p, RB_BLACK)\<close>.\<close>

definition blacken_child :: "rb_store \<Rightarrow> addr \<Rightarrow> addr \<Rightarrow> rb_store option" where
  "blacken_child s tmp p =
     (if tmp = NULL then Some s else rb_set_parent_color s tmp p RB_BLACK)"

definition rb_change_child :: "rb_store \<Rightarrow> addr \<Rightarrow> addr \<Rightarrow> addr \<Rightarrow> rb_store option" where
  "rb_change_child s old new_node parent =
     (if parent \<noteq> NULL then do {
        p \<leftarrow> deref s parent;
        if rb_left p = old then set_left s parent new_node else set_right s parent new_node }
      else Some (s\<lparr>root_node := new_node\<rparr>))"

definition rb_rotate_set_parents ::
  "rb_store \<Rightarrow> addr \<Rightarrow> addr \<Rightarrow> rb_color \<Rightarrow> rb_store option" where
  "rb_rotate_set_parents s old new_node color = do {
     n \<leftarrow> deref s old;
     let parent = rb_parent n;
     s \<leftarrow> set_pc s new_node (rb_parent_color n);
     s \<leftarrow> rb_set_parent_color s old new_node color;
     rb_change_child s old new_node parent }"

section \<open>Insertion\<close>

text \<open>A place that holds a node pointer, the C type \<open>struct rb_node **\<close>.\<close>

datatype rb_link = RootLink | LeftLink addr | RightLink addr

fun store_link :: "rb_store \<Rightarrow> rb_link \<Rightarrow> addr \<Rightarrow> rb_store option" where
  "store_link s RootLink p = Some (s\<lparr>root_node := p\<rparr>)"
| "store_link s (LeftLink a) p = set_left s a p"
| "store_link s (RightLink a) p = set_right s a p"

definition rb_link_node :: "rb_store \<Rightarrow> addr \<Rightarrow> addr \<Rightarrow> rb_link \<Rightarrow> rb_store option" where
  "rb_link_node s node parent link = do {
     s \<leftarrow> set_pc s node parent;
     s \<leftarrow> set_right s node NULL;
     s \<leftarrow> set_left s node NULL;
     store_link s link node }"

text \<open>Cases 2 and 3 of \<open>__rb_insert\<close> when the parent is the left child of the grandparent.\<close>

definition insert_rotate_left :: "rb_store \<Rightarrow> addr \<Rightarrow> addr \<Rightarrow> addr \<Rightarrow> rb_store option" where
  "insert_rotate_left s node parent gparent = do {
     p \<leftarrow> deref s parent;
     (s, parent, tmp) \<leftarrow>
       (if node = rb_right p then do {
          n \<leftarrow> deref s node;
          let tmp = rb_left n;
          s \<leftarrow> set_right s parent tmp;
          s \<leftarrow> set_left s node parent;
          s \<leftarrow> blacken_child s tmp parent;
          s \<leftarrow> rb_set_parent_color s parent node RB_RED;
          n \<leftarrow> deref s node;
          Some (s, node, rb_right n) }
        else Some (s, parent, rb_right p));
     s \<leftarrow> set_left s gparent tmp;
     s \<leftarrow> set_right s parent gparent;
     s \<leftarrow> blacken_child s tmp gparent;
     rb_rotate_set_parents s gparent parent RB_RED }"

definition insert_rotate_right :: "rb_store \<Rightarrow> addr \<Rightarrow> addr \<Rightarrow> addr \<Rightarrow> rb_store option" where
  "insert_rotate_right s node parent gparent = do {
     p \<leftarrow> deref s parent;
     (s, parent, tmp) \<leftarrow>
       (if node = rb_left p then do {
          n \<leftarrow> deref s node;
          let tmp = rb_right n;
          s \<leftarrow> set_left s parent tmp;
          s \<leftarrow> set_right s node parent;
          s \<leftarrow> blacken_child s tmp parent;
          s \<leftarrow> rb_set_parent_color s parent node RB_RED;
          n \<leftarrow> deref s node;
          Some (s, node, rb_left n) }
        else Some (s, parent, rb_left p));
     s \<leftarrow> set_right s gparent tmp;
     s \<leftarrow> set_left s parent gparent;
     s \<leftarrow> blacken_child s tmp gparent;
     rb_rotate_set_parents s gparent parent RB_RED }"

text \<open>Case 1, the color flip; it returns the store and the new \<open>node\<close> and \<open>parent\<close>.\<close>

definition insert_flip :: "rb_store \<Rightarrow> addr \<Rightarrow> addr \<Rightarrow> addr \<Rightarrow> (rb_store \<times> addr \<times> addr) option" where
  "insert_flip s tmp parent gparent = do {
     s \<leftarrow> rb_set_parent_color s tmp gparent RB_BLACK;
     s \<leftarrow> rb_set_parent_color s parent gparent RB_BLACK;
     g \<leftarrow> deref s gparent;
     let up = rb_parent g;
     s \<leftarrow> rb_set_parent_color s gparent up RB_RED;
     Some (s, gparent, up) }"

text \<open>The loop \<open>while (true)\<close> of \<open>__rb_insert\<close>; \<open>None\<close> also stands for not returning.\<close>

partial_function (option) rb_insert :: "rb_store \<Rightarrow> addr \<Rightarrow> addr \<Rightarrow> rb_store option" where
  "rb_insert s node parent =
     (if parent = NULL then rb_set_parent_color s node NULL RB_BLACK
      else do {
        p \<leftarrow> deref s parent;
        if rb_is_black p then Some s
        else do {
          let gparent = rb_red_parent p;
          g \<leftarrow> deref s gparent;
          if parent \<noteq> rb_right g then do {
            red \<leftarrow> red_ptr s (rb_right g);
            if red then do {
              (s, node, parent) \<leftarrow> insert_flip s (rb_right g) parent gparent;
              rb_insert s node parent }
            else insert_rotate_left s node parent gparent }
          else do {
            red \<leftarrow> red_ptr s (rb_left g);
            if red then do {
              (s, node, parent) \<leftarrow> insert_flip s (rb_left g) parent gparent;
              rb_insert s node parent }
            else insert_rotate_right s node parent gparent } } })"

definition rb_insert_color :: "rb_store \<Rightarrow> addr \<Rightarrow> rb_store option" where
  "rb_insert_color s node = do { n \<leftarrow> deref s node; rb_insert s node (rb_red_parent n) }"

end
