(* ===== verification/Rbtree_Insert.thy ===== *)
theory Rbtree_Insert
  imports Rbtree
begin

text \<open>
  What it means for a store to represent a tree, the frame lemmas of that relation, and the
  refinement proof of the insertion code: \<open>rb_link_node\<close> followed by \<open>rb_insert_color\<close>.
\<close>

section \<open>Stores that represent trees\<close>

fun ptr :: "addr rbt \<Rightarrow> addr" where
  "ptr Leaf = NULL"
| "ptr (Node c l a r) = a"

fun frame_addr :: "addr frame \<Rightarrow> addr" where
  "frame_addr (LeftOf c a r) = a"
| "frame_addr (RightOf c l a) = a"

fun frame_color :: "'a frame \<Rightarrow> rb_color" where
  "frame_color (LeftOf c a r) = c"
| "frame_color (RightOf c l a) = c"

fun cptr :: "addr ctx \<Rightarrow> addr" where
  "cptr [] = NULL"
| "cptr (f # k) = frame_addr f"

text \<open>
  The node at \<open>a\<close> has the given parent, color and children. Addresses of nodes are aligned, as
  the attribute of \<open>struct rb_node\<close> asks, so the color bit does not touch the pointer.
\<close>

definition node_at :: "(addr \<Rightarrow> rb_node option) \<Rightarrow> addr \<Rightarrow> addr \<Rightarrow> rb_color \<Rightarrow> addr \<Rightarrow> addr \<Rightarrow> bool" where
  "node_at m a par c l r \<longleftrightarrow> a \<noteq> NULL \<and> aligned a \<and>
     m a = Some \<lparr>rb_parent_color = par OR col c, rb_right = r, rb_left = l\<rparr>"

fun tree_in :: "(addr \<Rightarrow> rb_node option) \<Rightarrow> addr \<Rightarrow> addr rbt \<Rightarrow> bool" where
  "tree_in m par Leaf = True"
| "tree_in m par (Node c l a r) \<longleftrightarrow>
     node_at m a par c (ptr l) (ptr r) \<and> tree_in m a l \<and> tree_in m a r"

fun ctx_in :: "(addr \<Rightarrow> rb_node option) \<Rightarrow> addr \<Rightarrow> addr ctx \<Rightarrow> addr \<Rightarrow> bool" where
  "ctx_in m rt [] p \<longleftrightarrow> rt = p"
| "ctx_in m rt (LeftOf c a r # k) p \<longleftrightarrow>
     node_at m a (cptr k) c p (ptr r) \<and> tree_in m a r \<and> ctx_in m rt k a"
| "ctx_in m rt (RightOf c l a # k) p \<longleftrightarrow>
     node_at m a (cptr k) c (ptr l) p \<and> tree_in m a l \<and> ctx_in m rt k a"

definition zip_in :: "rb_store \<Rightarrow> addr ctx \<Rightarrow> addr rbt \<Rightarrow> bool" where
  "zip_in s k t \<longleftrightarrow> tree_in (mem s) (cptr k) t \<and> ctx_in (mem s) (root_node s) k (ptr t) \<and>
     distinct (before k @ inorder t @ after k)"

definition represents :: "rb_store \<Rightarrow> addr rbt \<Rightarrow> bool" where
  "represents s t \<longleftrightarrow> tree_in (mem s) NULL t \<and> root_node s = ptr t \<and> distinct (inorder t)"

lemma tree_ctx_plug:
  "tree_in m NULL (plug k t) \<and> rt = ptr (plug k t) \<longleftrightarrow>
   tree_in m (cptr k) t \<and> ctx_in m rt k (ptr t)"
  by (induction k t rule: plug.induct) auto

lemma represents_plug: "represents s (plug k t) \<longleftrightarrow> zip_in s k t"
  unfolding represents_def zip_in_def using tree_ctx_plug[of "mem s" k t "root_node s"] by auto

section \<open>Frames\<close>

lemma node_at_upd [simp]: "b \<noteq> a \<Longrightarrow> node_at (m(b := x)) a par c l r = node_at m a par c l r"
  by (simp add: node_at_def)

lemma tree_in_cong:
  "(\<And>x. x \<in> set (inorder t) \<Longrightarrow> m' x = m x) \<Longrightarrow> tree_in m' par t = tree_in m par t"
  by (induction t arbitrary: par) (auto simp: node_at_def)

lemma tree_in_upd [simp]: "a \<notin> set (inorder t) \<Longrightarrow> tree_in (m(a := x)) par t = tree_in m par t"
  by (rule tree_in_cong) auto

lemma ctx_in_cong:
  "(\<And>x. x \<in> set (before k) \<or> x \<in> set (after k) \<Longrightarrow> m' x = m x) \<Longrightarrow>
   ctx_in m' rt k p = ctx_in m rt k p"
proof (induction m' rt k p rule: ctx_in.induct)
  case (2 m' rt c a r k p)
  then show ?case using tree_in_cong[of r m' m] by (auto simp: node_at_def)
next
  case (3 m' rt c l a k p)
  then show ?case using tree_in_cong[of l m' m] by (auto simp: node_at_def)
qed simp

lemma ctx_in_upd [simp]:
  "a \<notin> set (before k) \<Longrightarrow> a \<notin> set (after k) \<Longrightarrow> ctx_in (m(a := x)) rt k p = ctx_in m rt k p"
  by (rule ctx_in_cong) auto

lemma ptr_in_inorder: "t \<noteq> Leaf \<Longrightarrow> ptr t \<in> set (inorder t)"
  by (cases t) auto

lemma ptr_eq_NULL: "tree_in m par t \<Longrightarrow> ptr t = NULL \<longleftrightarrow> t = Leaf"
  by (cases t) (auto simp: node_at_def)

lemma cptr_in_ctx: "k \<noteq> [] \<Longrightarrow> cptr k \<in> set (before k) \<union> set (after k)"
  by (cases k rule: before.cases) auto

lemma aligned_cptr: "ctx_in m rt k p \<Longrightarrow> aligned (cptr k)"
  by (cases k rule: before.cases) (auto simp: node_at_def)

lemma cptr_NULL: "ctx_in m rt k p \<Longrightarrow> cptr k = NULL \<longleftrightarrow> k = []"
  by (cases k rule: before.cases) (auto simp: node_at_def)

section \<open>Evaluation of the primitives\<close>

lemma pc_parent_col [simp]: "aligned p \<Longrightarrow> pc_parent (p OR col c) = p"
  by (cases c) (simp_all add: pc_parent_def bit.conj_disj_distrib2 aligned_and_minus4)

lemma pc_black_col [simp]: "aligned p \<Longrightarrow> pc_is_black (p OR col c) \<longleftrightarrow> c = RB_BLACK"
  by (cases c) (simp_all add: pc_is_black_def bit.conj_disj_distrib2 aligned_and_1)

lemmas pc_simps [simp] =
  pc_parent_col[where c = RB_RED, simplified] pc_parent_col[where c = RB_BLACK, simplified]
  pc_black_col[where c = RB_RED, simplified] pc_black_col[where c = RB_BLACK, simplified]

lemma pc_color_bit: "aligned p \<Longrightarrow> (p OR col c) AND 1 = col c"
  by (cases c) (simp_all add: bit.conj_disj_distrib2 aligned_and_1)

lemmas exec_defs =
  deref_def modify_def set_left_def set_right_def set_pc_def rb_set_parent_color_def
  rb_is_black_def rb_is_red_def rb_parent_def rb_red_parent_def red_ptr_def black_ptr_def
  blacken_child_def Let_def

text \<open>Redirecting the link to a subtree, wherever it is kept: in a parent or in the root.\<close>

lemma rb_change_child_ctx:
  assumes "ctx_in (mem s) (root_node s) k old" and "old \<noteq> NULL"
    and "old \<notin> set (before k)" "old \<notin> set (after k)" "distinct (before k @ after k)"
  shows "\<exists>s'. rb_change_child s old new (cptr k) = Some s' \<and> ctx_in (mem s') (root_node s') k new \<and>
    (\<forall>x. x \<notin> set (before k) \<longrightarrow> x \<notin> set (after k) \<longrightarrow> mem s' x = mem s x)"
proof (cases k rule: before.cases)
  case 1
  with assms show ?thesis by (auto simp: rb_change_child_def)
next
  case (2 c a r k')
  with assms show ?thesis by (auto simp: rb_change_child_def exec_defs node_at_def)
next
  case (3 c l a k')
  with assms(1-3) have "ptr l \<noteq> old" by (cases l) auto
  with 3 assms show ?thesis by (auto simp: rb_change_child_def exec_defs node_at_def)
qed

text \<open>
  \<open>yields s res k t\<close>: the computation ends in a store that represents \<open>t\<close> at the position
  \<open>k\<close>, and it wrote to no node outside that tree.
\<close>

definition yields :: "rb_store \<Rightarrow> rb_store option \<Rightarrow> addr ctx \<Rightarrow> addr rbt \<Rightarrow> bool" where
  "yields s res k t \<longleftrightarrow> (\<exists>s'. res = Some s' \<and> zip_in s' k t \<and>
     (\<forall>x. x \<notin> set (before k @ inorder t @ after k) \<longrightarrow> mem s' x = mem s x))"

text \<open>
  A rotation ends by redirecting the link above it to the new subtree \<open>t\<close>, which then already
  stands in the store.
\<close>

definition relinks :: "rb_store \<Rightarrow> rb_store option \<Rightarrow> addr \<Rightarrow> addr ctx \<Rightarrow> addr rbt \<Rightarrow> bool" where
  "relinks s res old k t \<longleftrightarrow> (\<exists>s1. res = rb_change_child s1 old (ptr t) (cptr k) \<and>
     tree_in (mem s1) (cptr k) t \<and> ctx_in (mem s1) (root_node s1) k old \<and>
     (\<forall>x. x \<notin> set (before k @ inorder t @ after k) \<longrightarrow> mem s1 x = mem s x))"

lemma relinks_yields:
  assumes "relinks s res old k t" and "old \<in> set (inorder t)" and "old \<noteq> NULL"
    and "distinct (before k @ inorder t @ after k)"
  shows "yields s res k t"
proof -
  from assms(1) obtain s1 where s1: "res = rb_change_child s1 old (ptr t) (cptr k)"
      "tree_in (mem s1) (cptr k) t" "ctx_in (mem s1) (root_node s1) k old"
      "\<And>x. x \<notin> set (before k @ inorder t @ after k) \<Longrightarrow> mem s1 x = mem s x"
    unfolding relinks_def by blast
  from assms(2,4) have out: "old \<notin> set (before k)" "old \<notin> set (after k)"
      and dist: "distinct (before k @ after k)" by auto
  obtain s' where s': "res = Some s'" "ctx_in (mem s') (root_node s') k (ptr t)"
      "\<And>x. x \<notin> set (before k) \<Longrightarrow> x \<notin> set (after k) \<Longrightarrow> mem s' x = mem s1 x"
    using rb_change_child_ctx[OF s1(3) assms(3) out dist, of "ptr t"] s1(1) by auto
  have "tree_in (mem s') (cptr k) t = tree_in (mem s1) (cptr k) t"
    by (rule tree_in_cong, rule s'(3)) (use assms(4) in auto)
  with s' s1 assms(4) show ?thesis by (auto simp: zip_in_def yields_def)
qed

lemma zip_in_node:
  "zip_in s k (Node c l a r) \<longleftrightarrow> node_at (mem s) a (cptr k) c (ptr l) (ptr r) \<and>
     tree_in (mem s) a l \<and> tree_in (mem s) a r \<and> ctx_in (mem s) (root_node s) k a \<and>
     distinct (before k @ inorder l @ a # inorder r @ after k)"
  by (auto simp: zip_in_def)

section \<open>The rotations of an insertion\<close>

lemma insert_rotate_left_outer:
  assumes "zip_in s (LeftOf RB_RED p sib # LeftOf gc g u # k) (Node RB_RED l n r)"
  shows "yields s (insert_rotate_left s n p g) k
    (Node gc (Node RB_RED l n r) p (Node RB_RED (paint RB_BLACK sib) g u))" (is "yields _ _ _ ?t")
proof (rule relinks_yields)
  have al: "aligned (cptr k)" using assms by (auto simp: zip_in_node dest: aligned_cptr)
  have np: "n \<noteq> ptr sib" using assms by (cases sib) (auto simp: zip_in_node node_at_def)
  show "relinks s (insert_rotate_left s n p g) g k ?t"
    unfolding relinks_def using assms al np
    by (cases sib)
       (simp add: zip_in_node node_at_def, elim conjE,
        simp add: insert_rotate_left_def exec_defs cong: if_cong,
        simp add: rb_rotate_set_parents_def exec_defs cong: if_cong,
        rule exI, rule conjI, rule refl, simp add: node_at_def)+
qed (use assms in \<open>auto simp: zip_in_node node_at_def\<close>)

lemma insert_rotate_left_inner:
  assumes "zip_in s (RightOf RB_RED sib p # LeftOf gc g u # k) (Node RB_RED l n r)"
  shows "yields s (insert_rotate_left s n p g) k
    (Node gc (Node RB_RED sib p (paint RB_BLACK l)) n (Node RB_RED (paint RB_BLACK r) g u))"
    (is "yields _ _ _ ?t")
proof (rule relinks_yields)
  have al: "aligned (cptr k)" using assms by (auto simp: zip_in_node dest: aligned_cptr)
  show "relinks s (insert_rotate_left s n p g) g k ?t"
    unfolding relinks_def using assms al
    by (cases l; cases r)
       (simp add: zip_in_node node_at_def, elim conjE,
        simp add: insert_rotate_left_def exec_defs cong: if_cong,
        simp add: rb_rotate_set_parents_def exec_defs cong: if_cong,
        rule exI, rule conjI, rule refl, simp add: node_at_def)+
qed (use assms in \<open>auto simp: zip_in_node node_at_def\<close>)

lemma insert_rotate_right_outer:
  assumes "zip_in s (RightOf RB_RED sib p # RightOf gc u g # k) (Node RB_RED l n r)"
  shows "yields s (insert_rotate_right s n p g) k
    (Node gc (Node RB_RED u g (paint RB_BLACK sib)) p (Node RB_RED l n r))" (is "yields _ _ _ ?t")
proof (rule relinks_yields)
  have al: "aligned (cptr k)" using assms by (auto simp: zip_in_node dest: aligned_cptr)
  have np: "n \<noteq> ptr sib" using assms by (cases sib) (auto simp: zip_in_node node_at_def)
  show "relinks s (insert_rotate_right s n p g) g k ?t"
    unfolding relinks_def using assms al np
    by (cases sib)
       (simp add: zip_in_node node_at_def, elim conjE,
        simp add: insert_rotate_right_def exec_defs cong: if_cong,
        simp add: rb_rotate_set_parents_def exec_defs cong: if_cong,
        rule exI, rule conjI, rule refl, simp add: node_at_def)+
qed (use assms in \<open>auto simp: zip_in_node node_at_def\<close>)

lemma insert_rotate_right_inner:
  assumes "zip_in s (LeftOf RB_RED p sib # RightOf gc u g # k) (Node RB_RED l n r)"
  shows "yields s (insert_rotate_right s n p g) k
    (Node gc (Node RB_RED u g (paint RB_BLACK l)) n (Node RB_RED (paint RB_BLACK r) p sib))"
    (is "yields _ _ _ ?t")
proof (rule relinks_yields)
  have al: "aligned (cptr k)" using assms by (auto simp: zip_in_node dest: aligned_cptr)
  show "relinks s (insert_rotate_right s n p g) g k ?t"
    unfolding relinks_def using assms al
    by (cases l; cases r)
       (simp add: zip_in_node node_at_def, elim conjE,
        simp add: insert_rotate_right_def exec_defs cong: if_cong,
        simp add: rb_rotate_set_parents_def exec_defs cong: if_cong,
        rule exI, rule conjI, rule refl, simp add: node_at_def)+
qed (use assms in \<open>auto simp: zip_in_node node_at_def\<close>)

section \<open>The color flip\<close>

text \<open>
  The flip recolors the uncle, the parent and the grandparent in place. Both children of the
  grandparent \<open>g\<close> are red before and black after it.
\<close>

lemma insert_flip_exec:
  assumes "zip_in s k (Node gc (Node RB_RED ll la lr) g (Node RB_RED rl ra rr))"
    and "tmp = la \<and> parent = ra \<or> tmp = ra \<and> parent = la"
  shows "\<exists>s'. insert_flip s tmp parent g = Some (s', g, cptr k) \<and>
    yields s (Some s') k (Node RB_RED (Node RB_BLACK ll la lr) g (Node RB_BLACK rl ra rr))"
proof -
  have "aligned (cptr k)" using assms(1) by (auto simp: zip_in_def dest: aligned_cptr)
  with assms show ?thesis
    by (auto simp: yields_def zip_in_node insert_flip_def exec_defs node_at_def)
qed

section \<open>The loop\<close>

lemma red_ptr_tree:
  "tree_in (mem s) par t \<Longrightarrow> aligned par \<Longrightarrow> red_ptr s (ptr t) = Some (color_of t = RB_RED)"
  by (cases t) (auto simp: exec_defs node_at_def)

lemma black_ptr_tree:
  "tree_in (mem s) par t \<Longrightarrow> aligned par \<Longrightarrow> black_ptr s (ptr t) = Some (color_of t = RB_BLACK)"
  by (cases t) (auto simp: exec_defs node_at_def)

lemma zip_in_plug: "zip_in s (f # k) t \<longleftrightarrow> zip_in s k (plug [f] t)"
  using represents_plug[of s "f # k" t] represents_plug[of s k "plug [f] t"]
  by (cases f) auto

lemma yields_trans:
  assumes "yields s (Some s1) k t" and "yields s1 res k' t'"
    and "set (before k @ inorder t @ after k) = set (before k' @ inorder t' @ after k')"
  shows "yields s res k' t'"
  using assms unfolding yields_def by fastforce

lemma yields_plug: "yields s res k t \<longleftrightarrow> yields s res [] (plug k t)"
  unfolding yields_def using represents_plug[of _ k t] represents_plug[of _ "[]" "plug k t"]
  by auto

lemma yields_done: "zip_in s k t \<Longrightarrow> yields s (Some s) [] (plug k t)"
  by (subst yields_plug[symmetric]) (simp add: yields_def)

lemma rb_insert_root:
  assumes "zip_in s [] (Node c l n r)"
  shows "yields s (rb_insert s n NULL) [] (Node RB_BLACK l n r)"
  using assms by (auto simp: rb_insert.simps yields_def zip_in_node exec_defs node_at_def)

lemma rb_insert_black_parent:
  assumes "zip_in s (f # k) t" and "frame_color f = RB_BLACK"
  shows "rb_insert s n (frame_addr f) = Some s"
proof -
  have "aligned (cptr k)" using assms by (cases f) (auto simp: zip_in_def dest: aligned_cptr)
  with assms show ?thesis
    by (cases f) (auto simp: rb_insert.simps zip_in_def exec_defs node_at_def)
qed

lemma rb_insert_black_left:
  "zip_in s (LeftOf RB_BLACK a r # k) t \<Longrightarrow> t' = plug k (Node RB_BLACK t a r) \<Longrightarrow>
   yields s (rb_insert s n a) [] t'"
  using rb_insert_black_parent[of s "LeftOf RB_BLACK a r" k t n]
  by (simp add: yields_done[of s "LeftOf RB_BLACK a r # k" t, simplified])

lemma rb_insert_black_right:
  "zip_in s (RightOf RB_BLACK l a # k) t \<Longrightarrow> t' = plug k (Node RB_BLACK l a t) \<Longrightarrow>
   yields s (rb_insert s n a) [] t'"
  using rb_insert_black_parent[of s "RightOf RB_BLACK l a" k t n]
  by (simp add: yields_done[of s "RightOf RB_BLACK l a # k" t, simplified])

text \<open>One round of the loop at a red parent, by the side of the grandparent it is on.\<close>

lemma rb_insert_left_step:
  assumes "zip_in s (f # LeftOf gc g u # k) t" and "frame_color f = RB_RED"
  shows "rb_insert s n (frame_addr f) =
    (if color_of u = RB_RED
     then do { (s, node, parent) \<leftarrow> insert_flip s (ptr u) (frame_addr f) g; rb_insert s node parent }
     else insert_rotate_left s n (frame_addr f) g)"
proof -
  have u: "tree_in (mem s) g u" and g: "aligned g"
      using assms by (cases f; auto simp: zip_in_def node_at_def)+
  have "frame_addr f \<noteq> ptr u"
    using assms by (cases f; cases u) (auto simp: zip_in_def node_at_def)
  with assms g red_ptr_tree[OF u g] show ?thesis
    by (cases f) (auto simp: rb_insert.simps[of s n] zip_in_def deref_def rb_is_black_def
        rb_red_parent_def node_at_def Let_def)
qed

lemma rb_insert_right_step:
  assumes "zip_in s (f # RightOf gc u g # k) t" and "frame_color f = RB_RED"
  shows "rb_insert s n (frame_addr f) =
    (if color_of u = RB_RED
     then do { (s, node, parent) \<leftarrow> insert_flip s (ptr u) (frame_addr f) g; rb_insert s node parent }
     else insert_rotate_right s n (frame_addr f) g)"
proof -
  have u: "tree_in (mem s) g u" and g: "aligned g"
      using assms by (cases f; auto simp: zip_in_def node_at_def)+
  with assms red_ptr_tree[OF u g] show ?thesis
    by (cases f) (auto simp: rb_insert.simps[of s n] zip_in_def deref_def rb_is_black_def
        rb_red_parent_def node_at_def Let_def)
qed

lemma rb_insert_left_flip:
  assumes z: "zip_in s (f # LeftOf gc g u # k) t"
    and red: "frame_color f = RB_RED" "color_of u = RB_RED"
    and rec: "\<And>s'. zip_in s' k (Node RB_RED (paint RB_BLACK (plug [f] t)) g (paint RB_BLACK u)) \<Longrightarrow>
      yields s' (rb_insert s' g (cptr k)) [] t'"
    and same: "inorder t' = inorder (plug (f # LeftOf gc g u # k) t)"
  shows "yields s (rb_insert s n (frame_addr f)) [] t'"
proof -
  obtain l la r where p: "plug [f] t = Node RB_RED l la r" "la = frame_addr f"
    using red(1) by (cases f) auto
  obtain ul ua ur where u: "u = Node RB_RED ul ua ur" using red(2) by (cases u) auto
  have "zip_in s k (Node gc (plug [f] t) g u)" using z by (simp add: zip_in_plug)
  then obtain s' where s': "insert_flip s (ptr u) (frame_addr f) g = Some (s', g, cptr k)"
      "yields s (Some s') k (Node RB_RED (paint RB_BLACK (plug [f] t)) g (paint RB_BLACK u))"
    using insert_flip_exec[of s k gc l la r g ul ua ur ua la] unfolding p u by auto
  have "yields s' (rb_insert s' g (cptr k)) [] t'" by (rule rec) (use s'(2) in \<open>auto simp: yields_def\<close>)
  from yields_trans[OF s'(2) this] same have "yields s (rb_insert s' g (cptr k)) [] t'"
    by (cases f) auto
  with red s'(1) rb_insert_left_step[OF z] show ?thesis by simp
qed

lemma rb_insert_right_flip:
  assumes z: "zip_in s (f # RightOf gc u g # k) t"
    and red: "frame_color f = RB_RED" "color_of u = RB_RED"
    and rec: "\<And>s'. zip_in s' k (Node RB_RED (paint RB_BLACK u) g (paint RB_BLACK (plug [f] t))) \<Longrightarrow>
      yields s' (rb_insert s' g (cptr k)) [] t'"
    and same: "inorder t' = inorder (plug (f # RightOf gc u g # k) t)"
  shows "yields s (rb_insert s n (frame_addr f)) [] t'"
proof -
  obtain l la r where p: "plug [f] t = Node RB_RED l la r" "la = frame_addr f"
    using red(1) by (cases f) auto
  obtain ul ua ur where u: "u = Node RB_RED ul ua ur" using red(2) by (cases u) auto
  have "zip_in s k (Node gc u g (plug [f] t))" using z by (simp add: zip_in_plug)
  then obtain s' where s': "insert_flip s (ptr u) (frame_addr f) g = Some (s', g, cptr k)"
      "yields s (Some s') k (Node RB_RED (paint RB_BLACK u) g (paint RB_BLACK (plug [f] t)))"
    using insert_flip_exec[of s k gc ul ua ur g l la r ua la] unfolding p u by auto
  have "yields s' (rb_insert s' g (cptr k)) [] t'" by (rule rec) (use s'(2) in \<open>auto simp: yields_def\<close>)
  from yields_trans[OF s'(2) this] same have "yields s (rb_insert s' g (cptr k)) [] t'"
    by (cases f) auto
  with red s'(1) rb_insert_right_step[OF z] show ?thesis by simp
qed

text \<open>
  The rebalancing loop on a store that represents a tree with a new red node at position \<open>k\<close>:
  it faults nowhere, it returns, and the store it leaves represents \<open>ins_fix\<close> of the tree. The
  root of the tree is black before, so a red parent always has a parent of its own.
\<close>

lemma rb_insert_refines:
  assumes "zip_in s k (Node RB_RED l n r)" and "k \<noteq> [] \<longrightarrow> frame_color (last k) = RB_BLACK"
  shows "yields s (rb_insert s n (cptr k)) [] (ins_fix l n r k)"
  using assms
proof (induction l n r k arbitrary: s rule: ins_fix.induct)
  case (1 l n r)
  then show ?case using rb_insert_root by simp
next
  case (2 l n r p sib gc g u k)
  note z = "2.prems"(1)
  show ?case
  proof (cases "color_of u = RB_RED")
    case True
    show ?thesis
      using rb_insert_left_flip[OF z _ True "2.IH"[OF True]] "2.prems"(2) True
      by (simp add: inorder_ins_fix split: if_splits)
  next
    case False
    then show ?thesis
      using insert_rotate_left_outer[OF z] rb_insert_left_step[OF z, of n]
      by (simp add: yields_plug[of _ _ k])
  qed
next
  case (3 l n r sib p gc g u k)
  note z = "3.prems"(1)
  show ?case
  proof (cases "color_of u = RB_RED")
    case True
    show ?thesis
      using rb_insert_left_flip[OF z _ True "3.IH"[OF True]] "3.prems"(2) True
      by (simp add: inorder_ins_fix split: if_splits)
  next
    case False
    then show ?thesis
      using insert_rotate_left_inner[OF z] rb_insert_left_step[OF z, of n]
      by (simp add: yields_plug[of _ _ k])
  qed
next
  case (4 l n r sib p gc u g k)
  note z = "4.prems"(1)
  show ?case
  proof (cases "color_of u = RB_RED")
    case True
    show ?thesis
      using rb_insert_right_flip[OF z _ True "4.IH"[OF True]] "4.prems"(2) True
      by (simp add: inorder_ins_fix split: if_splits)
  next
    case False
    then show ?thesis
      using insert_rotate_right_outer[OF z] rb_insert_right_step[OF z, of n]
      by (simp add: yields_plug[of _ _ k])
  qed
next
  case (5 l n r p sib gc u g k)
  note z = "5.prems"(1)
  show ?case
  proof (cases "color_of u = RB_RED")
    case True
    show ?thesis
      using rb_insert_right_flip[OF z _ True "5.IH"[OF True]] "5.prems"(2) True
      by (simp add: inorder_ins_fix split: if_splits)
  next
    case False
    then show ?thesis
      using insert_rotate_right_inner[OF z] rb_insert_right_step[OF z, of n]
      by (simp add: yields_plug[of _ _ k])
  qed
qed (auto simp: rb_insert_black_parent yields_done intro: rb_insert_black_left rb_insert_black_right)

section \<open>Linking and rebalancing a new node\<close>

fun link_of :: "addr ctx \<Rightarrow> rb_link" where
  "link_of [] = RootLink"
| "link_of (LeftOf c a r # k) = LeftLink a"
| "link_of (RightOf c l a # k) = RightLink a"

lemma fits_root_black: "fits k c h \<Longrightarrow> k \<noteq> [] \<Longrightarrow> frame_color (last k) = RB_BLACK"
proof (induction k arbitrary: c h)
  case (Cons f k)
  then show ?case by (cases f; cases k) auto
qed simp

lemma rb_link_node_zip:
  assumes "represents s (plug k Leaf)" and "n \<noteq> NULL" "aligned n" "mem s n = Some x"
    and "n \<notin> set (inorder (plug k Leaf))"
  shows "yields s (rb_link_node s n (cptr k) (link_of k)) k (Node RB_RED Leaf n Leaf)"
  using assms unfolding represents_plug yields_def zip_in_def
  by (cases k rule: before.cases) (auto simp: rb_link_node_def exec_defs node_at_def)

definition rb_link_insert :: "rb_store \<Rightarrow> addr \<Rightarrow> addr \<Rightarrow> rb_link \<Rightarrow> rb_store option" where
  "rb_link_insert s node parent link =
     do { s \<leftarrow> rb_link_node s node parent link; rb_insert_color s node }"

text \<open>
  Linking a fresh aligned node at an empty position of a red-black tree and rebalancing: the
  pointer code returns, the store represents \<open>ins_fix Leaf n Leaf k\<close>, and no node outside the
  tree is touched.
\<close>

lemma rb_link_insert_refines:
  assumes "represents s (plug k Leaf)" and "is_rbt (plug k Leaf)"
    and "n \<noteq> NULL" "aligned n" "mem s n = Some x" and "n \<notin> set (inorder (plug k Leaf))"
  shows "yields s (rb_link_insert s n (cptr k) (link_of k)) [] (ins_fix Leaf n Leaf k)"
proof -
  from rb_link_node_zip[OF assms(1,3-6)]
  obtain s1 where s1: "rb_link_node s n (cptr k) (link_of k) = Some s1"
      "yields s (Some s1) k (Node RB_RED Leaf n Leaf)" "zip_in s1 k (Node RB_RED Leaf n Leaf)"
    by (auto simp: yields_def)
  from assms(2) have "k \<noteq> [] \<longrightarrow> frame_color (last k) = RB_BLACK"
    using fits_root_black by (auto simp: is_rbt_plug)
  from rb_insert_refines[OF s1(3) this]
  have "yields s (rb_insert s1 n (cptr k)) [] (ins_fix Leaf n Leaf k)"
    by (rule yields_trans[OF s1(2)]) (simp add: inorder_ins_fix)
  moreover have "rb_insert_color s1 n = rb_insert s1 n (cptr k)"
    using s1(3) by (auto simp: rb_insert_color_def zip_in_node node_at_def exec_defs)
  ultimately show ?thesis by (simp add: rb_link_insert_def s1(1))
qed

text \<open>
  C3. Inserting a node with \<open>rb_link_node\<close> and \<open>rb_insert_color\<close>: on a store that represents
  a red-black tree, with a fresh aligned node \<open>n\<close> linked at the empty position \<open>k\<close>, the pointer
  code dereferences no NULL or unallocated node, its loop ends, and the store it leaves
  represents a red-black tree whose in-order sequence is the old one with \<open>n\<close> at that
  position; no node outside the tree is written.
\<close>

theorem rb_insert_color_correct:
  assumes "represents s (plug k Leaf)" and "is_rbt (plug k Leaf)"
    and "n \<noteq> NULL" "aligned n" "mem s n = Some x" and "n \<notin> set (inorder (plug k Leaf))"
  shows "\<exists>s' t'. rb_link_insert s n (cptr k) (link_of k) = Some s' \<and> represents s' t' \<and>
    is_rbt t' \<and> inorder t' = before k @ n # after k \<and>
    (\<forall>y. y \<notin> set (inorder t') \<longrightarrow> mem s' y = mem s y)"
proof -
  have "is_rbt (ins_fix Leaf n Leaf k)"
    by (rule is_rbt_ins_fix) (use assms(2) in \<open>auto simp: is_rbt_plug intro: fits_black\<close>)
  with rb_link_insert_refines[OF assms] show ?thesis
    using represents_plug[of _ "[]"] unfolding yields_def
    by (auto simp: inorder_ins_fix intro!: exI[of _ "ins_fix Leaf n Leaf k"])
qed

text \<open>
  The theorem at a concrete store: a black root at 16 with two red children at 32 and 48, and a
  new node at 64 linked as the left child of 32, which takes the color flip of case 1.
\<close>

definition example_store :: rb_store where
  "example_store = \<lparr>mem = [16 \<mapsto> \<lparr>rb_parent_color = 1, rb_right = 48, rb_left = 32\<rparr>,
     32 \<mapsto> \<lparr>rb_parent_color = 16, rb_right = 0, rb_left = 0\<rparr>,
     48 \<mapsto> \<lparr>rb_parent_color = 16, rb_right = 0, rb_left = 0\<rparr>,
     64 \<mapsto> \<lparr>rb_parent_color = 0, rb_right = 0, rb_left = 0\<rparr>], root_node = 16\<rparr>"

definition example_ctx :: "addr ctx" where
  "example_ctx = [LeftOf RB_RED 32 Leaf, LeftOf RB_BLACK 16 (Node RB_RED Leaf 48 Leaf)]"

theorem rb_insert_color_correct_witness:
  "represents example_store (plug example_ctx Leaf) \<and> is_rbt (plug example_ctx Leaf) \<and>
   (\<exists>s' t'. rb_link_insert example_store 64 32 (LeftLink 32) = Some s' \<and> represents s' t' \<and>
      is_rbt t' \<and> inorder t' = [64, 32, 16, 48] \<and>
      (\<forall>y. y \<notin> set (inorder t') \<longrightarrow> mem s' y = mem example_store y))"
proof -
  have r: "represents example_store (plug example_ctx Leaf)"
    by (simp add: represents_def example_store_def example_ctx_def node_at_def aligned_def)
  have b: "is_rbt (plug example_ctx Leaf)"
    by (simp add: is_rbt_def example_ctx_def)
  have "\<exists>s' t'. rb_link_insert example_store 64 (cptr example_ctx) (link_of example_ctx) = Some s' \<and>
      represents s' t' \<and> is_rbt t' \<and> inorder t' = before example_ctx @ 64 # after example_ctx \<and>
      (\<forall>y. y \<notin> set (inorder t') \<longrightarrow> mem s' y = mem example_store y)"
    by (rule rb_insert_color_correct[OF r b])
       (simp_all add: aligned_def example_store_def example_ctx_def)
  with r b show ?thesis by (simp add: example_ctx_def)
qed

end
