(* ===== verification/Rbtree_Traverse.thy ===== *)
theory Rbtree_Traverse
  imports Rbtree_Insert
begin

text \<open>
  The read-only walks of src/utils/rbtree.c over a store that represents a tree: \<open>rb_first\<close>,
  \<open>rb_last\<close>, \<open>rb_next\<close>, \<open>rb_prev\<close> and the postorder walk, and \<open>rb_replace_node\<close>. The loops may
  run forever on a corrupt store, so they are partial; on a represented tree they return, and
  the walks visit the nodes of the tree in order.
\<close>

section \<open>Model\<close>

partial_function (option) go_left :: "rb_store \<Rightarrow> addr \<Rightarrow> addr option" where
  "go_left s n = do { x \<leftarrow> deref s n; if rb_left x = NULL then Some n else go_left s (rb_left x) }"

partial_function (option) go_right :: "rb_store \<Rightarrow> addr \<Rightarrow> addr option" where
  "go_right s n = do { x \<leftarrow> deref s n; if rb_right x = NULL then Some n else go_right s (rb_right x) }"

definition rb_first :: "rb_store \<Rightarrow> addr option" where
  "rb_first s = (if root_node s = NULL then Some NULL else go_left s (root_node s))"

definition rb_last :: "rb_store \<Rightarrow> addr option" where
  "rb_last s = (if root_node s = NULL then Some NULL else go_right s (root_node s))"

partial_function (option) climb_right :: "rb_store \<Rightarrow> addr \<Rightarrow> addr option" where
  "climb_right s node = do {
     n \<leftarrow> deref s node;
     let parent = rb_parent n;
     if parent = NULL then Some parent
     else do { p \<leftarrow> deref s parent; if node = rb_right p then climb_right s parent else Some parent } }"

partial_function (option) climb_left :: "rb_store \<Rightarrow> addr \<Rightarrow> addr option" where
  "climb_left s node = do {
     n \<leftarrow> deref s node;
     let parent = rb_parent n;
     if parent = NULL then Some parent
     else do { p \<leftarrow> deref s parent; if node = rb_left p then climb_left s parent else Some parent } }"

definition rb_empty_node :: "rb_node \<Rightarrow> addr \<Rightarrow> bool" where
  "rb_empty_node n p \<longleftrightarrow> rb_parent_color n = p"

definition rb_next :: "rb_store \<Rightarrow> addr \<Rightarrow> addr option" where
  "rb_next s node = do {
     n \<leftarrow> deref s node;
     if rb_empty_node n node then Some NULL
     else if rb_right n \<noteq> NULL then go_left s (rb_right n)
     else climb_right s node }"

definition rb_prev :: "rb_store \<Rightarrow> addr \<Rightarrow> addr option" where
  "rb_prev s node = do {
     n \<leftarrow> deref s node;
     if rb_empty_node n node then Some NULL
     else if rb_left n \<noteq> NULL then go_right s (rb_left n)
     else climb_left s node }"

partial_function (option) rb_left_deepest_node :: "rb_store \<Rightarrow> addr \<Rightarrow> addr option" where
  "rb_left_deepest_node s node = do {
     n \<leftarrow> deref s node;
     if rb_left n \<noteq> NULL then rb_left_deepest_node s (rb_left n)
     else if rb_right n \<noteq> NULL then rb_left_deepest_node s (rb_right n)
     else Some node }"

definition rb_next_postorder :: "rb_store \<Rightarrow> addr \<Rightarrow> addr option" where
  "rb_next_postorder s node =
     (if node = NULL then Some NULL
      else do {
        n \<leftarrow> deref s node;
        let parent = rb_parent n;
        if parent = NULL then Some parent
        else do {
          p \<leftarrow> deref s parent;
          if node = rb_left p \<and> rb_right p \<noteq> NULL then rb_left_deepest_node s (rb_right p)
          else Some parent } })"

definition rb_first_postorder :: "rb_store \<Rightarrow> addr option" where
  "rb_first_postorder s =
     (if root_node s = NULL then Some NULL else rb_left_deepest_node s (root_node s))"

definition rb_replace_node :: "rb_store \<Rightarrow> addr \<Rightarrow> addr \<Rightarrow> rb_store option" where
  "rb_replace_node s victim new_node = do {
     v \<leftarrow> deref s victim;
     let parent = rb_parent v;
     s \<leftarrow> modify s new_node (\<lambda>_. v);
     s \<leftarrow> (if rb_left v \<noteq> NULL then rb_set_parent s (rb_left v) new_node else Some s);
     s \<leftarrow> (if rb_right v \<noteq> NULL then rb_set_parent s (rb_right v) new_node else Some s);
     rb_change_child s victim new_node parent }"

section \<open>Positions\<close>

definition first_addr :: "addr list \<Rightarrow> addr" where
  "first_addr xs = (case xs of [] \<Rightarrow> NULL | x # _ \<Rightarrow> x)"

definition last_addr :: "addr list \<Rightarrow> addr" where
  "last_addr xs = first_addr (rev xs)"

lemma first_addr_simps [simp]:
  "first_addr [] = NULL" "first_addr (x # xs) = x" "xs \<noteq> [] \<Longrightarrow> first_addr (xs @ ys) = first_addr xs"
  "last_addr [] = NULL" "last_addr (xs @ [x]) = x" "ys \<noteq> [] \<Longrightarrow> last_addr (xs @ ys) = last_addr ys"
  by (auto simp: first_addr_def last_addr_def split: list.splits)

lemma last_addr_Cons [simp]: "last_addr (x # xs) = (if xs = [] then x else last_addr xs)"
  by (auto simp: first_addr_def last_addr_def split: list.splits)

lemma pc_parent_root [simp]: "pc_parent (col c) = NULL"
  using pc_parent_col[of NULL c] by simp

lemma inorder_eq_Nil [simp]: "inorder t = [] \<longleftrightarrow> t = Leaf"
  by (cases t) auto

text \<open>Every element of the in-order sequence is a node at some context.\<close>

lemma inorder_position:
  "inorder t = xs @ a # ys \<Longrightarrow>
    \<exists>k' c l r. plug k' (Node c l a r) = plug k t \<and> before k' @ inorder l = before k @ xs \<and>
      inorder r @ after k' = ys @ after k"
proof (induction t arbitrary: xs ys k)
  case (Node c l b r)
  from Node.prems have "inorder l @ b # inorder r = xs @ a # ys" by simp
  then consider (here) "inorder l = xs" "b = a" "inorder r = ys"
    | (right) us where "xs = inorder l @ b # us" "inorder r = us @ a # ys"
    | (left) us where "inorder l = xs @ a # us" "ys = us @ b # inorder r"
    by (auto simp: append_eq_append_conv2 Cons_eq_append_conv append_eq_Cons_conv)
  then show ?case
  proof cases
    case here
    then show ?thesis by (intro exI[of _ k] exI[of _ c] exI[of _ l] exI[of _ r]) auto
  next
    case right
    from Node.IH(2)[OF right(2), of "RightOf c l b # k"] right(1) show ?thesis by auto
  next
    case left
    from Node.IH(1)[OF left(1), of "LeftOf c b r # k"] left(2) show ?thesis by auto
  qed
qed simp

lemma represents_position:
  assumes "represents s t" and "inorder t = xs @ a # ys"
  shows "\<exists>k c l r. zip_in s k (Node c l a r) \<and> xs = before k @ inorder l \<and> ys = inorder r @ after k"
proof -
  from inorder_position[OF assms(2), of "[]"] obtain k c l r where
    "plug k (Node c l a r) = t" "before k @ inorder l = xs" "inorder r @ after k = ys" by auto
  with assms(1) represents_plug[of s k "Node c l a r"] show ?thesis by blast
qed

section \<open>The walks return what they name\<close>

lemma deref_node: "node_at (mem s) a par c l r \<Longrightarrow>
    deref s a = Some \<lparr>rb_parent_color = par OR col c, rb_right = r, rb_left = l\<rparr>"
  by (simp add: node_at_def deref_def)

lemma go_left_tree:
  "tree_in (mem s) par t \<Longrightarrow> t \<noteq> Leaf \<Longrightarrow> go_left s (ptr t) = Some (first_addr (inorder t))"
proof (induction t arbitrary: par)
  case (Node c l a r)
  then have "deref s a = Some \<lparr>rb_parent_color = par OR col c, rb_right = ptr r, rb_left = ptr l\<rparr>"
    by (simp add: deref_node)
  moreover have "ptr l = NULL \<longleftrightarrow> l = Leaf" using Node.prems(1) by (auto simp: ptr_eq_NULL)
  ultimately show ?case using Node by (subst go_left.simps) auto
qed simp

lemma go_right_tree:
  "tree_in (mem s) par t \<Longrightarrow> t \<noteq> Leaf \<Longrightarrow> go_right s (ptr t) = Some (last_addr (inorder t))"
proof (induction t arbitrary: par)
  case (Node c l a r)
  then have "deref s a = Some \<lparr>rb_parent_color = par OR col c, rb_right = ptr r, rb_left = ptr l\<rparr>"
    by (simp add: deref_node)
  moreover have "ptr r = NULL \<longleftrightarrow> r = Leaf" using Node.prems(1) by (auto simp: ptr_eq_NULL)
  ultimately show ?case using Node by (subst go_right.simps) auto
qed simp

lemma rb_first_represents: "represents s t \<Longrightarrow> rb_first s = Some (first_addr (inorder t))"
  using go_left_tree[of s NULL t] ptr_eq_NULL[of "mem s" NULL t]
  by (cases t) (auto simp: represents_def rb_first_def)

lemma rb_last_represents: "represents s t \<Longrightarrow> rb_last s = Some (last_addr (inorder t))"
  using go_right_tree[of s NULL t] ptr_eq_NULL[of "mem s" NULL t]
  by (cases t) (auto simp: represents_def rb_last_def)

lemma climb_right_ctx:
  assumes "node_at (mem s) a (cptr k) c pl pr" and "ctx_in (mem s) (root_node s) k a"
    and "distinct (before k @ a # after k)"
  shows "climb_right s a = Some (first_addr (after k))"
  using assms
proof (induction k arbitrary: a c pl pr)
  case Nil
  then show ?case by (subst climb_right.simps) (simp add: deref_node rb_parent_def Let_def)
next
  case (Cons f k)
  show ?case
  proof (cases f)
    case (LeftOf c' p r)
    with Cons.prems have p: "node_at (mem s) p (cptr k) c' a (ptr r)" "a \<noteq> ptr r" "p \<noteq> NULL" "aligned p"
      using ptr_in_inorder[of r] by (auto simp: node_at_def) (cases r; auto)+
    with Cons.prems(1) LeftOf show ?thesis
      by (subst climb_right.simps) (simp add: deref_node rb_parent_def Let_def)
  next
    case (RightOf c' l p)
    with Cons.prems have p: "node_at (mem s) p (cptr k) c' (ptr l) a" "p \<noteq> NULL" "aligned p"
        "ctx_in (mem s) (root_node s) k p" "distinct (before k @ p # after k)"
      by (auto simp: node_at_def)
    from Cons.IH[OF p(1,4,5)] p(1-3) Cons.prems(1) RightOf show ?thesis
      by (subst climb_right.simps) (simp add: deref_node rb_parent_def Let_def)
  qed
qed

lemma climb_left_ctx:
  assumes "node_at (mem s) a (cptr k) c pl pr" and "ctx_in (mem s) (root_node s) k a"
    and "distinct (before k @ a # after k)"
  shows "climb_left s a = Some (last_addr (before k))"
  using assms
proof (induction k arbitrary: a c pl pr)
  case Nil
  then show ?case by (subst climb_left.simps) (simp add: deref_node rb_parent_def Let_def)
next
  case (Cons f k)
  show ?case
  proof (cases f)
    case (RightOf c' l p)
    with Cons.prems have p: "node_at (mem s) p (cptr k) c' (ptr l) a" "a \<noteq> ptr l" "p \<noteq> NULL" "aligned p"
      using ptr_in_inorder[of l] by (auto simp: node_at_def) (cases l; auto)+
    with Cons.prems(1) RightOf show ?thesis
      by (subst climb_left.simps) (simp add: deref_node rb_parent_def Let_def)
  next
    case (LeftOf c' p r)
    with Cons.prems have p: "node_at (mem s) p (cptr k) c' a (ptr r)" "p \<noteq> NULL" "aligned p"
        "ctx_in (mem s) (root_node s) k p" "distinct (before k @ p # after k)"
      by (auto simp: node_at_def)
    from Cons.IH[OF p(1,4,5)] p(1-3) Cons.prems(1) LeftOf show ?thesis
      by (subst climb_left.simps) (simp add: deref_node rb_parent_def Let_def)
  qed
qed

text \<open>A node of a tree is not its own parent, so \<open>RB_EMPTY_NODE\<close> is false.\<close>

lemma not_empty_node:
  assumes "zip_in s k (Node c l a r)"
  shows "cptr k OR col c \<noteq> a"
proof
  assume eq: "cptr k OR col c = a"
  have al: "aligned (cptr k)" "aligned a" "a \<noteq> NULL"
    using assms aligned_cptr by (auto simp: zip_in_def node_at_def)
  have "pc_parent a = cptr k" using eq al(1) pc_parent_col by metis
  moreover have "pc_parent a = a" using al(2) by (simp add: pc_parent_def aligned_and_minus4)
  ultimately have ca: "cptr k = a" by simp
  then have "k \<noteq> []" using al(3) by auto
  with ca cptr_in_ctx[of k] assms show False by (auto simp: zip_in_def)
qed

lemma rb_next_zip:
  assumes "zip_in s k (Node c l a r)"
  shows "rb_next s a = Some (first_addr (inorder r @ after k))"
proof -
  have n: "node_at (mem s) a (cptr k) c (ptr l) (ptr r)" "tree_in (mem s) a r"
      "ctx_in (mem s) (root_node s) k a" "distinct (before k @ a # after k)"
    using assms by (auto simp: zip_in_def)
  show ?thesis
  proof (cases "r = Leaf")
    case True
    with n climb_right_ctx[OF n(1,3,4)] not_empty_node[OF assms] show ?thesis
      by (simp add: rb_next_def deref_node rb_empty_node_def)
  next
    case False
    with n go_left_tree[OF n(2)] not_empty_node[OF assms] ptr_eq_NULL[OF n(2)] show ?thesis
      by (simp add: rb_next_def deref_node rb_empty_node_def)
  qed
qed

lemma rb_prev_zip:
  assumes "zip_in s k (Node c l a r)"
  shows "rb_prev s a = Some (last_addr (before k @ inorder l))"
proof -
  have n: "node_at (mem s) a (cptr k) c (ptr l) (ptr r)" "tree_in (mem s) a l"
      "ctx_in (mem s) (root_node s) k a" "distinct (before k @ a # after k)"
    using assms by (auto simp: zip_in_def)
  show ?thesis
  proof (cases "l = Leaf")
    case True
    with n climb_left_ctx[OF n(1,3,4)] not_empty_node[OF assms] show ?thesis
      by (simp add: rb_prev_def deref_node rb_empty_node_def)
  next
    case False
    with n go_right_tree[OF n(2)] not_empty_node[OF assms] ptr_eq_NULL[OF n(2)] show ?thesis
      by (simp add: rb_prev_def deref_node rb_empty_node_def)
  qed
qed

section \<open>Postorder\<close>

fun postorder :: "'a rbt \<Rightarrow> 'a list" where
  "postorder Leaf = []"
| "postorder (Node c l a r) = postorder l @ postorder r @ [a]"

text \<open>What a postorder walk still has to visit after the subtree at a context.\<close>

fun post_after :: "'a ctx \<Rightarrow> 'a list" where
  "post_after [] = []"
| "post_after (LeftOf c a r # k) = postorder r @ a # post_after k"
| "post_after (RightOf c l a # k) = a # post_after k"

lemma postorder_eq_Nil [simp]: "postorder t = [] \<longleftrightarrow> t = Leaf"
  by (cases t) auto

lemma left_deepest_tree:
  "tree_in (mem s) par t \<Longrightarrow> t \<noteq> Leaf \<Longrightarrow>
    rb_left_deepest_node s (ptr t) = Some (first_addr (postorder t))"
proof (induction t arbitrary: par)
  case (Node c l a r)
  then have d: "deref s a = Some \<lparr>rb_parent_color = par OR col c, rb_right = ptr r, rb_left = ptr l\<rparr>"
    by (simp add: deref_node)
  have "ptr l = NULL \<longleftrightarrow> l = Leaf" "ptr r = NULL \<longleftrightarrow> r = Leaf"
    using Node.prems(1) by (auto simp: ptr_eq_NULL)
  with d Node.IH(1)[of a] Node.IH(2)[of a] Node.prems show ?case
    by (subst rb_left_deepest_node.simps) (cases "l = Leaf"; cases "r = Leaf"; simp)
qed simp

lemma rb_first_postorder_represents:
  "represents s t \<Longrightarrow> rb_first_postorder s = Some (first_addr (postorder t))"
  using left_deepest_tree[of s NULL t] ptr_eq_NULL[of "mem s" NULL t]
  by (cases t) (auto simp: represents_def rb_first_postorder_def)

lemma rb_next_postorder_zip:
  assumes "zip_in s k (Node c l a r)"
  shows "rb_next_postorder s a = Some (first_addr (post_after k))"
proof -
  have n: "node_at (mem s) a (cptr k) c (ptr l) (ptr r)" "a \<noteq> NULL" "ctx_in (mem s) (root_node s) k a"
      "distinct (before k @ a # after k)"
    using assms by (auto simp: zip_in_def node_at_def)
  show ?thesis
  proof (cases k)
    case Nil
    with n show ?thesis by (simp add: rb_next_postorder_def deref_node rb_parent_def Let_def)
  next
    case (Cons f k')
    show ?thesis
    proof (cases f)
      case (LeftOf c' p r')
      with n Cons have p: "node_at (mem s) p (cptr k') c' a (ptr r')" "tree_in (mem s) p r'" "p \<noteq> NULL" "aligned p"
        by (auto simp: node_at_def)
      from p(3,4) n(1,2) deref_node[OF p(1)] left_deepest_tree[OF p(2)] ptr_eq_NULL[OF p(2)] LeftOf Cons
      show ?thesis
        by (cases "r' = Leaf") (simp_all add: rb_next_postorder_def deref_node rb_parent_def Let_def)
    next
      case (RightOf c' l' p)
      with n Cons have p: "node_at (mem s) p (cptr k') c' (ptr l') a" "a \<noteq> ptr l'" "p \<noteq> NULL" "aligned p"
        using ptr_in_inorder[of l'] by (auto simp: node_at_def) (cases l'; auto)+
      with n RightOf Cons show ?thesis by (simp add: rb_next_postorder_def deref_node rb_parent_def Let_def)
    qed
  qed
qed

text \<open>The postorder sequence has every position of the tree.\<close>

lemma postorder_position:
  "postorder t = xs @ a # ys \<Longrightarrow>
    \<exists>k' c l r. plug k' (Node c l a r) = plug k t \<and> post_after k' = ys @ post_after k"
proof (induction t arbitrary: xs ys k)
  case (Node c l b r)
  from Node.prems have "postorder l @ postorder r @ [b] = xs @ a # ys" by simp
  then consider (here) "b = a" "ys = []"
    | (right) us vs where "postorder r = us @ a # vs" "ys = vs @ [b]"
    | (left) us where "postorder l = xs @ a # us" "ys = us @ postorder r @ [b]"
    by (auto simp: append_eq_append_conv2 Cons_eq_append_conv append_eq_Cons_conv)
  then show ?case
  proof cases
    case here
    then show ?thesis by (intro exI[of _ k] exI[of _ c] exI[of _ l] exI[of _ r]) auto
  next
    case right
    from Node.IH(2)[OF right(1), of "RightOf c l b # k"] right(2) show ?thesis by auto
  next
    case left
    from Node.IH(1)[OF left(1), of "LeftOf c b r # k"] left(2) show ?thesis by auto
  qed
qed simp

section \<open>Iteration\<close>

text \<open>
  The iteration of the clients: start at a node and follow a successor function until it gives
  NULL. \<open>fuel\<close> bounds the steps; the number of nodes plus one is enough.
\<close>

fun iterate :: "nat \<Rightarrow> (addr \<Rightarrow> addr option) \<Rightarrow> addr \<Rightarrow> addr list option" where
  "iterate 0 nxt n = None"
| "iterate (Suc fuel) nxt n =
     (if n = NULL then Some []
      else do { m \<leftarrow> nxt n; ns \<leftarrow> iterate fuel nxt m; Some (n # ns) })"

lemma iterate_list:
  assumes "\<And>us a vs. xs = us @ a # vs \<Longrightarrow> nxt a = Some (first_addr vs) \<and> a \<noteq> NULL"
  shows "iterate (Suc (length xs)) nxt (first_addr xs) = Some xs"
proof -
  have "iterate (Suc (length vs)) nxt (first_addr vs) = Some vs" if "xs = us @ vs" for us vs
    using that
  proof (induction vs arbitrary: us)
    case (Cons a vs)
    with assms[of us a vs] Cons.IH[of "us @ [a]"] show ?case by simp
  qed simp
  from this[of "[]" xs] show ?thesis by simp
qed

lemma represents_nonnull: "represents s t \<Longrightarrow> a \<in> set (inorder t) \<Longrightarrow> a \<noteq> NULL"
proof -
  have "tree_in m par t \<Longrightarrow> a \<in> set (inorder t) \<Longrightarrow> a \<noteq> NULL" for m par
    by (induction t arbitrary: par) (auto simp: node_at_def)
  then show "represents s t \<Longrightarrow> a \<in> set (inorder t) \<Longrightarrow> a \<noteq> NULL" by (auto simp: represents_def)
qed

text \<open>
  C25. On a store that represents a tree, starting with \<open>rb_first\<close> and following \<open>rb_next\<close>
  visits exactly the nodes of the tree, in order, and then returns NULL; \<open>rb_last\<close> and
  \<open>rb_prev\<close> visit them in reverse; the postorder walk visits every node after its children.
\<close>
theorem rb_iteration:
  assumes "represents s t"
  shows "\<exists>a b c. rb_first s = Some a \<and> iterate (Suc (length (inorder t))) (rb_next s) a = Some (inorder t) \<and>
    rb_last s = Some b \<and> iterate (Suc (length (inorder t))) (rb_prev s) b = Some (rev (inorder t)) \<and>
    rb_first_postorder s = Some c \<and>
    iterate (Suc (length (postorder t))) (rb_next_postorder s) c = Some (postorder t)"
proof (intro exI conjI)
  show "rb_first s = Some (first_addr (inorder t))" "rb_last s = Some (first_addr (rev (inorder t)))"
      "rb_first_postorder s = Some (first_addr (postorder t))"
    using rb_first_represents[OF assms] rb_last_represents[OF assms]
      rb_first_postorder_represents[OF assms] by (simp_all add: last_addr_def)
  show "iterate (Suc (length (inorder t))) (rb_next s) (first_addr (inorder t)) = Some (inorder t)"
  proof (rule iterate_list)
    fix us a vs assume "inorder t = us @ a # vs"
    with represents_position[OF assms this] rb_next_zip[of s] represents_nonnull[OF assms, of a]
    show "rb_next s a = Some (first_addr vs) \<and> a \<noteq> NULL" by fastforce
  qed
  show "iterate (Suc (length (inorder t))) (rb_prev s) (first_addr (rev (inorder t))) = Some (rev (inorder t))"
  proof -
    have "rb_prev s a = Some (first_addr vs) \<and> a \<noteq> NULL" if "rev (inorder t) = us @ a # vs" for us a vs
    proof -
      from that have "inorder t = rev vs @ a # rev us" by (metis append.assoc append_Cons append_Nil rev.simps(2) rev_append rev_rev_ident)
      from represents_position[OF assms this] obtain k c l r where
        z: "zip_in s k (Node c l a r)" and v: "rev vs = before k @ inorder l" by blast
      from v have "vs = rev (before k @ inorder l)" by (metis rev_rev_ident)
      with rb_prev_zip[OF z] z show ?thesis by (simp add: last_addr_def zip_in_def node_at_def)
    qed
    from iterate_list[of "rev (inorder t)", OF this] show ?thesis by simp
  qed
  show "iterate (Suc (length (postorder t))) (rb_next_postorder s) (first_addr (postorder t)) = Some (postorder t)"
  proof (rule iterate_list)
    fix us a vs assume p: "postorder t = us @ a # vs"
    from postorder_position[OF p, of "[]"] obtain k c l r where
      k: "plug k (Node c l a r) = t" "post_after k = vs" by auto
    with assms represents_plug[of s k "Node c l a r"] have "zip_in s k (Node c l a r)" by simp
    with rb_next_postorder_zip[OF this] k(2) show "rb_next_postorder s a = Some (first_addr vs) \<and> a \<noteq> NULL"
      by (auto simp: zip_in_def node_at_def)
  qed
qed

theorem rb_iteration_witness:
  "\<exists>a. rb_first example_store = Some a \<and> iterate 4 (rb_next example_store) a = Some [32, 16, 48]"
proof -
  have "represents example_store (plug example_ctx Leaf)"
    by (simp add: represents_def example_store_def example_ctx_def node_at_def aligned_def)
  from rb_iteration[OF this] show ?thesis by (auto simp: example_ctx_def eval_nat_numeral simp del: iterate.simps)
qed

end
