(* ===== verification/Ordered_Index.thy ===== *)
theory Ordered_Index
  imports Rbtree_Model "HOL-Library.Multiset"
begin

text \<open>
  The clients of the red-black tree (kernel symbols, ELF symbols, memory maps, cached file
  blocks) all use it in the same way: a loop that descends to a free link with the client's own
  comparison, then \<open>rb_link_node\<close> and \<open>rb_insert_color\<close>; a loop that descends to an entry; and
  a loop that erases the first node until the tree is empty. The loops are stated here once,
  with the client's comparison as a parameter, and the interfaces \<open>ordered_index\<close>,
  \<open>interval_search\<close> and \<open>floor_search\<close> say what the comparison must satisfy. Theory
  \<open>Rbtree_Index\<close> relates the loops to the pointer code.
\<close>

section \<open>The loops\<close>

datatype turn = GoLeft | GoRight | Found

text \<open>The descent to the link where a new entry belongs; \<open>None\<close> when the comparison stops it.\<close>

fun find_link :: "('a \<Rightarrow> turn) \<Rightarrow> 'a rbt \<Rightarrow> 'a ctx \<Rightarrow> 'a ctx option" where
  "find_link d Leaf k = Some k"
| "find_link d (Node c l a r) k =
     (case d a of
        GoLeft \<Rightarrow> find_link d l (LeftOf c a r # k)
      | GoRight \<Rightarrow> find_link d r (RightOf c l a # k)
      | Found \<Rightarrow> None)"

definition link_color :: "'a \<Rightarrow> 'a ctx \<Rightarrow> 'a rbt" where
  "link_color x k = ins_fix Leaf x Leaf k"

definition tree_insert :: "('a \<Rightarrow> turn) \<Rightarrow> 'a \<Rightarrow> 'a rbt \<Rightarrow> 'a rbt option" where
  "tree_insert d x t = map_option (link_color x) (find_link d t [])"

fun tree_search :: "('a \<Rightarrow> turn) \<Rightarrow> 'a rbt \<Rightarrow> 'a option" where
  "tree_search d Leaf = None"
| "tree_search d (Node c l a r) =
     (case d a of GoLeft \<Rightarrow> tree_search d l | GoRight \<Rightarrow> tree_search d r | Found \<Rightarrow> Some a)"

text \<open>The descent that remembers the last entry it passed on the right.\<close>

fun tree_floor :: "('a \<Rightarrow> bool) \<Rightarrow> 'a rbt \<Rightarrow> 'a option \<Rightarrow> 'a option" where
  "tree_floor P Leaf best = best"
| "tree_floor P (Node c l a r) best =
     (if P a then tree_floor P r (Some a) else tree_floor P l best)"

text \<open>\<open>rb_first\<close> and \<open>rb_erase\<close> of the first node.\<close>

definition erase_first :: "'a rbt \<Rightarrow> 'a \<times> 'a rbt" where
  "erase_first t = (case split_min t [] of (k, c, a, r) \<Rightarrow> (a, erase_at c Leaf a r k))"

text \<open>
  \<open>rb_erase\<close> of a node given by its pointer: the pointer is a property of the entry, and the
  position of the node is found by it.
\<close>

fun locate :: "('a \<Rightarrow> bool) \<Rightarrow> 'a rbt \<Rightarrow> 'a ctx \<Rightarrow> (rb_color \<times> 'a rbt \<times> 'a \<times> 'a rbt \<times> 'a ctx) option" where
  "locate P Leaf k = None"
| "locate P (Node c l a r) k =
     (if P a then Some (c, l, a, r, k)
      else case locate P l (LeftOf c a r # k) of
             Some x \<Rightarrow> Some x
           | None \<Rightarrow> locate P r (RightOf c l a # k))"

definition erase_entry :: "('a \<Rightarrow> bool) \<Rightarrow> 'a rbt \<Rightarrow> 'a rbt option" where
  "erase_entry P t = (case locate P t [] of None \<Rightarrow> None | Some (c, l, a, r, k) \<Rightarrow> Some (erase_at c l a r k))"

section \<open>Position and order\<close>

lemma find_link_plug: "find_link d t k = Some k' \<Longrightarrow> plug k' Leaf = plug k t"
  by (induction d t k rule: find_link.induct) (auto split: turn.splits)

lemma find_link_inorder:
  "find_link d t k = Some k' \<Longrightarrow> before k' @ after k' = before k @ inorder t @ after k"
  by (drule find_link_plug) (metis append_Nil inorder.simps(1) inorder_plug)

text \<open>The entries the descent passed on the right come before the link, the others after it.\<close>

lemma find_link_sides:
  assumes "find_link d t k = Some k'"
  shows "\<exists>xs ys. inorder t = xs @ ys \<and> before k' = before k @ xs \<and> after k' = ys @ after k \<and>
    (xs \<noteq> [] \<longrightarrow> d (last xs) = GoRight) \<and> (ys \<noteq> [] \<longrightarrow> d (hd ys) = GoLeft)"
  using assms
proof (induction t arbitrary: k)
  case (Node c l a r)
  show ?case
  proof (cases "d a")
    case GoLeft
    with Node.prems have "find_link d l (LeftOf c a r # k) = Some k'" by simp
    from Node.IH(1)[OF this] obtain xs ys where
      "inorder l = xs @ ys" "before k' = before k @ xs" "after k' = ys @ a # inorder r @ after k"
      "xs \<noteq> [] \<longrightarrow> d (last xs) = GoRight" "ys \<noteq> [] \<longrightarrow> d (hd ys) = GoLeft" by auto
    with GoLeft show ?thesis
      by (intro exI[of _ xs] exI[of _ "ys @ a # inorder r"]) (cases ys; auto)
  next
    case GoRight
    with Node.prems have "find_link d r (RightOf c l a # k) = Some k'" by simp
    from Node.IH(2)[OF this] obtain xs ys where
      "inorder r = xs @ ys" "before k' = before k @ inorder l @ a # xs" "after k' = ys @ after k"
      "xs \<noteq> [] \<longrightarrow> d (last xs) = GoRight" "ys \<noteq> [] \<longrightarrow> d (hd ys) = GoLeft" by auto
    with GoRight show ?thesis
      by (intro exI[of _ "inorder l @ a # xs"] exI[of _ ys]) auto
  next
    case Found
    with Node.prems show ?thesis by simp
  qed
qed simp

lemma find_link_None: "find_link d t k = None \<Longrightarrow> \<exists>a\<in>set (inorder t). d a = Found"
  by (induction d t k rule: find_link.induct) (auto split: turn.splits)

lemma is_rbt_link_color:
  assumes "is_rbt (plug k Leaf)"
  shows "is_rbt (link_color x k)"
  unfolding link_color_def
  by (rule is_rbt_ins_fix) (use assms in \<open>auto simp: is_rbt_plug intro: fits_black\<close>)

lemma inorder_link_color: "inorder (link_color x k) = before k @ x # after k"
  by (simp add: link_color_def inorder_ins_fix)

lemma tree_insert_Some:
  assumes "tree_insert d x t = Some t'"
  shows "is_rbt t \<Longrightarrow> is_rbt t'"
    and "\<exists>xs ys. inorder t = xs @ ys \<and> inorder t' = xs @ x # ys \<and>
      (xs \<noteq> [] \<longrightarrow> d (last xs) = GoRight) \<and> (ys \<noteq> [] \<longrightarrow> d (hd ys) = GoLeft)"
proof -
  from assms obtain k where k: "find_link d t [] = Some k" "t' = link_color x k"
    by (auto simp: tree_insert_def)
  show "is_rbt t \<Longrightarrow> is_rbt t'"
    using find_link_plug[OF k(1)] k(2) is_rbt_link_color by force
  from find_link_sides[OF k(1)] k(2)
  show "\<exists>xs ys. inorder t = xs @ ys \<and> inorder t' = xs @ x # ys \<and>
      (xs \<noteq> [] \<longrightarrow> d (last xs) = GoRight) \<and> (ys \<noteq> [] \<longrightarrow> d (hd ys) = GoLeft)"
    by (auto simp: inorder_link_color)
qed

text \<open>Erasing the first node removes the head of the in-order sequence.\<close>

lemma erase_first_spec:
  assumes "t \<noteq> Leaf"
  shows "inorder t = fst (erase_first t) # inorder (snd (erase_first t))"
    and "is_rbt t \<Longrightarrow> is_rbt (snd (erase_first t))"
proof -
  obtain k c a r where s: "split_min t [] = (k, c, a, r)" by (cases "split_min t []") auto
  note pl = split_min_plug[OF assms s] split_min_before[OF assms s]
  have "inorder t = inorder (plug k (Node c Leaf a r))" using pl(1) by simp
  then show "inorder t = fst (erase_first t) # inorder (snd (erase_first t))"
    using pl(2) s by (simp add: erase_first_def inorder_erase_at)
  show "is_rbt t \<Longrightarrow> is_rbt (snd (erase_first t))"
    using pl(1) s is_rbt_erase_at[of k c Leaf a r] by (simp add: erase_first_def)
qed

lemma locate_Some: "locate P t k = Some (c, l, a, r, k') \<Longrightarrow> plug k' (Node c l a r) = plug k t \<and> P a"
  by (induction P t k rule: locate.induct) (auto split: if_splits option.splits)

lemma locate_None: "locate P t k = None \<longleftrightarrow> (\<forall>a\<in>set (inorder t). \<not> P a)"
  by (induction P t k rule: locate.induct) (auto split: option.splits)

text \<open>Erasing an entry removes it from the in-order sequence and nothing else.\<close>

lemma erase_entry_spec:
  assumes "a \<in> set (inorder t)" and "P a"
  shows "\<exists>t' x xs ys. erase_entry P t = Some t' \<and> P x \<and> inorder t = xs @ x # ys \<and> inorder t' = xs @ ys \<and>
    (is_rbt t \<longrightarrow> is_rbt t')"
proof -
  have "locate P t [] \<noteq> None" using assms locate_None[of P t "[]"] by blast
  then obtain c l x r k where lo: "locate P t [] = Some (c, l, x, r, k)" by auto
  then have pl: "plug k (Node c l x r) = t" "P x" using locate_Some[OF lo] by auto
  then have "inorder t = before k @ inorder l @ x # inorder r @ after k"
    by (metis append.assoc append_Cons inorder.simps(2) inorder_plug)
  moreover have "inorder (erase_at c l x r k) = before k @ inorder l @ inorder r @ after k" by (rule inorder_erase_at)
  moreover have "is_rbt t \<longrightarrow> is_rbt (erase_at c l x r k)" using is_rbt_erase_at[of k c l x r] pl(1) by simp
  ultimately show ?thesis using lo pl(2)
    by (intro exI[of _ "erase_at c l x r k"] exI[of _ x] exI[of _ "before k @ inorder l"] exI[of _ "inorder r @ after k"])
       (simp add: erase_entry_def)
qed

lemma size_erase_first: "t \<noteq> Leaf \<Longrightarrow> length (inorder (snd (erase_first t))) < length (inorder t)"
  by (simp add: erase_first_spec(1))

section \<open>Interfaces\<close>

text \<open>Ranges in order that are disjoint or, for entries listed twice, equal.\<close>

definition layered :: "('e \<Rightarrow> 'k::linorder) \<Rightarrow> ('e \<Rightarrow> 'k) \<Rightarrow> 'e rbt \<Rightarrow> bool" where
  "layered lo hi t \<longleftrightarrow>
     sorted_wrt (\<lambda>x y. lo x \<le> lo y \<and> (hi x \<le> lo y \<or> lo x = lo y \<and> hi x = hi y)) (inorder t)"

text \<open>The shape of an index: a red-black tree in the order of a key.\<close>

definition indexed :: "('e \<Rightarrow> 'k::linorder) \<Rightarrow> 'e rbt \<Rightarrow> bool" where
  "indexed key t \<longleftrightarrow> is_rbt t \<and> sorted (map key (inorder t))"

text \<open>The ranges \<open>[lo e, hi e)\<close> of the entries are in order and do not overlap.\<close>

definition apart :: "('e \<Rightarrow> 'k::linorder) \<Rightarrow> ('e \<Rightarrow> 'k) \<Rightarrow> 'e rbt \<Rightarrow> bool" where
  "apart lo hi t \<longleftrightarrow> sorted_wrt (\<lambda>x y. lo x \<le> lo y \<and> hi x \<le> lo y) (inorder t)"

text \<open>
  An index keeps its entries in the order of a key. \<open>turn n e\<close> is the comparison of the new
  entry \<open>n\<close> with an entry \<open>e\<close> of the tree.
\<close>

locale ordered_index =
  fixes key :: "'e \<Rightarrow> 'k::linorder"
    and turn :: "'e \<Rightarrow> 'e \<Rightarrow> turn"
  assumes turn_left: "turn n e = GoLeft \<Longrightarrow> key n \<le> key e"
    and turn_right: "turn n e = GoRight \<Longrightarrow> key e \<le> key n"
begin

lemma insert_ok:
  assumes "indexed key t" and "tree_insert (turn n) n t = Some t'"
  shows "indexed key t' \<and> mset (inorder t') = add_mset n (mset (inorder t))"
proof -
  from tree_insert_Some(2)[OF assms(2)] obtain xs ys where
    xy: "inorder t = xs @ ys" "inorder t' = xs @ n # ys"
      "xs \<noteq> [] \<longrightarrow> turn n (last xs) = GoRight" "ys \<noteq> [] \<longrightarrow> turn n (hd ys) = GoLeft" by blast
  from assms(1) have so: "sorted (map key xs)" "sorted (map key ys)"
      "\<forall>x\<in>set xs. \<forall>y\<in>set ys. key x \<le> key y"
    by (auto simp: indexed_def xy(1) sorted_append)
  have "key x \<le> key n" if "x \<in> set xs" for x
  proof -
    have "key x \<le> key (last xs)" using so(1) that by (cases xs rule: rev_cases) (auto simp: sorted_append)
    with xy(3) turn_right[of n "last xs"] that show ?thesis by (cases xs) auto
  qed
  moreover have "key n \<le> key y" if "y \<in> set ys" for y
  proof -
    have "key (hd ys) \<le> key y" using so(2) that by (cases ys) auto
    with xy(4) turn_left[of n "hd ys"] that show ?thesis by (cases ys) auto
  qed
  ultimately have "sorted (map key (inorder t'))" using so xy(2) by (auto simp: sorted_append)
  with tree_insert_Some(1)[OF assms(2)] assms(1) xy show ?thesis by (auto simp: indexed_def)
qed

lemma index_Leaf: "indexed key Leaf"
  by (simp add: indexed_def is_rbt_def)

lemma erase_first_ok:
  assumes "indexed key t" and "t \<noteq> Leaf"
  shows "indexed key (snd (erase_first t))"
  using assms erase_first_spec[OF assms(2)] by (auto simp: indexed_def)

end

text \<open>
  Searching for the entry whose half-open range contains an address. The ranges of the
  entries do not overlap and are in order.
\<close>

locale interval_search =
  fixes lo hi :: "'e \<Rightarrow> 'k::linorder"
    and look :: "'k \<Rightarrow> 'e \<Rightarrow> turn"
  assumes look_found: "look a e = Found \<longleftrightarrow> lo e \<le> a \<and> a < hi e"
    and look_left: "look a e = GoLeft \<longleftrightarrow> a < lo e"
begin

lemma search_sound:
  "tree_search (look a) t = Some e \<Longrightarrow> e \<in> set (inorder t) \<and> lo e \<le> a \<and> a < hi e"
  by (induction t) (auto simp: look_found split: turn.splits)

lemma search_complete:
  assumes "apart lo hi t" and "e \<in> set (inorder t)" and "lo e \<le> a" "a < hi e"
  shows "tree_search (look a) t = Some e"
  using assms
proof (induction t)
  case (Node c l x r)
  from Node.prems(1) have ap: "apart lo hi l" "apart lo hi r"
      "\<forall>y\<in>set (inorder l). hi y \<le> lo x \<and> lo y \<le> lo x" "\<forall>y\<in>set (inorder r). lo x \<le> lo y \<and> hi x \<le> lo y"
    by (auto simp: apart_def sorted_wrt_append)
  consider "e = x" | "e \<in> set (inorder l)" | "e \<in> set (inorder r)" using Node.prems(2) by auto
  then show ?case
  proof cases
    case 1
    with Node.prems show ?thesis using look_found[of a x] by simp
  next
    case 2
    with ap(3) Node.prems(3,4) have "a < lo x" by force
    with look_left[of a x] 2 Node.IH(1) ap(1) Node.prems(3,4) show ?thesis by simp
  next
    case 3
    with ap(4) Node.prems(3,4) have "\<not> a < lo x" "\<not> a < hi x" by force+
    with look_left[of a x] look_found[of a x] have "look a x = GoRight" by (cases "look a x") auto
    with 3 Node.IH(2) ap(2) Node.prems(3,4) show ?thesis by simp
  qed
qed simp

lemma search_layered:
  assumes "layered lo hi t" and "e \<in> set (inorder t)" and "lo e \<le> a" "a < hi e"
  shows "\<exists>e'. tree_search (look a) t = Some e' \<and> lo e' = lo e \<and> hi e' = hi e"
  using assms
proof (induction t)
  case (Node c l x r)
  from Node.prems(1) have la: "layered lo hi l" "layered lo hi r"
      "\<forall>y\<in>set (inorder l). lo y \<le> lo x \<and> (hi y \<le> lo x \<or> lo y = lo x \<and> hi y = hi x)"
      "\<forall>y\<in>set (inorder r). lo x \<le> lo y \<and> (hi x \<le> lo y \<or> lo x = lo y \<and> hi x = hi y)"
    by (auto simp: layered_def sorted_wrt_append)
  show ?case
  proof (cases "lo x = lo e \<and> hi x = hi e")
    case True
    with Node.prems(3,4) show ?thesis using look_found[of a x] by auto
  next
    case False
    consider "e \<in> set (inorder l)" | "e \<in> set (inorder r)" using Node.prems(2) False by auto
    then show ?thesis
    proof cases
      case 1
      with la(3) False Node.prems(3,4) have "a < lo x" by fastforce
      with look_left[of a x] 1 Node.IH(1) la(1) Node.prems(3,4) show ?thesis by simp
    next
      case 2
      with la(4) False Node.prems(3,4) have "\<not> a < lo x" "\<not> a < hi x" by fastforce+
      with look_left[of a x] look_found[of a x] have "look a x = GoRight" by (cases "look a x") auto
      with 2 Node.IH(2) la(2) Node.prems(3,4) show ?thesis by simp
    qed
  qed
qed simp

lemma search_iff:
  assumes "apart lo hi t"
  shows "tree_search (look a) t = Some e \<longleftrightarrow> e \<in> set (inorder t) \<and> lo e \<le> a \<and> a < hi e"
  using search_sound search_complete[OF assms] by blast

end

text \<open>Searching for the last entry at or below an address.\<close>

locale floor_search =
  fixes key :: "'e \<Rightarrow> 'k::linorder"
    and below :: "'k \<Rightarrow> 'e \<Rightarrow> bool"
  assumes below_iff: "below a e \<longleftrightarrow> key e \<le> a"
begin

lemma floor_last:
  assumes "sorted (map key (inorder t))"
  shows "tree_floor (below a) t best =
    (let es = filter (\<lambda>e. key e \<le> a) (inorder t) in if es = [] then best else Some (last es))"
  using assms
proof (induction t arbitrary: best)
  case (Node c l x r)
  from Node.prems have so: "sorted (map key (inorder l))" "sorted (map key (inorder r))"
      "\<forall>y\<in>set (inorder r). key x \<le> key y"
    by (auto simp: sorted_append)
  show ?case
  proof (cases "key x \<le> a")
    case True
    then show ?thesis
      using Node.IH(2)[OF so(2), of "Some x"] below_iff[of a x] by (auto simp: Let_def)
  next
    case False
    with so(3) have "filter (\<lambda>e. key e \<le> a) (inorder r) = []" by (auto simp: filter_empty_conv)
    with False show ?thesis using Node.IH(1)[OF so(1), of best] below_iff[of a x] by (simp add: Let_def)
  qed
qed simp

lemma floor_None:
  "sorted (map key (inorder t)) \<Longrightarrow>
    tree_floor (below a) t None = None \<longleftrightarrow> (\<forall>e\<in>set (inorder t). a < key e)"
  by (auto simp: floor_last filter_empty_conv not_le Let_def split: if_splits)

lemma floor_Some:
  assumes "sorted (map key (inorder t))" and "tree_floor (below a) t None = Some e"
  shows "e \<in> set (inorder t) \<and> key e \<le> a \<and> (\<forall>e'\<in>set (inorder t). key e' \<le> a \<longrightarrow> key e' \<le> key e)"
proof -
  let ?fs = "filter (\<lambda>e. key e \<le> a) (inorder t)"
  from assms have fs: "?fs \<noteq> []" "e = last ?fs" by (auto simp: floor_last Let_def split: if_splits)
  then have "e \<in> set ?fs" using last_in_set by blast
  moreover have "key e' \<le> key e" if "e' \<in> set ?fs" for e'
  proof -
    have "sorted (map key ?fs)" using assms(1) by (rule sorted_filter)
    then show ?thesis using that fs(2) by (cases ?fs rule: rev_cases) (auto simp: sorted_append)
  qed
  ultimately show ?thesis by auto
qed

end

end
