(* ===== verification/Rbtree_Index.thy ===== *)
theory Rbtree_Index
  imports Rbtree_Traverse Ordered_Index
begin

text \<open>
  The client loops on the pointer structure itself. Every client embeds \<open>struct rb_node\<close> in its
  entry and recovers the entry with \<open>rb_entry\<close>; here \<open>entry\<close> gives the entry at the address of
  a node. The loops that descend through \<open>struct rb_node **link\<close> are translated over the store
  and shown to compute the loops of \<open>Ordered_Index\<close> on the tree of entries.
\<close>

section \<open>Model\<close>

fun load_link :: "rb_store \<Rightarrow> rb_link \<Rightarrow> addr option" where
  "load_link s RootLink = Some (root_node s)"
| "load_link s (LeftLink p) = do { n \<leftarrow> deref s p; Some (rb_left n) }"
| "load_link s (RightLink p) = do { n \<leftarrow> deref s p; Some (rb_right n) }"

text \<open>
  \<open>while (*link) { parent = *link; ... link = &(*link)->rb_left; ... }\<close>: the parent and the
  free link at its end, or \<open>Some None\<close> when the comparison stops the loop.
\<close>

partial_function (option) ptr_find_link ::
    "rb_store \<Rightarrow> (addr \<Rightarrow> turn) \<Rightarrow> addr \<Rightarrow> rb_link \<Rightarrow> (addr \<times> rb_link) option option" where
  "ptr_find_link s d parent link = do {
     n \<leftarrow> load_link s link;
     if n = NULL then Some (Some (parent, link))
     else (case d n of
             GoLeft \<Rightarrow> ptr_find_link s d n (LeftLink n)
           | GoRight \<Rightarrow> ptr_find_link s d n (RightLink n)
           | Found \<Rightarrow> Some None) }"

text \<open>The whole insertion of a client; the flag says whether the node was inserted.\<close>

definition ptr_insert :: "rb_store \<Rightarrow> (addr \<Rightarrow> turn) \<Rightarrow> addr \<Rightarrow> (rb_store \<times> bool) option" where
  "ptr_insert s d node = do {
     r \<leftarrow> ptr_find_link s d NULL RootLink;
     case r of
       None \<Rightarrow> Some (s, False)
     | Some (parent, link) \<Rightarrow> do { s \<leftarrow> rb_link_insert s node parent link; Some (s, True) } }"

partial_function (option) ptr_search :: "rb_store \<Rightarrow> (addr \<Rightarrow> turn) \<Rightarrow> addr \<Rightarrow> addr option" where
  "ptr_search s d node =
     (if node = NULL then Some NULL
      else do {
        n \<leftarrow> deref s node;
        case d node of
          GoLeft \<Rightarrow> ptr_search s d (rb_left n)
        | GoRight \<Rightarrow> ptr_search s d (rb_right n)
        | Found \<Rightarrow> Some node })"

section \<open>Refinement\<close>

lemma ptr_find_link_refines:
  assumes "zip_in s k t"
  shows "ptr_find_link s d (cptr k) (link_of k) =
    Some (map_option (\<lambda>k. (cptr k, link_of k)) (find_link d t k))"
  using assms
proof (induction t arbitrary: k)
  case Leaf
  then have "load_link s (link_of k) = Some NULL"
    by (cases k rule: before.cases) (auto simp: zip_in_def deref_node)
  then show ?case by (subst ptr_find_link.simps) simp
next
  case (Node c l a r)
  then have ld: "load_link s (link_of k) = Some a" "a \<noteq> NULL"
    by (cases k rule: before.cases; auto simp: zip_in_def deref_node node_at_def deref_def)+
  have "zip_in s (LeftOf c a r # k) l" "zip_in s (RightOf c l a # k) r"
    using Node.prems by (auto simp: zip_in_def)
  with Node.IH(1)[of "LeftOf c a r # k"] Node.IH(2)[of "RightOf c l a # k"] ld show ?case
    by (subst ptr_find_link.simps) (simp split: turn.split)
qed

lemma ptr_search_refines:
  "tree_in (mem s) par t \<Longrightarrow>
    ptr_search s d (ptr t) = Some (case tree_search d t of None \<Rightarrow> NULL | Some a \<Rightarrow> a)"
proof (induction t arbitrary: par)
  case Leaf
  then show ?case by (subst ptr_search.simps) simp
next
  case (Node c l a r)
  from Node.prems have n: "deref s a = Some \<lparr>rb_parent_color = par OR col c, rb_right = ptr r, rb_left = ptr l\<rparr>"
    "a \<noteq> NULL" "tree_in (mem s) a l" "tree_in (mem s) a r" by (auto simp: deref_node node_at_def)
  with Node.IH(1)[OF n(3)] Node.IH(2)[OF n(4)] show ?case
    by (subst ptr_search.simps) (simp split: turn.split)
qed

lemma ptr_insert_refines:
  assumes "represents s t" and "is_rbt t"
    and "n \<noteq> NULL" "aligned n" "mem s n = Some x" and "n \<notin> set (inorder t)"
  shows "case tree_insert d n t of
      None \<Rightarrow> ptr_insert s d n = Some (s, False)
    | Some t' \<Rightarrow> \<exists>s'. ptr_insert s d n = Some (s', True) \<and> represents s' t' \<and> is_rbt t' \<and>
        (\<forall>y. y \<notin> set (inorder t') \<longrightarrow> mem s' y = mem s y)"
proof (cases "find_link d t []")
  case None
  with ptr_find_link_refines[of s "[]" t d] assms(1) show ?thesis
    by (simp add: tree_insert_def ptr_insert_def flip: represents_plug)
next
  case (Some k)
  note fl = find_link_plug[OF Some, simplified]
  have "yields s (rb_link_insert s n (cptr k) (link_of k)) [] (ins_fix Leaf n Leaf k)"
    using assms fl rb_link_insert_refines[of s k n x] by simp
  then obtain s' where s': "rb_link_insert s n (cptr k) (link_of k) = Some s'"
      "represents s' (ins_fix Leaf n Leaf k)"
      "\<forall>y. y \<notin> set (inorder (ins_fix Leaf n Leaf k)) \<longrightarrow> mem s' y = mem s y"
    using represents_plug[of _ "[]"] by (auto simp: yields_def)
  moreover have "is_rbt (ins_fix Leaf n Leaf k)"
    using is_rbt_link_color[of k n] fl assms(2) by (simp add: link_color_def)
  moreover have "ptr_find_link s d NULL RootLink = Some (Some (cptr k, link_of k))"
    using ptr_find_link_refines[of s "[]" t d] assms(1) Some by (simp flip: represents_plug)
  ultimately show ?thesis using Some by (simp add: tree_insert_def ptr_insert_def link_color_def)
qed

section \<open>From node addresses to entries\<close>

lemma map_paint [simp]: "map_rbt f (paint c t) = paint c (map_rbt f t)"
  by (cases t) auto

lemma color_of_map [simp]: "color_of (map_rbt f t) = color_of t"
  by (cases t) auto

lemma inorder_map [simp]: "inorder (map_rbt f t) = map f (inorder t)"
  by (induction t) auto

lemma plug_map: "map_rbt f (plug k t) = plug (map (map_frame f) k) (map_rbt f t)"
  by (induction k t rule: plug.induct) auto

lemma ins_fix_map:
  "map_rbt f (ins_fix l n r k) = ins_fix (map_rbt f l) (f n) (map_rbt f r) (map (map_frame f) k)"
  by (induction l n r k rule: ins_fix.induct) (auto simp: plug_map)

lemma find_link_map:
  "find_link d (map_rbt f t) (map (map_frame f) k) =
    map_option (map (map_frame f)) (find_link (d \<circ> f) t k)"
proof (induction t arbitrary: k)
  case (Node c l a r)
  from Node.IH(1)[of "LeftOf c a r # k"] Node.IH(2)[of "RightOf c l a # k"] show ?case
    by (simp split: turn.split)
qed simp

lemma tree_insert_map:
  "tree_insert d (f n) (map_rbt f t) = map_option (map_rbt f) (tree_insert (d \<circ> f) n t)"
  using find_link_map[of d f t "[]"]
  by (simp add: tree_insert_def link_color_def ins_fix_map option.map_comp comp_def)

lemma tree_search_map:
  "tree_search d (map_rbt f t) = map_option f (tree_search (d \<circ> f) t)"
  by (induction t) (auto split: turn.split)

section \<open>Property\<close>

text \<open>
  C7. The insertion of every client of the library on the pointer structure: given a store
  that represents a red-black tree and a fresh aligned node, the descent with the client's
  comparison and the linking and rebalancing return without a fault, and the store represents
  a red-black tree whose entries are those the insertion on the tree of entries gives; when
  the comparison finds an equal entry the store is unchanged.
\<close>
theorem client_insert_refines:
  assumes "represents s t" and "is_rbt t"
    and "n \<noteq> NULL" "aligned n" "mem s n = Some x" and "n \<notin> set (inorder t)"
  shows "case tree_insert d (entry n) (map_rbt entry t) of
      None \<Rightarrow> ptr_insert s (d \<circ> entry) n = Some (s, False)
    | Some et \<Rightarrow> \<exists>s' t'. ptr_insert s (d \<circ> entry) n = Some (s', True) \<and> represents s' t' \<and>
        is_rbt t' \<and> map_rbt entry t' = et \<and> set (inorder t') = insert n (set (inorder t))"
proof (cases "tree_insert (d \<circ> entry) n t")
  case None
  with ptr_insert_refines[OF assms, of "d \<circ> entry"] show ?thesis by (simp add: tree_insert_map)
next
  case (Some t')
  have "set (inorder t') = insert n (set (inorder t))"
    using tree_insert_Some(2)[OF Some] by auto
  with Some ptr_insert_refines[OF assms, of "d \<circ> entry"] show ?thesis
    by (auto simp: tree_insert_map)
qed

text \<open>The store of the insertion example with the keys 10, 20, 30 in it, and the new key 25.\<close>

definition example_entry :: "addr \<Rightarrow> u64" where
  "example_entry a = (if a = 32 then 10 else if a = 16 then 20 else if a = 48 then 30 else 25)"

definition example_turn :: "u64 \<Rightarrow> turn" where
  "example_turn e = (if 25 < e then GoLeft else if e < 25 then GoRight else Found)"

theorem client_insert_refines_witness:
  "\<exists>s' t'. ptr_insert example_store (example_turn \<circ> example_entry) 64 = Some (s', True) \<and>
     represents s' t' \<and> is_rbt t' \<and> inorder (map_rbt example_entry t') = [10, 20, 25, 30]"
proof -
  let ?t = "plug example_ctx Leaf"
  have r: "represents example_store ?t"
    by (simp add: represents_def example_store_def example_ctx_def node_at_def aligned_def)
  have b: "is_rbt ?t" by (simp add: is_rbt_def example_ctx_def)
  have k: "find_link example_turn (map_rbt example_entry ?t) [] =
      Some [LeftOf RB_RED 30 Leaf, RightOf RB_BLACK (Node RB_RED Leaf 10 Leaf) 20]"
    by (simp add: example_ctx_def example_entry_def example_turn_def)
  have "case tree_insert example_turn (example_entry 64) (map_rbt example_entry ?t) of
      None \<Rightarrow> ptr_insert example_store (example_turn \<circ> example_entry) 64 = Some (example_store, False)
    | Some et \<Rightarrow> \<exists>s' t'. ptr_insert example_store (example_turn \<circ> example_entry) 64 = Some (s', True) \<and>
        represents s' t' \<and> is_rbt t' \<and> map_rbt example_entry t' = et \<and>
        set (inorder t') = insert 64 (set (inorder ?t))"
    by (rule client_insert_refines[OF r b])
       (simp_all add: aligned_def example_store_def example_ctx_def)
  then obtain s' t' where st: "ptr_insert example_store (example_turn \<circ> example_entry) 64 = Some (s', True)"
      "represents s' t'" "is_rbt t'"
      "map_rbt example_entry t' = link_color (example_entry 64)
        [LeftOf RB_RED 30 Leaf, RightOf RB_BLACK (Node RB_RED Leaf 10 Leaf) 20]"
    using k by (auto simp: tree_insert_def)
  have "inorder (map_rbt example_entry t') = [10, 20, 25, 30]"
    unfolding st(4) inorder_link_color by (simp add: example_entry_def)
  with st show ?thesis by blast
qed

end
