(* ===== verification/Rbtree_Erase.thy ===== *)
theory Rbtree_Erase
  imports Rbtree_Insert
begin

text \<open>
  The pointer code of the erasure (src/utils/rbtree.c): \<open>__rb_erase_augmented\<close> unlinks a node,
  \<open>____rb_erase_color\<close> repairs the black heights, \<open>rb_erase\<close> composes them. The callbacks of the
  augmented variants are the no-op \<open>dummy_*\<close> functions. The refinement proof shows that on a
  store that represents a red-black tree the code faults nowhere, returns, and leaves a store
  that represents \<open>erase_at\<close> of that tree.
\<close>

section \<open>Unlinking a node\<close>

text \<open>The loop \<open>do ... while (tmp)\<close> of case 3; it returns \<open>parent\<close> and \<open>successor\<close>.\<close>

partial_function (option) leftmost_successor :: "rb_store \<Rightarrow> addr \<Rightarrow> addr \<Rightarrow> (addr \<times> addr) option" where
  "leftmost_successor s successor tmp = do {
     n \<leftarrow> deref s tmp;
     if rb_left n = NULL then Some (successor, tmp)
     else leftmost_successor s tmp (rb_left n) }"

text \<open>
  The search for the successor of a node with two children, cases 2 and 3: the store, the
  successor, the parent of its former place and its right child.
\<close>

definition erase_successor :: "rb_store \<Rightarrow> addr \<Rightarrow> (rb_store \<times> addr \<times> addr \<times> addr) option" where
  "erase_successor s child = do {
     c \<leftarrow> deref s child;
     if rb_left c = NULL then Some (s, child, child, rb_right c)
     else do {
       (parent, successor) \<leftarrow> leftmost_successor s child (rb_left c);
       n \<leftarrow> deref s successor;
       let child2 = rb_right n;
       s \<leftarrow> set_left s parent child2;
       s \<leftarrow> set_right s successor child;
       s \<leftarrow> rb_set_parent s child successor;
       Some (s, successor, parent, child2) } }"

text \<open>The rest of that branch: the successor takes the place and the color of the node.\<close>

definition erase_take_place ::
  "rb_store \<Rightarrow> addr \<Rightarrow> addr \<Rightarrow> addr \<Rightarrow> addr \<Rightarrow> (rb_store \<times> addr) option" where
  "erase_take_place s node successor parent child2 = do {
     n \<leftarrow> deref s node;
     let tmp = rb_left n;
     s \<leftarrow> set_left s successor tmp;
     s \<leftarrow> rb_set_parent s tmp successor;
     n \<leftarrow> deref s node;
     let pc = rb_parent_color n;
     s \<leftarrow> rb_change_child s node successor (pc_parent pc);
     if child2 \<noteq> NULL then do {
       s \<leftarrow> set_pc s successor pc;
       s \<leftarrow> rb_set_parent_color s child2 parent RB_BLACK;
       Some (s, NULL) }
     else do {
       n \<leftarrow> deref s successor;
       let pc2 = rb_parent_color n;
       s \<leftarrow> set_pc s successor pc;
       Some (s, if pc_is_black pc2 then parent else NULL) } }"

text \<open>\<open>__rb_erase_augmented\<close>: the store and the node where the repair starts, or NULL.\<close>

definition rb_erase_augmented :: "rb_store \<Rightarrow> addr \<Rightarrow> (rb_store \<times> addr) option" where
  "rb_erase_augmented s node = do {
     n \<leftarrow> deref s node;
     let child = rb_right n;
     let tmp = rb_left n;
     let pc = rb_parent_color n;
     let parent = pc_parent pc;
     if tmp = NULL then do {
       s \<leftarrow> rb_change_child s node child parent;
       if child \<noteq> NULL then do { s \<leftarrow> set_pc s child pc; Some (s, NULL) }
       else Some (s, if pc_is_black pc then parent else NULL) }
     else if child = NULL then do {
       s \<leftarrow> set_pc s tmp pc;
       s \<leftarrow> rb_change_child s node tmp parent;
       Some (s, NULL) }
     else do {
       (s, successor, parent, child2) \<leftarrow> erase_successor s child;
       erase_take_place s node successor parent child2 } }"

section \<open>Repairing the black heights\<close>

text \<open>Case 1: the red sibling is rotated above the parent; the new sibling is returned.\<close>

definition erase_rotate_red_left :: "rb_store \<Rightarrow> addr \<Rightarrow> addr \<Rightarrow> (rb_store \<times> addr) option" where
  "erase_rotate_red_left s parent sibling = do {
     n \<leftarrow> deref s sibling;
     let tmp1 = rb_left n;
     s \<leftarrow> set_right s parent tmp1;
     s \<leftarrow> set_left s sibling parent;
     s \<leftarrow> rb_set_parent_color s tmp1 parent RB_BLACK;
     s \<leftarrow> rb_rotate_set_parents s parent sibling RB_RED;
     Some (s, tmp1) }"

definition erase_rotate_red_right :: "rb_store \<Rightarrow> addr \<Rightarrow> addr \<Rightarrow> (rb_store \<times> addr) option" where
  "erase_rotate_red_right s parent sibling = do {
     n \<leftarrow> deref s sibling;
     let tmp1 = rb_right n;
     s \<leftarrow> set_left s parent tmp1;
     s \<leftarrow> set_right s sibling parent;
     s \<leftarrow> rb_set_parent_color s tmp1 parent RB_BLACK;
     s \<leftarrow> rb_rotate_set_parents s parent sibling RB_RED;
     Some (s, tmp1) }"

text \<open>Case 2: the sibling becomes red; the flag says that the loop moves up.\<close>

definition erase_flip :: "rb_store \<Rightarrow> addr \<Rightarrow> addr \<Rightarrow> (rb_store \<times> bool) option" where
  "erase_flip s parent sibling = do {
     s \<leftarrow> rb_set_parent_color s sibling parent RB_RED;
     p \<leftarrow> deref s parent;
     if rb_is_red p then do { s \<leftarrow> rb_set_black s parent; Some (s, False) }
     else Some (s, True) }"

text \<open>Case 3: the red inner nephew \<open>tmp2\<close> is rotated above the sibling.\<close>

definition erase_rotate_inner_left :: "rb_store \<Rightarrow> addr \<Rightarrow> addr \<Rightarrow> addr \<Rightarrow> rb_store option" where
  "erase_rotate_inner_left s parent sibling tmp2 = do {
     n \<leftarrow> deref s tmp2;
     let tmp1 = rb_right n;
     s \<leftarrow> set_left s sibling tmp1;
     s \<leftarrow> set_right s tmp2 sibling;
     s \<leftarrow> set_right s parent tmp2;
     blacken_child s tmp1 sibling }"

definition erase_rotate_inner_right :: "rb_store \<Rightarrow> addr \<Rightarrow> addr \<Rightarrow> addr \<Rightarrow> rb_store option" where
  "erase_rotate_inner_right s parent sibling tmp2 = do {
     n \<leftarrow> deref s tmp2;
     let tmp1 = rb_left n;
     s \<leftarrow> set_right s sibling tmp1;
     s \<leftarrow> set_left s tmp2 sibling;
     s \<leftarrow> set_left s parent tmp2;
     blacken_child s tmp1 sibling }"

text \<open>Case 4: the sibling is rotated above the parent and takes its color.\<close>

definition erase_rotate_outer_left :: "rb_store \<Rightarrow> addr \<Rightarrow> addr \<Rightarrow> addr \<Rightarrow> rb_store option" where
  "erase_rotate_outer_left s parent sibling tmp1 = do {
     n \<leftarrow> deref s sibling;
     let tmp2 = rb_left n;
     s \<leftarrow> set_right s parent tmp2;
     s \<leftarrow> set_left s sibling parent;
     s \<leftarrow> rb_set_parent_color s tmp1 sibling RB_BLACK;
     s \<leftarrow> (if tmp2 \<noteq> NULL then rb_set_parent s tmp2 parent else Some s);
     rb_rotate_set_parents s parent sibling RB_BLACK }"

definition erase_rotate_outer_right :: "rb_store \<Rightarrow> addr \<Rightarrow> addr \<Rightarrow> addr \<Rightarrow> rb_store option" where
  "erase_rotate_outer_right s parent sibling tmp1 = do {
     n \<leftarrow> deref s sibling;
     let tmp2 = rb_right n;
     s \<leftarrow> set_left s parent tmp2;
     s \<leftarrow> set_right s sibling parent;
     s \<leftarrow> rb_set_parent_color s tmp1 sibling RB_BLACK;
     s \<leftarrow> (if tmp2 \<noteq> NULL then rb_set_parent s tmp2 parent else Some s);
     rb_rotate_set_parents s parent sibling RB_BLACK }"

text \<open>Cases 2 to 4 at a black sibling; the flag says that the loop moves up.\<close>

definition erase_fix_left :: "rb_store \<Rightarrow> addr \<Rightarrow> addr \<Rightarrow> (rb_store \<times> bool) option" where
  "erase_fix_left s parent sibling = do {
     n \<leftarrow> deref s sibling;
     let tmp1 = rb_right n;
     black1 \<leftarrow> black_ptr s tmp1;
     if black1 then do {
       let tmp2 = rb_left n;
       black2 \<leftarrow> black_ptr s tmp2;
       if black2 then erase_flip s parent sibling
       else do {
         s \<leftarrow> erase_rotate_inner_left s parent sibling tmp2;
         s \<leftarrow> erase_rotate_outer_left s parent tmp2 sibling;
         Some (s, False) } }
     else do {
       s \<leftarrow> erase_rotate_outer_left s parent sibling tmp1;
       Some (s, False) } }"

definition erase_fix_right :: "rb_store \<Rightarrow> addr \<Rightarrow> addr \<Rightarrow> (rb_store \<times> bool) option" where
  "erase_fix_right s parent sibling = do {
     n \<leftarrow> deref s sibling;
     let tmp1 = rb_left n;
     black1 \<leftarrow> black_ptr s tmp1;
     if black1 then do {
       let tmp2 = rb_right n;
       black2 \<leftarrow> black_ptr s tmp2;
       if black2 then erase_flip s parent sibling
       else do {
         s \<leftarrow> erase_rotate_inner_right s parent sibling tmp2;
         s \<leftarrow> erase_rotate_outer_right s parent tmp2 sibling;
         Some (s, False) } }
     else do {
       s \<leftarrow> erase_rotate_outer_right s parent sibling tmp1;
       Some (s, False) } }"

text \<open>The two branches of the loop body.\<close>

definition erase_left :: "rb_store \<Rightarrow> addr \<Rightarrow> addr \<Rightarrow> (rb_store \<times> bool) option" where
  "erase_left s parent sibling = do {
     n \<leftarrow> deref s sibling;
     (s, sibling) \<leftarrow>
       (if rb_is_red n then erase_rotate_red_left s parent sibling else Some (s, sibling));
     erase_fix_left s parent sibling }"

definition erase_right :: "rb_store \<Rightarrow> addr \<Rightarrow> addr \<Rightarrow> (rb_store \<times> bool) option" where
  "erase_right s parent sibling = do {
     n \<leftarrow> deref s sibling;
     (s, sibling) \<leftarrow>
       (if rb_is_red n then erase_rotate_red_right s parent sibling else Some (s, sibling));
     erase_fix_right s parent sibling }"

text \<open>The loop \<open>while (true)\<close>; \<open>None\<close> also stands for not returning.\<close>

partial_function (option) rb_erase_color :: "rb_store \<Rightarrow> addr \<Rightarrow> addr \<Rightarrow> rb_store option" where
  "rb_erase_color s node parent = do {
     p \<leftarrow> deref s parent;
     (s, up) \<leftarrow> (if node \<noteq> rb_right p then erase_left s parent (rb_right p)
                 else erase_right s parent (rb_left p));
     if up then do {
       p \<leftarrow> deref s parent;
       if rb_parent p \<noteq> NULL then rb_erase_color s parent (rb_parent p) else Some s }
     else Some s }"

definition rb_erase :: "rb_store \<Rightarrow> addr \<Rightarrow> rb_store option" where
  "rb_erase s node = do {
     (s, rebalance) \<leftarrow> rb_erase_augmented s node;
     if rebalance \<noteq> NULL then rb_erase_color s NULL rebalance else Some s }"

section \<open>The rotations of an erasure\<close>

lemma rb_set_parent_bits [simp]:
  "aligned q \<Longrightarrow> ((q OR col c) AND 1) OR p = p OR col c"
  "aligned q \<Longrightarrow> (q AND 1) OR p = p"
  "((q OR 1) AND 1) OR p = p OR 1"
  subgoal by (simp add: pc_color_bit or.commute)
  subgoal by (simp add: aligned_and_1)
  subgoal by (simp add: bit.conj_disj_distrib2 or.commute)
  done

lemma erase_rotate_outer_left_exec:
  assumes "zip_in s (LeftOf c p (Node sc sl sa sr) # k) t" and "sr \<noteq> Leaf"
  shows "yields s (erase_rotate_outer_left s p sa (ptr sr)) k
    (Node c (Node RB_BLACK t p sl) sa (paint RB_BLACK sr))" (is "yields _ _ _ ?t")
proof (rule relinks_yields)
  have al: "aligned (cptr k)" using assms by (auto simp: zip_in_def dest: aligned_cptr)
  show "relinks s (erase_rotate_outer_left s p sa (ptr sr)) p k ?t"
    unfolding relinks_def using assms al
    by (cases sl; cases sr)
       (simp_all add: zip_in_def node_at_def, (elim conjE,
        simp add: erase_rotate_outer_left_def rb_set_parent_def exec_defs cong: if_cong,
        simp add: rb_rotate_set_parents_def exec_defs cong: if_cong,
        rule exI, rule conjI, rule refl, simp add: node_at_def)+)
qed (use assms in \<open>auto simp: zip_in_def node_at_def\<close>)

lemma erase_rotate_outer_right_exec:
  assumes "zip_in s (RightOf c (Node sc sl sa sr) p # k) t" and "sl \<noteq> Leaf"
  shows "yields s (erase_rotate_outer_right s p sa (ptr sl)) k
    (Node c (paint RB_BLACK sl) sa (Node RB_BLACK sr p t))" (is "yields _ _ _ ?t")
proof (rule relinks_yields)
  have al: "aligned (cptr k)" using assms by (auto simp: zip_in_def dest: aligned_cptr)
  show "relinks s (erase_rotate_outer_right s p sa (ptr sl)) p k ?t"
    unfolding relinks_def using assms al
    by (cases sl; cases sr)
       (simp_all add: zip_in_def node_at_def, (elim conjE,
        simp add: erase_rotate_outer_right_def rb_set_parent_def exec_defs cong: if_cong,
        simp add: rb_rotate_set_parents_def exec_defs cong: if_cong,
        rule exI, rule conjI, rule refl, simp add: node_at_def)+)
qed (use assms in \<open>auto simp: zip_in_def node_at_def\<close>)

text \<open>Cases 3 and 4 in a row: the inner nephew \<open>s2\<close> ends above the parent.\<close>

lemma erase_rotate_inner_left_exec:
  assumes "zip_in s (LeftOf c p (Node sc (Node c2 l2 s2 r2) sa sr) # k) t"
  shows "yields s (Option.bind (erase_rotate_inner_left s p sa s2) (\<lambda>s. erase_rotate_outer_left s p s2 sa)) k
    (Node c (Node RB_BLACK t p l2) s2 (Node RB_BLACK (paint RB_BLACK r2) sa sr))" (is "yields _ _ _ ?t")
proof (rule relinks_yields)
  have al: "aligned (cptr k)" using assms by (auto simp: zip_in_def dest: aligned_cptr)
  show "relinks s (Option.bind (erase_rotate_inner_left s p sa s2) (\<lambda>s. erase_rotate_outer_left s p s2 sa)) p k ?t"
    unfolding relinks_def using assms al
    by (cases l2; cases r2)
       (simp_all add: zip_in_def node_at_def, (elim conjE,
        simp add: erase_rotate_inner_left_def erase_rotate_outer_left_def rb_set_parent_def exec_defs cong: if_cong,
        simp add: rb_rotate_set_parents_def exec_defs cong: if_cong,
        rule exI, rule conjI, rule refl, simp add: node_at_def)+)
qed (use assms in \<open>auto simp: zip_in_def node_at_def\<close>)

lemma erase_rotate_inner_right_exec:
  assumes "zip_in s (RightOf c (Node sc sl sa (Node c2 l2 s2 r2)) p # k) t"
  shows "yields s (Option.bind (erase_rotate_inner_right s p sa s2) (\<lambda>s. erase_rotate_outer_right s p s2 sa)) k
    (Node c (Node RB_BLACK sl sa (paint RB_BLACK l2)) s2 (Node RB_BLACK r2 p t))" (is "yields _ _ _ ?t")
proof (rule relinks_yields)
  have al: "aligned (cptr k)" using assms by (auto simp: zip_in_def dest: aligned_cptr)
  show "relinks s (Option.bind (erase_rotate_inner_right s p sa s2) (\<lambda>s. erase_rotate_outer_right s p s2 sa)) p k ?t"
    unfolding relinks_def using assms al
    by (cases l2; cases r2)
       (simp_all add: zip_in_def node_at_def, (elim conjE,
        simp add: erase_rotate_inner_right_def erase_rotate_outer_right_def rb_set_parent_def exec_defs cong: if_cong,
        simp add: rb_rotate_set_parents_def exec_defs cong: if_cong,
        rule exI, rule conjI, rule refl, simp add: node_at_def)+)
qed (use assms in \<open>auto simp: zip_in_def node_at_def\<close>)

text \<open>Case 1 stands at the position of the new sibling, below the old one.\<close>

lemma erase_rotate_red_left_exec:
  assumes "zip_in s (LeftOf c p (Node RB_RED sl sa sr) # k) t" and "sl \<noteq> Leaf"
  shows "\<exists>s'. erase_rotate_red_left s p sa = Some (s', ptr sl) \<and>
    yields s (Some s') k (Node c (Node RB_RED t p (paint RB_BLACK sl)) sa sr)" (is "\<exists>s'. _ \<and> yields _ _ _ ?t")
proof -
  let ?res = "map_option fst (erase_rotate_red_left s p sa)"
  have al: "aligned (cptr k)" using assms by (auto simp: zip_in_def dest: aligned_cptr)
  have "relinks s ?res p k ?t"
    unfolding relinks_def using assms al
    by (cases sl)
       (simp_all add: zip_in_def node_at_def, (elim conjE,
        simp add: erase_rotate_red_left_def rb_set_parent_def exec_defs map_option_bind cong: if_cong,
        simp add: rb_rotate_set_parents_def exec_defs comp_def cong: if_cong,
        rule exI, rule conjI, rule refl, simp add: node_at_def)+)
  then have y: "yields s ?res k ?t"
    by (rule relinks_yields) (use assms in \<open>auto simp: zip_in_def node_at_def\<close>)
  then obtain s' q where "erase_rotate_red_left s p sa = Some (s', q)"
    unfolding yields_def by auto
  moreover from this have "q = ptr sl"
    using assms by (auto simp: erase_rotate_red_left_def zip_in_def node_at_def deref_def Let_def
        split: bind_splits)
  ultimately show ?thesis using y by auto
qed

lemma erase_rotate_red_right_exec:
  assumes "zip_in s (RightOf c (Node RB_RED sl sa sr) p # k) t" and "sr \<noteq> Leaf"
  shows "\<exists>s'. erase_rotate_red_right s p sa = Some (s', ptr sr) \<and>
    yields s (Some s') k (Node c sl sa (Node RB_RED (paint RB_BLACK sr) p t))" (is "\<exists>s'. _ \<and> yields _ _ _ ?t")
proof -
  let ?res = "map_option fst (erase_rotate_red_right s p sa)"
  have al: "aligned (cptr k)" using assms by (auto simp: zip_in_def dest: aligned_cptr)
  have "relinks s ?res p k ?t"
    unfolding relinks_def using assms al
    by (cases sr)
       (simp_all add: zip_in_def node_at_def, (elim conjE,
        simp add: erase_rotate_red_right_def rb_set_parent_def exec_defs map_option_bind cong: if_cong,
        simp add: rb_rotate_set_parents_def exec_defs comp_def cong: if_cong,
        rule exI, rule conjI, rule refl, simp add: node_at_def)+)
  then have y: "yields s ?res k ?t"
    by (rule relinks_yields) (use assms in \<open>auto simp: zip_in_def node_at_def\<close>)
  then obtain s' q where "erase_rotate_red_right s p sa = Some (s', q)"
    unfolding yields_def by auto
  moreover from this have "q = ptr sr"
    using assms by (auto simp: erase_rotate_red_right_def zip_in_def node_at_def deref_def Let_def
        split: bind_splits)
  ultimately show ?thesis using y by auto
qed

section \<open>The cases at a black sibling\<close>

lemma erase_flip_left:
  assumes "zip_in s (LeftOf c p (Node sc sl sa sr) # k) t"
  shows "\<exists>s'. erase_flip s p sa = Some (s', c = RB_BLACK) \<and>
    yields s (Some s') k (Node RB_BLACK t p (Node RB_RED sl sa sr))"
proof -
  have "aligned (cptr k)" using assms by (auto simp: zip_in_def dest: aligned_cptr)
  with assms show ?thesis
    by (cases c) (auto simp: yields_def zip_in_def erase_flip_def rb_set_black_def exec_defs node_at_def)
qed

lemma erase_flip_right:
  assumes "zip_in s (RightOf c (Node sc sl sa sr) p # k) t"
  shows "\<exists>s'. erase_flip s p sa = Some (s', c = RB_BLACK) \<and>
    yields s (Some s') k (Node RB_BLACK (Node RB_RED sl sa sr) p t)"
proof -
  have "aligned (cptr k)" using assms by (auto simp: zip_in_def dest: aligned_cptr)
  with assms show ?thesis
    by (cases c) (auto simp: yields_def zip_in_def erase_flip_def rb_set_black_def exec_defs node_at_def)
qed

text \<open>\<open>fixes_to s res k d\<close>: the loop body ends with the subtree and the flag of \<open>d\<close>.\<close>

definition fixes_to :: "rb_store \<Rightarrow> (rb_store \<times> bool) option \<Rightarrow> addr ctx \<Rightarrow> addr rbt \<times> bool \<Rightarrow> bool" where
  "fixes_to s res k d \<longleftrightarrow> (\<exists>s'. res = Some (s', snd d) \<and> yields s (Some s') k (fst d))"

lemma fixes_to_rotation:
  "yields s res k t \<Longrightarrow> fixes_to s (Option.bind res (\<lambda>s. Some (s, False))) k (t, False)"
  by (auto simp: fixes_to_def yields_def)

lemma erase_fix_left_exec:
  assumes z: "zip_in s (LeftOf c p (Node sc sl sa sr) # k) t"
  shows "fixes_to s (erase_fix_left s p sa) k (del_left c t p (Node sc sl sa sr))"
proof -
  from z have sib: "mem s sa = Some \<lparr>rb_parent_color = p OR col sc, rb_right = ptr sr, rb_left = ptr sl\<rparr>"
      "sa \<noteq> NULL" "aligned sa" "tree_in (mem s) sa sl" "tree_in (mem s) sa sr"
    by (auto simp: zip_in_def node_at_def)
  note black = black_ptr_tree[OF sib(4,3)] black_ptr_tree[OF sib(5,3)]
  show ?thesis
  proof (cases "color_of sr = RB_RED")
    case True
    then have "sr \<noteq> Leaf" by auto
    from fixes_to_rotation[OF erase_rotate_outer_left_exec[OF z this]] True sib(1,2) black show ?thesis
      by (simp add: erase_fix_left_def deref_def Let_def)
  next
    case outer: False
    show ?thesis
    proof (cases "color_of sl = RB_RED")
      case True
      then obtain l2 s2 r2 where sl: "sl = Node RB_RED l2 s2 r2" by (cases sl) auto
      from fixes_to_rotation[OF erase_rotate_inner_left_exec[OF z[unfolded sl]]] outer sl sib(1,2) black
      show ?thesis by (simp add: erase_fix_left_def deref_def Let_def)
    next
      case False
      then have "del_left c t p (Node sc sl sa sr) = (Node RB_BLACK t p (Node RB_RED sl sa sr), c = RB_BLACK)"
        using outer by (cases sl) (auto split: rb_color.split)
      with erase_flip_left[OF z] outer False sib(1,2) black show ?thesis
        by (simp add: erase_fix_left_def deref_def Let_def fixes_to_def)
    qed
  qed
qed

lemma erase_fix_right_exec:
  assumes z: "zip_in s (RightOf c (Node sc sl sa sr) p # k) t"
  shows "fixes_to s (erase_fix_right s p sa) k (del_right c (Node sc sl sa sr) p t)"
proof -
  from z have sib: "mem s sa = Some \<lparr>rb_parent_color = p OR col sc, rb_right = ptr sr, rb_left = ptr sl\<rparr>"
      "sa \<noteq> NULL" "aligned sa" "tree_in (mem s) sa sl" "tree_in (mem s) sa sr"
    by (auto simp: zip_in_def node_at_def)
  note black = black_ptr_tree[OF sib(4,3)] black_ptr_tree[OF sib(5,3)]
  show ?thesis
  proof (cases "color_of sl = RB_RED")
    case True
    then have "sl \<noteq> Leaf" by auto
    from fixes_to_rotation[OF erase_rotate_outer_right_exec[OF z this]] True sib(1,2) black show ?thesis
      by (simp add: erase_fix_right_def deref_def Let_def)
  next
    case outer: False
    show ?thesis
    proof (cases "color_of sr = RB_RED")
      case True
      then obtain l2 s2 r2 where sr: "sr = Node RB_RED l2 s2 r2" by (cases sr) auto
      from fixes_to_rotation[OF erase_rotate_inner_right_exec[OF z[unfolded sr]]] outer sr sib(1,2) black
      show ?thesis by (simp add: erase_fix_right_def deref_def Let_def)
    next
      case False
      then have "del_right c (Node sc sl sa sr) p t = (Node RB_BLACK (Node RB_RED sl sa sr) p t, c = RB_BLACK)"
        using outer by (cases sr) (auto split: rb_color.split)
      with erase_flip_right[OF z] outer False sib(1,2) black show ?thesis
        by (simp add: erase_fix_right_def deref_def Let_def fixes_to_def)
    qed
  qed
qed

section \<open>The loop body\<close>

lemma yields_frame: "yields s res (f # k) t \<longleftrightarrow> yields s res k (plug [f] t)"
  using yields_plug[of s res "f # k" t] yields_plug[of s res k "plug [f] t"]
  by (cases f) auto

lemma del_left_red [simp]: "snd (del_left RB_RED t p s) = False"
  by (cases s) (auto split: rbt.split rb_color.split)

lemma del_right_red [simp]: "snd (del_right RB_RED s p t) = False"
  by (cases s) (auto split: rbt.split rb_color.split)

lemma erase_left_exec:
  assumes z: "zip_in s (LeftOf c p (Node sc sl sa sr) # k) t" and "sc = RB_RED \<Longrightarrow> sl \<noteq> Leaf"
  shows "fixes_to s (erase_left s p sa) k
    (if sc = RB_RED then (Node c (fst (del_left RB_RED t p (paint RB_BLACK sl))) sa sr, False)
     else del_left c t p (Node sc sl sa sr))"
proof -
  from z have sib: "mem s sa = Some \<lparr>rb_parent_color = p OR col sc, rb_right = ptr sr, rb_left = ptr sl\<rparr>"
      "sa \<noteq> NULL" "aligned p" by (auto simp: zip_in_def node_at_def)
  show ?thesis
  proof (cases sc)
    case RB_RED
    let ?k = "LeftOf c sa sr # k"
    from assms RB_RED obtain b l2 s2 r2 where sl: "sl = Node b l2 s2 r2" by (cases sl) auto
    obtain s1 where s1: "erase_rotate_red_left s p sa = Some (s1, s2)"
        "yields s (Some s1) ?k (Node RB_RED t p (Node RB_BLACK l2 s2 r2))"
      using erase_rotate_red_left_exec[OF z[unfolded RB_RED]] sl by (auto simp: yields_frame)
    then have "zip_in s1 (LeftOf RB_RED p (Node RB_BLACK l2 s2 r2) # ?k) t"
      by (auto simp: yields_def zip_in_plug[of s1 _ ?k])
    from erase_fix_left_exec[OF this] obtain s2' where s2:
        "erase_fix_left s1 p s2 = Some (s2', False)"
        "yields s1 (Some s2') ?k (fst (del_left RB_RED t p (Node RB_BLACK l2 s2 r2)))"
      by (auto simp: fixes_to_def simp del: del_left.simps)
    have "yields s (Some s2') ?k (fst (del_left RB_RED t p (Node RB_BLACK l2 s2 r2)))"
      by (rule yields_trans[OF s1(2) s2(2)]) (simp add: inorder_del_left del: del_left.simps)
    with s1(1) s2(1) sib RB_RED sl show ?thesis
      by (simp add: erase_left_def deref_def rb_is_red_def fixes_to_def yields_frame del: del_left.simps)
  next
    case RB_BLACK
    with erase_fix_left_exec[OF z] sib show ?thesis
      by (simp add: erase_left_def deref_def rb_is_red_def del: del_left.simps)
  qed
qed

lemma erase_right_exec:
  assumes z: "zip_in s (RightOf c (Node sc sl sa sr) p # k) t" and "sc = RB_RED \<Longrightarrow> sr \<noteq> Leaf"
  shows "fixes_to s (erase_right s p sa) k
    (if sc = RB_RED then (Node c sl sa (fst (del_right RB_RED (paint RB_BLACK sr) p t)), False)
     else del_right c (Node sc sl sa sr) p t)"
proof -
  from z have sib: "mem s sa = Some \<lparr>rb_parent_color = p OR col sc, rb_right = ptr sr, rb_left = ptr sl\<rparr>"
      "sa \<noteq> NULL" "aligned p" by (auto simp: zip_in_def node_at_def)
  show ?thesis
  proof (cases sc)
    case RB_RED
    let ?k = "RightOf c sl sa # k"
    from assms RB_RED obtain b l2 s2 r2 where sr: "sr = Node b l2 s2 r2" by (cases sr) auto
    obtain s1 where s1: "erase_rotate_red_right s p sa = Some (s1, s2)"
        "yields s (Some s1) ?k (Node RB_RED (Node RB_BLACK l2 s2 r2) p t)"
      using erase_rotate_red_right_exec[OF z[unfolded RB_RED]] sr by (auto simp: yields_frame)
    then have "zip_in s1 (RightOf RB_RED (Node RB_BLACK l2 s2 r2) p # ?k) t"
      by (auto simp: yields_def zip_in_plug[of s1 _ ?k])
    from erase_fix_right_exec[OF this] obtain s2' where s2:
        "erase_fix_right s1 p s2 = Some (s2', False)"
        "yields s1 (Some s2') ?k (fst (del_right RB_RED (Node RB_BLACK l2 s2 r2) p t))"
      by (auto simp: fixes_to_def simp del: del_right.simps)
    have "yields s (Some s2') ?k (fst (del_right RB_RED (Node RB_BLACK l2 s2 r2) p t))"
      by (rule yields_trans[OF s1(2) s2(2)]) (simp add: inorder_del_right del: del_right.simps)
    with s1(1) s2(1) sib RB_RED sr show ?thesis
      by (simp add: erase_right_def deref_def rb_is_red_def fixes_to_def yields_frame del: del_right.simps)
  next
    case RB_BLACK
    with erase_fix_right_exec[OF z] sib show ?thesis
      by (simp add: erase_right_def deref_def rb_is_red_def del: del_right.simps)
  qed
qed

section \<open>The loop\<close>

text \<open>
  One round: the body leaves the subtree \<open>t'\<close> at \<open>k\<close>; either the loop ends there or it goes on at
  the parent of \<open>t'\<close>, unless that is the root.
\<close>

lemma rb_erase_color_round:
  assumes body: "fixes_to s (if node \<noteq> rb_right q then erase_left s p (rb_right q)
      else erase_right s p (rb_left q)) k (t', again)"
    and q: "deref s p = Some q" and root: "again \<Longrightarrow> ptr t' = p"
    and rec: "\<And>s'. again \<Longrightarrow> zip_in s' k t' \<Longrightarrow> k \<noteq> [] \<Longrightarrow>
      yields s' (rb_erase_color s' (ptr t') (cptr k)) [] (del_fix t' k)"
  shows "yields s (rb_erase_color s node p) [] (if again then del_fix t' k else plug k t')"
proof -
  from body obtain s' where s': "(if node \<noteq> rb_right q then erase_left s p (rb_right q)
      else erase_right s p (rb_left q)) = Some (s', again)" "yields s (Some s') k t'"
    by (auto simp: fixes_to_def)
  have z: "zip_in s' k t'" using s'(2) by (simp add: yields_def)
  show ?thesis
  proof (cases again)
    case False
    with s' q show ?thesis by (simp add: rb_erase_color.simps[of s] yields_plug[of _ _ k])
  next
    case True
    have p: "\<exists>q'. deref s' p = Some q' \<and> rb_parent q' = cptr k"
      using z root[OF True] q
      by (cases t') (auto simp: zip_in_def node_at_def deref_def rb_parent_def dest: aligned_cptr)
    have nil: "cptr k = NULL \<longleftrightarrow> k = []" using z by (auto simp: zip_in_def cptr_NULL)
    show ?thesis
    proof (cases "k = []")
      case True
      with s' q p nil \<open>again\<close> show ?thesis
        by (auto simp: rb_erase_color.simps[of s])
    next
      case False
      have "yields s (rb_erase_color s' (ptr t') (cptr k)) [] (del_fix t' k)"
        by (rule yields_trans[OF s'(2) rec[OF True z False]]) (simp add: inorder_del_fix)
      with s'(1) q p nil True False root show ?thesis
        by (auto simp: rb_erase_color.simps[of s])
    qed
  qed
qed

text \<open>
  The repair loop on a store with a black subtree \<open>t\<close> at \<open>k\<close> that misses one black node: it
  returns, and the store it leaves represents \<open>del_fix t k\<close>. The heights give every round a
  sibling, and a red sibling black children.
\<close>

lemma rb_erase_color_refines:
  assumes "zip_in s k t" and "k \<noteq> []"
    and "inv_color t" "inv_height t" "color_of t = RB_BLACK" and "fits k RB_BLACK (Suc (bheight t))"
  shows "yields s (rb_erase_color s (ptr t) (cptr k)) [] (del_fix t k)"
  using assms
proof (induction t k arbitrary: s rule: del_fix.induct)
  case (1 t)
  then show ?case by simp
next
  case (2 t c p sib k)
  note t = "2.prems"(3-5) and fit = "2.prems"(6)
  from fit obtain sc sl sa sr where sib: "sib = Node sc sl sa sr" by (rule fits_left_sibling)
  note z = "2.prems"(1)[unfolded sib]
  have red: "sc = RB_RED \<Longrightarrow> sl \<noteq> Leaf" using fit sib by auto
  define d where "d = (if sc = RB_RED
      then (Node c (fst (del_left RB_RED t p (paint RB_BLACK sl))) sa sr, False)
      else del_left c t p (Node sc sl sa sr))"
  obtain t' again where d': "d = (t', again)" by (cases d)
  let ?q = "\<lparr>rb_parent_color = cptr k OR col c, rb_right = sa, rb_left = ptr t\<rparr>"
  have q: "deref s p = Some ?q" using z by (simp add: zip_in_def node_at_def deref_def)
  have ne: "ptr t \<noteq> sa" using z by (cases t) (auto simp: zip_in_def node_at_def)
  have up: "sc = RB_BLACK" "del_left c t p sib = (t', True)" if again
    using d' that sib by (auto simp: d_def split: if_splits)
  have inv: "inv_color t' \<and> inv_height t' \<and> c = RB_BLACK \<and> color_of t' = RB_BLACK \<and> bheight t' = bheight sib"
    if again using del_left_inv[OF t _ _ _ _ up(2)[OF that]] fit sib up(1)[OF that] by auto
  have root: "ptr t' = p" if again
    using up(2)[OF that] sib by (auto split: if_splits rbt.splits rb_color.splits)
  have "yields s (rb_erase_color s (ptr t) p) [] (if again then del_fix t' k else plug k t')"
  proof (rule rb_erase_color_round[OF _ q root])
    show "fixes_to s (if ptr t \<noteq> rb_right ?q then erase_left s p (rb_right ?q)
        else erase_right s p (rb_left ?q)) k (t', again)"
      using erase_left_exec[OF z red] ne by (simp add: d_def[symmetric] d')
    show "yields s' (rb_erase_color s' (ptr t') (cptr k)) [] (del_fix t' k)"
      if a: again and "zip_in s' k t'" "k \<noteq> []" for s'
      by (rule "2.IH"(2)[OF sib up(1)[OF a] up(2)[OF a, symmetric]]) (use that inv fit in auto)
  qed
  moreover have "del_fix t (LeftOf c p sib # k) = (if again then del_fix t' k else plug k t')"
    using d' sib by (cases sc) (auto simp: d_def simp del: del_left.simps)
  ultimately show ?case by simp
next
  case (3 t c sib p k)
  note t = "3.prems"(3-5) and fit = "3.prems"(6)
  from fit obtain sc sl sa sr where sib: "sib = Node sc sl sa sr" by (rule fits_right_sibling)
  note z = "3.prems"(1)[unfolded sib]
  have red: "sc = RB_RED \<Longrightarrow> sr \<noteq> Leaf" using fit sib by auto
  define d where "d = (if sc = RB_RED
      then (Node c sl sa (fst (del_right RB_RED (paint RB_BLACK sr) p t)), False)
      else del_right c (Node sc sl sa sr) p t)"
  obtain t' again where d': "d = (t', again)" by (cases d)
  let ?q = "\<lparr>rb_parent_color = cptr k OR col c, rb_right = ptr t, rb_left = sa\<rparr>"
  have q: "deref s p = Some ?q" using z by (simp add: zip_in_def node_at_def deref_def)
  have up: "sc = RB_BLACK" "del_right c sib p t = (t', True)" if again
    using d' that sib by (auto simp: d_def split: if_splits)
  have inv: "inv_color t' \<and> inv_height t' \<and> c = RB_BLACK \<and> color_of t' = RB_BLACK \<and> bheight t' = bheight sib"
    if again using del_right_inv[OF t _ _ _ _ up(2)[OF that]] fit sib up(1)[OF that] by auto
  have root: "ptr t' = p" if again
    using up(2)[OF that] sib by (auto split: if_splits rbt.splits rb_color.splits)
  have "yields s (rb_erase_color s (ptr t) p) [] (if again then del_fix t' k else plug k t')"
  proof (rule rb_erase_color_round[OF _ q root])
    show "fixes_to s (if ptr t \<noteq> rb_right ?q then erase_left s p (rb_right ?q)
        else erase_right s p (rb_left ?q)) k (t', again)"
      using erase_right_exec[OF z red] by (simp add: d_def[symmetric] d')
    show "yields s' (rb_erase_color s' (ptr t') (cptr k)) [] (del_fix t' k)"
      if a: again and "zip_in s' k t'" "k \<noteq> []" for s'
      by (rule "3.IH"(2)[OF sib up(1)[OF a] up(2)[OF a, symmetric]]) (use that inv fit in auto)
  qed
  moreover have "del_fix t (RightOf c sib p # k) = (if again then del_fix t' k else plug k t')"
    using d' sib by (cases sc) (auto simp: d_def simp del: del_right.simps)
  ultimately show ?case by simp
qed

section \<open>Unlinking, on trees\<close>

text \<open>
  What \<open>__rb_erase_augmented\<close> leaves: a position, the subtree there, and whether that subtree
  misses a black node.
\<close>

definition erase_link :: "rb_color \<Rightarrow> 'a rbt \<Rightarrow> 'a \<Rightarrow> 'a rbt \<Rightarrow> 'a ctx \<Rightarrow> 'a ctx \<times> 'a rbt \<times> bool" where
  "erase_link c l a r k =
     (if l = Leaf then (k, paint c r, r = Leaf \<and> c = RB_BLACK)
      else if r = Leaf then (k, paint c l, False)
      else case split_min r [] of (ks, cs, s, child2) \<Rightarrow>
        (ks @ RightOf c l s # k, paint RB_BLACK child2, child2 = Leaf \<and> cs = RB_BLACK))"

lemma erase_at_link:
  "erase_at c l a r k =
     (case erase_link c l a r k of (k', t', again) \<Rightarrow> if again then del_fix t' k' else plug k' t')"
  by (cases l; cases r) (auto simp: erase_link_def Let_def split: prod.split rbt.split)

section \<open>Unlinking, in the store\<close>

text \<open>The word with parent and color of the root of a subtree is written.\<close>

definition set_root :: "(addr \<Rightarrow> rb_node option) \<Rightarrow> addr rbt \<Rightarrow> addr \<Rightarrow> rb_color \<Rightarrow> addr \<Rightarrow> rb_node option" where
  "set_root m t par c = (if t = Leaf then m
     else m(ptr t \<mapsto> (the (m (ptr t)))\<lparr>rb_parent_color := par OR col c\<rparr>))"

lemma tree_in_set_root:
  "tree_in m par t \<Longrightarrow> distinct (inorder t) \<Longrightarrow> tree_in (set_root m t par' c) par' (paint c t)"
  by (cases t) (auto simp: set_root_def node_at_def)

lemma set_root_other: "x \<noteq> ptr t \<Longrightarrow> set_root m t par c x = m x"
  by (simp add: set_root_def)

lemma set_root_none: "t \<noteq> Leaf \<Longrightarrow> m (ptr t) = Some n \<Longrightarrow>
    set_root m t par c = m(ptr t \<mapsto> n\<lparr>rb_parent_color := par OR col c\<rparr>)"
  by (simp add: set_root_def)

lemma ptr_paint [simp]: "ptr (paint c t) = ptr t"
  by (cases t) auto

lemma paint_color [simp]: "paint (color_of t) t = t"
  by (cases t) auto

definition pos_parent :: "addr \<Rightarrow> addr ctx \<Rightarrow> addr" where
  "pos_parent par k = (if k = [] then par else cptr k)"

lemma pos_parent_simps [simp]: "pos_parent par [] = par" "pos_parent par (f # k) = frame_addr f"
  by (simp_all add: pos_parent_def)

lemma tree_in_subtree: "tree_in m par (plug k t) \<Longrightarrow> tree_in m (pos_parent par k) t"
  by (induction k t arbitrary: rule: plug.induct) auto

lemma tree_in_replace:
  assumes "tree_in m par (plug k t)" and "tree_in m' (pos_parent par k) t'" and "ptr t' = ptr t"
    and "\<And>x. x \<in> set (before k) \<union> set (after k) \<Longrightarrow> m' x = m x"
  shows "tree_in m' par (plug k t')"
  using assms
proof (induction k t arbitrary: t' rule: plug.induct)
  case (2 c a r k t)
  from tree_in_subtree[OF "2.prems"(1)[unfolded plug.simps]]
  have sub: "node_at m a (pos_parent par k) c (ptr t) (ptr r)" "tree_in m a r" by auto
  have "tree_in m' a r" using sub(2) "2.prems"(4) tree_in_cong[of r m' m a] by auto
  moreover have "node_at m' a (pos_parent par k) c (ptr t') (ptr r)"
    using sub(1) "2.prems"(3,4) by (simp add: node_at_def)
  ultimately show ?case using "2.prems" by (auto intro!: "2.IH"[of "Node c t' a r", simplified])
next
  case (3 c l a k t)
  from tree_in_subtree[OF "3.prems"(1)[unfolded plug.simps]]
  have sub: "node_at m a (pos_parent par k) c (ptr l) (ptr t)" "tree_in m a l" by auto
  have "tree_in m' a l" using sub(2) "3.prems"(4) tree_in_cong[of l m' m a] by auto
  moreover have "node_at m' a (pos_parent par k) c (ptr l) (ptr t')"
    using sub(1) "3.prems"(3,4) by (simp add: node_at_def)
  ultimately show ?case using "3.prems" by (auto intro!: "3.IH"[of "Node c l a t'", simplified])
qed simp

lemma plug_root:
  "ptr t' = ptr t \<Longrightarrow> color_of t' = color_of t \<Longrightarrow>
   ptr (plug k t') = ptr (plug k t) \<and> color_of (plug k t') = color_of (plug k t)"
proof (induction k t arbitrary: t' rule: plug.induct)
  case (2 c a r k t)
  show ?case using "2.IH"[of "Node c t' a r"] by simp
next
  case (3 c l a k t)
  show ?case using "3.IH"[of "Node c l a t'"] by simp
qed simp

lemma plug_ptr: "ptr t' = ptr t \<Longrightarrow> ptr (plug k t') = ptr (plug k t)"
proof (induction k t arbitrary: t' rule: plug.induct)
  case (2 c a r k t)
  show ?case using "2.IH"[of "Node c t' a r"] by simp
next
  case (3 c l a k t)
  show ?case using "3.IH"[of "Node c l a t'"] by simp
qed simp

lemma ptr_plug_in: "k \<noteq> [] \<Longrightarrow> ptr (plug k t) \<in> set (before k) \<union> set (after k)"
proof (induction k t rule: plug.induct)
  case (2 c a r k t)
  then show ?case by (cases "k = []") auto
next
  case (3 c l a k t)
  then show ?case by (cases "k = []") auto
qed simp

lemma leftmost_successor_exec:
  assumes "tree_in (mem s) par t" and "t \<noteq> Leaf" and "split_min t k = (ks, cs, su, ch)" and "q = cptr k"
  shows "leftmost_successor s q (ptr t) = Some (cptr ks, su)"
  using assms
proof (induction t k arbitrary: par q rule: split_min.induct)
  case (1 c a r k)
  then show ?case by (simp add: leftmost_successor.simps deref_def node_at_def)
next
  case (2 c lc ll la lr a r k)
  from "2.prems" have "leftmost_successor s a (ptr (Node lc ll la lr)) = Some (cptr ks, su)"
    by (intro "2.IH"[of a]) auto
  with "2.prems" show ?case
    by (simp add: leftmost_successor.simps[of s "cptr k" a] deref_def node_at_def)
qed simp

lemma split_min_frame:
  assumes "split_min t (LeftOf c a r # k) = (ks, cs, su, ch)"
  obtains c1 p1 r1 kt where "ks = LeftOf c1 p1 r1 # kt"
proof -
  have "(\<exists>c a r k'. k = LeftOf c a r # k') \<Longrightarrow> split_min t k = (ks, cs, su, ch) \<Longrightarrow>
      \<exists>c1 p1 r1 kt. ks = LeftOf c1 p1 r1 # kt" for k
    by (induction t k rule: split_min.induct) auto
  with assms that show ?thesis by blast
qed

lemma tree_in_reparent:
  "tree_in m par t \<Longrightarrow> distinct (inorder t) \<Longrightarrow> tree_in (set_root m t par' (color_of t)) par' t"
  using tree_in_set_root[of m par t par' "color_of t"] by simp

text \<open>The node \<open>su\<close> is cut out below \<open>p1\<close>: the child \<open>ch\<close> takes its place.\<close>

lemma unlink_tree:
  assumes t: "tree_in m a (plug kt (Node c1 (Node cs Leaf su ch) p1 r1))"
    and dist: "distinct (inorder (plug kt (Node c1 (Node cs Leaf su ch) p1 r1)))"
    and m1: "m1 = m(p1 \<mapsto> \<lparr>rb_parent_color = pos_parent a kt OR col c1, rb_right = ptr r1, rb_left = ptr ch\<rparr>)"
  shows "tree_in (set_root m1 ch p1 RB_BLACK) a (plug kt (Node c1 (paint RB_BLACK ch) p1 r1))"
proof -
  let ?mv = "set_root m1 ch p1 RB_BLACK"
  have p1: "node_at m p1 (pos_parent a kt) c1 su (ptr r1)" "tree_in m p1 r1" "tree_in m su ch"
    using tree_in_subtree[OF t] by auto
  have out: "p1 \<notin> set (inorder ch)" "p1 \<notin> set (inorder r1)" "set (inorder ch) \<inter> set (inorder r1) = {}"
      "x \<in> set (before kt) \<union> set (after kt) \<Longrightarrow> x \<noteq> p1 \<and> x \<notin> set (inorder ch)" for x
    using dist by auto
  have mv: "?mv x = m1 x" if "x \<notin> set (inorder ch)" for x
    using ptr_in_inorder[of ch] that by (auto simp: set_root_def)
  have mvs: "?mv x = m x" if "x \<notin> set (inorder ch)" "x \<noteq> p1" for x
    using mv[OF that(1)] that(2) by (simp add: m1)
  show ?thesis
  proof (rule tree_in_replace[OF t])
    have "tree_in m1 su ch" using p1(3) out(1) by (simp add: m1)
    then have "tree_in ?mv p1 (paint RB_BLACK ch)" by (rule tree_in_set_root) (use dist in simp)
    moreover have "tree_in ?mv p1 r1 = tree_in m p1 r1"
      by (rule tree_in_cong, rule mvs) (use out in auto)
    moreover have "node_at ?mv p1 (pos_parent a kt) c1 (ptr ch) (ptr r1)"
      using p1(1) mv[OF out(1)] by (simp add: node_at_def m1)
    ultimately show "tree_in ?mv (pos_parent a kt) (Node c1 (paint RB_BLACK ch) p1 r1)"
      using p1(2) by simp
    show "?mv x = m x" if "x \<in> set (before kt) \<union> set (after kt)" for x
      using out(4)[OF that] by (simp add: mvs)
  qed simp
qed

text \<open>
  The statements of case 3: \<open>p1\<close> takes \<open>ch\<close> as its left child, the top \<open>y\<close> of the right subtree
  becomes the right child of \<open>su\<close>. But for the parent word of \<open>ch\<close>, the subtree then stands
  below \<open>su\<close>.
\<close>

lemma erase_successor_tree:
  assumes t: "tree_in m a (plug kt (Node c1 (Node cs Leaf su ch) p1 r1))"
    and dist: "distinct (inorder (plug kt (Node c1 (Node cs Leaf su ch) p1 r1)))"
    and m1: "m1 = m(p1 \<mapsto> \<lparr>rb_parent_color = pos_parent a kt OR col c1, rb_right = ptr r1, rb_left = ptr ch\<rparr>)"
    and T: "T = plug kt (Node c1 (paint RB_BLACK ch) p1 r1)"
    and ny: "m1 (ptr T) = Some ny"
    and m3: "m3 = m1(su \<mapsto> nsu, ptr T \<mapsto> ny\<lparr>rb_parent_color := su OR col (color_of T)\<rparr>)"
  shows "tree_in (set_root m3 ch p1 RB_BLACK) su T"
proof -
  let ?mv = "set_root m1 ch p1 RB_BLACK"
  have dT: "distinct (su # inorder T)" using dist by (auto simp: T)
  have TN: "T \<noteq> Leaf" unfolding T by (cases kt rule: before.cases) (auto dest: arg_cong[of _ _ inorder])
  have ty: "ptr T \<in> set (before (LeftOf c1 p1 r1 # kt)) \<union> set (after (LeftOf c1 p1 r1 # kt))"
    using ptr_plug_in[of "LeftOf c1 p1 r1 # kt" "paint RB_BLACK ch"] by (simp add: T)
  have ych: "ptr T \<notin> set (inorder ch)" using ty dist by auto
  have chN: "ptr ch \<in> set (inorder ch) \<or> ch = Leaf" using ptr_in_inorder[of ch] by blast
  have "tree_in (set_root ?mv T su (color_of T)) su T"
    using unlink_tree[OF t dist m1] dT by (intro tree_in_reparent) (auto simp: T)
  moreover have "tree_in (set_root m3 ch p1 RB_BLACK) su T = tree_in (set_root ?mv T su (color_of T)) su T"
  proof (rule tree_in_cong)
    fix x assume "x \<in> set (inorder T)"
    then have x: "x \<noteq> su" using dT by auto
    show "set_root m3 ch p1 RB_BLACK x = set_root ?mv T su (color_of T) x"
    proof (cases "x = ptr T")
      case True
      with ych chN x ny TN show ?thesis by (auto simp: set_root_def m3)
    next
      case False
      with x show ?thesis by (cases "x = ptr ch") (auto simp: set_root_def m3)
    qed
  qed
  ultimately show ?thesis by simp
qed

text \<open>
  After the search: the successor \<open>su\<close> has left its place, and below it stands the right subtree
  with \<open>ch\<close> in that place, but for the parent word of \<open>ch\<close>.
\<close>

definition searched :: "rb_store \<Rightarrow> rb_store \<Rightarrow> addr rbt \<Rightarrow> addr ctx \<Rightarrow> rb_color \<Rightarrow> addr \<Rightarrow> addr rbt \<Rightarrow> bool" where
  "searched s s1 r ks cs su ch \<longleftrightarrow> root_node s1 = root_node s \<and> su \<noteq> NULL \<and> aligned su \<and>
     (\<exists>x y. aligned x \<and>
       mem s1 su = Some \<lparr>rb_parent_color = x OR col cs, rb_right = ptr (plug ks ch), rb_left = y\<rparr>) \<and>
     (\<forall>z. z \<notin> set (inorder r) \<longrightarrow> mem s1 z = mem s z) \<and>
     (ch \<noteq> Leaf \<longrightarrow> mem s1 (ptr ch) \<noteq> None \<and> ptr ch \<noteq> NULL) \<and>
     tree_in (set_root (mem s1) ch (pos_parent su ks) RB_BLACK) su (plug ks (paint RB_BLACK ch))"

lemma erase_successor_next:
  assumes "tree_in (mem s) a (Node cs Leaf su ch)" "aligned a" "distinct (inorder (Node cs Leaf su ch))"
  shows "erase_successor s su = Some (s, su, su, ptr ch) \<and> searched s s (Node cs Leaf su ch) [] cs su ch"
proof -
  have "tree_in (set_root (mem s) ch su RB_BLACK) su (paint RB_BLACK ch)"
    by (rule tree_in_set_root[of _ su]) (use assms in auto)
  with assms show ?thesis
    by (cases ch) (auto simp: searched_def erase_successor_def deref_def node_at_def)
qed

lemma erase_successor_leftmost:
  assumes t: "tree_in (mem s) a r" "aligned a" "distinct (inorder r)" and r: "r = Node rc rl y rr" "rl \<noteq> Leaf"
    and m: "split_min r [] = (ks, cs, su, ch)"
  shows "\<exists>s1. erase_successor s y = Some (s1, su, cptr ks, ptr ch) \<and> ks \<noteq> [] \<and> searched s s1 r ks cs su ch"
proof -
  obtain lc ll la lr where rl: "rl = Node lc ll la lr" using r(2) by (cases rl) auto
  with m r have m': "split_min rl [LeftOf rc y rr] = (ks, cs, su, ch)" by simp
  then obtain c1 p1 r1 kt where ks: "ks = LeftOf c1 p1 r1 # kt" by (rule split_min_frame)
  have lm: "leftmost_successor s y la = Some (p1, su)"
    using leftmost_successor_exec[OF _ r(2) m', of s y y] t(1) r ks rl by simp
  have pl: "r = plug kt (Node c1 (Node cs Leaf su ch) p1 r1)"
    using split_min_plug[OF _ m] r ks by simp
  have p1: "node_at (mem s) p1 (pos_parent a kt) c1 su (ptr r1)" "node_at (mem s) su p1 cs NULL (ptr ch)"
      "tree_in (mem s) su ch"
    using tree_in_subtree[of "mem s" a kt "Node c1 (Node cs Leaf su ch) p1 r1"] t(1) pl by auto
  define m1 where "m1 = (mem s)(p1 \<mapsto> \<lparr>rb_parent_color = pos_parent a kt OR col c1, rb_right = ptr r1, rb_left = ptr ch\<rparr>)"
  define T where "T = plug kt (Node c1 (paint RB_BLACK ch) p1 r1)"
  have T: "ptr T = y" "color_of T = rc"
    using plug_root[of "Node c1 (paint RB_BLACK ch) p1 r1" "Node c1 (Node cs Leaf su ch) p1 r1" kt,
        folded pl, unfolded r(1)] by (simp_all add: T_def)
  have "ptr T \<in> set (before ks) \<union> set (after ks)"
    using ptr_plug_in[of ks "paint RB_BLACK ch"] by (simp add: T_def ks)
  then have ne: "y \<noteq> su" "p1 \<noteq> su" using t(3) ks T by (auto simp: pl)
  have ynode: "node_at (mem s) y a rc la (ptr rr)" using t(1) r rl by simp
  obtain ny where ny: "m1 y = Some ny" "(rb_parent_color ny AND 1) OR su = su OR col rc"
  proof (cases "y = p1")
    case True
    with ynode p1(1) have "pos_parent a kt OR col c1 = a OR col rc" by (auto simp: node_at_def)
    with True t(2) show ?thesis
      using that[of "\<lparr>rb_parent_color = a OR col rc, rb_right = ptr r1, rb_left = ptr ch\<rparr>"] by (simp add: m1_def)
  next
    case False
    with ynode t(2) show ?thesis
      using that[of "\<lparr>rb_parent_color = a OR col rc, rb_right = ptr rr, rb_left = la\<rparr>"]
      by (simp add: m1_def node_at_def)
  qed
  define m2 where "m2 = m1(su \<mapsto> \<lparr>rb_parent_color = p1 OR col cs, rb_right = y, rb_left = NULL\<rparr>)"
  define s1 where "s1 = s\<lparr>mem := m2(y \<mapsto> ny\<lparr>rb_parent_color := su OR col rc\<rparr>)\<rparr>"
  have la: "la \<noteq> NULL" using t(1) r rl by (simp add: node_at_def)
  have "set_left s p1 (ptr ch) = Some (s\<lparr>mem := m1\<rparr>)"
    using p1(1) by (simp add: set_left_def modify_def deref_def node_at_def m1_def)
  moreover have "set_right (s\<lparr>mem := m1\<rparr>) su y = Some (s\<lparr>mem := m2\<rparr>)"
    using p1(2) ne by (simp add: set_right_def modify_def deref_def node_at_def m1_def m2_def)
  moreover have "rb_set_parent (s\<lparr>mem := m2\<rparr>) y su = Some s1"
    using ny ne(1) ynode
    by (simp add: rb_set_parent_def set_pc_def modify_def deref_def node_at_def m2_def s1_def)
  ultimately have es: "erase_successor s y = Some (s1, su, p1, ptr ch)"
    using ynode la lm p1(2) by (simp add: erase_successor_def deref_def node_at_def Let_def)
  have s1: "root_node s1 = root_node s" "mem s1 = m1(su \<mapsto> \<lparr>rb_parent_color = p1 OR col cs, rb_right = y, rb_left = NULL\<rparr>,
        y \<mapsto> ny\<lparr>rb_parent_color := su OR col rc\<rparr>)" by (simp_all add: s1_def m2_def)
  have "tree_in (set_root (mem s1) ch p1 RB_BLACK) su T"
    by (rule erase_successor_tree[OF t(1)[unfolded pl] t(3)[unfolded pl] m1_def T_def]) (use T ny s1 in simp_all)
  moreover have "mem s1 z = mem s z" if "z \<notin> set (inorder r)" for z
  proof -
    have "p1 \<in> set (inorder r)" "su \<in> set (inorder r)" by (simp_all add: pl)
    moreover have "y \<in> set (inorder r)" by (simp add: r(1))
    ultimately show ?thesis using that by (auto simp: s1(2) m1_def)
  qed
  moreover have "ptr (plug ks ch) = y"
    using plug_root[of "Node c1 ch p1 r1" "Node c1 (paint RB_BLACK ch) p1 r1" kt] T ks by (simp add: T_def)
  moreover have "ch \<noteq> Leaf \<longrightarrow> mem s1 (ptr ch) \<noteq> None \<and> ptr ch \<noteq> NULL"
    using p1(3) by (cases ch) (auto simp: node_at_def s1(2) m1_def)
  ultimately show ?thesis
    using es s1 ne p1(1,2) ks by (auto simp: searched_def node_at_def T_def)
qed

text \<open>The successor takes the children of the erased node and its place below the parent.\<close>

lemma erase_take_place_relink:
  assumes z: "zip_in s k (Node c l a r)" and lN: "l = Node lc ll la lr" and se: "searched s s1 r ks cs su ch"
    and mem: "inorder r = su # inorder ch @ after ks"
  shows "\<exists>s2 s3 s4 x. mem s1 a = Some \<lparr>rb_parent_color = cptr k OR col c, rb_right = ptr r, rb_left = la\<rparr> \<and> a \<noteq> NULL \<and> aligned x \<and>
    set_left s1 su la = Some s2 \<and> rb_set_parent s2 la su = Some s3 \<and> mem s3 a = mem s1 a \<and>
    rb_change_child s3 a su (cptr k) = Some s4 \<and> ctx_in (mem s4) (root_node s4) k su \<and>
    mem s4 su = Some \<lparr>rb_parent_color = x OR col cs, rb_right = ptr (plug ks ch), rb_left = la\<rparr> \<and>
    (\<forall>y \<in> set (inorder l). mem s4 y = set_root (mem s) l su lc y) \<and>
    (\<forall>y \<in> set (inorder ch) \<union> set (after ks). mem s4 y = mem s1 y) \<and>
    (\<forall>y. y \<notin> set (before k @ inorder l @ inorder r @ after k) \<longrightarrow> mem s4 y = mem s y)"
proof -
  from se obtain x y where su: "mem s1 su = Some \<lparr>rb_parent_color = x OR col cs, rb_right = ptr (plug ks ch), rb_left = y\<rparr>"
      "aligned x" "su \<noteq> NULL" "aligned su" and out: "\<And>z. z \<notin> set (inorder r) \<Longrightarrow> mem s1 z = mem s z"
      and rt: "root_node s1 = root_node s" unfolding searched_def by blast
  have dist: "distinct (before k @ inorder l @ a # inorder r @ after k)" using z by (simp add: zip_in_node)
  have a: "mem s1 a = Some \<lparr>rb_parent_color = cptr k OR col c, rb_right = ptr r, rb_left = la\<rparr>" "a \<noteq> NULL"
    using z lN out[of a] dist by (auto simp: zip_in_node node_at_def)
  have la: "mem s1 la = Some \<lparr>rb_parent_color = a OR col lc, rb_right = ptr lr, rb_left = ptr ll\<rparr>" "la \<noteq> NULL" "aligned a"
    using z lN out[of la] dist by (auto simp: zip_in_node node_at_def)
  have ne: "a \<noteq> su" "la \<noteq> su" "a \<noteq> la" using dist mem lN by auto
  define m2 where "m2 = (mem s1)(su \<mapsto> \<lparr>rb_parent_color = x OR col cs, rb_right = ptr (plug ks ch), rb_left = la\<rparr>)"
  define m3 where "m3 = m2(la \<mapsto> \<lparr>rb_parent_color = su OR col lc, rb_right = ptr lr, rb_left = ptr ll\<rparr>)"
  have m3s: "m3 x = mem s x" if "x \<notin> set (inorder l)" "x \<notin> set (inorder r)" for x
    using that lN mem out[OF that(2)] by (auto simp: m3_def m2_def)
  have d1: "set_left s1 su la = Some (s1\<lparr>mem := m2\<rparr>)"
    using su by (simp add: set_left_def modify_def deref_def m2_def)
  have d2: "rb_set_parent (s1\<lparr>mem := m2\<rparr>) la su = Some (s1\<lparr>mem := m3\<rparr>)"
    using la ne by (simp add: rb_set_parent_def set_pc_def modify_def deref_def m2_def m3_def)
  have "ctx_in m3 (root_node s) k a = ctx_in (mem s) (root_node s) k a"
    by (rule ctx_in_cong, rule m3s) (use dist in auto)
  then have "ctx_in (mem (s1\<lparr>mem := m3\<rparr>)) (root_node (s1\<lparr>mem := m3\<rparr>)) k a" using z rt by (simp add: zip_in_node)
  from rb_change_child_ctx[OF this a(2), of su] dist obtain s4 where
      d3: "rb_change_child (s1\<lparr>mem := m3\<rparr>) a su (cptr k) = Some s4" "ctx_in (mem s4) (root_node s4) k su"
      and s4: "\<And>x. x \<notin> set (before k) \<Longrightarrow> x \<notin> set (after k) \<Longrightarrow> mem s4 x = m3 x"
    by auto
  have su4: "mem s4 su = Some \<lparr>rb_parent_color = x OR col cs, rb_right = ptr (plug ks ch), rb_left = la\<rparr>"
    using s4[of su] dist mem ne by (auto simp: m3_def m2_def)
  have right: "mem s4 y = mem s1 y" if "y \<in> set (inorder ch) \<union> set (after ks)" for y
  proof -
    have "y \<notin> set (before k)" "y \<notin> set (after k)" "y \<noteq> la" "y \<noteq> su" using that dist mem lN by auto
    then show ?thesis using s4[of y] by (simp add: m3_def m2_def)
  qed
  have left: "mem s4 y = set_root (mem s) l su lc y" if y: "y \<in> set (inorder l)" for y
  proof (cases "y = la")
    case True
    with z lN s4[of y] dist show ?thesis by (auto simp: m3_def set_root_def zip_in_node node_at_def)
  next
    case False
    moreover have "y \<noteq> su" "y \<notin> set (inorder r)" "y \<notin> set (before k)" "y \<notin> set (after k)" using y dist mem by auto
    ultimately show ?thesis using lN out[of y] s4[of y] by (simp add: m3_def m2_def set_root_def)
  qed
  have "mem s4 y = mem s y" if "y \<notin> set (before k @ inorder l @ inorder r @ after k)" for y
    using that by (simp add: s4 m3s)
  moreover have "mem (s1\<lparr>mem := m3\<rparr>) a = mem s1 a" using ne by (simp add: m3_def m2_def)
  ultimately show ?thesis using a su(2) d1 d2 d3 su4 left right by blast
qed

text \<open>The successor takes the color of the erased node as well.\<close>

lemma erase_take_place_steps:
  assumes z: "zip_in s k (Node c l a r)" and l: "l \<noteq> Leaf" and se: "searched s s1 r ks cs su ch"
    and mem: "inorder r = su # inorder ch @ after ks"
  shows "\<exists>s'. erase_take_place s1 a su (pos_parent su ks) (ptr ch) =
      Some (s', if ch = Leaf \<and> cs = RB_BLACK then pos_parent su ks else NULL) \<and>
    ctx_in (mem s') (root_node s') k su \<and>
    mem s' su = Some \<lparr>rb_parent_color = cptr k OR col c, rb_right = ptr (plug ks ch), rb_left = ptr l\<rparr> \<and>
    (\<forall>x \<in> set (inorder l). mem s' x = set_root (mem s) l su (color_of l) x) \<and>
    (\<forall>x \<in> set (inorder ch) \<union> set (after ks). mem s' x = set_root (mem s1) ch (pos_parent su ks) RB_BLACK x) \<and>
    (\<forall>x. x \<notin> set (before k @ inorder l @ inorder r @ after k) \<longrightarrow> mem s' x = mem s x)"
proof -
  let ?p = "pos_parent su ks"
  obtain lc ll la lr where lN: "l = Node lc ll la lr" using l by (cases l) auto
  from se have su: "su \<noteq> NULL" and ch: "ch \<noteq> Leaf \<Longrightarrow> mem s1 (ptr ch) \<noteq> None \<and> ptr ch \<noteq> NULL"
    unfolding searched_def by blast+
  have dist: "distinct (before k @ inorder l @ a # inorder r @ after k)" using z by (simp add: zip_in_node)
  have al: "aligned (cptr k)" using z by (auto simp: zip_in_node dest: aligned_cptr)
  from erase_take_place_relink[OF z lN se mem] obtain s2 s3 s4 x where
    a: "mem s1 a = Some \<lparr>rb_parent_color = cptr k OR col c, rb_right = ptr r, rb_left = la\<rparr>" "a \<noteq> NULL" and x: "aligned x"
    and d: "set_left s1 su la = Some s2" "rb_set_parent s2 la su = Some s3" "mem s3 a = mem s1 a"
      "rb_change_child s3 a su (cptr k) = Some s4" "ctx_in (mem s4) (root_node s4) k su"
    and su4: "mem s4 su = Some \<lparr>rb_parent_color = x OR col cs, rb_right = ptr (plug ks ch), rb_left = la\<rparr>"
    and left: "\<And>y. y \<in> set (inorder l) \<Longrightarrow> mem s4 y = set_root (mem s) l su lc y"
    and right: "\<And>y. y \<in> set (inorder ch) \<union> set (after ks) \<Longrightarrow> mem s4 y = mem s1 y"
    and rest: "\<And>y. y \<notin> set (before k @ inorder l @ inorder r @ after k) \<Longrightarrow> mem s4 y = mem s y" by blast
  define m5 where "m5 = (mem s4)(su \<mapsto> \<lparr>rb_parent_color = cptr k OR col c, rb_right = ptr (plug ks ch), rb_left = la\<rparr>)"
  define s' where "s' = s4\<lparr>mem := set_root m5 ch ?p RB_BLACK\<rparr>"
  have d4: "set_pc s4 su (cptr k OR col c) = Some (s4\<lparr>mem := m5\<rparr>)"
    using su4 su by (simp add: set_pc_def modify_def deref_def m5_def)
  have chm: "ch \<noteq> Leaf \<Longrightarrow> ptr ch \<in> set (inorder ch)" by (rule ptr_in_inorder)
  have d5: "rb_set_parent_color (s4\<lparr>mem := m5\<rparr>) (ptr ch) ?p RB_BLACK = Some s'" if "ch \<noteq> Leaf"
  proof -
    have "m5 (ptr ch) = mem s1 (ptr ch)" using chm[OF that] dist mem right[of "ptr ch"] by (auto simp: m5_def)
    with ch[OF that] that show ?thesis
      by (auto simp: rb_set_parent_color_def set_pc_def modify_def deref_def s'_def set_root_def)
  qed
  have "erase_take_place s1 a su ?p (ptr ch) = Some (s', if ch = Leaf \<and> cs = RB_BLACK then ?p else NULL)"
    using a d(1-4) d4 d5 su4 su x al ch
    by (cases "ch = Leaf") (simp_all add: erase_take_place_def deref_def Let_def s'_def set_root_def)
  moreover have s'x: "mem s' y = mem s4 y" if "y \<noteq> su" "y \<notin> set (inorder ch)" for y
    using that chm by (auto simp: s'_def set_root_def m5_def)
  moreover have "mem s' y = set_root (mem s1) ch ?p RB_BLACK y" if y: "y \<in> set (inorder ch) \<union> set (after ks)" for y
  proof -
    have "y \<noteq> su" using y dist mem by auto
    with y right[of y] right[of "ptr ch"] chm show ?thesis by (auto simp: s'_def set_root_def m5_def)
  qed
  moreover have "mem s' y = set_root (mem s) l su lc y" if y: "y \<in> set (inorder l)" for y
    using y dist mem left[OF y] by (subst s'x) auto
  moreover have "ctx_in (mem s') (root_node s4) k su = ctx_in (mem s4) (root_node s4) k su"
    by (rule ctx_in_cong, rule s'x) (use dist mem in auto)
  then have "ctx_in (mem s') (root_node s') k su" using d(5) by (simp add: s'_def)
  moreover have "mem s' su = Some \<lparr>rb_parent_color = cptr k OR col c, rb_right = ptr (plug ks ch), rb_left = la\<rparr>"
    using chm dist mem by (auto simp: s'_def set_root_def m5_def)
  moreover have "mem s' y = mem s y" if "y \<notin> set (before k @ inorder l @ inorder r @ after k)" for y
    using that mem rest[OF that] by (subst s'x) auto
  ultimately show ?thesis using lN by (intro exI[of _ s']) auto
qed

lemma erase_take_place_exec:
  assumes z: "zip_in s k (Node c l a r)" and l: "l \<noteq> Leaf" and se: "searched s s1 r ks cs su ch"
    and mem: "inorder r = su # inorder ch @ after ks" "before ks = []"
  shows "\<exists>s'. erase_take_place s1 a su (pos_parent su ks) (ptr ch) =
      Some (s', if ch = Leaf \<and> cs = RB_BLACK then pos_parent su ks else NULL) \<and>
    yields s (Some s') k (Node c l su (plug ks (paint RB_BLACK ch)))"
proof -
  let ?R = "plug ks (paint RB_BLACK ch)" and ?p = "pos_parent su ks"
  from erase_take_place_steps[OF z l se mem(1)] obtain s' where
      exec: "erase_take_place s1 a su ?p (ptr ch) = Some (s', if ch = Leaf \<and> cs = RB_BLACK then ?p else NULL)"
      and ctx: "ctx_in (mem s') (root_node s') k su"
      and su: "mem s' su = Some \<lparr>rb_parent_color = cptr k OR col c, rb_right = ptr (plug ks ch), rb_left = ptr l\<rparr>"
      and left: "\<And>x. x \<in> set (inorder l) \<Longrightarrow> mem s' x = set_root (mem s) l su (color_of l) x"
      and right: "\<And>x. x \<in> set (inorder ch) \<union> set (after ks) \<Longrightarrow> mem s' x = set_root (mem s1) ch ?p RB_BLACK x"
      and out: "\<And>x. x \<notin> set (before k @ inorder l @ inorder r @ after k) \<Longrightarrow> mem s' x = mem s x"
    by blast
  have dist: "distinct (before k @ inorder l @ a # inorder r @ after k)" and la: "tree_in (mem s) a l"
    using z by (simp_all add: zip_in_node)
  have "tree_in (mem s') su l"
    using tree_in_reparent[OF la, of su] tree_in_cong[of l "mem s'", OF left] dist by simp
  moreover have "tree_in (mem s') su ?R"
    using se tree_in_cong[of ?R "mem s'", OF right] mem(2) by (auto simp: searched_def)
  moreover have "node_at (mem s') su (cptr k) c (ptr l) (ptr ?R)"
    using se su plug_ptr[of "paint RB_BLACK ch" ch ks] by (simp add: searched_def node_at_def)
  moreover have "distinct (before k @ inorder (Node c l su ?R) @ after k)" using dist mem by auto
  ultimately have "zip_in s' k (Node c l su ?R)"
    using ctx by (simp add: zip_in_def del: inorder.simps distinct_append)
  with exec out mem show ?thesis unfolding yields_def by auto
qed

text \<open>Case 1: the only child takes the place and the color of the node.\<close>

lemma set_pc_root:
  assumes "t = Node b l a r" "a \<noteq> NULL" "mem s a \<noteq> None"
  shows "\<exists>s'. set_pc s a (par OR col c) = Some s' \<and> mem s' = set_root (mem s) t par c \<and>
    root_node s' = root_node s"
  using assms by (auto simp: set_pc_def modify_def deref_def set_root_def)

lemma erase_only_right:
  assumes z: "zip_in s k (Node c Leaf a r)"
  shows "\<exists>s'. rb_erase_augmented s a = Some (s', if r = Leaf \<and> c = RB_BLACK then cptr k else NULL) \<and>
    yields s (Some s') k (paint c r)"
proof -
  have a: "deref s a = Some \<lparr>rb_parent_color = cptr k OR col c, rb_right = ptr r, rb_left = NULL\<rparr>" "a \<noteq> NULL"
    and r: "tree_in (mem s) a r" and ctx: "ctx_in (mem s) (root_node s) k a"
    and dist: "distinct (before k @ a # inorder r @ after k)"
    using z by (auto simp: zip_in_node node_at_def deref_def)
  have al: "aligned (cptr k)" using ctx by (rule aligned_cptr)
  from rb_change_child_ctx[OF ctx a(2), of "ptr r"] dist obtain s1 where
      s1: "rb_change_child s a (ptr r) (cptr k) = Some s1" "ctx_in (mem s1) (root_node s1) k (ptr r)"
      and out: "\<And>x. x \<notin> set (before k) \<Longrightarrow> x \<notin> set (after k) \<Longrightarrow> mem s1 x = mem s x" by auto
  show ?thesis
  proof (cases r)
    case Leaf
    with s1 a al dist out show ?thesis
      by (auto simp: rb_erase_augmented_def yields_def zip_in_def Let_def)
  next
    case (Node rc rl ra rr)
    have "tree_in (mem s1) a r = tree_in (mem s) a r" by (rule tree_in_cong, rule out) (use dist in auto)
    then have t: "tree_in (set_root (mem s1) r (cptr k) c) (cptr k) (paint c r)"
      using tree_in_set_root[of "mem s1" a r] r dist by auto
    have ra: "ra \<noteq> NULL" "mem s1 ra \<noteq> None" "ra \<notin> set (before k)" "ra \<notin> set (after k)"
      using r Node out[of ra] dist by (auto simp: node_at_def)
    then obtain s2 where s2: "set_pc s1 ra (cptr k OR col c) = Some s2"
        "mem s2 = set_root (mem s1) r (cptr k) c" "root_node s2 = root_node s1"
      using set_pc_root[OF Node] by blast
    have "ctx_in (mem s2) (root_node s2) k (ptr r)"
      using s1(2) ra by (simp add: s2 set_root_def Node)
    with t dist have "zip_in s2 k (paint c r)" by (simp add: zip_in_def s2(2))
    moreover have "mem s2 x = mem s x" if "x \<notin> set (before k @ inorder (paint c r) @ after k)" for x
      using that out[of x] Node by (simp add: s2(2) set_root_def)
    ultimately show ?thesis
      using s1 s2(1) a al Node ra(1) by (auto simp: rb_erase_augmented_def yields_def Let_def)
  qed
qed

lemma erase_only_left:
  assumes z: "zip_in s k (Node c l a Leaf)" and "l \<noteq> Leaf"
  shows "\<exists>s'. rb_erase_augmented s a = Some (s', NULL) \<and> yields s (Some s') k (paint c l)"
proof -
  obtain lc ll la lr where l: "l = Node lc ll la lr" using assms(2) by (cases l) auto
  have a: "deref s a = Some \<lparr>rb_parent_color = cptr k OR col c, rb_right = NULL, rb_left = la\<rparr>" "a \<noteq> NULL"
    and t: "tree_in (mem s) a l" and ctx: "ctx_in (mem s) (root_node s) k a"
    and dist: "distinct (before k @ inorder l @ a # after k)"
    using z l by (auto simp: zip_in_node node_at_def deref_def)
  have al: "aligned (cptr k)" using ctx by (rule aligned_cptr)
  have la: "la \<noteq> NULL" "mem s la \<noteq> None" "la \<notin> set (before k)" "la \<notin> set (after k)" "la \<noteq> a"
    using t l dist by (auto simp: node_at_def)
  then obtain s1 where s1: "set_pc s la (cptr k OR col c) = Some s1"
      "mem s1 = set_root (mem s) l (cptr k) c" "root_node s1 = root_node s"
    using set_pc_root[OF l] by blast
  have "ctx_in (mem s1) (root_node s1) k a" using ctx la by (simp add: s1 set_root_def l)
  from rb_change_child_ctx[OF this a(2), of la] dist obtain s2 where
      s2: "rb_change_child s1 a la (cptr k) = Some s2" "ctx_in (mem s2) (root_node s2) k la"
      and out: "\<And>x. x \<notin> set (before k) \<Longrightarrow> x \<notin> set (after k) \<Longrightarrow> mem s2 x = mem s1 x" by auto
  have "tree_in (mem s2) (cptr k) (paint c l) = tree_in (mem s1) (cptr k) (paint c l)"
    by (rule tree_in_cong, rule out) (use dist in auto)
  then have "zip_in s2 k (paint c l)"
    using tree_in_set_root[OF t, of "cptr k" c] s2(2) dist by (auto simp: zip_in_def s1(2) l)
  moreover have "mem s2 x = mem s x" if "x \<notin> set (before k @ inorder (paint c l) @ after k)" for x
    using that out[of x] l by (simp add: s1(2) set_root_def)
  ultimately show ?thesis
    using s1(1) s2 a al la(1) by (auto simp: rb_erase_augmented_def yields_def Let_def)
qed

lemma erase_two_children:
  assumes z: "zip_in s k (Node c l a r)" and lr: "l \<noteq> Leaf" "r \<noteq> Leaf" and m: "split_min r [] = (ks, cs, su, ch)"
  shows "\<exists>s'. rb_erase_augmented s a = Some (s', if ch = Leaf \<and> cs = RB_BLACK then pos_parent su ks else NULL) \<and>
    yields s (Some s') k (Node c l su (plug ks (paint RB_BLACK ch)))"
proof -
  have a: "deref s a = Some \<lparr>rb_parent_color = cptr k OR col c, rb_right = ptr r, rb_left = ptr l\<rparr>"
    and tr: "tree_in (mem s) a l" "tree_in (mem s) a r" "aligned a" "distinct (inorder r)"
    using z by (auto simp: zip_in_node node_at_def deref_def)
  have pl: "plug ks (Node cs Leaf su ch) = r" using split_min_plug[OF lr(2) m] by simp
  have b: "before ks = []" using split_min_before[OF lr(2) m] by simp
  have ino: "inorder r = su # inorder ch @ after ks" using b by (simp flip: pl)
  obtain rc rl y rr where r: "r = Node rc rl y rr" using lr(2) by (cases r) auto
  obtain s1 where s1: "erase_successor s (ptr r) = Some (s1, su, pos_parent su ks, ptr ch)"
      "searched s s1 r ks cs su ch"
  proof (cases "rl = Leaf")
    case True
    with m r have "ks = []" "cs = rc" "su = y" "ch = rr" by auto
    with erase_successor_next[of s a rc y rr] tr r True that[of s] show ?thesis by simp
  next
    case False
    with erase_successor_leftmost[OF tr(2-4) r False m] r that show ?thesis by (auto simp: pos_parent_def)
  qed
  from erase_take_place_exec[OF z lr(1) s1(2) ino b] s1(1) a show ?thesis
    using ptr_eq_NULL[OF tr(1)] ptr_eq_NULL[OF tr(2)] lr by (simp add: rb_erase_augmented_def Let_def)
qed

text \<open>Unlinking in all cases: the store represents the position and subtree of \<open>erase_link\<close>.\<close>

lemma rb_erase_augmented_exec:
  assumes z: "zip_in s k (Node c l a r)" and e: "erase_link c l a r k = (k', t', again)"
  shows "\<exists>s'. rb_erase_augmented s a = Some (s', if again then cptr k' else NULL) \<and> yields s (Some s') k' t'"
proof -
  consider "l = Leaf" | "l \<noteq> Leaf" "r = Leaf" | "l \<noteq> Leaf" "r \<noteq> Leaf" by blast
  then show ?thesis
  proof cases
    case 1
    with erase_only_right[of s k c a r] z e show ?thesis by (auto simp: erase_link_def)
  next
    case 2
    with erase_only_left[of s k c l a] z e show ?thesis by (auto simp: erase_link_def)
  next
    case 3
    obtain ks cs su ch where m: "split_min r [] = (ks, cs, su, ch)" by (cases "split_min r []") auto
    with 3 e have e': "k' = ks @ RightOf c l su # k" "t' = paint RB_BLACK ch" "again = (ch = Leaf \<and> cs = RB_BLACK)"
      by (auto simp: erase_link_def)
    have "plug k' t' = plug k (Node c l su (plug ks (paint RB_BLACK ch)))" by (simp add: e' plug_append)
    then have "yields s res k' t' = yields s res k (Node c l su (plug ks (paint RB_BLACK ch)))" for res
      by (subst (1 2) yields_plug) simp
    moreover have "pos_parent su ks = cptr k'" by (cases ks) (simp_all add: e')
    ultimately show ?thesis using erase_two_children[OF z 3 m] unfolding e'(3) by auto
  qed
qed

section \<open>Erasing a node\<close>

lemma erase_link_fits:
  assumes "is_rbt (plug k (Node c l a r))" and "erase_link c l a r k = (k', t', True)"
  shows "t' = Leaf \<and> fits k' RB_BLACK 1"
proof (cases "l = Leaf \<or> r = Leaf")
  case True
  with assms show ?thesis by (auto simp: erase_link_def is_rbt_plug split: if_splits)
next
  case False
  then obtain ks cs su ch where m: "split_min r [] = (ks, cs, su, ch)" by (cases "split_min r []") auto
  with False have "plug (ks @ RightOf c l a # k) (Node cs Leaf su ch) = plug k (Node c l a r)"
    using split_min_plug[of r "[]"] by (auto simp: plug_append)
  with assms(1) have "is_rbt (plug (ks @ RightOf c l a # k) (Node cs Leaf su ch))" by simp
  then have "fits (ks @ RightOf c l su # k) cs (if cs = RB_BLACK then 1 else 0)"
    unfolding is_rbt_plug fits_payload[of ks c l a k _ _ su] by auto
  with assms(2) False m show ?thesis by (auto simp: erase_link_def)
qed

lemma rb_erase_refines:
  assumes z: "zip_in s k (Node c l a r)" and rbt: "is_rbt (plug k (Node c l a r))"
  shows "yields s (rb_erase s a) [] (erase_at c l a r k)"
proof -
  obtain k' t' again where e: "erase_link c l a r k = (k', t', again)" by (cases "erase_link c l a r k")
  from rb_erase_augmented_exec[OF z e] obtain s' where
      s': "rb_erase_augmented s a = Some (s', if again then cptr k' else NULL)" "yields s (Some s') k' t'" by blast
  have z': "zip_in s' k' t'" using s'(2) by (simp add: yields_def)
  have at: "erase_at c l a r k = (if again then del_fix t' k' else plug k' t')" by (simp add: erase_at_link e)
  show ?thesis
  proof (cases "again \<and> k' \<noteq> []")
    case True
    have fit: "t' = Leaf" "fits k' RB_BLACK 1" using erase_link_fits[OF rbt] e True by auto
    have "yields s' (rb_erase_color s' (ptr t') (cptr k')) [] (del_fix t' k')"
      by (rule rb_erase_color_refines[OF z']) (use True fit in auto)
    from yields_trans[OF s'(2) this] True s'(1) fit(1) at show ?thesis
      using z' by (auto simp: rb_erase_def inorder_del_fix zip_in_def cptr_NULL)
  next
    case False
    then have "rb_erase s a = Some s'" "erase_at c l a r k = plug k' t'" using s'(1) at by (auto simp: rb_erase_def)
    with s'(2) show ?thesis by (simp add: yields_plug[of _ _ k'])
  qed
qed

text \<open>
  C4. Erasing a node with \<open>rb_erase\<close>: on a store that represents a red-black tree with the node
  \<open>a\<close> at the position \<open>k\<close>, the pointer code dereferences no NULL or unallocated node, the search
  for the successor and the repair loop end, and the store it leaves represents a red-black
  tree whose in-order sequence is the old one without \<open>a\<close>; neither \<open>a\<close> nor any node outside
  the tree is written.
\<close>

theorem rb_erase_correct:
  assumes "represents s (plug k (Node c l a r))" and "is_rbt (plug k (Node c l a r))"
  shows "\<exists>s' t'. rb_erase s a = Some s' \<and> represents s' t' \<and> is_rbt t' \<and>
    inorder t' = before k @ inorder l @ inorder r @ after k \<and>
    (\<forall>y. y \<notin> set (inorder t') \<longrightarrow> mem s' y = mem s y)"
  using rb_erase_refines[OF assms(1)[unfolded represents_plug] assms(2)] is_rbt_erase_at[OF assms(2)]
    represents_plug[of _ "[]"] unfolding yields_def
  by (auto simp: inorder_erase_at intro!: exI[of _ "erase_at c l a r k"])

text \<open>
  The theorem at a concrete store: a black root at 16 with black children at 32 and 48; erasing
  48 leaves a missing black node at its place, which case 2 repairs.
\<close>

definition example_erase_store :: rb_store where
  "example_erase_store = \<lparr>mem = [16 \<mapsto> \<lparr>rb_parent_color = 1, rb_right = 48, rb_left = 32\<rparr>,
     32 \<mapsto> \<lparr>rb_parent_color = 17, rb_right = 0, rb_left = 0\<rparr>,
     48 \<mapsto> \<lparr>rb_parent_color = 17, rb_right = 0, rb_left = 0\<rparr>], root_node = 16\<rparr>"

theorem rb_erase_correct_witness:
  "\<exists>s' t'. rb_erase example_erase_store 48 = Some s' \<and> represents s' t' \<and> is_rbt t' \<and>
    inorder t' = [32, 16] \<and> (\<forall>y. y \<notin> set (inorder t') \<longrightarrow> mem s' y = mem example_erase_store y)"
proof -
  let ?k = "[RightOf RB_BLACK (Node RB_BLACK Leaf 32 Leaf) (16 :: addr)]"
  have "represents example_erase_store (plug ?k (Node RB_BLACK Leaf 48 Leaf))"
    by (simp add: represents_def example_erase_store_def node_at_def aligned_def)
  moreover have "is_rbt (plug ?k (Node RB_BLACK Leaf 48 Leaf))" by (simp add: is_rbt_def)
  ultimately show ?thesis using rb_erase_correct[of example_erase_store ?k RB_BLACK Leaf 48 Leaf] by simp
qed

end
