(* ===== verification/Rbtree_Cached.thy ===== *)
theory Rbtree_Cached
  imports Rbtree_Erase Rbtree_Traverse
begin

text \<open>
  The rest of the interface of include/rbtree.h on the pointer structure: the replacement of a
  node, the variants for concurrent readers (their \<open>rcu_assign_pointer\<close> is a plain assignment
  here), the trees that cache their leftmost node, and the loop with which every client empties
  its tree.
\<close>

section \<open>Model\<close>

definition rb_change_child_rcu :: "rb_store \<Rightarrow> addr \<Rightarrow> addr \<Rightarrow> addr \<Rightarrow> rb_store option" where
  "rb_change_child_rcu s old new_node parent =
     (if parent \<noteq> NULL then do {
        p \<leftarrow> deref s parent;
        if rb_left p = old then set_left s parent new_node else set_right s parent new_node }
      else Some (s\<lparr>root_node := new_node\<rparr>))"

definition rb_replace_node_rcu :: "rb_store \<Rightarrow> addr \<Rightarrow> addr \<Rightarrow> rb_store option" where
  "rb_replace_node_rcu s victim new_node = do {
     v \<leftarrow> deref s victim;
     let parent = rb_parent v;
     s \<leftarrow> modify s new_node (\<lambda>_. v);
     s \<leftarrow> (if rb_left v \<noteq> NULL then rb_set_parent s (rb_left v) new_node else Some s);
     s \<leftarrow> (if rb_right v \<noteq> NULL then rb_set_parent s (rb_right v) new_node else Some s);
     rb_change_child_rcu s victim new_node parent }"

definition rb_link_node_rcu :: "rb_store \<Rightarrow> addr \<Rightarrow> addr \<Rightarrow> rb_link \<Rightarrow> rb_store option" where
  "rb_link_node_rcu s node parent link = do {
     s \<leftarrow> set_pc s node parent;
     s \<leftarrow> set_right s node NULL;
     s \<leftarrow> set_left s node NULL;
     store_link s link node }"

text \<open>A root with the leftmost node beside it.\<close>

record rb_root_cached =
  rb_root :: rb_store
  rb_leftmost :: addr

definition rb_insert_color_cached :: "rb_root_cached \<Rightarrow> addr \<Rightarrow> bool \<Rightarrow> rb_root_cached option" where
  "rb_insert_color_cached root node leftmost = do {
     let root = (if leftmost then root\<lparr>rb_leftmost := node\<rparr> else root);
     s \<leftarrow> rb_insert_color (rb_root root) node;
     Some (root\<lparr>rb_root := s\<rparr>) }"

definition rb_erase_cached :: "rb_root_cached \<Rightarrow> addr \<Rightarrow> rb_root_cached option" where
  "rb_erase_cached root node = do {
     root \<leftarrow> (if rb_leftmost root = node
              then do { n \<leftarrow> rb_next (rb_root root) node; Some (root\<lparr>rb_leftmost := n\<rparr>) }
              else Some root);
     s \<leftarrow> rb_erase (rb_root root) node;
     Some (root\<lparr>rb_root := s\<rparr>) }"

definition rb_replace_node_cached :: "rb_root_cached \<Rightarrow> addr \<Rightarrow> addr \<Rightarrow> rb_root_cached option" where
  "rb_replace_node_cached root victim new_node = do {
     let root = (if rb_leftmost root = victim then root\<lparr>rb_leftmost := new_node\<rparr> else root);
     s \<leftarrow> rb_replace_node (rb_root root) victim new_node;
     Some (root\<lparr>rb_root := s\<rparr>) }"

text \<open>
  The loop of the clients that empties a tree: it saves the next node, erases the node and frees
  the entry the node is part of, after which its address holds no node any more.
\<close>

partial_function (option) ptr_drain :: "rb_store \<Rightarrow> addr \<Rightarrow> rb_store option" where
  "ptr_drain s node =
     (if node = NULL then Some s
      else do {
        next_node \<leftarrow> rb_next s node;
        s \<leftarrow> rb_erase s node;
        ptr_drain (s\<lparr>mem := (mem s)(node := None)\<rparr>) next_node })"

definition ptr_free_tree :: "rb_store \<Rightarrow> rb_store option" where
  "ptr_free_tree s = do { node \<leftarrow> rb_first s; ptr_drain s node }"

section \<open>Replacing a node\<close>

lemma rcu_variants:
  "rb_change_child_rcu = rb_change_child" "rb_replace_node_rcu = rb_replace_node"
  "rb_link_node_rcu = rb_link_node"
proof -
  show *: "rb_change_child_rcu = rb_change_child"
    by (intro ext) (simp add: rb_change_child_rcu_def rb_change_child_def)
  show "rb_replace_node_rcu = rb_replace_node"
    by (intro ext) (simp add: rb_replace_node_rcu_def rb_replace_node_def *)
  show "rb_link_node_rcu = rb_link_node"
    by (intro ext) (simp add: rb_link_node_rcu_def rb_link_node_def)
qed

lemma rb_replace_node_refines:
  assumes z: "zip_in s k (Node c l v r)" and n: "n \<noteq> NULL" "aligned n" "mem s n = Some x"
    and fresh: "n \<notin> set (before k @ inorder (Node c l v r) @ after k)"
  shows "yields s (rb_replace_node s v n) k (Node c l n r)"
proof -
  have al: "aligned (cptr k)" using z by (auto simp: zip_in_def dest: aligned_cptr)
  have "\<exists>s1. rb_replace_node s v n = rb_change_child s1 v n (cptr k) \<and>
      tree_in (mem s1) (cptr k) (Node c l n r) \<and> ctx_in (mem s1) (root_node s1) k v \<and>
      (\<forall>y. y \<notin> set (inorder (Node c l n r)) \<longrightarrow> mem s1 y = mem s y)"
    using z n fresh al
    by (cases l; cases r)
       (simp_all add: zip_in_def node_at_def, (elim conjE,
        simp add: rb_replace_node_def rb_set_parent_def exec_defs cong: if_cong,
        rule exI, rule conjI, rule refl, simp add: node_at_def)+)
  then obtain s1 where s1: "rb_replace_node s v n = rb_change_child s1 v n (cptr k)"
      "tree_in (mem s1) (cptr k) (Node c l n r)" "ctx_in (mem s1) (root_node s1) k v"
      "\<And>y. y \<notin> set (inorder (Node c l n r)) \<Longrightarrow> mem s1 y = mem s y" by blast
  have dist: "distinct (before k @ inorder (Node c l v r) @ after k)" and v: "v \<noteq> NULL"
    using z by (auto simp: zip_in_def node_at_def)
  from rb_change_child_ctx[OF s1(3) v, of n] dist obtain s' where
      s': "rb_change_child s1 v n (cptr k) = Some s'" "ctx_in (mem s') (root_node s') k n"
      and out: "\<And>x. x \<notin> set (before k) \<Longrightarrow> x \<notin> set (after k) \<Longrightarrow> mem s' x = mem s1 x" by auto
  have "tree_in (mem s') (cptr k) (Node c l n r) = tree_in (mem s1) (cptr k) (Node c l n r)"
    by (rule tree_in_cong, rule out) (use dist fresh in auto)
  moreover have "distinct (before k @ inorder (Node c l n r) @ after k)" using dist fresh by auto
  moreover have "mem s' y = mem s y" if "y \<notin> set (before k @ inorder (Node c l n r) @ after k)" for y
    using that out[of y] s1(4)[of y] by simp
  ultimately show ?thesis
    unfolding yields_def using s1(1,2) s' by (simp add: zip_in_def del: tree_in.simps inorder.simps)
qed

section \<open>Erasing a node given by its address\<close>

lemma represents_erase:
  assumes "represents s t" "is_rbt t" and "inorder t = xs @ a # ys"
  shows "\<exists>s' t'. rb_next s a = Some (first_addr ys) \<and> rb_erase s a = Some s' \<and> represents s' t' \<and>
    is_rbt t' \<and> inorder t' = xs @ ys \<and> (\<forall>y. y \<notin> set (xs @ ys) \<longrightarrow> mem s' y = mem s y)"
proof -
  from inorder_position[OF assms(3), of "[]"] obtain k c l r where
      k: "plug k (Node c l a r) = t" "before k @ inorder l = xs" "inorder r @ after k = ys" by auto
  have z: "zip_in s k (Node c l a r)" using assms(1) k(1) represents_plug[of s k "Node c l a r"] by simp
  have rbt: "is_rbt (plug k (Node c l a r))" using k(1) assms(2) by simp
  have ino: "inorder (erase_at c l a r k) = xs @ ys" using k by (simp add: inorder_erase_at)
  obtain s' where "rb_erase s a = Some s'" "represents s' (erase_at c l a r k)"
      "\<And>y. y \<notin> set (xs @ ys) \<Longrightarrow> mem s' y = mem s y"
    using rb_erase_refines[OF z rbt] represents_plug[of _ "[]"] by (auto simp: yields_def ino)
  with is_rbt_erase_at[OF rbt] ino rb_next_zip[OF z] k(3) show ?thesis by auto
qed

section \<open>The cached leftmost node\<close>

definition cached_in :: "rb_root_cached \<Rightarrow> addr rbt \<Rightarrow> bool" where
  "cached_in R t \<longleftrightarrow> represents (rb_root R) t \<and> is_rbt t \<and> rb_leftmost R = first_addr (inorder t)"

lemma rb_insert_color_cached_ok:
  assumes "cached_in R (plug k Leaf)"
    and "n \<noteq> NULL" "aligned n" "mem (rb_root R) n = Some x" and "n \<notin> set (inorder (plug k Leaf))"
    and "rb_link_node (rb_root R) n (cptr k) (link_of k) = Some s"
  shows "\<exists>R' t'. rb_insert_color_cached (R\<lparr>rb_root := s\<rparr>) n (before k = []) = Some R' \<and> cached_in R' t' \<and>
    inorder t' = before k @ n # after k"
proof -
  from assms(1) have r: "represents (rb_root R) (plug k Leaf)" "is_rbt (plug k Leaf)"
      "rb_leftmost R = first_addr (before k @ after k)" by (auto simp: cached_in_def)
  have "is_rbt (ins_fix Leaf n Leaf k)"
    by (rule is_rbt_ins_fix) (use r(2) in \<open>auto simp: is_rbt_plug intro: fits_black\<close>)
  with rb_link_insert_refines[OF r(1,2) assms(2-5)] assms(6) r(3) show ?thesis
    using represents_plug[of _ "[]"]
    by (auto simp: yields_def rb_link_insert_def rb_insert_color_cached_def cached_in_def inorder_ins_fix
        intro!: exI[of _ "ins_fix Leaf n Leaf k"])
qed

lemma rb_replace_node_cached_ok:
  assumes "cached_in R (plug k (Node c l v r))" and "n \<noteq> NULL" "aligned n" "mem (rb_root R) n = Some x"
    and "n \<notin> set (inorder (plug k (Node c l v r)))"
  shows "\<exists>R'. rb_replace_node_cached R v n = Some R' \<and> cached_in R' (plug k (Node c l n r))"
proof -
  from assms(1) have z: "zip_in (rb_root R) k (Node c l v r)" and b: "is_rbt (plug k (Node c l v r))"
      and m: "rb_leftmost R = first_addr (before k @ inorder l @ v # inorder r @ after k)"
    by (auto simp: cached_in_def represents_plug)
  have "yields (rb_root R) (rb_replace_node (rb_root R) v n) k (Node c l n r)"
    by (rule rb_replace_node_refines[OF z assms(2-4)]) (use assms(5) in simp)
  then obtain s' where s': "rb_replace_node (rb_root R) v n = Some s'" "represents s' (plug k (Node c l n r))"
    by (auto simp: yields_def represents_plug)
  have dist: "distinct (before k @ inorder l @ v # inorder r @ after k)" using z by (simp add: zip_in_node)
  have "(if rb_leftmost R = v then n else rb_leftmost R) = first_addr (before k @ inorder l @ n # inorder r @ after k)"
    using m dist by (cases "before k @ inorder l") (auto simp: append_eq_Cons_conv)
  moreover have "is_rbt (plug k (Node c l n r))" using b by (cases c) (auto simp: is_rbt_plug)
  ultimately show ?thesis using s' by (auto simp: rb_replace_node_cached_def cached_in_def)
qed

text \<open>
  Erasing a node of a tree with a cached leftmost node: when the cache names the first node
  of a red-black tree, \<open>rb_erase_cached\<close> of any of its nodes returns, removes exactly that node,
  and the cache names the first node of the tree that is left (NULL when it is empty), so that
  \<open>rb_first_cached\<close> keeps agreeing with \<open>rb_first\<close>.
\<close>

theorem rb_erase_cached_correct:
  assumes "represents (rb_root R) t" "is_rbt t" "rb_first (rb_root R) = Some (rb_leftmost R)"
    and "inorder t = xs @ a # ys"
  shows "\<exists>R' t'. rb_erase_cached R a = Some R' \<and> represents (rb_root R') t' \<and> is_rbt t' \<and>
    inorder t' = xs @ ys \<and> rb_first (rb_root R') = Some (rb_leftmost R')"
proof -
  from represents_erase[OF assms(1,2,4)] obtain s' t' where
      e: "rb_next (rb_root R) a = Some (first_addr ys)" "rb_erase (rb_root R) a = Some s'" "represents s' t'"
        "is_rbt t'" "inorder t' = xs @ ys" by blast
  have m: "rb_leftmost R = first_addr (xs @ a # ys)"
    using rb_first_represents[OF assms(1)] assms(3,4) by simp
  have "distinct (xs @ a # ys)" using assms(1,4) by (simp add: represents_def)
  then have "(if rb_leftmost R = a then first_addr ys else rb_leftmost R) = first_addr (xs @ ys)"
    using m by (cases xs) auto
  with e rb_first_represents[OF e(3)] show ?thesis
    by (auto simp: rb_erase_cached_def intro!: exI[of _ t'])
qed

section \<open>Emptying a tree\<close>

lemma represents_free:
  "represents s t \<Longrightarrow> a \<notin> set (inorder t) \<Longrightarrow> represents (s\<lparr>mem := (mem s)(a := None)\<rparr>) t"
  by (simp add: represents_def)

lemma ptr_drain_ok:
  assumes "represents s t" "is_rbt t"
  shows "\<exists>s'. ptr_drain s (first_addr (inorder t)) = Some s' \<and> root_node s' = NULL \<and>
    mem s' = (\<lambda>a. if a \<in> set (inorder t) then None else mem s a)"
  using assms
proof (induction "inorder t" arbitrary: s t)
  case Nil
  then have "t = Leaf" by (cases t) auto
  with Nil show ?case by (simp add: ptr_drain.simps represents_def)
next
  case (Cons a ys)
  then have ino: "inorder t = [] @ a # ys" by simp
  from represents_erase[OF Cons.prems ino] obtain s1 t1 where
      e: "rb_next s a = Some (first_addr ys)" "rb_erase s a = Some s1" "represents s1 t1" "is_rbt t1"
        "inorder t1 = ys" and out: "\<And>y. y \<notin> set ys \<Longrightarrow> mem s1 y = mem s y" by auto
  let ?s = "s1\<lparr>mem := (mem s1)(a := None)\<rparr>"
  have a: "a \<noteq> NULL" "a \<notin> set ys"
    using Cons.prems(1) represents_nonnull[of s t a] ino by (auto simp: represents_def)
  from Cons.hyps(1)[OF e(5)[symmetric] represents_free[OF e(3)] e(4)] a(2) e(5) obtain s' where
      s': "ptr_drain ?s (first_addr ys) = Some s'" "root_node s' = NULL"
        "mem s' = (\<lambda>b. if b \<in> set ys then None else mem ?s b)" by auto
  have "ptr_drain s a = Some s'" using e a(1) s'(1) by (subst ptr_drain.simps) simp
  moreover have "mem s' = (\<lambda>b. if b \<in> set (inorder t) then None else mem s b)"
    using out by (auto simp: s'(3) ino fun_eq_iff)
  ultimately show ?case using s'(2) ino by (intro exI[of _ s']) simp
qed

text \<open>
  C26. The loop with which the clients empty a tree (the kernel symbols, the symbols of an ELF
  file, the blocks of the cache): on a store that represents a red-black tree it ends, it never
  reads or writes a node after it was freed, the root is NULL at the end, every node of the tree
  has been freed and no other node was touched.
\<close>

theorem ptr_free_tree_correct:
  assumes "represents s t" "is_rbt t"
  shows "\<exists>s'. ptr_free_tree s = Some s' \<and> root_node s' = NULL \<and>
    mem s' = (\<lambda>a. if a \<in> set (inorder t) then None else mem s a)"
  using ptr_drain_ok[OF assms] rb_first_represents[OF assms(1)] by (simp add: ptr_free_tree_def)

lemma example_erase_represents:
  "represents example_erase_store (Node RB_BLACK (Node RB_BLACK Leaf 32 Leaf) 16 (Node RB_BLACK Leaf 48 Leaf)) \<and>
   is_rbt (Node RB_BLACK (Node RB_BLACK Leaf 32 Leaf) (16 :: addr) (Node RB_BLACK Leaf 48 Leaf))"
  by (simp add: represents_def example_erase_store_def node_at_def aligned_def is_rbt_def)

theorem rb_erase_cached_correct_witness:
  "\<exists>R' t'. rb_erase_cached \<lparr>rb_root = example_erase_store, rb_leftmost = 32\<rparr> 32 = Some R' \<and>
     represents (rb_root R') t' \<and> is_rbt t' \<and> inorder t' = [16, 48] \<and>
     rb_first (rb_root R') = Some (rb_leftmost R')"
  using rb_erase_cached_correct[of "\<lparr>rb_root = example_erase_store, rb_leftmost = 32\<rparr>"
      "Node RB_BLACK (Node RB_BLACK Leaf 32 Leaf) 16 (Node RB_BLACK Leaf 48 Leaf)" "[]" 32 "[16, 48]"]
    example_erase_represents rb_first_represents[of example_erase_store] by auto

theorem ptr_free_tree_correct_witness:
  "\<exists>s'. ptr_free_tree example_erase_store = Some s' \<and> root_node s' = NULL \<and> mem s' = Map.empty"
proof -
  have e: "\<exists>s'. ptr_free_tree example_erase_store = Some s' \<and> root_node s' = NULL \<and>
      mem s' = (\<lambda>a. if a \<in> {32, 16, 48} then None else mem example_erase_store a)"
    using ptr_free_tree_correct[of example_erase_store
      "Node RB_BLACK (Node RB_BLACK Leaf 32 Leaf) 16 (Node RB_BLACK Leaf 48 Leaf)"]
    example_erase_represents by simp
  have "(\<lambda>a. if a \<in> {32, 16, 48} then None else mem example_erase_store a) = Map.empty"
    by (auto simp: example_erase_store_def fun_eq_iff)
  with e show ?thesis by simp
qed

end
