(* ===== verification/C_Heap.thy ===== *)
theory C_Heap
  imports Prelude "HOL-Library.Multiset"
begin

text \<open>
  The part of the C run time the components share: blocks obtained from \<open>malloc\<close> and given
  back with \<open>free\<close>. A block is named by a number, \<open>live\<close> holds the size of each allocated
  block, and \<open>oom\<close> says which of the allocation requests the system refuses. Freeing a block
  that is not allocated is undefined behaviour in C and the value \<open>None\<close> here.
\<close>

type_synonym block = nat

record c_heap =
  live :: "block \<Rightarrow> nat option"
  next_block :: block
  oom :: "block \<Rightarrow> bool"

definition malloc :: "c_heap \<Rightarrow> nat \<Rightarrow> c_heap \<times> block option" where
  "malloc h sz =
     (if oom h (next_block h) then (h\<lparr>next_block := Suc (next_block h)\<rparr>, None)
      else (h\<lparr>live := (live h)(next_block h \<mapsto> sz), next_block := Suc (next_block h)\<rparr>,
            Some (next_block h)))"

definition free_block :: "c_heap \<Rightarrow> block \<Rightarrow> c_heap option" where
  "free_block h b = (if live h b = None then None else Some (h\<lparr>live := (live h)(b := None)\<rparr>))"

fun free_list :: "c_heap \<Rightarrow> block list \<Rightarrow> c_heap option" where
  "free_list h [] = Some h"
| "free_list h (b # bs) = do { h \<leftarrow> free_block h b; free_list h bs }"

text \<open>Blocks at or above \<open>next_block\<close> were never handed out.\<close>

definition heap_ok :: "c_heap \<Rightarrow> bool" where
  "heap_ok h \<longleftrightarrow> (\<forall>b. live h b \<noteq> None \<longrightarrow> b < next_block h)"

lemma heap_ok_malloc: "heap_ok h \<Longrightarrow> malloc h sz = (h', r) \<Longrightarrow> heap_ok h'"
  by (auto simp: heap_ok_def malloc_def less_Suc_eq split: if_splits)

lemma malloc_None: "malloc h sz = (h', None) \<Longrightarrow> live h' = live h"
  by (auto simp: malloc_def split: if_splits)

lemma malloc_Some:
  "malloc h sz = (h', Some b) \<Longrightarrow> b = next_block h \<and> live h' = (live h)(b \<mapsto> sz)"
  by (auto simp: malloc_def split: if_splits)

lemma malloc_fresh: "heap_ok h \<Longrightarrow> malloc h sz = (h', Some b) \<Longrightarrow> live h b = None"
  by (auto simp: heap_ok_def dest: malloc_Some)

lemma heap_ok_free: "heap_ok h \<Longrightarrow> free_block h b = Some h' \<Longrightarrow> heap_ok h'"
  by (auto simp: heap_ok_def free_block_def split: if_splits)

lemma free_list_append: "free_list h (xs @ ys) = do { h \<leftarrow> free_list h xs; free_list h ys }"
  by (induction xs arbitrary: h) (auto simp: Option.bind_assoc)

text \<open>A list of blocks can be freed exactly when they are allocated and pairwise distinct.\<close>

lemma free_list_Some:
  "free_list h bs = Some h' \<longleftrightarrow>
     distinct bs \<and> (\<forall>b\<in>set bs. live h b \<noteq> None) \<and>
     h' = h\<lparr>live := (\<lambda>b. if b \<in> set bs then None else live h b)\<rparr>"
proof (induction bs arbitrary: h)
  case (Cons b bs)
  show ?case
  proof (cases "live h b")
    case (Some sz)
    then have "free_list h (b # bs) = Some h' \<longleftrightarrow>
        free_list (h\<lparr>live := (live h)(b := None)\<rparr>) bs = Some h'"
      by (simp add: free_block_def)
    with Cons[of "h\<lparr>live := (live h)(b := None)\<rparr>"] Some show ?thesis
      by (auto simp: fun_eq_iff)
  qed (simp add: free_block_def)
qed auto

lemma oom_malloc: "malloc h sz = (h', r) \<Longrightarrow> oom h' = oom h \<and> (r = None \<longrightarrow> (\<exists>b. oom h b))"
  by (auto simp: malloc_def split: if_splits)

lemma oom_free_block: "free_block h b = Some h' \<Longrightarrow> oom h' = oom h"
  by (auto simp: free_block_def split: if_splits)

lemma oom_free_list: "free_list h bs = Some h' \<Longrightarrow> oom h' = oom h"
  by (induction bs arbitrary: h) (auto dest: oom_free_block split: bind_splits)

section \<open>Strings on the heap\<close>

text \<open>A \<open>char *\<close> that is NULL or points to an allocated string.\<close>

type_synonym cstr = "(block \<times> string) option"

definition strdup :: "c_heap \<Rightarrow> string \<Rightarrow> c_heap \<times> cstr" where
  "strdup h s = (case malloc h (length s + 1) of (h, None) \<Rightarrow> (h, None) | (h, Some b) \<Rightarrow> (h, Some (b, s)))"

definition free_str :: "c_heap \<Rightarrow> cstr \<Rightarrow> c_heap option" where
  "free_str h p = (case p of None \<Rightarrow> Some h | Some (b, s) \<Rightarrow> free_block h b)"

definition str_blocks :: "cstr \<Rightarrow> block list" where
  "str_blocks p = (case p of None \<Rightarrow> [] | Some (b, s) \<Rightarrow> [b])"

definition c_str :: "string \<Rightarrow> string" where
  "c_str s = takeWhile (\<lambda>c. c \<noteq> CHR 0x00) s"

section \<open>Ownership\<close>

text \<open>
  \<open>owns base h bs\<close>: the allocated blocks are those of \<open>base\<close> and, apart from them and pairwise
  distinct, the blocks \<open>bs\<close>. Components state with it that they leak nothing and free nothing
  twice.
\<close>

definition owns :: "(block \<Rightarrow> nat option) \<Rightarrow> c_heap \<Rightarrow> block list \<Rightarrow> bool" where
  "owns base h bs \<longleftrightarrow> heap_ok h \<and> distinct bs \<and>
     (\<forall>b\<in>set bs. base b = None \<and> live h b \<noteq> None) \<and> (\<forall>b. b \<notin> set bs \<longrightarrow> live h b = base b)"

lemma blocks_add:
  assumes "mset xs = add_mset e (mset ys)"
  shows "mset (concat (map f xs)) = mset (f e @ concat (map f ys))"
proof -
  have sum: "mset (concat (map f zs)) = (\<Sum>z\<in>#mset zs. mset (f z))" for zs
    by (induction zs) auto
  show ?thesis unfolding sum assms by (simp add: sum)
qed

lemma owns_start: "heap_ok h \<Longrightarrow> owns (live h) h []"
  by (simp add: owns_def)

lemma owns_heap_ok: "owns base h bs \<Longrightarrow> heap_ok h"
  by (simp add: owns_def)

lemma owns_perm: "owns base h bs \<Longrightarrow> mset bs = mset bs' \<Longrightarrow> owns base h bs'"
  unfolding owns_def by (metis mset_eq_imp_distinct_iff mset_eq_setD)

lemma owns_malloc_None: "owns base h bs \<Longrightarrow> malloc h sz = (h', None) \<Longrightarrow> owns base h' bs"
  unfolding owns_def by (metis heap_ok_malloc malloc_None)

lemma owns_malloc:
  assumes "owns base h bs" and "malloc h sz = (h', Some b)"
  shows "owns base h' (b # bs)"
proof -
  have ok: "heap_ok h" using assms(1) by (rule owns_heap_ok)
  have l: "live h' = (live h)(b \<mapsto> sz)" "live h b = None"
    using malloc_Some[OF assms(2)] malloc_fresh[OF ok assms(2)] by auto
  then have "b \<notin> set bs" using assms(1) by (auto simp: owns_def)
  moreover from this have "base b = None" using assms(1) l(2) by (auto simp: owns_def)
  ultimately show ?thesis using assms l heap_ok_malloc[OF ok assms(2)] by (auto simp: owns_def)
qed

lemma owns_free:
  assumes "owns base h bs" and "b \<in> set bs"
  shows "\<exists>h'. free_block h b = Some h' \<and> owns base h' (remove1 b bs)"
proof -
  obtain h' where h': "free_block h b = Some h'" "live h' = (live h)(b := None)"
    using assms by (auto simp: owns_def free_block_def)
  moreover have "heap_ok h'" using heap_ok_free[OF owns_heap_ok[OF assms(1)] h'(1)] .
  ultimately show ?thesis using assms by (auto simp: owns_def)
qed

lemma owns_free_hd: "owns base h (b # bs) \<Longrightarrow> \<exists>h'. free_block h b = Some h' \<and> owns base h' bs"
  using owns_free[of base h "b # bs" b] by simp

lemma owns_free_list: "owns base h (xs @ bs) \<Longrightarrow> \<exists>h'. free_list h xs = Some h' \<and> owns base h' bs"
proof (induction xs arbitrary: h)
  case (Cons x xs)
  from owns_free_hd[of base h x "xs @ bs"] Cons.prems obtain h1 where
    "free_block h x = Some h1" "owns base h1 (xs @ bs)" by auto
  with Cons.IH[of h1] show ?case by simp
qed simp

lemma owns_empty: "owns base h [] \<Longrightarrow> live h = base"
  by (auto simp: owns_def)

lemma owns_strdup:
  assumes "owns base h bs" and "strdup h s = (h', p)"
  shows "owns base h' (str_blocks p @ bs) \<and> oom h' = oom h \<and>
    (p = None \<longrightarrow> (\<exists>b. oom h b)) \<and> (\<forall>b s'. p = Some (b, s') \<longrightarrow> s' = s)"
proof -
  obtain h1 r where m: "malloc h (length s + 1) = (h1, r)" by (cases "malloc h (length s + 1)")
  show ?thesis
  proof (cases r)
    case None
    with m assms owns_malloc_None[OF assms(1)] oom_malloc[OF m] show ?thesis
      by (auto simp: strdup_def str_blocks_def)
  next
    case (Some b)
    with m assms owns_malloc[OF assms(1)] oom_malloc[OF m] show ?thesis
      by (auto simp: strdup_def str_blocks_def)
  qed
qed

lemma owns_free_str:
  "owns base h (str_blocks p @ bs) \<Longrightarrow> \<exists>h'. free_str h p = Some h' \<and> owns base h' bs \<and> oom h' = oom h"
  using owns_free_hd[of base h "fst (the p)" bs] oom_free_block[of h "fst (the p)"]
  by (cases p) (auto simp: free_str_def str_blocks_def)

text \<open>A heap with nothing allocated and no failing request, for the examples.\<close>

definition empty_heap :: c_heap where
  "empty_heap = \<lparr>live = (\<lambda>_. None), next_block = 0, oom = (\<lambda>_. False)\<rparr>"

lemma heap_ok_empty: "heap_ok empty_heap"
  by (simp add: heap_ok_def empty_heap_def)

end
