(* ===== verification/Index_Memory.thy ===== *)
theory Index_Memory
  imports Ordered_Index C_Heap
begin

text \<open>
  Freeing an index: \<open>free_kernel_symbols\<close> (src/core/kernel_symbol.c) and \<open>free_elf_resources\<close>
  (src/elf/elf.c) run the same loop, which takes the first node, erases it from the tree and
  frees the blocks of its entry, until the tree is empty. The loop frees the blocks of all
  entries, in order, each once.
\<close>

lemma erase_first_shorter: "t \<noteq> Leaf \<Longrightarrow> (e, t') = erase_first t \<Longrightarrow> length (inorder t') < length (inorder t)"
  using size_erase_first[of t] by (metis snd_conv)

function free_entries :: "('e \<Rightarrow> block list) \<Rightarrow> c_heap \<Rightarrow> 'e rbt \<Rightarrow> c_heap option" where
  "free_entries blocks h t =
     (if t = Leaf then Some h
      else (case erase_first t of (e, t') \<Rightarrow>
        do { h \<leftarrow> free_list h (blocks e); free_entries blocks h t' }))"
  by pat_completeness auto
termination
  by (relation "measure (\<lambda>(blocks, h, t). length (inorder t))")
    (auto intro: erase_first_shorter)

declare free_entries.simps [simp del]

lemma free_entries_list: "free_entries blocks h t = free_list h (concat (map blocks (inorder t)))"
proof (induction blocks h t rule: free_entries.induct)
  case (1 blocks h t)
  show ?case
  proof (cases "t = Leaf")
    case True
    then show ?thesis by (simp add: free_entries.simps)
  next
    case False
    obtain e t' where e: "erase_first t = (e, t')" by (cases "erase_first t")
    with erase_first_spec(1)[OF False] have "inorder t = e # inorder t'" by simp
    moreover have "free_entries blocks h t = do { h \<leftarrow> free_list h (blocks e); free_entries blocks h t' }"
      using False e by (simp add: free_entries.simps[of blocks h t])
    ultimately show ?thesis using 1[OF False e[symmetric]]
      by (cases "free_list h (blocks e)") (simp_all add: free_list_append)
  qed
qed

end
