(* ===== verification/Block_Cache.thy ===== *)
theory Block_Cache
  imports Index_Memory Prelude
begin

text \<open>
  The block cache over a file (src/utils/elf_cache.c): blocks of 4096 bytes in a red-black tree
  by offset and in a list by time of use, with the least recently used block evicted. The file
  is a parameter: \<open>rd offset size\<close> is what \<open>lseek\<close> and \<open>read\<close> deliver. A block is named by its
  allocation; the list links of a block are its place in \<open>lru_list\<close>.
\<close>

section \<open>Model\<close>

abbreviation CACHE_BLOCK_SIZE :: nat where "CACHE_BLOCK_SIZE \<equiv> 4096"
abbreviation MAX_CACHE_BLOCKS :: int where "MAX_CACHE_BLOCKS \<equiv> 1024"

type_synonym file_reader = "nat \<Rightarrow> nat \<Rightarrow> u8 list option"

record cache_block =
  cb_offset :: nat
  cb_data :: "u8 list"
  cb_block :: block

record memory_cache =
  cache_tree :: "cache_block rbt"
  lru_list :: "block list"
  current_blocks :: int
  max_blocks :: int
  file_size :: nat
  access_counter :: nat
  last_access :: "block \<Rightarrow> nat"
  mc_block :: block

definition cache_init :: "c_heap \<Rightarrow> nat \<Rightarrow> c_heap \<times> memory_cache option" where
  "cache_init h fsize =
     (case malloc h 64 of
        (h, None) \<Rightarrow> (h, None)
      | (h, Some b) \<Rightarrow>
          (h, Some \<lparr>cache_tree = Leaf, lru_list = [], current_blocks = 0, max_blocks = MAX_CACHE_BLOCKS,
             file_size = fsize, access_counter = 0, last_access = (\<lambda>_. 0), mc_block = b\<rparr>))"

definition block_look :: "nat \<Rightarrow> cache_block \<Rightarrow> turn" where
  "block_look offset b =
     (if offset < cb_offset b then GoLeft
      else if offset \<ge> cb_offset b + CACHE_BLOCK_SIZE then GoRight
      else Found)"

definition find_cache_block :: "memory_cache \<Rightarrow> nat \<Rightarrow> cache_block option" where
  "find_cache_block cache offset = tree_search (block_look offset) (cache_tree cache)"

definition read_from_file :: "file_reader \<Rightarrow> nat \<Rightarrow> nat \<Rightarrow> u8 list option" where
  "read_from_file rd offset sz =
     (case rd offset sz of
        None \<Rightarrow> None
      | Some bytes \<Rightarrow> if length bytes \<noteq> sz then None else Some bytes)"

text \<open>The block is zeroed by \<open>calloc\<close>, then its first bytes are read from the file.\<close>

definition create_cache_block :: "c_heap \<Rightarrow> file_reader \<Rightarrow> memory_cache \<Rightarrow> nat \<Rightarrow>
    (c_heap \<times> memory_cache \<times> cache_block option) option" where
  "create_cache_block h rd cache offset =
     (case malloc h 4168 of
        (h, None) \<Rightarrow> Some (h, cache, None)
      | (h, Some b) \<Rightarrow>
          (let cache = cache\<lparr>access_counter := access_counter cache + 1,
                 last_access := (last_access cache)(b := access_counter cache + 1)\<rparr>;
               read_size = (if offset + CACHE_BLOCK_SIZE > file_size cache then file_size cache - offset
                            else CACHE_BLOCK_SIZE)
           in case read_from_file rd offset read_size of
                None \<Rightarrow> do { h \<leftarrow> free_block h b; Some (h, cache, None) }
              | Some bytes \<Rightarrow>
                  Some (h, cache, Some \<lparr>cb_offset = offset,
                    cb_data = bytes @ replicate (CACHE_BLOCK_SIZE - length bytes) 0, cb_block = b\<rparr>)))"

definition block_turn :: "cache_block \<Rightarrow> cache_block \<Rightarrow> turn" where
  "block_turn b current_block = (if cb_offset b < cb_offset current_block then GoLeft else GoRight)"

definition insert_cache_block :: "memory_cache \<Rightarrow> cache_block \<Rightarrow> memory_cache" where
  "insert_cache_block cache b =
     cache\<lparr>cache_tree := (case tree_insert (block_turn b) b (cache_tree cache) of Some t \<Rightarrow> t | None \<Rightarrow> cache_tree cache)\<rparr>"

definition evict_lru_block :: "c_heap \<Rightarrow> memory_cache \<Rightarrow> (c_heap \<times> memory_cache) option" where
  "evict_lru_block h cache =
     (case lru_list cache of
        [] \<Rightarrow> Some (h, cache)
      | b # bs \<Rightarrow>
          do { t \<leftarrow> erase_entry (\<lambda>e. cb_block e = b) (cache_tree cache);
               h \<leftarrow> free_block h b;
               Some (h, cache\<lparr>cache_tree := t, lru_list := bs, current_blocks := current_blocks cache - 1\<rparr>) })"

text \<open>The block for an offset: found, or loaded after an eviction when the cache is full.\<close>

definition load_block :: "c_heap \<Rightarrow> file_reader \<Rightarrow> memory_cache \<Rightarrow> nat \<Rightarrow>
    (c_heap \<times> memory_cache \<times> cache_block option) option" where
  "load_block h rd cache current_offset =
     (case find_cache_block cache current_offset of
        Some b \<Rightarrow> Some (h, cache, Some b)
      | None \<Rightarrow>
          do { (h, cache) \<leftarrow> (if current_blocks cache \<ge> max_blocks cache then evict_lru_block h cache else Some (h, cache));
               (h, cache, b) \<leftarrow> create_cache_block h rd cache ((current_offset div CACHE_BLOCK_SIZE) * CACHE_BLOCK_SIZE);
               case b of
                 None \<Rightarrow> Some (h, cache, None)
               | Some b \<Rightarrow>
                   (let cache = insert_cache_block cache b in
                    Some (h, cache\<lparr>lru_list := lru_list cache @ [cb_block b],
                      current_blocks := current_blocks cache + 1\<rparr>, Some b)) })"

text \<open>Moving a block to the end of the list; a block that is not linked there would be a fault.\<close>

definition touch_block :: "memory_cache \<Rightarrow> block \<Rightarrow> memory_cache option" where
  "touch_block cache b =
     (if b \<in> set (lru_list cache)
      then Some (cache\<lparr>access_counter := access_counter cache + 1,
             last_access := (last_access cache)(b := access_counter cache + 1),
             lru_list := remove1 b (lru_list cache) @ [b]\<rparr>)
      else None)"

function cache_read_loop :: "c_heap \<Rightarrow> file_reader \<Rightarrow> memory_cache \<Rightarrow> nat \<Rightarrow> nat \<Rightarrow> u8 list \<Rightarrow>
    (c_heap \<times> memory_cache \<times> u8 list option) option" where
  "cache_read_loop h rd cache current_offset remaining buf =
     (if remaining = 0 then Some (h, cache, Some buf)
      else
        (case load_block h rd cache current_offset of
           None \<Rightarrow> None
         | Some (h, cache, None) \<Rightarrow> Some (h, cache, None)
         | Some (h, cache, Some b) \<Rightarrow>
             (case touch_block cache (cb_block b) of
                None \<Rightarrow> None
              | Some cache \<Rightarrow>
                  (let block_pos = current_offset mod CACHE_BLOCK_SIZE;
                       copy_size = (if remaining < CACHE_BLOCK_SIZE - block_pos then remaining
                                    else CACHE_BLOCK_SIZE - block_pos)
                   in cache_read_loop h rd cache (current_offset + copy_size) (remaining - copy_size)
                        (buf @ take copy_size (drop block_pos (cb_data b)))))))"
  by pat_completeness auto
termination
  by (relation "measure (\<lambda>(h, rd, cache, off, rem, buf). rem)") auto

declare cache_read_loop.simps [simp del]

text \<open>The result is \<open>None\<close> for -1 and the bytes copied into the buffer for 0.\<close>

definition cache_read :: "c_heap \<Rightarrow> file_reader \<Rightarrow> memory_cache \<Rightarrow> nat \<Rightarrow> nat \<Rightarrow>
    (c_heap \<times> memory_cache \<times> u8 list option) option" where
  "cache_read h rd cache offset sz =
     (if offset \<ge> file_size cache then Some (h, cache, None)
      else
        (let sz = (if (offset + sz) mod 2 ^ 64 > file_size cache then file_size cache - offset else sz)
         in cache_read_loop h rd cache offset sz []))"

function cache_prefetch_loop :: "c_heap \<Rightarrow> file_reader \<Rightarrow> memory_cache \<Rightarrow> nat \<Rightarrow> nat \<Rightarrow>
    (c_heap \<times> memory_cache \<times> int) option" where
  "cache_prefetch_loop h rd cache current_offset limit =
     (if current_offset < limit then
        (case cache_read h rd cache current_offset CACHE_BLOCK_SIZE of
           None \<Rightarrow> None
         | Some (h, cache, None) \<Rightarrow> Some (h, cache, - 1)
         | Some (h, cache, Some _) \<Rightarrow> cache_prefetch_loop h rd cache (current_offset + CACHE_BLOCK_SIZE) limit)
      else Some (h, cache, 0))"
  by pat_completeness auto
termination
  by (relation "measure (\<lambda>(h, rd, cache, off, limit). limit - off)") auto

declare cache_prefetch_loop.simps [simp del]

definition cache_prefetch :: "c_heap \<Rightarrow> file_reader \<Rightarrow> memory_cache option \<Rightarrow> nat \<Rightarrow> nat \<Rightarrow>
    (c_heap \<times> memory_cache option \<times> int) option" where
  "cache_prefetch h rd cache offset sz =
     (case cache of
        None \<Rightarrow> Some (h, None, - 1)
      | Some cache \<Rightarrow>
          do { (h, cache, r) \<leftarrow> cache_prefetch_loop h rd cache offset ((offset + sz) mod 2 ^ 64);
               Some (h, Some cache, r) })"

text \<open>Flushing erases the first block from the tree and the list and frees it, until the tree is empty.\<close>

function flush_loop :: "c_heap \<Rightarrow> cache_block rbt \<Rightarrow> block list \<Rightarrow> (c_heap \<times> block list) option" where
  "flush_loop h t lru =
     (if t = Leaf then Some (h, lru)
      else
        (case erase_first t of (b, t') \<Rightarrow>
           if cb_block b \<in> set lru
           then do { h \<leftarrow> free_block h (cb_block b); flush_loop h t' (remove1 (cb_block b) lru) }
           else None))"
  by pat_completeness auto
termination
  by (relation "measure (\<lambda>(h, t, lru). length (inorder t))") (auto intro: erase_first_shorter)

declare flush_loop.simps [simp del]

definition cache_flush :: "c_heap \<Rightarrow> memory_cache \<Rightarrow> (c_heap \<times> memory_cache) option" where
  "cache_flush h cache = do {
     (h, lru) \<leftarrow> flush_loop h (cache_tree cache) (lru_list cache);
     Some (h, cache\<lparr>cache_tree := Leaf, lru_list := lru, current_blocks := 0\<rparr>) }"

text \<open>
  The clean-up frees the blocks of the tree and then walks the list, unlinking and freeing each
  of its blocks: the walk reads a block before it frees it.
\<close>

definition cache_cleanup :: "c_heap \<Rightarrow> memory_cache option \<Rightarrow> c_heap option" where
  "cache_cleanup h cache =
     (case cache of
        None \<Rightarrow> Some h
      | Some cache \<Rightarrow>
          do { h \<leftarrow> free_entries (\<lambda>b. [cb_block b]) h (cache_tree cache);
               h \<leftarrow> free_list h (lru_list cache);
               free_block h (mc_block cache) })"

text \<open>The cache is read only.\<close>

definition cache_write :: "memory_cache option \<Rightarrow> nat \<Rightarrow> u8 list \<Rightarrow> memory_cache option \<times> int" where
  "cache_write cache offset buffer = (cache, - 1)"

definition cache_get_stats :: "memory_cache \<Rightarrow> int \<times> int \<times> int" where
  "cache_get_stats cache = (current_blocks cache, 0, 0)"

section \<open>Invariant\<close>

interpretation cs: ordered_index cb_offset block_turn
  by unfold_locales (auto simp: block_turn_def split: if_splits)

interpretation ci: interval_search cb_offset "\<lambda>b. cb_offset b + CACHE_BLOCK_SIZE" block_look
  by unfold_locales (auto simp: block_look_def)

text \<open>What the block at an offset holds: the bytes of the file, filled up with zeros.\<close>

definition block_bytes :: "u8 list \<Rightarrow> nat \<Rightarrow> u8 list" where
  "block_bytes file offset =
     take CACHE_BLOCK_SIZE (drop offset file) @ replicate (CACHE_BLOCK_SIZE - (length file - offset)) 0"

definition block_tree_blocks :: "memory_cache \<Rightarrow> block list" where
  "block_tree_blocks cache = map cb_block (inorder (cache_tree cache))"

text \<open>
  The tree is ordered by distinct offsets of whole blocks, each with the bytes of the file, the
  list holds the same blocks, their number is the counter and within the limit, and the memory
  of the blocks is owned.
\<close>

definition cache_inv :: "(block \<Rightarrow> nat option) \<Rightarrow> block list \<Rightarrow> u8 list \<Rightarrow> c_heap \<Rightarrow> memory_cache \<Rightarrow> bool" where
  "cache_inv base bs file h cache \<longleftrightarrow>
     indexed cb_offset (cache_tree cache) \<and> distinct (map cb_offset (inorder (cache_tree cache))) \<and>
     (\<forall>b\<in>set (inorder (cache_tree cache)). CACHE_BLOCK_SIZE dvd cb_offset b \<and> cb_data b = block_bytes file (cb_offset b)) \<and>
     mset (lru_list cache) = mset (block_tree_blocks cache) \<and>
     current_blocks cache = int (length (lru_list cache)) \<and>
     current_blocks cache \<le> max_blocks cache \<and> max_blocks cache = MAX_CACHE_BLOCKS \<and> file_size cache = length file \<and>
     owns base h (block_tree_blocks cache @ bs)"

text \<open>What the system call delivers: an error, or a prefix of the bytes asked for.\<close>

definition reads_file :: "file_reader \<Rightarrow> u8 list \<Rightarrow> bool" where
  "reads_file rd file \<longleftrightarrow> (\<forall>off sz bytes. rd off sz = Some bytes \<longrightarrow> bytes = take (length bytes) (drop off file) \<and> length bytes \<le> sz)"

lemma cache_inv_apart:
  assumes "cache_inv base bs file h cache"
  shows "apart cb_offset (\<lambda>b. cb_offset b + CACHE_BLOCK_SIZE) (cache_tree cache)"
proof -
  let ?es = "inorder (cache_tree cache)"
  have so: "sorted (map cb_offset ?es)" "distinct (map cb_offset ?es)" "\<forall>b\<in>set ?es. CACHE_BLOCK_SIZE dvd cb_offset b"
    using assms by (auto simp: cache_inv_def indexed_def)
  then have "sorted_wrt (<) (map cb_offset ?es)" by (simp add: strict_sorted_iff)
  then have "sorted_wrt (\<lambda>x y. cb_offset x < cb_offset y) ?es" by (simp add: sorted_wrt_map)
  then have "sorted_wrt (\<lambda>x y. cb_offset x \<le> cb_offset y \<and> cb_offset x + CACHE_BLOCK_SIZE \<le> cb_offset y) ?es"
  proof (rule sorted_wrt_mono_rel[rotated])
    fix x y assume a: "x \<in> set ?es" "y \<in> set ?es" "cb_offset x < cb_offset y"
    from so(3) a(1,2) obtain i j where "cb_offset x = CACHE_BLOCK_SIZE * i" "cb_offset y = CACHE_BLOCK_SIZE * j"
      by (meson dvd_def)
    with a(3) show "cb_offset x \<le> cb_offset y \<and> cb_offset x + CACHE_BLOCK_SIZE \<le> cb_offset y" by simp
  qed
  then show ?thesis by (simp add: apart_def)
qed

lemma find_cache_block_Some:
  assumes "cache_inv base bs file h cache" and "find_cache_block cache offset = Some b"
  shows "b \<in> set (inorder (cache_tree cache))" "cb_offset b = (offset div CACHE_BLOCK_SIZE) * CACHE_BLOCK_SIZE"
proof -
  from ci.search_sound[of offset "cache_tree cache" b] assms(2)
  have b: "b \<in> set (inorder (cache_tree cache))" "cb_offset b \<le> offset" "offset < cb_offset b + CACHE_BLOCK_SIZE"
    by (auto simp: find_cache_block_def)
  then show "b \<in> set (inorder (cache_tree cache))" by simp
  have "CACHE_BLOCK_SIZE dvd cb_offset b" using assms(1) b(1) by (auto simp: cache_inv_def)
  then obtain i where "cb_offset b = CACHE_BLOCK_SIZE * i" by (elim dvdE)
  with b(2,3) have "offset div CACHE_BLOCK_SIZE = i" by (intro div_nat_eqI) auto
  with \<open>cb_offset b = CACHE_BLOCK_SIZE * i\<close> show "cb_offset b = (offset div CACHE_BLOCK_SIZE) * CACHE_BLOCK_SIZE" by simp
qed

lemma find_cache_block_None:
  assumes "cache_inv base bs file h cache" and "find_cache_block cache offset = None"
  shows "(offset div CACHE_BLOCK_SIZE) * CACHE_BLOCK_SIZE \<notin> cb_offset ` set (inorder (cache_tree cache))"
proof
  assume "(offset div CACHE_BLOCK_SIZE) * CACHE_BLOCK_SIZE \<in> cb_offset ` set (inorder (cache_tree cache))"
  then obtain e where e: "e \<in> set (inorder (cache_tree cache))" "cb_offset e = (offset div CACHE_BLOCK_SIZE) * CACHE_BLOCK_SIZE" by auto
  have "cb_offset e \<le> offset" "offset < cb_offset e + CACHE_BLOCK_SIZE"
    using e(2) div_mult_mod_eq[of offset CACHE_BLOCK_SIZE] mod_less_divisor[of CACHE_BLOCK_SIZE offset] by linarith+
  from ci.search_complete[OF cache_inv_apart[OF assms(1)] e(1) this] assms(2) show False by (simp add: find_cache_block_def)
qed

section \<open>The operations keep the invariant\<close>

lemma evict_ok:
  assumes "cache_inv base bs file h cache" and "current_blocks cache \<ge> max_blocks cache"
  shows "\<exists>h' cache'. evict_lru_block h cache = Some (h', cache') \<and> cache_inv base bs file h' cache' \<and>
    current_blocks cache' < max_blocks cache' \<and> oom h' = oom h \<and>
    set (inorder (cache_tree cache')) \<subseteq> set (inorder (cache_tree cache))"
proof -
  have i: "indexed cb_offset (cache_tree cache)" "distinct (map cb_offset (inorder (cache_tree cache)))"
      "\<forall>b\<in>set (inorder (cache_tree cache)). CACHE_BLOCK_SIZE dvd cb_offset b \<and> cb_data b = block_bytes file (cb_offset b)"
      "mset (lru_list cache) = mset (block_tree_blocks cache)" "current_blocks cache = int (length (lru_list cache))"
      "current_blocks cache \<le> max_blocks cache" "max_blocks cache = MAX_CACHE_BLOCKS" "file_size cache = length file"
      "owns base h (block_tree_blocks cache @ bs)"
    using assms(1) by (auto simp: cache_inv_def)
  from assms(2) i(5,7) obtain b rest where l: "lru_list cache = b # rest" by (cases "lru_list cache") auto
  have "b \<in> set (block_tree_blocks cache)" using i(4) l by (metis list.set_intros(1) mset_eq_setD)
  then obtain e where "e \<in> set (inorder (cache_tree cache))" "cb_block e = b" by (auto simp: block_tree_blocks_def)
  from erase_entry_spec[of e "cache_tree cache" "\<lambda>e. cb_block e = b", OF this] obtain t' x xs ys where
    t: "erase_entry (\<lambda>e. cb_block e = b) (cache_tree cache) = Some t'" "cb_block x = b"
      "inorder (cache_tree cache) = xs @ x # ys" "inorder t' = xs @ ys" "is_rbt (cache_tree cache) \<longrightarrow> is_rbt t'" by blast
  let ?c = "cache\<lparr>cache_tree := t', lru_list := rest, current_blocks := current_blocks cache - 1\<rparr>"
  have ts: "indexed cb_offset t'" "distinct (map cb_offset (inorder t'))"
    using i(1,2) t(3-5) by (auto simp: indexed_def sorted_append)
  have tb: "mset (block_tree_blocks cache) = add_mset b (mset (block_tree_blocks ?c))"
    using t(2-4) by (simp add: block_tree_blocks_def)
  then have "mset (block_tree_blocks cache @ bs) = mset (b # block_tree_blocks ?c @ bs)" by simp
  then have "owns base h (b # block_tree_blocks ?c @ bs)" by (rule owns_perm[OF i(9)])
  from owns_free_hd[OF this] obtain h' where h': "free_block h b = Some h'" "owns base h' (block_tree_blocks ?c @ bs)" by blast
  have "mset rest = mset (block_tree_blocks ?c)" using i(4) l tb by simp
  then have "cache_inv base bs file h' ?c"
    unfolding cache_inv_def using ts i(3,5-8) t(3,4) l h'(2) by simp
  moreover have "evict_lru_block h cache = Some (h', ?c)" using l t(1) h'(1) by (simp add: evict_lru_block_def)
  ultimately show ?thesis using i(6) t(3,4) oom_free_block[OF h'(1)] by auto
qed

lemma block_bytes_read:
  assumes "reads_file rd file" and "offset \<le> length file"
    and "read_from_file rd offset (if offset + CACHE_BLOCK_SIZE > length file then length file - offset else CACHE_BLOCK_SIZE) = Some bytes"
  shows "bytes @ replicate (CACHE_BLOCK_SIZE - length bytes) 0 = block_bytes file offset"
proof -
  let ?n = "if offset + CACHE_BLOCK_SIZE > length file then length file - offset else CACHE_BLOCK_SIZE"
  from assms(3) have "rd offset ?n = Some bytes" and n: "length bytes = ?n"
    by (auto simp: read_from_file_def split: option.splits if_splits)
  with assms(1) have "bytes = take (length bytes) (drop offset file)" unfolding reads_file_def by blast
  then have b: "bytes = take ?n (drop offset file)" by (simp only: n)
  show ?thesis
  proof (cases "offset + CACHE_BLOCK_SIZE > length file")
    case True
    with b have "bytes = take CACHE_BLOCK_SIZE (drop offset file)" by simp
    with True n show ?thesis by (simp add: block_bytes_def)
  next
    case False
    with b n show ?thesis by (simp add: block_bytes_def)
  qed
qed

lemma insert_block_tree:
  assumes "indexed cb_offset (cache_tree cache)"
  shows "indexed cb_offset (cache_tree (insert_cache_block cache b)) \<and>
    mset (inorder (cache_tree (insert_cache_block cache b))) = add_mset b (mset (inorder (cache_tree cache)))"
proof -
  have "find_link (block_turn b) t k \<noteq> None" for t k by (induction t arbitrary: k) (auto simp: block_turn_def)
  then obtain t' where "tree_insert (block_turn b) b (cache_tree cache) = Some t'" by (fastforce simp: tree_insert_def)
  with cs.insert_ok[OF assms this] show ?thesis by (simp add: insert_cache_block_def)
qed

text \<open>A block that is not in the tree yet, inserted and linked.\<close>

lemma link_block_ok:
  assumes inv: "cache_inv base bs file h cache" and own: "owns base h' (cb_block b # block_tree_blocks cache @ bs)"
    and room: "current_blocks cache < max_blocks cache"
    and b: "CACHE_BLOCK_SIZE dvd cb_offset b" "cb_data b = block_bytes file (cb_offset b)"
    and new: "cb_offset b \<notin> cb_offset ` set (inorder (cache_tree cache))"
  shows "cache_inv base bs file h' ((insert_cache_block cache b)\<lparr>lru_list := lru_list cache @ [cb_block b],
    current_blocks := current_blocks cache + 1\<rparr>)"
proof -
  let ?i = "insert_cache_block cache b"
  let ?c = "?i\<lparr>lru_list := lru_list cache @ [cb_block b], current_blocks := current_blocks cache + 1\<rparr>"
  note t = insert_block_tree[of cache b]
  have ix: "indexed cb_offset (cache_tree cache)" using inv by (simp add: cache_inv_def)
  have m: "mset (inorder (cache_tree ?c)) = add_mset b (mset (inorder (cache_tree cache)))" using t[OF ix] by simp
  then have se: "set (inorder (cache_tree ?c)) = insert b (set (inorder (cache_tree cache)))"
    by (metis set_mset_add_mset_insert set_mset_mset)
  have "mset (map cb_offset (inorder (cache_tree ?c))) = mset (cb_offset b # map cb_offset (inorder (cache_tree cache)))"
    using m by simp
  moreover have "distinct (cb_offset b # map cb_offset (inorder (cache_tree cache)))"
    using inv new by (simp add: cache_inv_def)
  ultimately have di: "distinct (map cb_offset (inorder (cache_tree ?c)))" by (metis mset_eq_imp_distinct_iff)
  have tb: "mset (block_tree_blocks ?c) = add_mset (cb_block b) (mset (block_tree_blocks cache))" using m by (simp add: block_tree_blocks_def)
  have "owns base h' (block_tree_blocks ?c @ bs)" by (rule owns_perm[OF own]) (simp add: tb)
  moreover have "mset (lru_list ?c) = mset (block_tree_blocks ?c)" using inv tb by (simp add: cache_inv_def)
  moreover have "max_blocks ?c = max_blocks cache" "file_size ?c = file_size cache" by (simp_all add: insert_cache_block_def)
  ultimately show ?thesis
    unfolding cache_inv_def using inv room b t[OF ix] se di by (auto simp: cache_inv_def)
qed

lemma cache_inv_stamp:
  "cache_inv base bs file h (cache\<lparr>access_counter := n, last_access := f\<rparr>) = cache_inv base bs file h cache"
  by (simp add: cache_inv_def block_tree_blocks_def)

lemma create_block_ok:
  assumes inv: "cache_inv base bs file h cache" and rd: "reads_file rd file" and "offset \<le> length file"
  shows "\<exists>h' n f r. create_cache_block h rd cache offset = Some (h', cache\<lparr>access_counter := n, last_access := f\<rparr>, r) \<and>
    oom h' = oom h \<and>
    (case r of
       None \<Rightarrow> owns base h' (block_tree_blocks cache @ bs) \<and>
         ((\<forall>b. \<not> oom h b) \<longrightarrow> (\<exists>sz. sz \<le> length file - offset \<and> read_from_file rd offset sz = None))
     | Some b \<Rightarrow> owns base h' (cb_block b # block_tree_blocks cache @ bs) \<and> cb_offset b = offset \<and> cb_data b = block_bytes file offset)"
proof -
  have own: "owns base h (block_tree_blocks cache @ bs)" and fs: "file_size cache = length file" using inv by (auto simp: cache_inv_def)
  obtain h1 r1 where m: "malloc h 4168 = (h1, r1)" by (cases "malloc h 4168")
  note om = oom_malloc[OF m]
  show ?thesis
  proof (cases r1)
    case None
    have "create_cache_block h rd cache offset =
        Some (h1, cache\<lparr>access_counter := access_counter cache, last_access := last_access cache\<rparr>, None)"
      using m None by (simp add: create_cache_block_def)
    with owns_malloc_None[OF own m[unfolded None]] om None show ?thesis by fastforce
  next
    case (Some b)
    have o1: "owns base h1 (b # block_tree_blocks cache @ bs)" using owns_malloc[OF own] m Some by simp
    let ?n = "if offset + CACHE_BLOCK_SIZE > length file then length file - offset else CACHE_BLOCK_SIZE"
    let ?c = "cache\<lparr>access_counter := access_counter cache + 1, last_access := (last_access cache)(b := access_counter cache + 1)\<rparr>"
    show ?thesis
    proof (cases "read_from_file rd offset ?n")
      case None
      from owns_free_hd[OF o1] obtain h2 where h2: "free_block h1 b = Some h2" "owns base h2 (block_tree_blocks cache @ bs)" by blast
      have "create_cache_block h rd cache offset = Some (h2, ?c, None)"
        using m Some None h2(1) fs
        by (cases "offset + CACHE_BLOCK_SIZE > length file") (simp_all add: create_cache_block_def Let_def)
      moreover have "\<exists>sz. sz \<le> length file - offset \<and> read_from_file rd offset sz = None"
        by (rule exI[of _ ?n]) (use None assms(3) in auto)
      ultimately show ?thesis using h2 om oom_free_block[OF h2(1)] by (intro exI) (auto split del: if_split)
    next
      case (Some bytes)
      note bb = block_bytes_read[OF rd assms(3) Some]
      have "create_cache_block h rd cache offset =
          Some (h1, ?c, Some \<lparr>cb_offset = offset, cb_data = block_bytes file offset, cb_block = b\<rparr>)"
        using m \<open>r1 = Some b\<close> Some fs bb
        by (cases "offset + CACHE_BLOCK_SIZE > length file") (simp_all add: create_cache_block_def Let_def)
      with o1 om show ?thesis by fastforce
    qed
  qed
qed

text \<open>A step that gives up needs a refused allocation or a failed read.\<close>

definition supplied :: "c_heap \<Rightarrow> file_reader \<Rightarrow> u8 list \<Rightarrow> bool" where
  "supplied h rd file \<longleftrightarrow> (\<forall>b. \<not> oom h b) \<and>
     (\<forall>off sz. off \<le> length file \<longrightarrow> sz \<le> length file - off \<longrightarrow> read_from_file rd off sz \<noteq> None)"

lemma supplied_oom: "oom h' = oom h \<Longrightarrow> supplied h' rd file = supplied h rd file"
  by (simp add: supplied_def)

lemma load_block_ok:
  assumes inv: "cache_inv base bs file h cache" and rd: "reads_file rd file" and off: "offset < length file"
  shows "\<exists>h' cache' r. load_block h rd cache offset = Some (h', cache', r) \<and> cache_inv base bs file h' cache' \<and>
    oom h' = oom h \<and>
    (case r of
       None \<Rightarrow> \<not> supplied h rd file
     | Some b \<Rightarrow> cb_block b \<in> set (lru_list cache') \<and> cb_data b = block_bytes file ((offset div CACHE_BLOCK_SIZE) * CACHE_BLOCK_SIZE))"
proof (cases "find_cache_block cache offset")
  case (Some b)
  note f = find_cache_block_Some[OF inv Some]
  have d: "cb_data b = block_bytes file ((offset div CACHE_BLOCK_SIZE) * CACHE_BLOCK_SIZE)"
    using inv f by (auto simp: cache_inv_def)
  have "cb_block b \<in> set (block_tree_blocks cache)" using f(1) by (simp add: block_tree_blocks_def)
  moreover have "set (lru_list cache) = set (block_tree_blocks cache)"
    using inv unfolding cache_inv_def by (metis mset_eq_setD)
  ultimately show ?thesis using Some inv d by (simp add: load_block_def)
next
  case None
  let ?o = "(offset div CACHE_BLOCK_SIZE) * CACHE_BLOCK_SIZE"
  have ol: "?o \<le> length file" using off by (metis div_times_less_eq_dividend le_less_trans less_imp_le)
  note nf = find_cache_block_None[OF inv None]
  obtain h1 c1 where e: "(if current_blocks cache \<ge> max_blocks cache then evict_lru_block h cache else Some (h, cache)) = Some (h1, c1)"
      "cache_inv base bs file h1 c1" "current_blocks c1 < max_blocks c1" "oom h1 = oom h"
      "set (inorder (cache_tree c1)) \<subseteq> set (inorder (cache_tree cache))"
    using evict_ok[OF inv] inv by (cases "current_blocks cache \<ge> max_blocks cache") auto
  from create_block_ok[OF e(2) rd ol] obtain h2 n f r where
    c: "create_cache_block h1 rd c1 ?o = Some (h2, c1\<lparr>access_counter := n, last_access := f\<rparr>, r)" "oom h2 = oom h1"
      "case r of None \<Rightarrow> owns base h2 (block_tree_blocks c1 @ bs) \<and>
           ((\<forall>b. \<not> oom h1 b) \<longrightarrow> (\<exists>sz. sz \<le> length file - ?o \<and> read_from_file rd ?o sz = None))
       | Some b \<Rightarrow> owns base h2 (cb_block b # block_tree_blocks c1 @ bs) \<and> cb_offset b = ?o \<and> cb_data b = block_bytes file ?o" by blast
  let ?c2 = "c1\<lparr>access_counter := n, last_access := f\<rparr>"
  show ?thesis
  proof (cases r)
    case r: None
    have "load_block h rd cache offset = Some (h2, ?c2, None)" using None e(1) c(1) r by (simp add: load_block_def)
    moreover have "cache_inv base bs file h2 ?c2"
      unfolding cache_inv_stamp using e(2) c(3) r by (simp add: cache_inv_def)
    moreover have "\<not> supplied h rd file" using c(3) r e(4) ol by (auto simp: supplied_def)
    ultimately show ?thesis using c(2) e(4) by simp
  next
    case (Some b)
    let ?c3 = "(insert_cache_block ?c2 b)\<lparr>lru_list := lru_list ?c2 @ [cb_block b], current_blocks := current_blocks ?c2 + 1\<rparr>"
    have b: "owns base h2 (cb_block b # block_tree_blocks c1 @ bs)" "cb_offset b = ?o" "cb_data b = block_bytes file ?o"
      using c(3) Some by auto
    have "load_block h rd cache offset = Some (h2, ?c3, Some b)"
      using None e(1) c(1) Some by (simp add: load_block_def Let_def insert_cache_block_def)
    moreover have "cache_inv base bs file h2 ?c3"
    proof (rule link_block_ok)
      show "cache_inv base bs file h1 ?c2" using e(2) by (simp add: cache_inv_stamp)
      show "owns base h2 (cb_block b # block_tree_blocks ?c2 @ bs)" using b(1) by (simp add: block_tree_blocks_def)
      show "current_blocks ?c2 < max_blocks ?c2" using e(3) by simp
      show "cb_offset b \<notin> cb_offset ` set (inorder (cache_tree ?c2))" using nf e(5) b(2) by auto
    qed (use b in simp_all)
    ultimately show ?thesis using c(2) e(4) b(3) by simp
  qed
qed

lemma touch_ok:
  assumes "cache_inv base bs file h cache" and "b \<in> set (lru_list cache)"
  shows "\<exists>cache'. touch_block cache b = Some cache' \<and> cache_inv base bs file h cache'"
proof -
  define lru where "lru = remove1 b (lru_list cache) @ [b]"
  have "mset lru = mset (lru_list cache)" using assms(2) by (simp add: lru_def)
  then have "mset lru = mset (block_tree_blocks cache)" "length lru = length (lru_list cache)"
    using assms(1) mset_eq_length[of lru "lru_list cache"] by (auto simp: cache_inv_def)
  with assms show ?thesis by (auto simp: touch_block_def cache_inv_def block_tree_blocks_def simp flip: lru_def)
qed

text \<open>What is copied out of a block is what the file has at that place.\<close>

lemma block_bytes_part:
  assumes "offset + n \<le> length file" and "n \<le> CACHE_BLOCK_SIZE - offset mod CACHE_BLOCK_SIZE"
  shows "take n (drop (offset mod CACHE_BLOCK_SIZE) (block_bytes file ((offset div CACHE_BLOCK_SIZE) * CACHE_BLOCK_SIZE))) =
    take n (drop offset file)"
proof -
  let ?o = "(offset div CACHE_BLOCK_SIZE) * CACHE_BLOCK_SIZE" and ?m = "offset mod CACHE_BLOCK_SIZE"
  have o: "?o + ?m = offset" by simp
  have "?m < CACHE_BLOCK_SIZE" by simp
  have "drop ?m (take CACHE_BLOCK_SIZE (drop ?o file)) = take (CACHE_BLOCK_SIZE - ?m) (drop offset file)"
    using o by (simp add: drop_take)
  moreover have "n \<le> length (take (CACHE_BLOCK_SIZE - ?m) (drop offset file))" using assms by simp
  moreover have "?m \<le> length file - ?o" using assms(1) o by linarith
  then have "?m \<le> length (take CACHE_BLOCK_SIZE (drop ?o file))" using \<open>?m < CACHE_BLOCK_SIZE\<close> by simp
  ultimately show ?thesis using assms(2) by (auto simp: block_bytes_def)
qed

lemma cache_read_loop_ok:
  assumes "cache_inv base bs file h cache" and rd: "reads_file rd file" and "offset + remaining \<le> length file"
  shows "\<exists>h' cache' r. cache_read_loop h rd cache offset remaining buf = Some (h', cache', r) \<and>
    cache_inv base bs file h' cache' \<and> oom h' = oom h \<and>
    (case r of
       None \<Rightarrow> \<not> supplied h rd file
     | Some bytes \<Rightarrow> bytes = buf @ take remaining (drop offset file))"
  using assms(1,3)
proof (induction remaining arbitrary: h cache offset buf rule: less_induct)
  case (less remaining)
  show ?case
  proof (cases "remaining = 0")
    case True
    with less.prems show ?thesis by (subst cache_read_loop.simps) simp
  next
    case False
    then have "offset < length file" using less.prems(2) by simp
    from load_block_ok[OF less.prems(1) rd this] obtain h1 c1 r1 where
      l: "load_block h rd cache offset = Some (h1, c1, r1)" "cache_inv base bs file h1 c1" "oom h1 = oom h"
        "case r1 of None \<Rightarrow> \<not> supplied h rd file
         | Some b \<Rightarrow> cb_block b \<in> set (lru_list c1) \<and> cb_data b = block_bytes file ((offset div CACHE_BLOCK_SIZE) * CACHE_BLOCK_SIZE)" by blast
    show ?thesis
    proof (cases r1)
      case None
      with False l show ?thesis by (subst cache_read_loop.simps) simp
    next
      case (Some b)
      with l(4) have b: "cb_block b \<in> set (lru_list c1)" "cb_data b = block_bytes file ((offset div CACHE_BLOCK_SIZE) * CACHE_BLOCK_SIZE)" by auto
      from touch_ok[OF l(2) b(1)] obtain c2 where t: "touch_block c1 (cb_block b) = Some c2" "cache_inv base bs file h1 c2" by blast
      define k where "k = (if remaining < CACHE_BLOCK_SIZE - offset mod CACHE_BLOCK_SIZE then remaining
        else CACHE_BLOCK_SIZE - offset mod CACHE_BLOCK_SIZE)"
      have "offset mod CACHE_BLOCK_SIZE < CACHE_BLOCK_SIZE" by simp
      then have k: "0 < k" "k \<le> remaining" "k \<le> CACHE_BLOCK_SIZE - offset mod CACHE_BLOCK_SIZE"
        using False by (auto simp: k_def)
      have copied: "take k (drop (offset mod CACHE_BLOCK_SIZE) (cb_data b)) = take k (drop offset file)"
        unfolding b(2) using k less.prems(2) by (intro block_bytes_part) auto
      have run: "cache_read_loop h rd cache offset remaining buf =
          cache_read_loop h1 rd c2 (offset + k) (remaining - k) (buf @ take k (drop offset file))"
        using False l(1) Some t(1) copied by (subst cache_read_loop.simps) (simp add: Let_def flip: k_def)
      have join: "(buf @ take k (drop offset file)) @ take (remaining - k) (drop (offset + k) file) = buf @ take remaining (drop offset file)"
        using k(2) take_add[of k "remaining - k" "drop offset file"] by (simp add: add.commute)
      have "remaining - k < remaining" "offset + k + (remaining - k) \<le> length file" using k less.prems(2) by auto
      from less.IH[OF this(1) t(2) this(2), of "buf @ take k (drop offset file)"] obtain h2 c3 r2 where
        r2: "cache_read_loop h1 rd c2 (offset + k) (remaining - k) (buf @ take k (drop offset file)) = Some (h2, c3, r2)"
          "cache_inv base bs file h2 c3" "oom h2 = oom h1"
          "case r2 of None \<Rightarrow> \<not> supplied h1 rd file
           | Some bytes \<Rightarrow> bytes = (buf @ take k (drop offset file)) @ take (remaining - k) (drop (offset + k) file)" by blast
      have "case r2 of None \<Rightarrow> \<not> supplied h rd file | Some bytes \<Rightarrow> bytes = buf @ take remaining (drop offset file)"
        using r2(4) supplied_oom[OF l(3), of rd "file"] unfolding join by (cases r2) simp_all
      with r2(1-3) l(3) show ?thesis unfolding run by auto
    qed
  qed
qed

lemma flush_loop_ok:
  assumes "mset lru = mset (map cb_block (inorder t))" and "owns base h (map cb_block (inorder t) @ bs)"
  shows "\<exists>h'. flush_loop h t lru = Some (h', []) \<and> owns base h' bs"
  using assms
proof (induction h t lru rule: flush_loop.induct)
  case (1 h t lru)
  show ?case
  proof (cases "t = Leaf")
    case True
    with "1.prems" show ?thesis by (subst flush_loop.simps) simp
  next
    case False
    obtain b t' where e: "erase_first t = (b, t')" by (cases "erase_first t")
    with erase_first_spec(1)[OF False] have io: "inorder t = b # inorder t'" by simp
    have lru: "cb_block b \<in> set lru" "mset (remove1 (cb_block b) lru) = mset (map cb_block (inorder t'))"
      using "1.prems"(1) io by (simp_all, metis set_mset_mset union_single_eq_member)
    have "owns base h (cb_block b # (map cb_block (inorder t') @ bs))" using "1.prems"(2) io by simp
    from owns_free_hd[OF this] obtain h1 where h1: "free_block h (cb_block b) = Some h1"
        "owns base h1 (map cb_block (inorder t') @ bs)" by blast
    from "1.IH"[OF False e[symmetric] lru(1) h1(1) lru(2) h1(2)] False e lru(1) h1(1) show ?thesis
      by (subst flush_loop.simps) simp
  qed
qed

lemma cache_read_ok:
  assumes inv: "cache_inv base bs file h cache" and rd: "reads_file rd file" and sz: "offset + sz < 2 ^ 64"
  shows "\<exists>h' cache' r. cache_read h rd cache offset sz = Some (h', cache', r) \<and>
    cache_inv base bs file h' cache' \<and> oom h' = oom h \<and>
    (case r of
       None \<Rightarrow> length file \<le> offset \<or> \<not> supplied h rd file
     | Some bytes \<Rightarrow> offset < length file \<and> bytes = take sz (drop offset file))"
proof (cases "length file \<le> offset")
  case True
  moreover have "file_size cache = length file" using inv by (simp add: cache_inv_def)
  ultimately show ?thesis using inv by (simp add: cache_read_def)
next
  case False
  let ?n = "if offset + sz > length file then length file - offset else sz"
  have fs: "file_size cache = length file" using inv by (simp add: cache_inv_def)
  have "offset + ?n \<le> length file" using False by auto
  from cache_read_loop_ok[OF inv rd this, of "[]"] obtain h' c' r where
    r: "cache_read_loop h rd cache offset ?n [] = Some (h', c', r)" "cache_inv base bs file h' c'" "oom h' = oom h"
      "case r of None \<Rightarrow> \<not> supplied h rd file | Some bytes \<Rightarrow> bytes = [] @ take ?n (drop offset file)" by blast
  have "take ?n (drop offset file) = take sz (drop offset file)" by auto
  then have "case r of None \<Rightarrow> length file \<le> offset \<or> \<not> supplied h rd file
      | Some bytes \<Rightarrow> offset < length file \<and> bytes = take sz (drop offset file)"
    using r(4) False by (cases r) simp_all
  moreover have "cache_read h rd cache offset sz = Some (h', c', r)"
    using False fs sz r(1) by (cases "offset + sz > length file") (simp_all add: cache_read_def Let_def)
  ultimately show ?thesis using r(2,3) by blast
qed

text \<open>A sequence of requests on one cache, with the results.\<close>

fun cache_reads :: "c_heap \<Rightarrow> file_reader \<Rightarrow> memory_cache \<Rightarrow> (nat \<times> nat) list \<Rightarrow>
    (c_heap \<times> memory_cache \<times> u8 list option list) option" where
  "cache_reads h rd cache [] = Some (h, cache, [])"
| "cache_reads h rd cache ((offset, sz) # reqs) =
     do { (h, cache, r) \<leftarrow> cache_read h rd cache offset sz;
          (h, cache, rs) \<leftarrow> cache_reads h rd cache reqs;
          Some (h, cache, r # rs) }"

definition answers :: "bool \<Rightarrow> u8 list \<Rightarrow> nat \<times> nat \<Rightarrow> u8 list option \<Rightarrow> bool" where
  "answers must file req r \<longleftrightarrow> (case req of (offset, sz) \<Rightarrow>
     (case r of
        None \<Rightarrow> length file \<le> offset \<or> \<not> must
      | Some bytes \<Rightarrow> offset < length file \<and> bytes = take sz (drop offset file)))"

lemma cache_reads_ok:
  assumes "reads_file rd file" and "\<forall>(offset, sz)\<in>set reqs. offset + sz < 2 ^ 64" and "cache_inv base bs file h cache"
  shows "\<exists>h' cache' rs. cache_reads h rd cache reqs = Some (h', cache', rs) \<and> cache_inv base bs file h' cache' \<and>
    list_all2 (answers (supplied h rd file) file) reqs rs"
  using assms(2,3)
proof (induction reqs arbitrary: h cache)
  case (Cons q reqs)
  obtain offset sz where q: "q = (offset, sz)" by (cases q)
  from cache_read_ok[OF Cons.prems(2) assms(1), of offset sz] Cons.prems(1) q obtain h1 c1 r where
    r: "cache_read h rd cache offset sz = Some (h1, c1, r)" "cache_inv base bs file h1 c1" "oom h1 = oom h"
      "case r of None \<Rightarrow> length file \<le> offset \<or> \<not> supplied h rd file
       | Some bytes \<Rightarrow> offset < length file \<and> bytes = take sz (drop offset file)" by auto
  from Cons.IH[OF _ r(2)] Cons.prems(1) obtain h2 c2 rs where
    rs: "cache_reads h1 rd c1 reqs = Some (h2, c2, rs)" "cache_inv base bs file h2 c2"
      "list_all2 (answers (supplied h1 rd file) file) reqs rs" by auto
  moreover have "answers (supplied h rd file) file q r" using r(4) q by (simp add: answers_def)
  ultimately show ?case using q r(1) supplied_oom[OF r(3), of rd "file"] by simp
qed simp

text \<open>
  C21. The cache is transparent: on a new cache any sequence of reads, with whatever hits, misses
  and evictions it causes, is answered with exactly the bytes the file has there (cut at its
  end); a read fails only beyond the end, or when memory or the file refuses. The number of
  blocks stays within 1024, and flushing returns the memory of all blocks.
\<close>

theorem cache_transparent:
  assumes "heap_ok h" and "cache_init h (length file) = (h1, Some cache)" and "reads_file rd file"
    and "\<forall>(offset, sz)\<in>set reqs. offset + sz < 2 ^ 64"
  shows "\<exists>h2 cache2 rs h3 cache3. cache_reads h1 rd cache reqs = Some (h2, cache2, rs) \<and>
    list_all2 (answers (supplied h1 rd file) file) reqs rs \<and> current_blocks cache2 \<le> MAX_CACHE_BLOCKS \<and>
    cache_flush h2 cache2 = Some (h3, cache3) \<and> lru_list cache3 = [] \<and> live h3 = live h1"
proof -
  from assms(2) obtain b where m: "malloc h 64 = (h1, Some b)" and c: "cache = \<lparr>cache_tree = Leaf, lru_list = [],
      current_blocks = 0, max_blocks = MAX_CACHE_BLOCKS, file_size = length file, access_counter = 0, last_access = (\<lambda>_. 0), mc_block = b\<rparr>"
    by (auto simp: cache_init_def split: prod.splits option.splits)
  have "owns (live h1) h1 []" using heap_ok_malloc[OF assms(1) m] by (rule owns_start)
  then have "cache_inv (live h1) [] file h1 cache" using cs.index_Leaf by (simp add: cache_inv_def c block_tree_blocks_def)
  from cache_reads_ok[OF assms(3,4) this] obtain h2 cache2 rs where
    r: "cache_reads h1 rd cache reqs = Some (h2, cache2, rs)" "cache_inv (live h1) [] file h2 cache2"
      "list_all2 (answers (supplied h1 rd file) file) reqs rs" by blast
  then have own: "mset (lru_list cache2) = mset (map cb_block (inorder (cache_tree cache2)))"
      "owns (live h1) h2 (map cb_block (inorder (cache_tree cache2)) @ [])" "current_blocks cache2 \<le> MAX_CACHE_BLOCKS"
    by (auto simp: cache_inv_def block_tree_blocks_def)
  from flush_loop_ok[OF own(1,2)] obtain h3 where
    "flush_loop h2 (cache_tree cache2) (lru_list cache2) = Some (h3, [])" "owns (live h1) h3 []" by blast
  then have "cache_flush h2 cache2 = Some (h3, cache2\<lparr>cache_tree := Leaf, lru_list := [], current_blocks := 0\<rparr>)"
      "live h3 = live h1"
    using owns_empty by (auto simp: cache_flush_def)
  with r(1,3) own(3) show ?thesis
    by (intro exI[of _ h2] exI[of _ cache2] exI[of _ rs] exI[of _ h3] exI) auto
qed

text \<open>
  Cleaning up a cache that was used: the blocks are freed through the tree and then visited
  again through the list, which reads memory that is no longer allocated. Only an empty cache
  can be cleaned up.
\<close>

theorem cache_cleanup_fault:
  assumes "cache_inv base (mc_block cache # bs) file h cache"
  shows "cache_cleanup h (Some cache) = None \<longleftrightarrow> lru_list cache \<noteq> []"
proof -
  have own: "owns base h (block_tree_blocks cache @ mc_block cache # bs)" and l: "mset (lru_list cache) = mset (block_tree_blocks cache)"
    using assms by (auto simp: cache_inv_def)
  have fe: "free_entries (\<lambda>b. [cb_block b]) h (cache_tree cache) = free_list h (block_tree_blocks cache)"
    by (simp add: free_entries_list block_tree_blocks_def)
  from owns_free_list[OF own] obtain h1 where h1: "free_list h (block_tree_blocks cache) = Some h1" "owns base h1 (mc_block cache # bs)" by blast
  show ?thesis
  proof (cases "lru_list cache")
    case Nil
    with fe h1 owns_free_hd[OF h1(2)] show ?thesis by (auto simp: cache_cleanup_def)
  next
    case (Cons b rest)
    then have "b \<in> set (block_tree_blocks cache)" using l by (metis list.set_intros(1) mset_eq_setD)
    then have "live h1 b = None" using h1(1) by (auto simp: free_list_Some)
    with Cons fe h1(1) show ?thesis by (simp add: cache_cleanup_def free_block_def)
  qed
qed

section \<open>Examples\<close>

definition example_file :: "u8 list" where
  "example_file = [1, 2, 3, 4, 5]"

definition example_reader :: file_reader where
  "example_reader off sz = Some (take sz (drop off example_file))"

lemma example_reads: "reads_file example_reader example_file"
  by (auto simp: reads_file_def example_reader_def min_def)

definition example_cache :: memory_cache where
  "example_cache = \<lparr>cache_tree = Leaf, lru_list = [], current_blocks = 0, max_blocks = MAX_CACHE_BLOCKS,
     file_size = 5, access_counter = 0, last_access = (\<lambda>_. 0), mc_block = 0\<rparr>"

lemma example_init: "cache_init empty_heap (length example_file) = (fst (malloc empty_heap 64), Some example_cache)"
  by (simp add: cache_init_def malloc_def empty_heap_def example_cache_def example_file_def)

theorem cache_transparent_witness:
  "\<exists>h2 cache2 rs h3 cache3. cache_reads (fst (malloc empty_heap 64)) example_reader example_cache [(1, 2), (3, 9), (7, 1)] =
      Some (h2, cache2, rs) \<and>
    list_all2 (answers (supplied (fst (malloc empty_heap 64)) example_reader example_file) example_file) [(1, 2), (3, 9), (7, 1)] rs \<and>
    current_blocks cache2 \<le> MAX_CACHE_BLOCKS \<and>
    cache_flush h2 cache2 = Some (h3, cache3) \<and> lru_list cache3 = [] \<and> live h3 = live (fst (malloc empty_heap 64))"
  by (rule cache_transparent[OF heap_ok_empty example_init example_reads]) simp

definition example_used :: "c_heap \<times> memory_cache" where
  "example_used = (\<lparr>live = [0 \<mapsto> 64, 1 \<mapsto> 4168], next_block = 2, oom = (\<lambda>_. False)\<rparr>,
     example_cache\<lparr>cache_tree := Node RB_BLACK Leaf \<lparr>cb_offset = 0, cb_data = block_bytes example_file 0, cb_block = 1\<rparr> Leaf,
       lru_list := [1], current_blocks := 1\<rparr>)"

theorem cache_cleanup_fault_witness:
  "cache_cleanup (fst example_used) (Some (snd example_used)) = None \<longleftrightarrow> lru_list (snd example_used) \<noteq> []"
proof (rule cache_cleanup_fault)
  show "cache_inv (\<lambda>_. None) (mc_block (snd example_used) # []) example_file (fst example_used) (snd example_used)"
    by (simp add: cache_inv_def example_used_def example_cache_def block_tree_blocks_def example_file_def indexed_def is_rbt_def
      owns_def heap_ok_def)
qed

end
