(* ===== verification/C_Text.thy ===== *)
theory C_Text
  imports Prelude
begin

text \<open>
  The parts of the C library's text handling that the sources use: the conversions of the
  \<open>scanf\<close> family that occur in their formats, on a string without its terminating NUL, and the
  printing of numbers and byte strings by the \<open>printf\<close> family. A conversion either matches and
  leaves the rest of the input or fails.
\<close>

section \<open>Scanning\<close>

definition c_isspace :: "char \<Rightarrow> bool" where
  "c_isspace c = (of_char c \<in> {32, 9, 10, 11, 12, 13 :: nat})"

definition skip_space :: "string \<Rightarrow> string" where
  "skip_space s = dropWhile c_isspace s"

text \<open>The value of a digit character, in any base up to 16.\<close>

definition digit_value :: "char \<Rightarrow> nat option" where
  "digit_value c = (let n = of_char c in
     if 48 \<le> n \<and> n \<le> 57 then Some (n - 48)
     else if 97 \<le> n \<and> n \<le> 102 then Some (n - 87)
     else if 65 \<le> n \<and> n \<le> 70 then Some (n - 55) else None)"

definition is_digit :: "nat \<Rightarrow> char \<Rightarrow> bool" where
  "is_digit base c = (case digit_value c of None \<Rightarrow> False | Some v \<Rightarrow> v < base)"

fun digits_value :: "nat \<Rightarrow> nat \<Rightarrow> string \<Rightarrow> nat" where
  "digits_value base acc [] = acc"
| "digits_value base acc (c # cs) = digits_value base (acc * base + the (digit_value c)) cs"

text \<open>\<open>%lx\<close>: blanks, an optional sign, an optional \<open>0x\<close>, and at least one hexadecimal digit.
  The conversion is \<open>strtoul\<close>, which gives the largest value on overflow.\<close>

definition scan_sign :: "string \<Rightarrow> bool \<times> string" where
  "scan_sign s = (case s of
     c # cs \<Rightarrow> if c = CHR ''-'' then (True, cs) else if c = CHR ''+'' then (False, cs) else (False, s)
   | [] \<Rightarrow> (False, s))"

definition scan_prefix :: "string \<Rightarrow> string" where
  "scan_prefix s = (case s of
     a # b # c # cs \<Rightarrow> if a = CHR ''0'' \<and> (b = CHR ''x'' \<or> b = CHR ''X'') \<and> is_digit 16 c then c # cs else s
   | _ \<Rightarrow> s)"

definition to_ulong :: "bool \<Rightarrow> nat \<Rightarrow> u64" where
  "to_ulong neg v = (if v \<ge> 2 ^ 64 then - 1 else if neg then - of_nat v else of_nat v)"

definition scan_hex :: "string \<Rightarrow> (u64 \<times> string) option" where
  "scan_hex s = (case scan_sign (skip_space s) of (neg, s) \<Rightarrow>
     let s = scan_prefix s; ds = takeWhile (is_digit 16) s in
     if ds = [] then None else Some (to_ulong neg (digits_value 16 0 ds), drop (length ds) s))"

text \<open>\<open>%*d\<close> and the like: a decimal number that is not stored.\<close>

definition skip_decimal :: "string \<Rightarrow> string option" where
  "skip_decimal s = (case scan_sign (skip_space s) of (neg, s) \<Rightarrow>
     let ds = takeWhile (is_digit 10) s in if ds = [] then None else Some (drop (length ds) s))"

definition scan_decimal :: "string \<Rightarrow> (nat \<times> string) option" where
  "scan_decimal s = (case scan_sign (skip_space s) of (neg, s) \<Rightarrow>
     let ds = takeWhile (is_digit 10) s in
     if ds = [] then None else Some (unat (to_ulong neg (digits_value 10 0 ds)), drop (length ds) s))"

text \<open>\<open>%<n>s\<close>: blanks, then at least one and at most \<open>n\<close> characters that are not blank.\<close>

definition scan_word :: "nat \<Rightarrow> string \<Rightarrow> (string \<times> string) option" where
  "scan_word n s = (let s = skip_space s; w = take n (takeWhile (\<lambda>c. \<not> c_isspace c) s) in
     if w = [] then None else Some (w, drop (length w) s))"

definition skip_word :: "string \<Rightarrow> string option" where
  "skip_word s = (let s = skip_space s; w = takeWhile (\<lambda>c. \<not> c_isspace c) s in
     if w = [] then None else Some (drop (length w) s))"

definition scan_char :: "string \<Rightarrow> (char \<times> string) option" where
  "scan_char s = (case s of [] \<Rightarrow> None | c # cs \<Rightarrow> Some (c, cs))"

definition scan_literal :: "char \<Rightarrow> string \<Rightarrow> string option" where
  "scan_literal c s = (case s of [] \<Rightarrow> None | x # xs \<Rightarrow> if x = c then Some xs else None)"

text \<open>
  \<open>atoi\<close> as the C library has it: \<open>strtol\<close>, which stops at the bounds of \<open>long\<close>, and a conversion
  to \<open>int\<close>.
\<close>

definition to_int :: "int \<Rightarrow> int" where
  "to_int v = sint (word_of_int (max (- (2 ^ 63)) (min (2 ^ 63 - 1) v)) :: u32)"

definition atoi :: "string \<Rightarrow> int" where
  "atoi s = (case scan_sign (skip_space s) of (neg, s) \<Rightarrow>
     let v = int (digits_value 10 0 (takeWhile (is_digit 10) s)) in to_int (if neg then - v else v))"

text \<open>\<open>strncmp(a, b, n) == 0\<close>: the strings agree, their terminating NUL included, on \<open>n\<close> characters.\<close>

definition strncmp_eq :: "string \<Rightarrow> string \<Rightarrow> nat \<Rightarrow> bool" where
  "strncmp_eq a b n \<longleftrightarrow> take n (a @ [CHR 0x00]) = take n (b @ [CHR 0x00])"

text \<open>
  \<open>fgets\<close> with a buffer of \<open>n + 1\<close> bytes: a line with its newline, or the next \<open>n\<close> characters
  of a longer line. \<open>fgets_all\<close> is what a loop over a whole file reads.
\<close>

definition newline :: char where
  "newline = CHR 0x0A"

fun fgets :: "nat \<Rightarrow> string \<Rightarrow> string \<times> string" where
  "fgets 0 s = ([], s)"
| "fgets (Suc n) [] = ([], [])"
| "fgets (Suc n) (c # cs) =
     (if c = newline then ([c], cs) else (case fgets n cs of (l, r) \<Rightarrow> (c # l, r)))"

lemma fgets_append: "fgets n s = (l, r) \<Longrightarrow> s = l @ r"
  by (induction n s arbitrary: l rule: fgets.induct) (auto split: if_splits prod.splits)

lemma fgets_progress: "0 < n \<Longrightarrow> s \<noteq> [] \<Longrightarrow> fst (fgets n s) \<noteq> []"
  by (cases n; cases s) (auto split: prod.splits)

lemma fgets_length: "0 < n \<Longrightarrow> s \<noteq> [] \<Longrightarrow> length (snd (fgets n s)) < length s"
  using fgets_append[of n s "fst (fgets n s)" "snd (fgets n s)"] fgets_progress[of n s]
  by (metis length_append less_add_same_cancel2 length_greater_0_conv prod.collapse)

function fgets_all :: "nat \<Rightarrow> string \<Rightarrow> string list" where
  "fgets_all n s = (if n = 0 \<or> s = [] then [] else fst (fgets n s) # fgets_all n (snd (fgets n s)))"
  by pat_completeness auto
termination
  by (relation "measure (\<lambda>(n, s). length s)") (auto simp: fgets_length)

declare fgets_all.simps [simp del]

lemma fgets_line: "newline \<notin> set l \<Longrightarrow> length l < n \<Longrightarrow> fgets n (l @ newline # r) = (l @ [newline], r)"
proof (induction l arbitrary: n)
  case Nil
  then show ?case by (cases n) auto
next
  case (Cons c l)
  then show ?case by (cases n) auto
qed

text \<open>Lines that fit the buffer are read one by one.\<close>

lemma fgets_all_lines:
  assumes "\<forall>l\<in>set ls. newline \<notin> set l \<and> length l < n"
  shows "fgets_all n (concat (map (\<lambda>l. l @ [newline]) ls)) = map (\<lambda>l. l @ [newline]) ls"
  using assms
proof (induction ls)
  case Nil
  then show ?case by (simp add: fgets_all.simps)
next
  case (Cons l ls)
  then have "fgets n (concat (map (\<lambda>l. l @ [newline]) (l # ls))) =
      (l @ [newline], concat (map (\<lambda>l. l @ [newline]) ls))"
    by (simp add: fgets_line)
  moreover have "n \<noteq> 0" using Cons.prems by auto
  ultimately show ?case using Cons by (subst fgets_all.simps) simp
qed

section \<open>Printing\<close>

definition hex_digit :: "nat \<Rightarrow> char" where
  "hex_digit n = (if n < 10 then char_of (48 + n) else char_of (87 + n))"

fun print_base :: "nat \<Rightarrow> nat \<Rightarrow> nat \<Rightarrow> string" where
  "print_base 0 base n = []"
| "print_base (Suc fuel) base n =
     (if n < base then [hex_digit n] else print_base fuel base (n div base) @ [hex_digit (n mod base)])"

text \<open>\<open>%lu\<close>, \<open>%d\<close> and \<open>%lx\<close>; 64 digits are enough for a 64-bit number in any base.\<close>

definition print_dec :: "nat \<Rightarrow> string" where
  "print_dec n = print_base 64 10 n"

definition print_hex :: "nat \<Rightarrow> string" where
  "print_hex n = print_base 64 16 n"

definition print_int :: "int \<Rightarrow> string" where
  "print_int i = (if i < 0 then CHR ''-'' # print_dec (nat (- i)) else print_dec (nat i))"

text \<open>\<open>%02x\<close> of one byte.\<close>

definition print_byte :: "u8 \<Rightarrow> string" where
  "print_byte b = [hex_digit (unat b div 16), hex_digit (unat b mod 16)]"

section \<open>Round trips\<close>

lemma digit_value_hex_digit: "n < 16 \<Longrightarrow> digit_value (hex_digit n) = Some n"
  by (auto simp: digit_value_def hex_digit_def Let_def)

lemma is_digit_hex_digit: "n < base \<Longrightarrow> base \<le> 16 \<Longrightarrow> is_digit base (hex_digit n)"
  by (simp add: is_digit_def digit_value_hex_digit)

lemma digits_value_append: "digits_value base acc (xs @ ys) = digits_value base (digits_value base acc xs) ys"
  by (induction xs arbitrary: acc) auto

lemma print_base_digits:
  assumes "2 \<le> base" "base \<le> 16" "n < base ^ fuel" "0 < fuel"
  shows "print_base fuel base n \<noteq> [] \<and> list_all (is_digit base) (print_base fuel base n) \<and>
    digits_value base 0 (print_base fuel base n) = n"
  using assms(3,4)
proof (induction fuel arbitrary: n)
  case (Suc fuel)
  show ?case
  proof (cases "n < base")
    case True
    with assms show ?thesis by (simp add: is_digit_hex_digit digit_value_hex_digit)
  next
    case False
    have "fuel \<noteq> 0" using Suc.prems(1) False by (cases fuel) auto
    moreover have "n div base < base ^ fuel"
      using Suc.prems(1) assms(1) by (simp add: less_mult_imp_div_less mult.commute)
    moreover have "n mod base < base" using assms(1) by simp
    ultimately show ?thesis
      using Suc.IH[of "n div base"] False assms(2)
      by (simp add: digits_value_append is_digit_hex_digit digit_value_hex_digit)
  qed
qed simp

lemma is_digit_not_sign:
  assumes "is_digit 16 c"
  shows "\<not> c_isspace c" "c \<noteq> CHR ''-''" "c \<noteq> CHR ''+''" "c \<noteq> CHR ''x''" "c \<noteq> CHR ''X''"
proof -
  have v: "digit_value c \<noteq> None" using assms by (auto simp: is_digit_def split: option.splits)
  show "\<not> c_isspace c" using v by (auto simp: digit_value_def c_isspace_def Let_def split: if_splits)
  show "c \<noteq> CHR ''-''" "c \<noteq> CHR ''+''" "c \<noteq> CHR ''x''" "c \<noteq> CHR ''X''"
    using v by (auto simp: digit_value_def Let_def split: if_splits)
qed

lemma is_digit_mono: "is_digit b c \<Longrightarrow> b \<le> b' \<Longrightarrow> is_digit b' c"
  by (auto simp: is_digit_def split: option.splits)

text \<open>A printed number followed by something that is not a digit is read back.\<close>

lemma scan_hex_digits:
  assumes "list_all (is_digit 16) ds" and "ds \<noteq> []" and "rest = [] \<or> \<not> is_digit 16 (hd rest)"
    and "rest = [] \<or> (hd rest \<noteq> CHR ''x'' \<and> hd rest \<noteq> CHR ''X'')"
  shows "scan_hex (ds @ rest) = Some (to_ulong False (digits_value 16 0 ds), rest)"
proof -
  obtain d ds' where ds: "ds = d # ds'" using assms(2) by (cases ds) auto
  then have d: "is_digit 16 d" using assms(1) by simp
  have sk: "skip_space (ds @ rest) = ds @ rest" using is_digit_not_sign(1)[OF d] ds by (simp add: skip_space_def)
  have sg: "scan_sign (ds @ rest) = (False, ds @ rest)"
    using is_digit_not_sign(2,3)[OF d] ds by (simp add: scan_sign_def)
  have pf: "scan_prefix (ds @ rest) = ds @ rest"
  proof (cases ds')
    case Nil
    then show ?thesis using assms(4) ds by (cases rest) (auto simp: scan_prefix_def split: list.splits)
  next
    case (Cons e es)
    then have "is_digit 16 e" using assms(1) ds by simp
    then show ?thesis using ds Cons is_digit_not_sign(4,5)[of e]
      by (auto simp: scan_prefix_def split: list.splits)
  qed
  have tw: "takeWhile (is_digit 16) (ds @ rest) = ds"
    using assms(1,3) by (auto simp: takeWhile_append list_all_iff takeWhile_eq_Nil_iff)
  show ?thesis unfolding scan_hex_def by (simp add: sk sg pf tw Let_def assms(2))
qed

lemma scan_hex_print:
  assumes "n < 2 ^ 64" and "rest = [] \<or> \<not> is_digit 16 (hd rest)"
    and "rest = [] \<or> (hd rest \<noteq> CHR ''x'' \<and> hd rest \<noteq> CHR ''X'')"
  shows "scan_hex (print_hex n @ rest) = Some (of_nat n, rest)"
proof -
  have "n < 16 ^ 64" using assms(1) by simp
  from print_base_digits[of 16 n 64] this
  have "print_hex n \<noteq> []" "list_all (is_digit 16) (print_hex n)" "digits_value 16 0 (print_hex n) = n"
    by (auto simp: print_hex_def)
  with scan_hex_digits[of "print_hex n" rest] assms show ?thesis by (simp add: to_ulong_def)
qed

lemma skip_space_blank [simp]: "skip_space (CHR '' '' # s) = skip_space s"
  by (simp add: skip_space_def c_isspace_def)

lemma scan_hex_blank [simp]: "scan_hex (CHR '' '' # s) = scan_hex s"
  by (simp add: scan_hex_def)

lemma scan_word_blank [simp]: "scan_word n (CHR '' '' # s) = scan_word n s"
  by (simp add: scan_word_def)

lemma skip_word_blank [simp]: "skip_word (CHR '' '' # s) = skip_word s"
  by (simp add: skip_word_def)

lemma skip_decimal_blank [simp]: "skip_decimal (CHR '' '' # s) = skip_decimal s"
  by (simp add: skip_decimal_def)

text \<open>A word followed by a blank, and a printed decimal number, are skipped as a whole.\<close>

lemma scan_word_word:
  assumes "w \<noteq> []" "\<forall>c\<in>set w. \<not> c_isspace c" "length w \<le> n" "rest = [] \<or> c_isspace (hd rest)"
  shows "scan_word n (w @ rest) = Some (w, rest)" "skip_word (w @ rest) = Some rest"
proof -
  have sk: "skip_space (w @ rest) = w @ rest" using assms(1,2) by (cases w) (auto simp: skip_space_def)
  have tw: "takeWhile (\<lambda>c. \<not> c_isspace c) (w @ rest) = w"
    using assms(2,4) by (auto simp: takeWhile_append takeWhile_eq_Nil_iff)
  show "scan_word n (w @ rest) = Some (w, rest)" "skip_word (w @ rest) = Some rest"
    using sk tw assms(1,3) by (cases n; cases w; simp add: scan_word_def skip_word_def Let_def)+
qed

lemma skip_decimal_digits:
  assumes "list_all (is_digit 10) ds" "ds \<noteq> []" "rest = [] \<or> \<not> is_digit 10 (hd rest)"
  shows "skip_decimal (ds @ rest) = Some rest"
proof -
  obtain d ds' where ds: "ds = d # ds'" using assms(2) by (cases ds) auto
  then have d: "is_digit 16 d" using assms(1) is_digit_mono[of 10 d 16] by simp
  have "skip_space (ds @ rest) = ds @ rest" using is_digit_not_sign(1)[OF d] ds by (simp add: skip_space_def)
  moreover have "scan_sign (ds @ rest) = (False, ds @ rest)"
    using is_digit_not_sign(2,3)[OF d] ds by (simp add: scan_sign_def)
  moreover have "takeWhile (is_digit 10) (ds @ rest) = ds"
    using assms(1,3) by (auto simp: takeWhile_append list_all_iff takeWhile_eq_Nil_iff)
  ultimately show ?thesis using assms(2) by (simp add: skip_decimal_def Let_def)
qed

lemma print_dec_digits:
  assumes "n < 2 ^ 64"
  shows "print_dec n \<noteq> []" "list_all (is_digit 10) (print_dec n)" "digits_value 10 0 (print_dec n) = n"
proof -
  have "(2 :: nat) ^ 64 \<le> 10 ^ 64" by (rule power_mono) auto
  with assms have "n < 10 ^ 64" by linarith
  from print_base_digits[of 10 n 64] this
  show "print_dec n \<noteq> []" "list_all (is_digit 10) (print_dec n)" "digits_value 10 0 (print_dec n) = n"
    by (auto simp: print_dec_def)
qed

lemma to_int_id: "- (2 ^ 31) \<le> v \<Longrightarrow> v < 2 ^ 31 \<Longrightarrow> to_int v = v"
  by (simp add: to_int_def sint_sbintrunc' signed_take_bit_int_eq_self)

lemma to_int_range: "- (2 ^ 31) \<le> to_int v \<and> to_int v < 2 ^ 31"
  unfolding to_int_def using sint_greater_eq[where 'a = 32] sint_less[where 'a = 32] by simp

lemma atoi_range: "- (2 ^ 31) \<le> atoi s \<and> atoi s < 2 ^ 31"
  by (simp add: atoi_def Let_def to_int_range[simplified] split: prod.splits)

lemma scan_sign_digits:
  assumes "list_all (is_digit 10) ds" "ds \<noteq> []"
  shows "scan_sign (skip_space (ds @ rest)) = (False, ds @ rest)"
proof -
  obtain d ds' where ds: "ds = d # ds'" using assms(2) by (cases ds) auto
  then have d: "is_digit 16 d" using assms(1) is_digit_mono[of 10 d 16] by simp
  with ds is_digit_not_sign(1-3)[OF d] show ?thesis by (simp add: scan_sign_def skip_space_def)
qed

lemma takeWhile_digits:
  "list_all (is_digit b) ds \<Longrightarrow> rest = [] \<or> \<not> is_digit b (hd rest) \<Longrightarrow> takeWhile (is_digit b) (ds @ rest) = ds"
  by (auto simp: takeWhile_append list_all_iff takeWhile_eq_Nil_iff)

lemma atoi_print_int:
  assumes "- (2 ^ 31) \<le> i" "i < 2 ^ 31" and "rest = [] \<or> \<not> is_digit 10 (hd rest)"
  shows "atoi (print_int i @ rest) = i"
proof (cases "i < 0")
  case True
  then have "nat (- i) < 2 ^ 64" using assms(1) by simp
  note d = print_dec_digits[OF this]
  have "scan_sign (skip_space (CHR ''-'' # print_dec (nat (- i)) @ rest)) = (True, print_dec (nat (- i)) @ rest)"
    by (simp add: skip_space_def c_isspace_def scan_sign_def)
  with True d takeWhile_digits[OF d(2) assms(3)] assms(1,2) show ?thesis
    by (simp add: atoi_def print_int_def to_int_id)
next
  case False
  then have "nat i < 2 ^ 64" using assms(2) by simp
  note d = print_dec_digits[OF this]
  from False d takeWhile_digits[OF d(2) assms(3)] scan_sign_digits[OF d(2,1), of rest] assms(1,2) show ?thesis
    by (simp add: atoi_def print_int_def to_int_id)
qed

lemma print_base_length: "n < b ^ k \<Longrightarrow> 0 < k \<Longrightarrow> 0 < b \<Longrightarrow> length (print_base fuel b n) \<le> k"
proof (induction fuel b n arbitrary: k rule: print_base.induct)
  case (2 fuel b n)
  show ?case
  proof (cases "n < b")
    case False
    with "2.prems" obtain j where k: "k = Suc j" "0 < j" by (cases k; cases "k - 1") auto
    then have "n div b < b ^ j" using "2.prems" by (simp add: less_mult_imp_div_less mult.commute)
    from "2.IH"[OF False this k(2) "2.prems"(3)] False k show ?thesis by simp
  qed (use 2 in simp)
qed simp

lemma print_int_length:
  assumes "- (2 ^ 31) \<le> i" "i < 2 ^ 31"
  shows "length (print_int i) \<le> 11"
proof -
  have "length (print_dec n) \<le> 10" if "n \<le> 2 ^ 31" for n
    unfolding print_dec_def by (rule print_base_length) (use that in auto)
  moreover have "nat (- i) \<le> 2 ^ 31" "nat i \<le> 2 ^ 31" using assms by (simp_all add: nat_le_iff)
  ultimately have "length (print_dec (nat (- i))) \<le> 10" "length (print_dec (nat i)) \<le> 10" by blast+
  then show ?thesis by (simp add: print_int_def)
qed

text \<open>\<open>snprintf\<close> into a buffer of \<open>n\<close> bytes.\<close>

definition clip :: "nat \<Rightarrow> string \<Rightarrow> string" where
  "clip n s = take (n - 1) s"

lemma clip_length: "0 < n \<Longrightarrow> length (clip n s) < n"
  by (simp add: clip_def)

end
