(* ===== verification/Config.thy ===== *)
theory Config
  imports C_Heap C_Text
begin

text \<open>
  The command line (config/config.c, include/config.h): the configuration record, the chain of
  options of \<open>parse_command_line\<close> in its order, and \<open>validate_config\<close>. A failed parse ends the
  program, so the configuration it leaves behind is not kept. \<open>None\<close> stands for a read past the
  end of an argument.
\<close>

section \<open>The configuration\<close>

datatype filter_mode = FILTER_ALL | FILTER_USER | FILTER_KERNEL

record profiling_config =
  sampling_frequency :: int
  filter_mode :: filter_mode
  cleanup_interval :: int
  max_stack_depth :: int
  sample_pool_size :: int
  use_lbr :: bool
  db_output_dir :: string
  http_port :: int
  log_output_dir :: "block option \<times> string"
  histogram_print_threshold :: int
  histogram_log_path :: cstr
  db_batch_size :: int
  producer_batch_size :: int
  db_entry_pool_size :: int

abbreviation DEFAULT_SAMPLING_FREQUENCY :: int where "DEFAULT_SAMPLING_FREQUENCY \<equiv> 30"
abbreviation DEFAULT_CLEANUP_INTERVAL :: int where "DEFAULT_CLEANUP_INTERVAL \<equiv> 30"
abbreviation DEFAULT_MAX_STACK_DEPTH :: int where "DEFAULT_MAX_STACK_DEPTH \<equiv> 48"
abbreviation DEFAULT_SAMPLE_POOL_SIZE :: int where "DEFAULT_SAMPLE_POOL_SIZE \<equiv> 99297"
abbreviation DEFAULT_HTTP_PORT :: int where "DEFAULT_HTTP_PORT \<equiv> 8081"
abbreviation DEFAULT_HISTOGRAM_PRINT_THRESHOLD :: int where "DEFAULT_HISTOGRAM_PRINT_THRESHOLD \<equiv> 1000"
abbreviation DEFAULT_DB_BATCH_SIZE :: int where "DEFAULT_DB_BATCH_SIZE \<equiv> 96"
abbreviation DEFAULT_PRODUCER_BATCH_SIZE :: int where "DEFAULT_PRODUCER_BATCH_SIZE \<equiv> 96"
abbreviation DEFAULT_DB_ENTRY_POOL_SIZE :: int where "DEFAULT_DB_ENTRY_POOL_SIZE \<equiv> 8192"
abbreviation MAX_PRODUCER_BATCH_SIZE :: int where "MAX_PRODUCER_BATCH_SIZE \<equiv> 4096"

definition default_config :: profiling_config where
  "default_config = \<lparr>
     sampling_frequency = DEFAULT_SAMPLING_FREQUENCY,
     filter_mode = FILTER_ALL,
     cleanup_interval = DEFAULT_CLEANUP_INTERVAL,
     max_stack_depth = DEFAULT_MAX_STACK_DEPTH,
     sample_pool_size = DEFAULT_SAMPLE_POOL_SIZE,
     use_lbr = False,
     db_output_dir = ''/tmp'',
     http_port = DEFAULT_HTTP_PORT,
     log_output_dir = (None, ''/log''),
     histogram_print_threshold = DEFAULT_HISTOGRAM_PRINT_THRESHOLD,
     histogram_log_path = None,
     db_batch_size = DEFAULT_DB_BATCH_SIZE,
     producer_batch_size = DEFAULT_PRODUCER_BATCH_SIZE,
     db_entry_pool_size = DEFAULT_DB_ENTRY_POOL_SIZE\<rparr>"

section \<open>Parsing\<close>

text \<open>An option is taken, makes the parser return -1, or ends the program (\<open>--help\<close>).\<close>

datatype parse_result = Parsed profiling_config | Rejected | Exits

text \<open>\<open>argv[i] + n\<close>; past the terminating NUL it is outside the argument.\<close>

definition arg_at :: "string \<Rightarrow> nat \<Rightarrow> string option" where
  "arg_at a n = (if n \<le> length a then Some (drop n a) else None)"

definition accept_if :: "bool \<Rightarrow> profiling_config \<Rightarrow> parse_result" where
  "accept_if ok config = (if ok then Parsed config else Rejected)"

definition parse_filter :: "profiling_config \<Rightarrow> string \<Rightarrow> parse_result" where
  "parse_filter config mode =
     (if mode = ''user'' then Parsed (config\<lparr>filter_mode := FILTER_USER\<rparr>)
      else if mode = ''kernel'' then Parsed (config\<lparr>filter_mode := FILTER_KERNEL\<rparr>)
      else if mode = ''all'' then Parsed (config\<lparr>filter_mode := FILTER_ALL\<rparr>)
      else Rejected)"

definition set_log_dir :: "c_heap \<Rightarrow> profiling_config \<Rightarrow> string \<Rightarrow> c_heap \<times> parse_result" where
  "set_log_dir h config dir =
     (case strdup h dir of
        (h, None) \<Rightarrow> (h, Rejected)
      | (h, Some (b, s)) \<Rightarrow> (h, Parsed (config\<lparr>log_output_dir := (Some b, s)\<rparr>)))"

definition set_histogram_path :: "c_heap \<Rightarrow> profiling_config \<Rightarrow> string \<Rightarrow> (c_heap \<times> parse_result) option" where
  "set_histogram_path h config path =
     do { h \<leftarrow> free_str h (histogram_log_path config);
          case strdup h path of
            (h, None) \<Rightarrow> Some (h, Rejected)
          | (h, p) \<Rightarrow> Some (h, Parsed (config\<lparr>histogram_log_path := p\<rparr>)) }"

definition parse_option :: "c_heap \<Rightarrow> profiling_config \<Rightarrow> string \<Rightarrow> (c_heap \<times> parse_result) option" where
  "parse_option h config a =
     (if strncmp_eq a ''--frequency='' 12 then
        do { s \<leftarrow> arg_at a 12; Some (h, accept_if (atoi s > 0) (config\<lparr>sampling_frequency := atoi s\<rparr>)) }
      else if strncmp_eq a ''--filter='' 9 then
        do { s \<leftarrow> arg_at a 9; Some (h, parse_filter config s) }
      else if strncmp_eq a ''--sample-pool-size='' 19 then
        do { s \<leftarrow> arg_at a 19; Some (h, accept_if (atoi s > 0) (config\<lparr>sample_pool_size := atoi s\<rparr>)) }
      else if strncmp_eq a ''--stack-depth='' 14 then
        do { s \<leftarrow> arg_at a 14; Some (h, accept_if (atoi s > 0) (config\<lparr>max_stack_depth := atoi s\<rparr>)) }
      else if strncmp_eq a ''--cleanup='' 10 then
        do { s \<leftarrow> arg_at a 10; Some (h, accept_if (atoi s > 0) (config\<lparr>cleanup_interval := atoi s\<rparr>)) }
      else if strncmp_eq a ''--output-dir='' 13 then
        do { s \<leftarrow> arg_at a 13; Some (h, Parsed (config\<lparr>db_output_dir := s\<rparr>)) }
      else if strncmp_eq a ''--http-port='' 12 then
        do { s \<leftarrow> arg_at a 12;
             Some (h, accept_if (0 < atoi s \<and> atoi s \<le> 65535) (config\<lparr>http_port := atoi s\<rparr>)) }
      else if strncmp_eq a ''--log-dir='' 10 then
        do { s \<leftarrow> arg_at a 10; Some (set_log_dir h config s) }
      else if strncmp_eq a ''--histogram-log-path='' 21 then
        do { s \<leftarrow> arg_at a 21; set_histogram_path h config s }
      else if a = ''--lbr'' then Some (h, Parsed (config\<lparr>use_lbr := True\<rparr>))
      else if strncmp_eq a ''--histogram-threshold='' 24 then
        do { s \<leftarrow> arg_at a 24; Some (h, accept_if (atoi s > 0) (config\<lparr>histogram_print_threshold := atoi s\<rparr>)) }
      else if strncmp_eq a ''--db-batch-size='' 16 then
        do { s \<leftarrow> arg_at a 16; Some (h, accept_if (atoi s > 0) (config\<lparr>db_batch_size := atoi s\<rparr>)) }
      else if strncmp_eq a ''--producer-batch-size='' 22 then
        do { s \<leftarrow> arg_at a 22;
             Some (h, accept_if (0 < atoi s \<and> atoi s \<le> MAX_PRODUCER_BATCH_SIZE)
                        (config\<lparr>producer_batch_size := atoi s\<rparr>)) }
      else if strncmp_eq a ''--db-entry-pool-size='' 21 then
        do { s \<leftarrow> arg_at a 21; Some (h, accept_if (atoi s > 0) (config\<lparr>db_entry_pool_size := atoi s\<rparr>)) }
      else if a = ''--help'' then Some (h, Exits)
      else Some (h, Rejected))"

fun parse_options :: "c_heap \<Rightarrow> profiling_config \<Rightarrow> string list \<Rightarrow> (c_heap \<times> parse_result) option" where
  "parse_options h config [] = Some (h, Parsed config)"
| "parse_options h config (a # args) =
     do { (h, r) \<leftarrow> parse_option h config a;
          case r of
            Parsed config \<Rightarrow> parse_options h config args
          | Rejected \<Rightarrow> Some (h, Rejected)
          | Exits \<Rightarrow> Some (h, Exits) }"

definition parse_command_line :: "c_heap \<Rightarrow> string list \<Rightarrow> (c_heap \<times> parse_result) option" where
  "parse_command_line h argv =
     do { (h, r) \<leftarrow> parse_options h default_config (tl argv);
          case r of
            Parsed config \<Rightarrow>
              if histogram_log_path config = None
              then (case strdup h ''log/histogram.log'' of (h, p) \<Rightarrow> Some (h, Parsed (config\<lparr>histogram_log_path := p\<rparr>)))
              else Some (h, Parsed config)
          | _ \<Rightarrow> Some (h, r) }"

definition validate_config :: "profiling_config option \<Rightarrow> int" where
  "validate_config config =
     (case config of
        None \<Rightarrow> - 1
      | Some c \<Rightarrow>
          if sampling_frequency c \<le> 0 then - 1
          else if cleanup_interval c \<le> 0 then - 1
          else if http_port c \<le> 0 \<or> http_port c > 65535 then - 1
          else 0)"

section \<open>Every accepted configuration is in range\<close>

definition config_ok :: "profiling_config \<Rightarrow> bool" where
  "config_ok c \<longleftrightarrow> 0 < sampling_frequency c \<and> 0 < cleanup_interval c \<and> 0 < max_stack_depth c \<and>
     0 < sample_pool_size c \<and> 0 < http_port c \<and> http_port c \<le> 65535 \<and> 0 < histogram_print_threshold c \<and>
     0 < db_batch_size c \<and> 0 < producer_batch_size c \<and> producer_batch_size c \<le> MAX_PRODUCER_BATCH_SIZE \<and>
     0 < db_entry_pool_size c"

text \<open>The steps of the chain keep the ranges: each option only has to be looked at by itself.\<close>

definition keeps :: "(c_heap \<times> parse_result) option \<Rightarrow> bool" where
  "keeps r \<longleftrightarrow> (\<forall>h c. r = Some (h, Parsed c) \<longrightarrow> config_ok c)"

lemma keeps_if: "keeps x \<Longrightarrow> keeps y \<Longrightarrow> keeps (if b then x else y)"
  by simp

lemma keeps_number:
  "(\<And>s. ok s \<Longrightarrow> config_ok (f s)) \<Longrightarrow> keeps (do { s \<leftarrow> arg_at a n; Some (h, accept_if (ok s) (f s)) })"
  by (auto simp: keeps_def accept_if_def split: bind_splits if_splits)

lemma keeps_filter: "config_ok c \<Longrightarrow> keeps (do { s \<leftarrow> arg_at a n; Some (h, parse_filter c s) })"
  by (auto simp: keeps_def parse_filter_def config_ok_def split: bind_splits if_splits)

lemma keeps_output: "config_ok c \<Longrightarrow> keeps (do { s \<leftarrow> arg_at a n; Some (h, Parsed (c\<lparr>db_output_dir := s\<rparr>)) })"
  by (auto simp: keeps_def config_ok_def split: bind_splits)

lemma keeps_log: "config_ok c \<Longrightarrow> keeps (do { s \<leftarrow> arg_at a n; Some (set_log_dir h c s) })"
  by (auto simp: keeps_def set_log_dir_def config_ok_def split: bind_splits prod.splits option.splits)

lemma keeps_histogram: "config_ok c \<Longrightarrow> keeps (do { s \<leftarrow> arg_at a n; set_histogram_path h c s })"
  by (auto simp: keeps_def set_histogram_path_def config_ok_def split: bind_splits prod.splits option.splits)

lemma keeps_plain: "config_ok c \<Longrightarrow> keeps (Some (h, Parsed (c\<lparr>use_lbr := True\<rparr>)))"
    "keeps (Some (h, Rejected))" "keeps (Some (h, Exits))"
  by (auto simp: keeps_def config_ok_def)

lemma parse_option_keeps: "config_ok c \<Longrightarrow> keeps (parse_option h c a)"
  unfolding parse_option_def
  by (intro keeps_if keeps_number keeps_filter keeps_output keeps_log keeps_histogram keeps_plain)
    (auto simp: config_ok_def)

lemma parse_options_keeps: "config_ok c \<Longrightarrow> keeps (parse_options h c args)"
proof (induction args arbitrary: h c)
  case (Cons a args)
  show ?case
  proof (cases "parse_option h c a")
    case (Some hr)
    obtain h' r where hr: "hr = (h', r)" by (cases hr)
    with Some parse_option_keeps[OF Cons.prems, of h a] have "r = Parsed c' \<Longrightarrow> config_ok c'" for c'
      by (simp add: keeps_def)
    with Some hr Cons.IH keeps_plain show ?thesis by (cases r) auto
  qed (simp add: keeps_def)
qed (simp add: keeps_def)

text \<open>
  C35. The type of an accepted command line: whatever the arguments, a configuration that
  \<open>parse_command_line\<close> accepts has all its numbers in range (positive, the port below 65536, the
  producer batch within its buffer of 4096 entries), so \<open>validate_config\<close> accepts it too.
\<close>

theorem parsed_config_valid:
  assumes "parse_command_line h argv = Some (h', Parsed config)"
  shows "config_ok config \<and> validate_config (Some config) = 0"
proof -
  obtain h1 c1 where c1: "parse_options h default_config (tl argv) = Some (h1, Parsed c1)"
    and c: "\<exists>p. config = c1\<lparr>histogram_log_path := p\<rparr>"
  proof -
    from assms obtain h1 r where r: "parse_options h default_config (tl argv) = Some (h1, r)"
      by (auto simp: parse_command_line_def split: bind_splits)
    with assms obtain c1 where p: "r = Parsed c1" by (cases r) (auto simp: parse_command_line_def)
    have "\<exists>p. config = c1\<lparr>histogram_log_path := p\<rparr>"
    proof (cases "histogram_log_path c1")
      case None
      with assms r p show ?thesis by (auto simp: parse_command_line_def split: prod.splits)
    next
      case (Some x)
      with assms r p have "config = c1\<lparr>histogram_log_path := Some x\<rparr>" by (auto simp: parse_command_line_def)
      then show ?thesis ..
    qed
    with r p that show thesis by blast
  qed
  have "config_ok default_config" by (simp add: config_ok_def default_config_def)
  from parse_options_keeps[OF this, of h "tl argv"] c1 have "config_ok c1" by (simp add: keeps_def)
  with c have "config_ok config" by (auto simp: config_ok_def)
  moreover from this have "validate_config (Some config) = 0" by (simp add: config_ok_def validate_config_def)
  ultimately show ?thesis by simp
qed

section \<open>Options as they are written\<close>

text \<open>The options that only change the configuration, as text and as an effect.\<close>

datatype option_arg =
    Frequency int | Filter filter_mode | SamplePool int | StackDepth int | Cleanup int | OutputDir string
  | HttpPort int | Lbr | DbBatch int | ProducerBatch int | EntryPool int

fun print_filter :: "filter_mode \<Rightarrow> string" where
  "print_filter FILTER_USER = ''user''"
| "print_filter FILTER_KERNEL = ''kernel''"
| "print_filter FILTER_ALL = ''all''"

fun print_option :: "option_arg \<Rightarrow> string" where
  "print_option (Frequency n) = ''--frequency='' @ print_int n"
| "print_option (Filter m) = ''--filter='' @ print_filter m"
| "print_option (SamplePool n) = ''--sample-pool-size='' @ print_int n"
| "print_option (StackDepth n) = ''--stack-depth='' @ print_int n"
| "print_option (Cleanup n) = ''--cleanup='' @ print_int n"
| "print_option (OutputDir d) = ''--output-dir='' @ d"
| "print_option (HttpPort n) = ''--http-port='' @ print_int n"
| "print_option Lbr = ''--lbr''"
| "print_option (DbBatch n) = ''--db-batch-size='' @ print_int n"
| "print_option (ProducerBatch n) = ''--producer-batch-size='' @ print_int n"
| "print_option (EntryPool n) = ''--db-entry-pool-size='' @ print_int n"

fun apply_option :: "option_arg \<Rightarrow> profiling_config \<Rightarrow> profiling_config" where
  "apply_option (Frequency n) c = c\<lparr>sampling_frequency := n\<rparr>"
| "apply_option (Filter m) c = c\<lparr>filter_mode := m\<rparr>"
| "apply_option (SamplePool n) c = c\<lparr>sample_pool_size := n\<rparr>"
| "apply_option (StackDepth n) c = c\<lparr>max_stack_depth := n\<rparr>"
| "apply_option (Cleanup n) c = c\<lparr>cleanup_interval := n\<rparr>"
| "apply_option (OutputDir d) c = c\<lparr>db_output_dir := d\<rparr>"
| "apply_option (HttpPort n) c = c\<lparr>http_port := n\<rparr>"
| "apply_option Lbr c = c\<lparr>use_lbr := True\<rparr>"
| "apply_option (DbBatch n) c = c\<lparr>db_batch_size := n\<rparr>"
| "apply_option (ProducerBatch n) c = c\<lparr>producer_batch_size := n\<rparr>"
| "apply_option (EntryPool n) c = c\<lparr>db_entry_pool_size := n\<rparr>"

definition positive_int :: "int \<Rightarrow> bool" where
  "positive_int n \<longleftrightarrow> 0 < n \<and> n < 2 ^ 31"

fun option_in_range :: "option_arg \<Rightarrow> bool" where
  "option_in_range (Frequency n) = positive_int n"
| "option_in_range (SamplePool n) = positive_int n"
| "option_in_range (StackDepth n) = positive_int n"
| "option_in_range (Cleanup n) = positive_int n"
| "option_in_range (HttpPort n) = (0 < n \<and> n \<le> 65535)"
| "option_in_range (DbBatch n) = positive_int n"
| "option_in_range (ProducerBatch n) = (0 < n \<and> n \<le> MAX_PRODUCER_BATCH_SIZE)"
| "option_in_range (EntryPool n) = positive_int n"
| "option_in_range _ = True"

lemma atoi_print: "0 < n \<Longrightarrow> n < 2147483648 \<Longrightarrow> atoi (print_int n) = n"
  using atoi_print_int[of n "[]"] by simp

lemmas option_simps = parse_option_def strncmp_eq_def arg_at_def accept_if_def atoi_print positive_int_def

lemma parse_option_print:
  "option_in_range ar \<Longrightarrow> parse_option h c (print_option ar) = Some (h, Parsed (apply_option ar c))"
proof (cases ar)
  case (Filter m)
  then show ?thesis by (cases m) (simp_all add: option_simps parse_filter_def)
qed (simp_all add: option_simps)

lemma parse_options_print:
  "\<forall>ar\<in>set ars. option_in_range ar \<Longrightarrow>
    parse_options h c (map print_option ars) = Some (h, Parsed (fold apply_option ars c))"
  by (induction ars arbitrary: c) (simp_all add: parse_option_print)

text \<open>
  C36. Options round trip: a command line printed from options in range is accepted and gives
  the default configuration with the effects of the options in their order, the last of a kind
  winning; the histogram path is the allocated default.
\<close>

theorem command_line_roundtrip:
  assumes "\<forall>ar\<in>set ars. option_in_range ar" and "strdup h ''log/histogram.log'' = (h', p)"
  shows "parse_command_line h (prog # map print_option ars) =
    Some (h', Parsed ((fold apply_option ars default_config)\<lparr>histogram_log_path := p\<rparr>))"
proof -
  have "histogram_log_path (apply_option ar c) = histogram_log_path c" for ar c by (cases ar) simp_all
  then have "histogram_log_path (fold apply_option ars c) = histogram_log_path c" for c
    by (induction ars arbitrary: c) simp_all
  then have "histogram_log_path (fold apply_option ars default_config) = None" by (simp add: default_config_def)
  with parse_options_print[OF assms(1), of h default_config] assms(2) show ?thesis
    by (simp add: parse_command_line_def)
qed

text \<open>
  The option \<open>--histogram-threshold=\<close> cannot be used: its comparison covers 24 characters,
  two more than the literal has, so with any value it is rejected as unknown, and without a
  value the number is read past the end of the argument.
\<close>

theorem histogram_threshold_unusable:
  "parse_option h config (''--histogram-threshold='' @ v) = (if v = [] then None else Some (h, Rejected))"
  by (cases v) (simp_all add: parse_option_def strncmp_eq_def arg_at_def)

theorem parsed_config_valid_witness:
  "let config = default_config\<lparr>sampling_frequency := 99, histogram_log_path := Some (0, ''log/histogram.log'')\<rparr>
   in config_ok config \<and> validate_config (Some config) = 0"
proof -
  have "parse_command_line empty_heap [''profiling_tool'', ''--frequency=99''] =
      Some (fst (strdup empty_heap ''log/histogram.log''),
        Parsed (default_config\<lparr>sampling_frequency := 99, histogram_log_path := Some (0, ''log/histogram.log'')\<rparr>))"
    by (simp add: parse_command_line_def parse_option_def strncmp_eq_def arg_at_def accept_if_def default_config_def
      strdup_def malloc_def empty_heap_def atoi_def to_int_def scan_sign_def skip_space_def c_isspace_def
      is_digit_def digit_value_def)
  from parsed_config_valid[OF this] show ?thesis by (simp add: Let_def)
qed

theorem command_line_roundtrip_witness:
  "parse_command_line empty_heap (''profiling_tool'' # map print_option [Frequency 50, Filter FILTER_USER, Lbr]) =
    Some (fst (strdup empty_heap ''log/histogram.log''),
      Parsed ((fold apply_option [Frequency 50, Filter FILTER_USER, Lbr] default_config)
        \<lparr>histogram_log_path := snd (strdup empty_heap ''log/histogram.log'')\<rparr>))"
  by (rule command_line_roundtrip) (auto simp: positive_int_def)

end
