(* ===== verification/Perf_Events.thy ===== *)
theory Perf_Events
  imports Config "HOL-Library.Multiset"
begin

text \<open>
  Setting up and tearing down the perf events (src/perf/perf.c): the attributes of the event,
  the manager with one event per processor, and the fall back when branch records are not
  supported. The kernel is a parameter: what \<open>sysconf\<close>, \<open>perf_event_open\<close> and \<open>mmap\<close> answer. The
  process keeps the multisets of its open descriptors and of its mappings.
\<close>

section \<open>Attributes\<close>

record perf_event_attr =
  pe_type :: u32
  pe_config :: u64
  sample_type :: u64
  branch_sample_type :: u64
  sample_regs_user :: u64
  use_clockid :: bool
  clockid :: int
  freq :: bool
  sample_freq :: int
  sample_max_stack :: int
  disabled :: bool
  exclude_kernel :: bool
  exclude_idle :: bool

abbreviation PERF_TYPE_HARDWARE :: u32 where "PERF_TYPE_HARDWARE \<equiv> 0"
abbreviation PERF_TYPE_SOFTWARE :: u32 where "PERF_TYPE_SOFTWARE \<equiv> 1"
abbreviation PERF_COUNT_HW_BRANCH_INSTRUCTIONS :: u64 where "PERF_COUNT_HW_BRANCH_INSTRUCTIONS \<equiv> 4"
abbreviation PERF_COUNT_SW_CPU_CLOCK :: u64 where "PERF_COUNT_SW_CPU_CLOCK \<equiv> 0"
abbreviation PERF_SAMPLE_IP :: u64 where "PERF_SAMPLE_IP \<equiv> 0x1"
abbreviation PERF_SAMPLE_TID :: u64 where "PERF_SAMPLE_TID \<equiv> 0x2"
abbreviation PERF_SAMPLE_TIME :: u64 where "PERF_SAMPLE_TIME \<equiv> 0x4"
abbreviation PERF_SAMPLE_CALLCHAIN :: u64 where "PERF_SAMPLE_CALLCHAIN \<equiv> 0x20"
abbreviation PERF_SAMPLE_BRANCH_STACK :: u64 where "PERF_SAMPLE_BRANCH_STACK \<equiv> 0x800"
abbreviation PERF_SAMPLE_REGS_USER :: u64 where "PERF_SAMPLE_REGS_USER \<equiv> 0x1000"
abbreviation PERF_SAMPLE_BRANCH_ANY :: u64 where "PERF_SAMPLE_BRANCH_ANY \<equiv> 0x8"
abbreviation CLOCK_MONOTONIC :: int where "CLOCK_MONOTONIC \<equiv> 1"

definition build_perf_attr :: "profiling_config \<Rightarrow> perf_event_attr" where
  "build_perf_attr config = \<lparr>
     pe_type = (if use_lbr config then PERF_TYPE_HARDWARE else PERF_TYPE_SOFTWARE),
     pe_config = (if use_lbr config then PERF_COUNT_HW_BRANCH_INSTRUCTIONS else PERF_COUNT_SW_CPU_CLOCK),
     sample_type =
       (if use_lbr config
        then PERF_SAMPLE_IP OR PERF_SAMPLE_TID OR PERF_SAMPLE_BRANCH_STACK OR PERF_SAMPLE_REGS_USER OR PERF_SAMPLE_TIME
        else PERF_SAMPLE_IP OR PERF_SAMPLE_TID OR PERF_SAMPLE_CALLCHAIN OR PERF_SAMPLE_REGS_USER OR PERF_SAMPLE_TIME),
     branch_sample_type = (if use_lbr config then PERF_SAMPLE_BRANCH_ANY else 0),
     sample_regs_user = push_bit 6 1 OR push_bit 7 1,
     use_clockid = True,
     clockid = CLOCK_MONOTONIC,
     freq = True,
     sample_freq = sampling_frequency config,
     sample_max_stack = max_stack_depth config,
     disabled = True,
     exclude_kernel = False,
     exclude_idle = True\<rparr>"

section \<open>The kernel and the process\<close>

record perf_env =
  nprocs :: int
  page_size :: int
  perf_event_open :: "perf_event_attr \<Rightarrow> nat \<Rightarrow> int + int"
  mmap_page_of :: "int \<Rightarrow> u64 option"

abbreviation EINVAL :: int where "EINVAL \<equiv> 22"
abbreviation EOPNOTSUPP :: int where "EOPNOTSUPP \<equiv> 95"

record perf_os =
  heap :: c_heap
  open_fds :: "int multiset"
  mappings :: "u64 multiset"

record perf_event =
  ev_fd :: int
  ev_cpu :: nat
  target_pid :: int
  ev_page :: "u64 option"
  ev_mmap_size :: int
  ev_pagesize :: int

record perf_event_manager =
  events :: "perf_event list"
  num_events :: nat
  events_block :: block
  manager_block :: block

text \<open>A field of the manager can only be used while the manager and its array are allocated.\<close>

definition manager_live :: "perf_os \<Rightarrow> perf_event_manager \<Rightarrow> bool" where
  "manager_live os m \<longleftrightarrow> live (heap os) (manager_block m) \<noteq> None \<and> live (heap os) (events_block m) \<noteq> None"

text \<open>\<open>calloc\<close> gives every event the descriptor 0 and no mapping.\<close>

definition blank_event :: perf_event where
  "blank_event = \<lparr>ev_fd = 0, ev_cpu = 0, target_pid = 0, ev_page = None, ev_mmap_size = 0, ev_pagesize = 0\<rparr>"

definition initialize_manager :: "perf_os \<Rightarrow> nat \<Rightarrow> (perf_os \<times> perf_event_manager option) option" where
  "initialize_manager os num_cpus =
     (case malloc (heap os) 16 of
        (h, None) \<Rightarrow> Some (os\<lparr>heap := h\<rparr>, None)
      | (h, Some mb) \<Rightarrow>
          (case malloc h (num_cpus * 48) of
             (h, None) \<Rightarrow> do { h \<leftarrow> free_block h mb; Some (os\<lparr>heap := h\<rparr>, None) }
           | (h, Some eb) \<Rightarrow>
               Some (os\<lparr>heap := h\<rparr>,
                 Some \<lparr>events = replicate num_cpus blank_event, num_events = num_cpus, events_block = eb, manager_block = mb\<rparr>)))"

definition perf_add_sample_event_mmap :: "perf_env \<Rightarrow> perf_os \<Rightarrow> int \<Rightarrow> perf_os \<times> u64 option" where
  "perf_add_sample_event_mmap env os fd =
     (if page_size env < 0 then (os, None)
      else (case mmap_page_of env fd of
              None \<Rightarrow> (os, None)
            | Some p \<Rightarrow> (os\<lparr>mappings := add_mset p (mappings os)\<rparr>, Some p)))"

text \<open>Closing the descriptor and the mapping of one event.\<close>

definition close_event :: "perf_event \<Rightarrow> perf_os \<Rightarrow> perf_os" where
  "close_event e os =
     (let os = (if ev_fd e \<ge> 0 then os\<lparr>open_fds := open_fds os - {#ev_fd e#}\<rparr> else os)
      in case ev_page e of None \<Rightarrow> os | Some p \<Rightarrow> os\<lparr>mappings := mappings os - {#p#}\<rparr>)"

definition free_manager :: "perf_os \<Rightarrow> perf_event_manager \<Rightarrow> perf_os option" where
  "free_manager os m = do {
     h \<leftarrow> free_block (heap os) (events_block m);
     h \<leftarrow> free_block h (manager_block m);
     Some (os\<lparr>heap := h\<rparr>) }"

definition cleanup_events :: "perf_os \<Rightarrow> perf_event_manager \<Rightarrow> nat \<Rightarrow> perf_os option" where
  "cleanup_events os m last_event =
     (if manager_live os m then free_manager (fold close_event (take last_event (events m)) os) m else None)"

definition perf_event_cleanup_manager :: "perf_os \<Rightarrow> perf_event_manager option \<Rightarrow> perf_os option" where
  "perf_event_cleanup_manager os manager =
     (case manager of
        None \<Rightarrow> Some os
      | Some m \<Rightarrow>
          if manager_live os m then free_manager (fold close_event (take (num_events m) (events m)) os) m else None)"

section \<open>Initialization\<close>

datatype create_result = Created perf_event_manager | Fallback | Failed

text \<open>
  The loop over the processors. A store into the array of a manager that was freed is a fault.
  The page size is asked for a second time after the mapping; it was found positive there, so
  that second test never fails.
\<close>

fun create_loop :: "perf_env \<Rightarrow> perf_event_attr \<Rightarrow> bool \<Rightarrow> perf_os \<Rightarrow> perf_event_manager \<Rightarrow> nat list \<Rightarrow>
    (perf_os \<times> create_result) option" where
  "create_loop env pe lbr_enabled os m [] = Some (os, Created m)"
| "create_loop env pe lbr_enabled os m (cpu # cpus) =
     (case perf_event_open env pe cpu of
        Inr errno \<Rightarrow>
          do { os \<leftarrow> cleanup_events os m cpu;
               Some (os, if lbr_enabled \<and> (errno = EINVAL \<or> errno = EOPNOTSUPP) then Fallback else Failed) }
      | Inl fd \<Rightarrow>
          if \<not> manager_live os m then None
          else
            (let os = os\<lparr>open_fds := add_mset fd (open_fds os)\<rparr> in
             case perf_add_sample_event_mmap env os fd of
               (os, None) \<Rightarrow>
                 do { os \<leftarrow> cleanup_events os (m\<lparr>events := (events m)[cpu :=
                        blank_event\<lparr>ev_fd := fd, ev_cpu := cpu, target_pid := - 1\<rparr>]\<rparr>) (cpu + 1);
                      Some (os, Failed) }
             | (os, Some p) \<Rightarrow>
                 create_loop env pe lbr_enabled os (m\<lparr>events := (events m)[cpu :=
                   \<lparr>ev_fd = fd, ev_cpu = cpu, target_pid = - 1, ev_page = Some p,
                    ev_mmap_size = 1048576 + page_size env, ev_pagesize = page_size env\<rparr>]\<rparr>) cpus))"

definition perf_event_init_with_config :: "perf_env \<Rightarrow> perf_os \<Rightarrow> profiling_config option \<Rightarrow>
    (perf_os \<times> perf_event_manager option) option" where
  "perf_event_init_with_config env os config =
     (case config of
        None \<Rightarrow> Some (os, None)
      | Some config \<Rightarrow>
          if nprocs env < 0 then Some (os, None)
          else
            (let num_cpus = nat (nprocs env) in
             do { (os, manager) \<leftarrow> initialize_manager os num_cpus;
                  case manager of
                    None \<Rightarrow> Some (os, None)
                  | Some m \<Rightarrow>
                      do { (os, r) \<leftarrow> create_loop env (build_perf_attr config) (use_lbr config) os m [0..<num_cpus];
                           case r of
                             Created m \<Rightarrow> Some (os, Some m)
                           | Failed \<Rightarrow> Some (os, None)
                           | Fallback \<Rightarrow>
                               do { (os, r) \<leftarrow> create_loop env (build_perf_attr (config\<lparr>use_lbr := False\<rparr>)) False os m [0..<num_cpus];
                                    case r of
                                      Created m \<Rightarrow> Some (os, Some m)
                                    | _ \<Rightarrow> Some (os, None) } } }))"

section \<open>Resources are balanced\<close>

definition page_list :: "perf_event list \<Rightarrow> u64 list" where
  "page_list es = concat (map (\<lambda>e. case ev_page e of None \<Rightarrow> [] | Some p \<Rightarrow> [p]) es)"

lemma page_list_simps [simp]:
  "page_list [] = []" "page_list (xs @ ys) = page_list xs @ page_list ys"
  "page_list (e # es) = (case ev_page e of None \<Rightarrow> [] | Some p \<Rightarrow> [p]) @ page_list es"
  by (simp_all add: page_list_def)

lemma fold_close:
  "\<forall>e\<in>set es. ev_fd e \<ge> 0 \<Longrightarrow>
    fold close_event es os = os\<lparr>open_fds := open_fds os - mset (map ev_fd es), mappings := mappings os - mset (page_list es)\<rparr>"
proof (induction es arbitrary: os)
  case (Cons e es)
  have "close_event e os = os\<lparr>open_fds := open_fds os - {#ev_fd e#}, mappings := mappings os - mset (page_list [e])\<rparr>"
    using Cons.prems by (simp add: close_event_def split: option.splits)
  with Cons show ?case by (simp split: option.splits)
qed simp

text \<open>The state between two processors: \<open>F\<close> and \<open>M\<close> are the descriptors and mappings from before.\<close>

definition perf_held :: "(block \<Rightarrow> nat option) \<Rightarrow> int multiset \<Rightarrow> u64 multiset \<Rightarrow> perf_event list \<Rightarrow> perf_event_manager \<Rightarrow> perf_os \<Rightarrow> bool" where
  "perf_held base F M es m os \<longleftrightarrow> owns base (heap os) [events_block m, manager_block m] \<and>
     (\<forall>e\<in>set es. ev_fd e \<ge> 0) \<and> open_fds os = F + mset (map ev_fd es) \<and> mappings os = M + mset (page_list es)"

lemma perf_held_live: "perf_held base F M es m os \<Longrightarrow> manager_live os m"
  by (auto simp: perf_held_def owns_def manager_live_def)

lemma perf_held_free:
  assumes "perf_held base F M es m os"
  shows "\<exists>os'. free_manager (fold close_event es os) m = Some os' \<and>
    live (heap os') = base \<and> heap_ok (heap os') \<and> open_fds os' = F \<and> mappings os' = M"
proof -
  have o: "owns base (heap os) [events_block m, manager_block m]" "\<forall>e\<in>set es. ev_fd e \<ge> 0"
    using assms by (auto simp: perf_held_def)
  from owns_free_hd[OF o(1)] obtain h1 where h1: "free_block (heap os) (events_block m) = Some h1" "owns base h1 [manager_block m]"
    by blast
  from owns_free_hd[OF h1(2)] obtain h2 where h2: "free_block h1 (manager_block m) = Some h2" "owns base h2 []" by blast
  from h1(1) h2(1) assms owns_empty[OF h2(2)] owns_heap_ok[OF h2(2)] fold_close[OF o(2), of os] show ?thesis
    by (simp add: free_manager_def perf_held_def)
qed

lemma cleanup_events_ok:
  assumes "perf_held base F M es m os" and "take n (events m) = es"
  shows "\<exists>os'. cleanup_events os m n = Some os' \<and>
    live (heap os') = base \<and> heap_ok (heap os') \<and> open_fds os' = F \<and> mappings os' = M"
  using perf_held_free[OF assms(1)] perf_held_live[OF assms(1)] assms(2) by (simp add: cleanup_events_def)

text \<open>What is required of the kernel: descriptors are not negative, and no fall back is asked for.\<close>

definition kernel_ok :: "perf_env \<Rightarrow> perf_event_attr \<Rightarrow> bool \<Rightarrow> bool" where
  "kernel_ok env pe lbr \<longleftrightarrow> (\<forall>cpu. case perf_event_open env pe cpu of
     Inl fd \<Rightarrow> fd \<ge> 0
   | Inr errno \<Rightarrow> \<not> (lbr \<and> (errno = EINVAL \<or> errno = EOPNOTSUPP)))"

lemma create_loop_ok:
  assumes "kernel_ok env pe lbr" and "perf_held base F M (take k (events m)) m os" and "length (events m) = n" and "k \<le> n"
  shows "\<exists>os' r. create_loop env pe lbr os m [k..<n] = Some (os', r) \<and>
    (case r of
       Created m' \<Rightarrow> perf_held base F M (events m') m' os' \<and> length (events m') = n \<and> num_events m' = num_events m
     | Failed \<Rightarrow> live (heap os') = base \<and> heap_ok (heap os') \<and> open_fds os' = F \<and> mappings os' = M
     | Fallback \<Rightarrow> False)"
  using assms(2-4)
proof (induction "n - k" arbitrary: k m os)
  case 0
  then show ?case by simp
next
  case (Suc d)
  then have k: "k < n" and up: "[k..<n] = k # [Suc k..<n]" by (simp_all add: upt_rec)
  show ?case
  proof (cases "perf_event_open env pe k")
    case (Inr errno)
    then have no: "\<not> (lbr \<and> (errno = EINVAL \<or> errno = EOPNOTSUPP))"
      using assms(1)[unfolded kernel_ok_def, rule_format, of k] by simp
    from cleanup_events_ok[OF Suc.prems(1) refl] obtain os' where "cleanup_events os m k = Some os'"
      "live (heap os') = base \<and> heap_ok (heap os') \<and> open_fds os' = F \<and> mappings os' = M" by blast
    with Inr no up show ?thesis by auto
  next
    case (Inl fd)
    have fd: "fd \<ge> 0" using assms(1)[unfolded kernel_ok_def, rule_format, of k] Inl by simp
    have tk: "take (Suc k) ((events m)[k := e]) = take k (events m) @ [e]" for e
      using k Suc.prems(2) by (simp add: take_Suc_conv_app_nth)
    let ?os = "os\<lparr>open_fds := add_mset fd (open_fds os)\<rparr>"
    show ?thesis
    proof (cases "page_size env < 0 \<or> mmap_page_of env fd = None")
      case True
      let ?e = "blank_event\<lparr>ev_fd := fd, ev_cpu := k, target_pid := - 1\<rparr>" and ?m = "m\<lparr>events := (events m)[k :=
        blank_event\<lparr>ev_fd := fd, ev_cpu := k, target_pid := - 1\<rparr>]\<rparr>"
      have "perf_held base F M (take k (events m) @ [?e]) ?m ?os"
        using Suc.prems(1) fd by (simp add: perf_held_def blank_event_def)
      from cleanup_events_ok[OF this, of "k + 1"] tk obtain os' where c: "cleanup_events ?os ?m (k + 1) = Some os'"
        "live (heap os') = base \<and> heap_ok (heap os') \<and> open_fds os' = F \<and> mappings os' = M" by auto
      have "perf_add_sample_event_mmap env ?os fd = (?os, None)"
        using True by (auto simp: perf_add_sample_event_mmap_def)
      with Inl c perf_held_live[OF Suc.prems(1)] up show ?thesis by (simp add: Let_def)
    next
      case False
      then obtain p where p: "mmap_page_of env fd = Some p" "\<not> page_size env < 0" by auto
      let ?e = "\<lparr>ev_fd = fd, ev_cpu = k, target_pid = - 1, ev_page = Some p,
        ev_mmap_size = 1048576 + page_size env, ev_pagesize = page_size env\<rparr>"
      let ?m = "m\<lparr>events := (events m)[k := ?e]\<rparr>" and ?os2 = "?os\<lparr>mappings := add_mset p (mappings os)\<rparr>"
      have hd: "perf_held base F M (take (Suc k) (events ?m)) ?m ?os2"
        using Suc.prems(1) fd by (simp add: perf_held_def tk)
      have dd: "d = n - Suc k" and le: "length (events ?m) = n" "Suc k \<le> n" using Suc.hyps(2) Suc.prems(2) k by auto
      from Suc.hyps(1)[OF dd hd le] obtain os' r where
        r: "create_loop env pe lbr ?os2 ?m [Suc k..<n] = Some (os', r)"
          "case r of Created m' \<Rightarrow> perf_held base F M (events m') m' os' \<and> length (events m') = n \<and> num_events m' = num_events ?m
            | Failed \<Rightarrow> live (heap os') = base \<and> heap_ok (heap os') \<and> open_fds os' = F \<and> mappings os' = M
            | Fallback \<Rightarrow> False" by blast
      have "perf_add_sample_event_mmap env ?os fd = (?os2, Some p)"
        using p by (simp add: perf_add_sample_event_mmap_def)
      with Inl r perf_held_live[OF Suc.prems(1)] up show ?thesis by (cases r) (simp_all add: Let_def)
    qed
  qed
qed

lemma initialize_manager_ok:
  assumes "heap_ok (heap os)"
  shows "\<exists>os' r. initialize_manager os n = Some (os', r) \<and>
    (case r of
       None \<Rightarrow> live (heap os') = live (heap os) \<and> open_fds os' = open_fds os \<and> mappings os' = mappings os
     | Some m \<Rightarrow> perf_held (live (heap os)) (open_fds os) (mappings os) [] m os' \<and>
         events m = replicate n blank_event \<and> num_events m = n)"
proof -
  note o0 = owns_start[OF assms]
  obtain h1 r1 where h1: "malloc (heap os) 16 = (h1, r1)" by (cases "malloc (heap os) 16")
  show ?thesis
  proof (cases r1)
    case None
    with h1 malloc_None[of "heap os" 16 h1] show ?thesis by (simp add: initialize_manager_def)
  next
    case mb: (Some mb)
    have o1: "owns (live (heap os)) h1 [mb]" using owns_malloc[OF o0] h1 mb by simp
    obtain h2 r2 where h2: "malloc h1 (n * 48) = (h2, r2)" by (cases "malloc h1 (n * 48)")
    show ?thesis
    proof (cases r2)
      case None
      from owns_free_hd[OF owns_malloc_None[OF o1 h2[unfolded None]]] obtain h3 where
        "free_block h2 mb = Some h3" "owns (live (heap os)) h3 []" by blast
      with h1 mb h2 None owns_empty show ?thesis by (auto simp: initialize_manager_def)
    next
      case (Some eb)
      have "owns (live (heap os)) h2 [eb, mb]" using owns_malloc[OF o1] h2 Some by simp
      with h1 mb h2 Some show ?thesis by (simp add: initialize_manager_def perf_held_def)
    qed
  qed
qed

lemma perf_cleanup_ok:
  assumes "perf_held base F M (events m) m os" and "num_events m = length (events m)"
  shows "\<exists>os'. perf_event_cleanup_manager os (Some m) = Some os' \<and>
    live (heap os') = base \<and> heap_ok (heap os') \<and> open_fds os' = F \<and> mappings os' = M"
  using perf_held_free[OF assms(1)] perf_held_live[OF assms(1)] assms(2) by (simp add: perf_event_cleanup_manager_def)

lemma perf_init_ok:
  assumes "heap_ok (heap os)" and "kernel_ok env (build_perf_attr config) (use_lbr config)"
  shows "\<exists>os' r. perf_event_init_with_config env os (Some config) = Some (os', r) \<and>
    (case r of
       None \<Rightarrow> live (heap os') = live (heap os) \<and> open_fds os' = open_fds os \<and> mappings os' = mappings os
     | Some m \<Rightarrow> perf_held (live (heap os)) (open_fds os) (mappings os) (events m) m os' \<and>
         length (events m) = nat (nprocs env) \<and> num_events m = nat (nprocs env))"
proof (cases "nprocs env < 0")
  case True
  then show ?thesis by (simp add: perf_event_init_with_config_def)
next
  case np: False
  let ?n = "nat (nprocs env)" and ?held = "perf_held (live (heap os)) (open_fds os) (mappings os)"
  from initialize_manager_ok[OF assms(1), of ?n] obtain os1 r where
    i: "initialize_manager os ?n = Some (os1, r)"
      "case r of None \<Rightarrow> live (heap os1) = live (heap os) \<and> open_fds os1 = open_fds os \<and> mappings os1 = mappings os
       | Some m \<Rightarrow> ?held [] m os1 \<and> events m = replicate ?n blank_event \<and> num_events m = ?n"
    by blast
  show ?thesis
  proof (cases r)
    case None
    with np i show ?thesis by (simp add: perf_event_init_with_config_def Let_def)
  next
    case (Some m)
    then have m: "?held (take 0 (events m)) m os1" "length (events m) = ?n" "num_events m = ?n" using i(2) by auto
    from create_loop_ok[OF assms(2) m(1,2)] obtain os2 r2 where
      "create_loop env (build_perf_attr config) (use_lbr config) os1 m [0..<?n] = Some (os2, r2)"
        "case r2 of Created m' \<Rightarrow> ?held (events m') m' os2 \<and> length (events m') = ?n \<and> num_events m' = num_events m
         | Failed \<Rightarrow> live (heap os2) = live (heap os) \<and> heap_ok (heap os2) \<and> open_fds os2 = open_fds os \<and> mappings os2 = mappings os
         | Fallback \<Rightarrow> False" by blast
    with np i(1) Some m(3) show ?thesis by (cases r2) (simp_all add: perf_event_init_with_config_def Let_def)
  qed
qed


text \<open>
  C37. The fall back uses freed memory: when branch records are requested and the kernel does
  not support them, the events and their manager are freed before the second attempt, which
  then stores into (or frees) the manager again.
\<close>

theorem lbr_fallback_fault:
  assumes "heap_ok (heap os)" and "\<And>b. \<not> oom (heap os) b" and "use_lbr config" and "0 < nprocs env"
    and "perf_event_open env (build_perf_attr config) 0 = Inr errno" and "errno = EINVAL \<or> errno = EOPNOTSUPP"
  shows "perf_event_init_with_config env os (Some config) = None"
proof -
  let ?n = "nat (nprocs env)"
  have n: "[0..<?n] = 0 # [1..<?n]" using assms(4) by (simp add: upt_rec)
  obtain os1 m where i: "initialize_manager os ?n = Some (os1, Some m)"
    using assms(2) by (auto simp: initialize_manager_def malloc_def)
  with initialize_manager_ok[OF assms(1), of ?n] have "perf_held (live (heap os)) (open_fds os) (mappings os) [] m os1" by simp
  note h = this
  from perf_held_free[OF h] obtain os2 where os2: "free_manager os1 m = Some os2" by auto
  then have f: "cleanup_events os1 m 0 = Some os2" using perf_held_live[OF h] by (simp add: cleanup_events_def)
  have dead: "\<not> manager_live os2 m"
    using os2 by (auto simp: free_manager_def manager_live_def free_block_def split: if_splits bind_splits)
  have "create_loop env pe False os2 m (0 # cs) = None" for pe cs
    using dead by (auto simp: cleanup_events_def split: sum.splits)
  then show ?thesis
    using assms(3-6) i f n by (auto simp: perf_event_init_with_config_def Let_def)
qed

text \<open>A machine with two processors, and one that does not know branch records.\<close>

definition example_env :: perf_env where
  "example_env = \<lparr>nprocs = 2, page_size = 4096, perf_event_open = (\<lambda>pe cpu.
     if pe_type pe = PERF_TYPE_HARDWARE then Inr EOPNOTSUPP else Inl (3 + int cpu)),
     mmap_page_of = (\<lambda>fd. Some (0x10000 * word_of_int fd))\<rparr>"

definition example_os :: perf_os where
  "example_os = \<lparr>heap = empty_heap, open_fds = {#0, 1, 2#}, mappings = {#}\<rparr>"


theorem lbr_fallback_fault_witness:
  "perf_event_init_with_config example_env example_os (Some (default_config\<lparr>use_lbr := True\<rparr>)) = None"
  by (rule lbr_fallback_fault[of _ _ _ EOPNOTSUPP])
    (simp_all add: example_os_def heap_ok_def empty_heap_def example_env_def build_perf_attr_def default_config_def)

end
