(* ===== verification/Elf_Cache_Manager.thy ===== *)
theory Elf_Cache_Manager
  imports Block_Cache Perf_Events
begin

text \<open>
  The manager of the cached ELF files (src/utils/elf_cache.c, elf_cache_init, elf_cache_get,
  elf_cache_put and elf_cache_cleanup): an array of pointers to entries with a count, and a list of
  the entries by time of use. Entries are found by their name, are counted while they are held, and
  lie in a store because the array, the list and the holders share them. No function adds an entry.
  \<open>None\<close> is a fault.
\<close>

section \<open>Model\<close>

record elf_cache_entry =
  ec_filename :: cstr
  ec_fd :: int
  ec_mmap_base :: "u64 option"
  ec_cache :: "memory_cache option"
  ec_ref_count :: int
  ec_last_access :: int

type_synonym entry_store = "block \<Rightarrow> elf_cache_entry option"

record elf_cache_manager =
  em_entries :: "block option list"
  em_count :: int
  em_max_count :: int
  em_lru_list :: "block list"

definition elf_cache_init :: "int \<Rightarrow> elf_cache_manager \<Rightarrow> elf_cache_manager \<times> int" where
  "elf_cache_init max_entries m =
     (m\<lparr>em_max_count := max_entries, em_count := 0, em_lru_list := [],
        em_entries := replicate (nat MAX_CACHE_BLOCKS) None\<rparr>, 0)"

text \<open>An \<open>int\<close> result; signed overflow is undefined.\<close>

definition c_int :: "int \<Rightarrow> int option" where
  "c_int n = (if - (2 ^ 31) \<le> n \<and> n < 2 ^ 31 then Some n else None)"

text \<open>The search loop: the indices still to visit; an index past the array is a fault.\<close>

fun entry_scan :: "elf_cache_manager \<Rightarrow> entry_store \<Rightarrow> string \<Rightarrow> nat list \<Rightarrow> block option option" where
  "entry_scan m objs filename [] = Some None"
| "entry_scan m objs filename (i # is) =
     (if \<not> i < length (em_entries m) then None
      else case em_entries m ! i of
        None \<Rightarrow> entry_scan m objs filename is
      | Some p \<Rightarrow> do {
          e \<leftarrow> objs p;
          (b, name) \<leftarrow> ec_filename e;
          if name = filename then Some (Some p) else entry_scan m objs filename is })"

text \<open>\<open>list_del\<close> needs an element that is linked.\<close>

definition elf_cache_get :: "elf_cache_manager \<Rightarrow> entry_store \<Rightarrow> string option \<Rightarrow> int \<Rightarrow>
    (elf_cache_manager \<times> entry_store \<times> block option) option" where
  "elf_cache_get m objs filename now = (case filename of
     None \<Rightarrow> Some (m, objs, None)
   | Some name \<Rightarrow> do {
       r \<leftarrow> entry_scan m objs name [0..<nat (em_count m)];
       case r of
         None \<Rightarrow> Some (m, objs, None)
       | Some p \<Rightarrow> do {
           e \<leftarrow> objs p;
           n \<leftarrow> c_int (ec_ref_count e + 1);
           if p \<in> set (em_lru_list m)
           then Some (m\<lparr>em_lru_list := remove1 p (em_lru_list m) @ [p]\<rparr>,
             objs(p \<mapsto> e\<lparr>ec_ref_count := n, ec_last_access := now\<rparr>), Some p)
           else None } })"

definition elf_cache_put :: "entry_store \<Rightarrow> block option \<Rightarrow> entry_store option" where
  "elf_cache_put objs entry = (case entry of
     None \<Rightarrow> Some objs
   | Some p \<Rightarrow> do {
       e \<leftarrow> objs p;
       n \<leftarrow> c_int (ec_ref_count e - 1);
       Some (objs(p \<mapsto> e\<lparr>ec_ref_count := n\<rparr>)) })"

text \<open>Unmapping, closing and freeing one entry.\<close>

definition release_entry :: "entry_store \<Rightarrow> block \<Rightarrow> perf_os \<Rightarrow> perf_os option" where
  "release_entry objs p os = do {
     e \<leftarrow> objs p;
     let os = (case ec_mmap_base e of None \<Rightarrow> os | Some a \<Rightarrow> os\<lparr>mappings := mappings os - {#a#}\<rparr>);
     let os = (if ec_fd e \<ge> 0 then os\<lparr>open_fds := open_fds os - {#ec_fd e#}\<rparr> else os);
     h \<leftarrow> cache_cleanup (heap os) (ec_cache e);
     h \<leftarrow> free_str h (ec_filename e);
     h \<leftarrow> free_block h p;
     Some (os\<lparr>heap := h\<rparr>) }"

fun release_entries :: "elf_cache_manager \<Rightarrow> entry_store \<Rightarrow> nat list \<Rightarrow> perf_os \<Rightarrow> perf_os option" where
  "release_entries m objs [] os = Some os"
| "release_entries m objs (i # is) os =
     (if \<not> i < length (em_entries m) then None
      else case em_entries m ! i of
        None \<Rightarrow> release_entries m objs is os
      | Some p \<Rightarrow> do { os \<leftarrow> release_entry objs p os; release_entries m objs is os })"

definition elf_cache_cleanup :: "elf_cache_manager \<Rightarrow> entry_store \<Rightarrow> perf_os \<Rightarrow> (perf_os \<times> elf_cache_manager) option" where
  "elf_cache_cleanup m objs os = do {
     os \<leftarrow> release_entries m objs [0..<nat (em_count m)] os;
     Some (os, m\<lparr>em_count := 0\<rparr>) }"

section \<open>Holding and releasing entries\<close>

text \<open>
  The entries \<open>ps\<close> of the array: allocated, with names of their own, and each once in the list.
\<close>

definition name_of :: "entry_store \<Rightarrow> block \<Rightarrow> string" where
  "name_of objs p = (case objs p of Some e \<Rightarrow> (case ec_filename e of Some (b, s) \<Rightarrow> s | None \<Rightarrow> []) | None \<Rightarrow> [])"

definition refs_of :: "entry_store \<Rightarrow> block \<Rightarrow> int" where
  "refs_of objs p = (case objs p of Some e \<Rightarrow> ec_ref_count e | None \<Rightarrow> 0)"

definition entries_ok :: "elf_cache_manager \<Rightarrow> entry_store \<Rightarrow> block list \<Rightarrow> bool" where
  "entries_ok m objs ps \<longleftrightarrow> em_count m = int (length ps) \<and> length ps \<le> length (em_entries m) \<and>
     take (length ps) (em_entries m) = map Some ps \<and> distinct ps \<and> mset (em_lru_list m) = mset ps \<and>
     (\<forall>p\<in>set ps. \<exists>e f. objs p = Some e \<and> ec_filename e = Some f) \<and> distinct (map (name_of objs) ps)"

definition lookup_name :: "entry_store \<Rightarrow> block list \<Rightarrow> string \<Rightarrow> block option" where
  "lookup_name objs ps name = find (\<lambda>p. name_of objs p = name) ps"

lemma entry_at:
  assumes "take (length ps) (em_entries m) = map Some ps" and "k < length ps"
  shows "em_entries m ! k = Some (ps ! k)"
proof -
  have "em_entries m ! k = take (length ps) (em_entries m) ! k" using assms(2) by simp
  then show ?thesis unfolding assms(1) using assms(2) by simp
qed

lemma entry_scan_find:
  assumes "take (length ps) (em_entries m) = map Some ps" and "length ps \<le> length (em_entries m)"
    and "\<forall>p\<in>set ps. \<exists>e f. objs p = Some e \<and> ec_filename e = Some f" and "k \<le> length ps"
  shows "entry_scan m objs name [k..<length ps] = Some (lookup_name objs (drop k ps) name)"
  using assms(4)
proof (induction "length ps - k" arbitrary: k)
  case (Suc d)
  then have k: "k < length ps" by simp
  then have up: "[k..<length ps] = k # [Suc k..<length ps]" and dr: "drop k ps = ps ! k # drop (Suc k) ps"
    by (simp_all add: upt_rec Cons_nth_drop_Suc)
  note at = entry_at[OF assms(1) k]
  obtain e f where e: "objs (ps ! k) = Some e" "ec_filename e = Some f" using assms(3) nth_mem[OF k] by blast
  have "entry_scan m objs name [Suc k..<length ps] = Some (lookup_name objs (drop (Suc k) ps) name)"
    using Suc.hyps(1)[of "Suc k"] Suc.hyps(2) k by simp
  then show ?case using at e k assms(2) unfolding up dr
    by (cases f) (simp add: lookup_name_def name_of_def)
qed (simp add: lookup_name_def)

lemma lookup_name_Some: "lookup_name objs ps name = Some p \<Longrightarrow> p \<in> set ps \<and> name_of objs p = name"
  by (auto simp: lookup_name_def find_Some_iff)

text \<open>Changing the count of holders keeps the names and the array.\<close>

lemma entries_ok_update:
  assumes "entries_ok m objs ps" and "objs p = Some e" and "ec_filename e' = ec_filename e" and "mset lru = mset ps"
  shows "entries_ok (m\<lparr>em_lru_list := lru\<rparr>) (objs(p \<mapsto> e')) ps" "lookup_name (objs(p \<mapsto> e')) ps = lookup_name objs ps"
proof -
  have n: "name_of (objs(p \<mapsto> e')) q = name_of objs q" for q using assms(2,3) by (auto simp: name_of_def)
  show "lookup_name (objs(p \<mapsto> e')) ps = lookup_name objs ps" by (simp add: fun_eq_iff lookup_name_def n)
  show "entries_ok (m\<lparr>em_lru_list := lru\<rparr>) (objs(p \<mapsto> e')) ps"
    using assms by (auto simp: entries_ok_def n cong: map_cong)
qed

text \<open>A holder asks for a name or gives an entry back.\<close>

datatype cache_op = CacheGet string int | CachePut block

fun do_cache_op :: "cache_op \<Rightarrow> elf_cache_manager \<times> entry_store \<Rightarrow> (elf_cache_manager \<times> entry_store) option" where
  "do_cache_op (CacheGet name now) (m, objs) = do { (m, objs, r) \<leftarrow> elf_cache_get m objs (Some name) now; Some (m, objs) }"
| "do_cache_op (CachePut p) (m, objs) = do { objs \<leftarrow> elf_cache_put objs (Some p); Some (m, objs) }"

fun cache_ops :: "cache_op list \<Rightarrow> elf_cache_manager \<times> entry_store \<Rightarrow> (elf_cache_manager \<times> entry_store) option" where
  "cache_ops [] st = Some st"
| "cache_ops (x # xs) st = do { st \<leftarrow> do_cache_op x st; cache_ops xs st }"

text \<open>The entries that the operations hit, and the change of the holders of one entry.\<close>

definition hits :: "(string \<Rightarrow> block option) \<Rightarrow> cache_op list \<Rightarrow> block list" where
  "hits lk xs = List.map_filter (\<lambda>x. case x of CacheGet name now \<Rightarrow> lk name | CachePut p \<Rightarrow> None) xs"

definition puts :: "cache_op list \<Rightarrow> block list" where
  "puts xs = List.map_filter (\<lambda>x. case x of CacheGet name now \<Rightarrow> None | CachePut p \<Rightarrow> Some p) xs"

lemma hits_simps [simp]:
  "hits lk [] = []" "hits lk (CacheGet n t # xs) = (case lk n of None \<Rightarrow> hits lk xs | Some p \<Rightarrow> p # hits lk xs)"
  "hits lk (CachePut p # xs) = hits lk xs"
  by (simp_all add: hits_def List.map_filter_simps split: option.splits)

lemma puts_simps [simp]: "puts [] = []" "puts (CacheGet n t # xs) = puts xs" "puts (CachePut p # xs) = p # puts xs"
  by (simp_all add: puts_def List.map_filter_simps)


lemma get_hit:
  assumes ok: "entries_ok m objs ps" and "lookup_name objs ps name = Some p" and "refs_of objs p + 1 < 2 ^ 31" "- (2 ^ 31) \<le> refs_of objs p + 1"
  shows "\<exists>objs'. elf_cache_get m objs (Some name) now = Some (m\<lparr>em_lru_list := remove1 p (em_lru_list m) @ [p]\<rparr>, objs', Some p) \<and>
    entries_ok (m\<lparr>em_lru_list := remove1 p (em_lru_list m) @ [p]\<rparr>) objs' ps \<and> lookup_name objs' ps = lookup_name objs ps \<and>
    refs_of objs' = (refs_of objs)(p := refs_of objs p + 1)"
proof -
  have p: "p \<in> set ps" using lookup_name_Some[OF assms(2)] by simp
  then obtain e where e: "objs p = Some e" using ok by (auto simp: entries_ok_def)
  have l: "mset (em_lru_list m) = mset ps" using ok by (simp add: entries_ok_def)
  then have pl: "p \<in> set (em_lru_list m)" using p mset_eq_setD by blast
  let ?e = "e\<lparr>ec_ref_count := ec_ref_count e + 1, ec_last_access := now\<rparr>"
  have "entry_scan m objs name [0..<length ps] = Some (Some p)"
    using entry_scan_find[of ps m objs 0 name] ok assms(2) by (simp add: entries_ok_def)
  moreover have "nat (em_count m) = length ps" using ok by (simp add: entries_ok_def)
  moreover have "c_int (ec_ref_count e + 1) = Some (ec_ref_count e + 1)" using assms(3,4) e by (simp add: c_int_def refs_of_def)
  ultimately have "elf_cache_get m objs (Some name) now =
      Some (m\<lparr>em_lru_list := remove1 p (em_lru_list m) @ [p]\<rparr>, objs(p \<mapsto> ?e), Some p)"
    using e pl by (simp add: elf_cache_get_def)
  moreover have "mset (remove1 p (em_lru_list m) @ [p]) = mset ps" using p l by simp
  note entries_ok_update[OF ok e _ this, of ?e]
  moreover have "refs_of (objs(p \<mapsto> ?e)) = (refs_of objs)(p := refs_of objs p + 1)"
    using e by (auto simp: refs_of_def fun_eq_iff)
  ultimately show ?thesis by simp
qed

lemma get_miss:
  assumes ok: "entries_ok m objs ps" and "lookup_name objs ps name = None"
  shows "elf_cache_get m objs (Some name) now = Some (m, objs, None)"
  using entry_scan_find[of ps m objs 0 name] assms by (simp add: entries_ok_def elf_cache_get_def)

lemma put_held:
  assumes ok: "entries_ok m objs ps" and "p \<in> set ps" and "refs_of objs p - 1 < 2 ^ 31" "- (2 ^ 31) \<le> refs_of objs p - 1"
  shows "\<exists>objs'. elf_cache_put objs (Some p) = Some objs' \<and> entries_ok m objs' ps \<and> lookup_name objs' ps = lookup_name objs ps \<and>
    refs_of objs' = (refs_of objs)(p := refs_of objs p - 1)"
proof -
  obtain e where e: "objs p = Some e" using ok assms(2) by (auto simp: entries_ok_def)
  let ?e = "e\<lparr>ec_ref_count := ec_ref_count e - 1\<rparr>"
  have "c_int (ec_ref_count e - 1) = Some (ec_ref_count e - 1)" using assms(3,4) e by (simp add: c_int_def refs_of_def)
  then have "elf_cache_put objs (Some p) = Some (objs(p \<mapsto> ?e))" using e by (simp add: elf_cache_put_def)
  moreover have "mset (em_lru_list m) = mset ps" using ok by (simp add: entries_ok_def)
  note entries_ok_update[OF ok e _ this, of ?e]
  moreover have "refs_of (objs(p \<mapsto> ?e)) = (refs_of objs)(p := refs_of objs p - 1)"
    using e by (auto simp: refs_of_def fun_eq_iff)
  ultimately show ?thesis by simp
qed

text \<open>The entries by time of use: those never hit in their old order, then the others by their last hit.\<close>

definition used_order :: "block list \<Rightarrow> block list \<Rightarrow> block list" where
  "used_order lru hs = filter (\<lambda>p. p \<notin> set hs) lru @ remdups hs"

lemma used_order_hit:
  assumes "distinct lru" and "p \<in> set lru"
  shows "used_order (remove1 p lru @ [p]) hs = used_order lru (p # hs)"
proof -
  have "filter (\<lambda>q. q \<notin> set hs) (filter (\<lambda>q. q \<noteq> p) lru) = filter (\<lambda>q. q \<notin> set (p # hs)) lru"
    by (auto intro: filter_cong)
  then show ?thesis using assms by (simp add: used_order_def distinct_remove1_removeAll removeAll_filter_not_eq eq_commute)
qed

text \<open>The counts stay in the range of \<open>int\<close> for \<open>n\<close> more operations.\<close>

definition counts_fit :: "entry_store \<Rightarrow> block list \<Rightarrow> nat \<Rightarrow> bool" where
  "counts_fit objs ps n \<longleftrightarrow> (\<forall>p\<in>set ps. - (2 ^ 31) \<le> refs_of objs p - int n \<and> refs_of objs p + int n < 2 ^ 31)"

lemma hits_Cons: "hits lk (x # xs) = hits lk [x] @ hits lk xs"
  by (cases x) (auto split: option.splits)

lemma puts_Cons: "puts (x # xs) = puts [x] @ puts xs"
  by (cases x) auto

lemma cache_op_step:
  assumes ok: "entries_ok m objs ps" and "set (puts [x]) \<subseteq> set ps" and fit: "counts_fit objs ps (Suc n)"
  shows "\<exists>m' objs'. do_cache_op x (m, objs) = Some (m', objs') \<and> entries_ok m' objs' ps \<and> lookup_name objs' ps = lookup_name objs ps \<and>
    (\<forall>hs. used_order (em_lru_list m') hs = used_order (em_lru_list m) (hits (lookup_name objs ps) [x] @ hs)) \<and>
    (\<forall>p\<in>set ps. refs_of objs' p = refs_of objs p + int (count_list (hits (lookup_name objs ps) [x]) p) - int (count_list (puts [x]) p)) \<and>
    counts_fit objs' ps n"
proof (cases x)
  case (CachePut p)
  with assms(2) have p: "p \<in> set ps" by simp
  then have r: "refs_of objs p - 1 < 2 ^ 31" "- (2 ^ 31) \<le> refs_of objs p - 1" using fit by (force simp: counts_fit_def)+
  from put_held[OF ok p r] fit CachePut show ?thesis by (force simp: counts_fit_def)
next
  case (CacheGet name now)
  show ?thesis
  proof (cases "lookup_name objs ps name")
    case None
    with get_miss[OF ok None] ok fit CacheGet show ?thesis by (force simp: counts_fit_def)
  next
    case (Some p)
    have p: "p \<in> set ps" using lookup_name_Some[OF Some] by simp
    then have r: "refs_of objs p + 1 < 2 ^ 31" "- (2 ^ 31) \<le> refs_of objs p + 1" using fit by (force simp: counts_fit_def)+
    have "mset (em_lru_list m) = mset ps" "distinct ps" using ok by (simp_all add: entries_ok_def)
    then have l: "distinct (em_lru_list m)" "p \<in> set (em_lru_list m)"
      using p mset_eq_setD mset_eq_imp_distinct_iff by blast+
    from get_hit[OF ok Some r, of now] fit CacheGet Some used_order_hit[OF l] show ?thesis by (force simp: counts_fit_def)
  qed
qed

text \<open>
  C27. Any sequence of \<open>elf_cache_get\<close> and \<open>elf_cache_put\<close> on a filled table, as long as no count
  leaves the range of \<open>int\<close>: no fault; the table keeps its entries; the number of holders of every entry
  grows by the requests for its name and shrinks by its releases; and the list is in the order of the last use.
\<close>

theorem elf_cache_holders:
  assumes "entries_ok m objs ps" and "set (puts xs) \<subseteq> set ps"
    and "counts_fit objs ps (length xs)"
  shows "\<exists>m' objs'. cache_ops xs (m, objs) = Some (m', objs') \<and> entries_ok m' objs' ps \<and>
    (let hs = hits (lookup_name objs ps) xs in
     em_lru_list m' = used_order (em_lru_list m) hs \<and>
     (\<forall>p\<in>set ps. refs_of objs' p = refs_of objs p + int (count_list hs p) - int (count_list (puts xs) p)))"
  using assms
proof (induction xs arbitrary: m objs)
  case Nil
  then show ?case by (simp add: used_order_def)
next
  case (Cons x xs)
  have s: "set (puts [x]) \<subseteq> set ps" "set (puts xs) \<subseteq> set ps" using Cons.prems(2) by (auto simp: puts_Cons[of x xs])
  from cache_op_step[OF Cons.prems(1) s(1), of "length xs"] Cons.prems(3) obtain m1 objs1 where
    1: "do_cache_op x (m, objs) = Some (m1, objs1)" "entries_ok m1 objs1 ps" "lookup_name objs1 ps = lookup_name objs ps"
      "\<forall>hs. used_order (em_lru_list m1) hs = used_order (em_lru_list m) (hits (lookup_name objs ps) [x] @ hs)"
      "\<forall>p\<in>set ps. refs_of objs1 p = refs_of objs p + int (count_list (hits (lookup_name objs ps) [x]) p) - int (count_list (puts [x]) p)"
      "counts_fit objs1 ps (length xs)" by auto
  from Cons.IH[OF 1(2) s(2) 1(6)] 1 show ?case
    by (auto simp: Let_def hits_Cons[of _ x xs] puts_Cons[of x xs])
qed


section \<open>Clean-up\<close>

text \<open>What an entry whose cache holds no block keeps: its memory, its descriptor and its mapping.\<close>

definition entry_memory :: "entry_store \<Rightarrow> block \<Rightarrow> block list" where
  "entry_memory objs p = (case objs p of None \<Rightarrow> [] | Some e \<Rightarrow>
     (case ec_cache e of None \<Rightarrow> [] | Some c \<Rightarrow> [mc_block c]) @ str_blocks (ec_filename e) @ [p])"

definition entry_fds :: "entry_store \<Rightarrow> block \<Rightarrow> int multiset" where
  "entry_fds objs p = (case objs p of None \<Rightarrow> {#} | Some e \<Rightarrow> if ec_fd e \<ge> 0 then {#ec_fd e#} else {#})"

definition entry_maps :: "entry_store \<Rightarrow> block \<Rightarrow> u64 multiset" where
  "entry_maps objs p = (case objs p of None \<Rightarrow> {#} | Some e \<Rightarrow> (case ec_mmap_base e of None \<Rightarrow> {#} | Some a \<Rightarrow> {#a#}))"

definition blockless :: "entry_store \<Rightarrow> block \<Rightarrow> bool" where
  "blockless objs p \<longleftrightarrow> (\<exists>e. objs p = Some e \<and> (\<forall>c. ec_cache e = Some c \<longrightarrow> cache_tree c = Leaf \<and> lru_list c = []))"

lemma release_entry_ok:
  assumes "blockless objs p" and own: "owns base (heap os) (entry_memory objs p @ bs)"
  shows "\<exists>h. release_entry objs p os = Some (os\<lparr>heap := h, open_fds := open_fds os - entry_fds objs p,
      mappings := mappings os - entry_maps objs p\<rparr>) \<and> owns base h bs"
proof -
  obtain e where e: "objs p = Some e" "\<forall>c. ec_cache e = Some c \<longrightarrow> cache_tree c = Leaf \<and> lru_list c = []"
    using assms(1) by (auto simp: blockless_def)
  let ?cs = "case ec_cache e of None \<Rightarrow> [] | Some c \<Rightarrow> [mc_block c]"
  have own: "owns base (heap os) (?cs @ str_blocks (ec_filename e) @ p # bs)"
    using own e(1) by (simp add: entry_memory_def)
  obtain h1 where h1: "cache_cleanup (heap os) (ec_cache e) = Some h1" "owns base h1 (str_blocks (ec_filename e) @ p # bs)"
  proof (cases "ec_cache e")
    case (Some c)
    with own owns_free_hd[of base "heap os" "mc_block c"] e(2) that show thesis
      by (auto simp: cache_cleanup_def free_entries.simps)
  qed (use own that in \<open>simp add: cache_cleanup_def\<close>)
  from owns_free_str[OF h1(2)] obtain h2 where h2: "free_str h1 (ec_filename e) = Some h2" "owns base h2 (p # bs)" by blast
  from owns_free_hd[OF h2(2)] obtain h3 where "free_block h2 p = Some h3" "owns base h3 bs" by blast
  with e(1) h1(1) h2(1) show ?thesis
    by (cases os) (auto simp: release_entry_def entry_fds_def entry_maps_def Let_def split: option.splits)
qed

lemma release_entries_ok:
  assumes "take (length ps) (em_entries m) = map Some ps" and "length ps \<le> length (em_entries m)"
    and "\<forall>p\<in>set ps. blockless objs p" and "k \<le> length ps"
    and "owns base (heap os) (concat (map (entry_memory objs) (drop k ps)))"
  shows "\<exists>h. release_entries m objs [k..<length ps] os = Some (os\<lparr>heap := h,
      open_fds := open_fds os - (\<Sum>p\<in>#mset (drop k ps). entry_fds objs p),
      mappings := mappings os - (\<Sum>p\<in>#mset (drop k ps). entry_maps objs p)\<rparr>) \<and> owns base h []"
  using assms(4,5)
proof (induction "length ps - k" arbitrary: k os)
  case 0
  then have "os = os\<lparr>heap := heap os, open_fds := open_fds os, mappings := mappings os\<rparr>" by simp
  with 0 show ?case by (intro exI[of _ "heap os"]) simp
next
  case (Suc d)
  then have k: "k < length ps" by simp
  then have up: "[k..<length ps] = k # [Suc k..<length ps]" and dr: "drop k ps = ps ! k # drop (Suc k) ps"
    by (simp_all add: upt_rec Cons_nth_drop_Suc)
  note at = entry_at[OF assms(1) k]
  have "blockless objs (ps ! k)" using assms(3) nth_mem[OF k] by blast
  from release_entry_ok[OF this, of base os "concat (map (entry_memory objs) (drop (Suc k) ps))"] Suc.prems(2) obtain h1 where
    r: "release_entry objs (ps ! k) os = Some (os\<lparr>heap := h1, open_fds := open_fds os - entry_fds objs (ps ! k),
        mappings := mappings os - entry_maps objs (ps ! k)\<rparr>)" "owns base h1 (concat (map (entry_memory objs) (drop (Suc k) ps)))"
    by (auto simp: dr)
  let ?os = "os\<lparr>heap := h1, open_fds := open_fds os - entry_fds objs (ps ! k), mappings := mappings os - entry_maps objs (ps ! k)\<rparr>"
  have d: "d = length ps - Suc k" using Suc.hyps(2) by simp
  from Suc.hyps(1)[OF d, of ?os] k r(2) obtain h2 where
    "release_entries m objs [Suc k..<length ps] ?os = Some (?os\<lparr>heap := h2,
      open_fds := open_fds ?os - (\<Sum>p\<in>#mset (drop (Suc k) ps). entry_fds objs p),
      mappings := mappings ?os - (\<Sum>p\<in>#mset (drop (Suc k) ps). entry_maps objs p)\<rparr>)" "owns base h2 []" by auto
  with at r(1) k assms(2) show ?case unfolding up dr by (auto simp: diff_diff_add)
qed

text \<open>
  \<open>elf_cache_cleanup\<close> on a table whose block caches hold no block gives back the memory of
  every entry, closes every descriptor and removes every mapping, each exactly once, and leaves a
  table in which no name is found.
\<close>

theorem elf_cache_cleanup_releases:
  assumes ok: "entries_ok m objs ps" and "\<forall>p\<in>set ps. blockless objs p"
    and own: "owns base (heap os) (concat (map (entry_memory objs) ps))"
    and "open_fds os = F + (\<Sum>p\<in>#mset ps. entry_fds objs p)" and "mappings os = M + (\<Sum>p\<in>#mset ps. entry_maps objs p)"
  shows "\<exists>os' m'. elf_cache_cleanup m objs os = Some (os', m') \<and> live (heap os') = base \<and> open_fds os' = F \<and> mappings os' = M \<and>
    (\<forall>name now. elf_cache_get m' objs name now = Some (m', objs, None))"
proof -
  have c: "nat (em_count m) = length ps" "take (length ps) (em_entries m) = map Some ps" "length ps \<le> length (em_entries m)"
    using ok by (simp_all add: entries_ok_def)
  from release_entries_ok[OF c(2,3) assms(2), of 0 base os] own obtain h where
    "release_entries m objs [0..<length ps] os = Some (os\<lparr>heap := h, open_fds := F, mappings := M\<rparr>)" "owns base h []"
    using assms(4,5) by auto
  then show ?thesis unfolding elf_cache_cleanup_def c(1)
    by (auto simp: owns_empty elf_cache_get_def split: option.splits)
qed

section \<open>Examples\<close>

definition example_entry :: "string \<Rightarrow> block \<Rightarrow> int \<Rightarrow> elf_cache_entry" where
  "example_entry name b fd = \<lparr>ec_filename = Some (b, name), ec_fd = fd, ec_mmap_base = Some (0x1000 * word_of_int fd), ec_cache = None,
     ec_ref_count = 0, ec_last_access = 0\<rparr>"

definition example_entries :: entry_store where
  "example_entries = [10 \<mapsto> example_entry ''libc.so'' 11 3, 20 \<mapsto> example_entry ''libm.so'' 21 4]"

definition example_manager :: elf_cache_manager where
  "example_manager = \<lparr>em_entries = [Some 10, Some 20, None, None], em_count = 2, em_max_count = 4, em_lru_list = [10, 20]\<rparr>"

lemma example_entries_ok: "entries_ok example_manager example_entries [10, 20]"
  by (simp add: entries_ok_def example_manager_def example_entries_def example_entry_def name_of_def)

theorem elf_cache_holders_witness:
  "\<exists>m' objs'. cache_ops [CacheGet ''libc.so'' 1, CacheGet ''libm.so'' 2, CacheGet ''libc.so'' 3, CachePut 20]
      (example_manager, example_entries) = Some (m', objs') \<and>
    em_lru_list m' = [20, 10] \<and> refs_of objs' 10 = 2 \<and> refs_of objs' 20 = 0"
  using elf_cache_holders[OF example_entries_ok, of "[CacheGet ''libc.so'' 1, CacheGet ''libm.so'' 2, CacheGet ''libc.so'' 3, CachePut 20]"]
  by (auto simp: counts_fit_def refs_of_def example_entries_def example_entry_def lookup_name_def name_of_def example_manager_def used_order_def)

definition example_cache_os :: perf_os where
  "example_cache_os = \<lparr>heap = \<lparr>live = [10 \<mapsto> 112, 11 \<mapsto> 8, 20 \<mapsto> 112, 21 \<mapsto> 8], next_block = 30, oom = (\<lambda>_. False)\<rparr>,
     open_fds = {#0, 1, 2, 3, 4#}, mappings = {#0x3000, 0x4000#}\<rparr>"

theorem elf_cache_cleanup_releases_witness:
  "\<exists>os' m'. elf_cache_cleanup example_manager example_entries example_cache_os = Some (os', m') \<and> live (heap os') = Map.empty \<and>
    open_fds os' = {#0, 1, 2#} \<and> mappings os' = {#}"
proof -
  have "owns Map.empty (heap example_cache_os) [11, 10, 21, 20]"
    by (auto simp: owns_def example_cache_os_def heap_ok_def)
  with elf_cache_cleanup_releases[OF example_entries_ok, of Map.empty example_cache_os "{#0, 1, 2#}" "{#}"] show ?thesis
    by (auto simp: blockless_def entry_memory_def entry_fds_def entry_maps_def example_entries_def example_entry_def
        example_cache_os_def str_blocks_def)
qed

end
