(* ===== verification/Hash_Tables.thy ===== *)
theory Hash_Tables
  imports Prelude "HOL-Library.Multiset"
begin

text \<open>
  The hash functions of src/utils/hash.c and the chained hash tables built on them (the process
  table of src/core/process.c and the ELF cache of src/elf/elf.c). A table is its array of
  buckets, each a chain with the newest entry first. The interface \<open>chained_table\<close> asks of a
  hash function only that it stays within the array, and gives the laws of a finite map.
\<close>

section \<open>Hash functions\<close>

abbreviation HASHTABLE_SIZE :: nat where "HASHTABLE_SIZE \<equiv> 1024"

definition hash_pid :: "32 word \<Rightarrow> nat" where
  "hash_pid pid = (let upid = (pid :: u32) in unat (upid mod 1024))"

text \<open>A \<open>char\<close> is signed on the target and is promoted to \<open>int\<close> and then to \<open>unsigned\<close>.\<close>

definition char_val :: "char \<Rightarrow> u32" where
  "char_val c = (let n = of_char c in if n < 128 then of_nat n else of_nat n - 256)"

fun hash_str_loop :: "u32 \<Rightarrow> string \<Rightarrow> u32" where
  "hash_str_loop hash [] = hash"
| "hash_str_loop hash (c # cs) = hash_str_loop (push_bit 5 hash - hash + char_val c) cs"

definition hash_str :: "string \<Rightarrow> nat" where
  "hash_str str = unat (hash_str_loop 0 str mod 1024)"

lemma hash_pid_bound: "hash_pid pid < HASHTABLE_SIZE"
  by (simp add: hash_pid_def Let_def unat_mod)

lemma hash_str_bound: "hash_str s < HASHTABLE_SIZE"
  by (simp add: hash_str_def unat_mod)

section \<open>Chained tables\<close>

text \<open>The loop that unlinks the first matching node of a chain.\<close>

fun unlink :: "('e \<Rightarrow> bool) \<Rightarrow> 'e list \<Rightarrow> 'e list" where
  "unlink P [] = []"
| "unlink P (e # es) = (if P e then es else e # unlink P es)"

definition ht_find :: "('k \<Rightarrow> nat) \<Rightarrow> ('e \<Rightarrow> 'k) \<Rightarrow> 'e list list \<Rightarrow> 'k \<Rightarrow> 'e option" where
  "ht_find hash key tbl k = find (\<lambda>e. key e = k) (tbl ! hash k)"

definition ht_insert :: "('k \<Rightarrow> nat) \<Rightarrow> ('e \<Rightarrow> 'k) \<Rightarrow> 'e list list \<Rightarrow> 'e \<Rightarrow> 'e list list" where
  "ht_insert hash key tbl e = (let i = hash (key e) in tbl[i := e # tbl ! i])"

definition ht_remove :: "('k \<Rightarrow> nat) \<Rightarrow> ('e \<Rightarrow> 'k) \<Rightarrow> 'e list list \<Rightarrow> 'k \<Rightarrow> 'e list list" where
  "ht_remove hash key tbl k = tbl[hash k := unlink (\<lambda>e. key e = k) (tbl ! hash k)]"

text \<open>Replacing the entry with the key of \<open>e\<close> in place: a write through the found pointer.\<close>

definition ht_update :: "('k \<Rightarrow> nat) \<Rightarrow> ('e \<Rightarrow> 'k) \<Rightarrow> 'e list list \<Rightarrow> 'e \<Rightarrow> 'e list list" where
  "ht_update hash key tbl e =
     tbl[hash (key e) := map (\<lambda>x. if key x = key e then e else x) (tbl ! hash (key e))]"

text \<open>Every entry is in the bucket of its key and no key occurs twice.\<close>

definition ht_ok :: "('k \<Rightarrow> nat) \<Rightarrow> ('e \<Rightarrow> 'k) \<Rightarrow> nat \<Rightarrow> 'e list list \<Rightarrow> bool" where
  "ht_ok hash key n tbl \<longleftrightarrow> length tbl = n \<and>
     (\<forall>i<n. distinct (map key (tbl ! i)) \<and> (\<forall>e\<in>set (tbl ! i). hash (key e) = i))"

abbreviation entries :: "'e list list \<Rightarrow> 'e list" where
  "entries tbl \<equiv> concat tbl"

lemma set_unlink: "set (unlink P xs) \<subseteq> set xs"
  by (induction xs) auto

lemma unlink_key:
  "distinct (map key es) \<Longrightarrow> unlink (\<lambda>e. key e = k) es = filter (\<lambda>e. key e \<noteq> k) es"
  proof (induction es)
  case (Cons e es)
  then have "key e = k \<Longrightarrow> filter (\<lambda>e. key e \<noteq> k) es = es" by (intro filter_True) (auto simp: image_iff)
  with Cons show ?case by auto
qed simp

lemma find_key:
  "distinct (map key es) \<Longrightarrow> find (\<lambda>e. key e = k) es = Some e \<longleftrightarrow> e \<in> set es \<and> key e = k"
  by (induction es) auto

lemma find_None: "find (\<lambda>e. key e = k) es = None \<longleftrightarrow> k \<notin> key ` set es"
  by (induction es) auto

lemma mset_unlink:
  assumes "find P es = Some e"
  shows "mset es = add_mset e (mset (unlink P es))"
  using assms by (induction es) (auto split: if_splits)

lemma mset_concat_update:
  "i < length tbl \<Longrightarrow> mset (concat (tbl[i := c])) + mset (tbl ! i) = mset (concat tbl) + mset c"
proof (induction tbl arbitrary: i)
  case (Cons b tbl)
  show ?case
  proof (cases i)
    case (Suc j)
    with Cons.IH[of j] Cons.prems show ?thesis by (simp add: union_assoc)
  qed (simp add: ac_simps)
qed simp

lemma ht_ok_update:
  assumes "ht_ok hash key n tbl" "distinct (map key c)" "\<forall>e\<in>set c. hash (key e) = i"
  shows "ht_ok hash key n (tbl[i := c])"
  unfolding ht_ok_def
proof (intro conjI allI impI)
  show "length (tbl[i := c]) = n" using assms(1) by (simp add: ht_ok_def)
  fix j assume "j < n"
  then have j: "tbl[i := c] ! j = (if i = j then c else tbl ! j)"
    using assms(1) by (simp add: ht_ok_def nth_update_if)
  show "distinct (map key (tbl[i := c] ! j))" using assms(1,2) \<open>j < n\<close> unfolding j by (simp add: ht_ok_def)
  show "\<forall>e\<in>set (tbl[i := c] ! j). hash (key e) = j" using assms(1,3) \<open>j < n\<close> unfolding j by (simp add: ht_ok_def)
qed

lemma ht_find_update:
  "i < length tbl \<Longrightarrow> ht_find hash key (tbl[i := c]) k =
    (if hash k = i then find (\<lambda>e. key e = k) c else ht_find hash key tbl k)"
  by (simp add: ht_find_def)

text \<open>No key occurs twice in the whole table.\<close>

lemma ht_ok_distinct:
  assumes "ht_ok hash key n tbl"
  shows "distinct (map key (entries tbl))"
proof -
  have "(\<forall>i<length tbl. distinct (map key (tbl ! i)) \<and> (\<forall>e\<in>set (tbl ! i). hash (key e) = off + i)) \<Longrightarrow>
      distinct (map key (concat tbl)) \<and> (\<forall>e\<in>set (concat tbl). off \<le> hash (key e))" for off
  proof (induction tbl arbitrary: off)
    case (Cons b tbl)
    have "distinct (map key (concat tbl)) \<and> (\<forall>e\<in>set (concat tbl). Suc off \<le> hash (key e))"
      by (rule Cons.IH) (use Cons.prems in fastforce)
    moreover have "distinct (map key b)" "\<forall>e\<in>set b. hash (key e) = off" using Cons.prems by (auto dest: spec[of _ 0])
    ultimately show ?case by (auto simp: image_iff) (metis Suc_n_not_le_n, meson Suc_leD)
  qed simp
  from this[of 0] assms show ?thesis by (simp add: ht_ok_def)
qed

locale chained_table =
  fixes hash :: "'k \<Rightarrow> nat"
    and key :: "'e \<Rightarrow> 'k"
    and n :: nat
  assumes hash_bound: "hash k < n"
begin

lemma bucket_ok:
  "ht_ok hash key n tbl \<Longrightarrow>
    distinct (map key (tbl ! hash k)) \<and> (\<forall>e\<in>set (tbl ! hash k). hash (key e) = hash k) \<and> hash k < length tbl"
  using hash_bound[of k] by (simp add: ht_ok_def)

lemma ok_empty: "ht_ok hash key n (replicate n [])"
  by (simp add: ht_ok_def)

lemma find_entries:
  assumes "ht_ok hash key n tbl"
  shows "ht_find hash key tbl k = Some e \<longleftrightarrow> e \<in> set (entries tbl) \<and> key e = k"
proof
  assume "ht_find hash key tbl k = Some e"
  then show "e \<in> set (entries tbl) \<and> key e = k"
    using find_key[of key "tbl ! hash k" k e] bucket_ok[OF assms, of k] nth_mem by (fastforce simp: ht_find_def)
next
  assume e: "e \<in> set (entries tbl) \<and> key e = k"
  then obtain c where c: "c \<in> set tbl" "e \<in> set c" by auto
  then obtain i where i: "i < length tbl" "e \<in> set (tbl ! i)" by (metis in_set_conv_nth)
  then have "hash k = i" using assms e by (auto simp: ht_ok_def)
  with i e find_key[of key "tbl ! hash k" k e] bucket_ok[OF assms, of k] show "ht_find hash key tbl k = Some e"
    by (simp add: ht_find_def)
qed

lemma insert_ok:
  assumes "ht_ok hash key n tbl" and "ht_find hash key tbl (key e) = None"
  shows "ht_ok hash key n (ht_insert hash key tbl e)"
    and "ht_find hash key (ht_insert hash key tbl e) = (ht_find hash key tbl)(key e \<mapsto> e)"
    and "mset (entries (ht_insert hash key tbl e)) = add_mset e (mset (entries tbl))"
proof -
  let ?i = "hash (key e)"
  have i: "?i < length tbl" "?i < n" using hash_bound[of "key e"] assms(1) by (auto simp: ht_ok_def)
  have new: "key e \<notin> key ` set (tbl ! ?i)" using assms(2) find_None by (simp add: ht_find_def find_None)
  show "ht_ok hash key n (ht_insert hash key tbl e)"
    unfolding ht_insert_def Let_def by (rule ht_ok_update[OF assms(1)]) (use bucket_ok[OF assms(1), of "key e"] new in auto)
  show "ht_find hash key (ht_insert hash key tbl e) = (ht_find hash key tbl)(key e \<mapsto> e)"
    unfolding ht_insert_def Let_def by (rule ext) (auto simp: ht_find_update[OF i(1)], simp_all add: ht_find_def)
  show "mset (entries (ht_insert hash key tbl e)) = add_mset e (mset (entries tbl))"
    using mset_concat_update[OF i(1), of "e # tbl ! ?i"] by (simp add: ht_insert_def Let_def)
qed

lemma remove_ok:
  assumes "ht_ok hash key n tbl"
  shows "ht_ok hash key n (ht_remove hash key tbl k)"
    and "ht_find hash key (ht_remove hash key tbl k) = (ht_find hash key tbl)(k := None)"
    and "ht_find hash key tbl k = Some e \<Longrightarrow>
      mset (entries tbl) = add_mset e (mset (entries (ht_remove hash key tbl k)))"
proof -
  have i: "hash k < length tbl" "hash k < n" using hash_bound[of k] assms by (auto simp: ht_ok_def)
  note b = bucket_ok[OF assms, of k]
  have f: "unlink (\<lambda>e. key e = k) (tbl ! hash k) = filter (\<lambda>e. key e \<noteq> k) (tbl ! hash k)"
    using b by (intro unlink_key) simp
  show "ht_ok hash key n (ht_remove hash key tbl k)"
    unfolding ht_remove_def f by (rule ht_ok_update[OF assms]) (use b in \<open>auto simp: distinct_map_filter\<close>)
  show "ht_find hash key (ht_remove hash key tbl k) = (ht_find hash key tbl)(k := None)"
  proof
    fix k'
    have "find (\<lambda>e. key e = k') (filter (\<lambda>e. key e \<noteq> k) es) = (if k' = k then None else find (\<lambda>e. key e = k') es)" for es
      by (induction es) auto
    then show "ht_find hash key (ht_remove hash key tbl k) k' = ((ht_find hash key tbl)(k := None)) k'"
      unfolding ht_remove_def f by (auto simp: ht_find_update[OF i(1)], simp_all add: ht_find_def)
  qed
  show "mset (entries tbl) = add_mset e (mset (entries (ht_remove hash key tbl k)))"
    if "ht_find hash key tbl k = Some e"
    using mset_concat_update[OF i(1), of "unlink (\<lambda>e. key e = k) (tbl ! hash k)"]
      mset_unlink[of "\<lambda>e. key e = k" "tbl ! hash k" e] that
    by (simp add: ht_find_def ht_remove_def)
qed

lemma update_ok:
  assumes "ht_ok hash key n tbl" and "ht_find hash key tbl (key e) \<noteq> None"
  shows "ht_ok hash key n (ht_update hash key tbl e)"
    and "ht_find hash key (ht_update hash key tbl e) = (ht_find hash key tbl)(key e \<mapsto> e)"
proof -
  let ?i = "hash (key e)" and ?f = "\<lambda>x. if key x = key e then e else x"
  have i: "?i < length tbl" "?i < n" using hash_bound[of "key e"] assms(1) by (auto simp: ht_ok_def)
  have k: "key (?f x) = key x" for x by simp
  then have mk: "map key (map ?f es) = map key es" for es by (induction es) auto
  show "ht_ok hash key n (ht_update hash key tbl e)"
    unfolding ht_update_def
    by (rule ht_ok_update[OF assms(1)]) (use bucket_ok[OF assms(1), of "key e"] in \<open>auto simp: mk simp del: map_map\<close>)
  have fm: "find (\<lambda>x. key x = k') (map ?f es) =
      (if k' = key e \<and> find (\<lambda>x. key x = k') es \<noteq> None then Some e else find (\<lambda>x. key x = k') es)" for k' es
    by (induction es) auto
  show "ht_find hash key (ht_update hash key tbl e) = (ht_find hash key tbl)(key e \<mapsto> e)"
  proof
    fix k'
    show "ht_find hash key (ht_update hash key tbl e) k' = ((ht_find hash key tbl)(key e \<mapsto> e)) k'"
      unfolding ht_update_def ht_find_update[OF i(1)] fm using assms(2) by (auto simp: ht_find_def)
  qed
qed

lemma filter_ok:
  assumes "ht_ok hash key n tbl"
  shows "ht_ok hash key n (map (filter (\<lambda>e. Q (key e))) tbl)"
    and "ht_find hash key (map (filter (\<lambda>e. Q (key e))) tbl) = (\<lambda>k. if Q k then ht_find hash key tbl k else None)"
proof -
  show "ht_ok hash key n (map (filter (\<lambda>e. Q (key e))) tbl)"
    using assms by (auto simp: ht_ok_def distinct_map_filter)
  show "ht_find hash key (map (filter (\<lambda>e. Q (key e))) tbl) = (\<lambda>k. if Q k then ht_find hash key tbl k else None)"
  proof
    fix k
    have "find (\<lambda>e. key e = k) (filter (\<lambda>e. Q (key e)) es) = (if Q k then find (\<lambda>e. key e = k) es else None)" for es
      by (induction es) auto
    moreover have "hash k < length tbl" using hash_bound[of k] assms by (simp add: ht_ok_def)
    ultimately show "ht_find hash key (map (filter (\<lambda>e. Q (key e))) tbl) k =
        (if Q k then ht_find hash key tbl k else None)" by (simp add: ht_find_def)
  qed
qed

end

end
