(* ===== verification/C_Bytes.thy ===== *)
theory C_Bytes
  imports Prelude
begin

text \<open>
  Reads of a byte buffer as the components make them: ranges of bytes, and little-endian
  integers of the x86-64 target. A read outside the buffer is the value \<open>None\<close>.
\<close>

text \<open>The bytes of the buffer that are read; outside it the read is a fault.\<close>

definition read_bytes :: "u8 list \<Rightarrow> nat \<Rightarrow> nat \<Rightarrow> u8 list option" where
  "read_bytes buf start n = (if start + n \<le> length buf then Some (take n (drop start buf)) else None)"

fun le_nat :: "u8 list \<Rightarrow> nat" where
  "le_nat [] = 0"
| "le_nat (b # bs) = unat b + 256 * le_nat bs"

fun le_bytes :: "nat \<Rightarrow> nat \<Rightarrow> u8 list" where
  "le_bytes 0 v = []"
| "le_bytes (Suc k) v = of_nat (v mod 256) # le_bytes k (v div 256)"

definition read_u16 :: "u8 list \<Rightarrow> nat \<Rightarrow> u16 option" where
  "read_u16 buf off = map_option (of_nat \<circ> le_nat) (read_bytes buf off 2)"

definition read_u32 :: "u8 list \<Rightarrow> nat \<Rightarrow> u32 option" where
  "read_u32 buf off = map_option (of_nat \<circ> le_nat) (read_bytes buf off 4)"

definition read_u64 :: "u8 list \<Rightarrow> nat \<Rightarrow> u64 option" where
  "read_u64 buf off = map_option (of_nat \<circ> le_nat) (read_bytes buf off 8)"

lemma length_le_bytes [simp]: "length (le_bytes k v) = k"
  by (induction k arbitrary: v) auto

lemma le_nat_le_bytes: "v < 256 ^ k \<Longrightarrow> le_nat (le_bytes k v) = v"
proof (induction k arbitrary: v)
  case (Suc k)
  have "unat (of_nat (v mod 256) :: u8) = v mod 256"
    using of_nat_inverse[where 'a = 8, of "v mod 256"] by (simp add: unat_of_nat)
  moreover have "v div 256 < 256 ^ k" using Suc.prems by (simp add: less_mult_imp_div_less mult.commute)
  ultimately show ?case using Suc.IH[of "v div 256"] by simp
qed simp

lemma read_bytes_mid: "length bs = n \<Longrightarrow> length pre = off \<Longrightarrow> read_bytes (pre @ bs @ post) off n = Some bs"
  by (auto simp: read_bytes_def)

lemma read_u64_mid: "length pre = off \<Longrightarrow> read_u64 (pre @ le_bytes 8 (unat w) @ post) off = Some w"
  using unsigned_less[of w, where 'a = nat]
  by (simp add: read_u64_def read_bytes_mid le_nat_le_bytes)

lemma read_u32_mid: "length pre = off \<Longrightarrow> read_u32 (pre @ le_bytes 4 (unat w) @ post) off = Some w"
  using unsigned_less[of w, where 'a = nat]
  by (simp add: read_u32_def read_bytes_mid le_nat_le_bytes)

lemma read_u16_mid: "length pre = off \<Longrightarrow> read_u16 (pre @ le_bytes 2 (unat w) @ post) off = Some w"
  using unsigned_less[of w, where 'a = nat]
  by (simp add: read_u16_def read_bytes_mid le_nat_le_bytes)

end
