(* ===== verification/Elf.thy ===== *)
theory Elf
  imports Index_Memory Hash_Tables C_Text C_Bytes
begin

text \<open>
  ELF files (src/elf/elf.c, src/elf/symbol_table.c): the build id, the function symbols of a
  file, and the cache of parsed files with reference counts. What libelf delivers is a
  parameter: an \<open>elf_handle\<close> lists the sections with their headers, names, raw data and
  symbols as the calls return them, \<open>elf_open\<close> stands for opening a path, and \<open>getnote\<close> for
  \<open>gelf_getnote\<close>.
\<close>

section \<open>What libelf returns\<close>

record gelf_sym =
  st_name :: "string option"
  st_info :: u8
  st_value :: u64
  st_size :: u64

record elf_section =
  sec_name :: "string option"
  sh_type :: u32
  sh_size :: u64
  sh_entsize :: u64
  sec_data :: "u8 list option"
  sec_sym :: "nat \<Rightarrow> gelf_sym"

record elf_handle =
  shstrndx_ok :: bool
  sections :: "elf_section list"

record gelf_nhdr =
  n_namesz :: u32
  n_descsz :: u32
  n_type :: u32

type_synonym note_reader = "u8 list \<Rightarrow> nat \<Rightarrow> gelf_nhdr option"

abbreviation SHT_SYMTAB :: u32 where "SHT_SYMTAB \<equiv> 2"
abbreviation SHT_NOTE :: u32 where "SHT_NOTE \<equiv> 7"
abbreviation SHT_DYNSYM :: u32 where "SHT_DYNSYM \<equiv> 11"
abbreviation NT_GNU_BUILD_ID :: u32 where "NT_GNU_BUILD_ID \<equiv> 3"
abbreviation STT_FUNC :: u8 where "STT_FUNC \<equiv> 2"

section \<open>The build id\<close>

text \<open>\<open>(n + 3) & ~3\<close> in 32-bit arithmetic.\<close>

definition align4 :: "u32 \<Rightarrow> nat" where
  "align4 n = unat ((n + 3) AND NOT 3)"

definition hex_string :: "u8 list \<Rightarrow> string" where
  "hex_string bs = concat (map print_byte bs)"

text \<open>
  The loop over the notes of one section: \<open>None\<close> is a fault, \<open>Some None\<close> the end of the loop
  without an id. The buffer for the digits has \<open>n_descsz * 2 + 1\<close> bytes in 32-bit arithmetic;
  when that wraps around, the digits are written past its end, which is a fault too.
\<close>

function note_loop :: "note_reader \<Rightarrow> u8 list \<Rightarrow> nat \<Rightarrow> string option option" where
  "note_loop getnote buf offset =
     (if offset + 12 < length buf then
        (case getnote buf offset of
           None \<Rightarrow> Some None
         | Some nhdr \<Rightarrow>
             if unat (n_namesz nhdr) > length buf \<or> unat (n_descsz nhdr) > length buf then Some None
             else
               (let name_sz = align4 (n_namesz nhdr); desc_sz = align4 (n_descsz nhdr) in
                if offset + 12 + name_sz + desc_sz > length buf then Some None
                else if n_type nhdr = NT_GNU_BUILD_ID \<and> n_descsz nhdr > 0 then
                  if unat (n_descsz nhdr * 2 + 1) < 2 * unat (n_descsz nhdr) + 1 then None
                  else map_option (Some \<circ> hex_string) (read_bytes buf (offset + 12 + name_sz) (unat (n_descsz nhdr)))
                else note_loop getnote buf (offset + (12 + name_sz + desc_sz))))
      else Some None)"
  by pat_completeness auto
termination
  by (relation "measure (\<lambda>(g, buf, off). length buf - off)") auto

declare note_loop.simps [simp del]

definition is_build_id_section :: "elf_section \<Rightarrow> bool" where
  "is_build_id_section s \<longleftrightarrow> sec_name s = Some ''.note.gnu.build-id'' \<and> sh_type s = SHT_NOTE"

fun build_id_sections :: "note_reader \<Rightarrow> elf_section list \<Rightarrow> string option option" where
  "build_id_sections getnote [] = Some None"
| "build_id_sections getnote (s # ss) =
     (if is_build_id_section s then
        (case sec_data s of
           None \<Rightarrow> build_id_sections getnote ss
         | Some buf \<Rightarrow>
             (case note_loop getnote buf 0 of
                None \<Rightarrow> None
              | Some (Some b) \<Rightarrow> Some (Some b)
              | Some None \<Rightarrow> build_id_sections getnote ss))
      else build_id_sections getnote ss)"

text \<open>The string is returned in an allocated block; when that fails the result is NULL.\<close>

definition get_elf_build_id_from_elf :: "c_heap \<Rightarrow> note_reader \<Rightarrow> elf_handle \<Rightarrow> (c_heap \<times> cstr) option" where
  "get_elf_build_id_from_elf h getnote e =
     (if \<not> shstrndx_ok e then Some (h, None)
      else (case build_id_sections getnote (sections e) of
              None \<Rightarrow> None
            | Some None \<Rightarrow> Some (h, None)
            | Some (Some b) \<Rightarrow> Some (strdup h b)))"

section \<open>Function symbols\<close>

record symbol_info =
  symbol_name :: cstr
  symbol_start :: u64
  symbol_size :: u64
  sinfo_block :: block

definition sym_turn :: "symbol_info \<Rightarrow> symbol_info \<Rightarrow> turn" where
  "sym_turn new_sym entry = (if symbol_start new_sym < symbol_start entry then GoLeft else GoRight)"

definition insert_symbol_into_tree :: "symbol_info rbt \<Rightarrow> symbol_info \<Rightarrow> symbol_info rbt" where
  "insert_symbol_into_tree t s = (case tree_insert (sym_turn s) s t of Some t' \<Rightarrow> t' | None \<Rightarrow> t)"

definition is_function :: "gelf_sym \<Rightarrow> bool" where
  "is_function gs \<longleftrightarrow> st_info gs AND 15 = STT_FUNC \<and> st_size gs > 0"

text \<open>One symbol: a name that cannot be found is passed to \<open>strdup\<close> as NULL, which is a fault.\<close>

definition process_symbol :: "c_heap \<times> symbol_info rbt \<times> nat \<Rightarrow> gelf_sym \<Rightarrow>
    (c_heap \<times> symbol_info rbt \<times> nat) option" where
  "process_symbol st gs = (case st of (h, t, nsyms) \<Rightarrow>
     if is_function gs then
       (case malloc h 48 of
          (h, None) \<Rightarrow> Some (h, t, nsyms)
        | (h, Some sb) \<Rightarrow>
            (case st_name gs of
               None \<Rightarrow> None
             | Some nm \<Rightarrow>
                 (case strdup h nm of (h, p) \<Rightarrow>
                    Some (h, insert_symbol_into_tree t \<lparr>symbol_name = p, symbol_start = st_value gs,
                      symbol_size = st_size gs, sinfo_block = sb\<rparr>, nsyms + 1))))
     else Some (h, t, nsyms))"

fun process_symbols :: "c_heap \<times> symbol_info rbt \<times> nat \<Rightarrow> gelf_sym list \<Rightarrow>
    (c_heap \<times> symbol_info rbt \<times> nat) option" where
  "process_symbols st [] = Some st"
| "process_symbols st (gs # syms) = do { st \<leftarrow> process_symbol st gs; process_symbols st syms }"

text \<open>The symbols of a section; an entry size of 0 is a division by zero.\<close>

definition section_symbols :: "elf_section \<Rightarrow> gelf_sym list option" where
  "section_symbols s =
     (if sh_entsize s = 0 then None else Some (map (sec_sym s) [0..<unat (sh_size s div sh_entsize s)]))"

definition process_symbol_section :: "c_heap \<times> symbol_info rbt \<times> nat \<Rightarrow> elf_section \<Rightarrow>
    (c_heap \<times> symbol_info rbt \<times> nat) option" where
  "process_symbol_section st s =
     (case sec_data s of
        None \<Rightarrow> Some st
      | Some _ \<Rightarrow> do { syms \<leftarrow> section_symbols s; process_symbols st syms })"

fun process_sections :: "c_heap \<times> symbol_info rbt \<times> nat \<Rightarrow> elf_section list \<Rightarrow>
    (c_heap \<times> symbol_info rbt \<times> nat) option" where
  "process_sections st [] = Some st"
| "process_sections st (s # ss) =
     (if sh_type s = SHT_SYMTAB \<or> sh_type s = SHT_DYNSYM
      then do { st \<leftarrow> process_symbol_section st s; process_sections st ss }
      else process_sections st ss)"

record elf_symbol_collection =
  total_symbols :: nat
  symbol_tree :: "symbol_info rbt"
  coll_block :: block

definition build_symbol_collection :: "c_heap \<Rightarrow> elf_handle \<Rightarrow> (c_heap \<times> elf_symbol_collection option) option" where
  "build_symbol_collection h e =
     (case malloc h 16 of
        (h, None) \<Rightarrow> Some (h, None)
      | (h, Some cb) \<Rightarrow>
          do { (h, t, nsyms) \<leftarrow> process_sections (h, Leaf, 0) (sections e);
               if nsyms = 0 then do { h \<leftarrow> free_block h cb; Some (h, None) }
               else Some (h, Some \<lparr>total_symbols = nsyms, symbol_tree = t, coll_block = cb\<rparr>) })"

definition sym_look :: "u64 \<Rightarrow> symbol_info \<Rightarrow> turn" where
  "sym_look addr gs =
     (if addr \<ge> symbol_start gs \<and> addr < symbol_start gs + symbol_size gs then Found
      else if addr < symbol_start gs then GoLeft
      else GoRight)"

definition rb_search_symbol :: "symbol_info rbt \<Rightarrow> u64 \<Rightarrow> symbol_info option" where
  "rb_search_symbol root addr = tree_search (sym_look addr) root"

section \<open>The cache\<close>

record elf_file =
  file_path :: cstr
  build_id :: "block \<times> string"
  reference_count :: int
  symbols :: elf_symbol_collection
  enode_block :: block

type_synonym elf_cache = "elf_file list list"

definition elf_key :: "elf_file \<Rightarrow> string" where
  "elf_key e = snd (build_id e)"

text \<open>The returned string is NULL when the symbol's name could not be copied.\<close>

definition find_symbol_name_from_elf :: "elf_file option \<Rightarrow> u64 \<Rightarrow> string option" where
  "find_symbol_name_from_elf elf relative_address =
     (case elf of
        None \<Rightarrow> Some ''unknown_elf_or_no_symbols''
      | Some e \<Rightarrow>
          if total_symbols (symbols e) = 0 then Some ''unknown_elf_or_no_symbols''
          else (case rb_search_symbol (symbol_tree (symbols e)) relative_address of
                  Some gs \<Rightarrow> map_option snd (symbol_name gs)
                | None \<Rightarrow> Some ''unknown_function''))"

definition find_elf_in_table :: "elf_cache \<Rightarrow> string \<Rightarrow> elf_file option" where
  "find_elf_in_table table bid = ht_find hash_str elf_key table bid"

definition insert_elf_into_table :: "elf_cache \<Rightarrow> elf_file \<Rightarrow> elf_cache" where
  "insert_elf_into_table table new_node = ht_insert hash_str elf_key table new_node"

definition host_path :: "32 word \<Rightarrow> string \<Rightarrow> string" where
  "host_path pid filename = take 4095 (''/proc/'' @ print_int (sint pid) @ ''/root'' @ filename)"

text \<open>The result is the build id under which the object is in the cache.\<close>

definition find_or_create_elf :: "c_heap \<Rightarrow> (string \<Rightarrow> elf_handle option) \<Rightarrow> note_reader \<Rightarrow> elf_cache \<Rightarrow>
    32 word \<Rightarrow> string option \<Rightarrow> (c_heap \<times> elf_cache \<times> string option) option" where
  "find_or_create_elf h elf_open getnote table pid filename =
     (case filename of
        Some (c # cs) \<Rightarrow>
          if c \<noteq> CHR ''/'' then Some (h, table, None)
          else
            (case (case elf_open (host_path pid (c # cs)) of Some e \<Rightarrow> Some e | None \<Rightarrow> elf_open (c # cs)) of
               None \<Rightarrow> Some (h, table, None)
             | Some e \<Rightarrow>
                 do { (h, bid) \<leftarrow> get_elf_build_id_from_elf h getnote e;
                      case bid of
                        None \<Rightarrow> Some (h, table, None)
                      | Some (bb, b) \<Rightarrow>
                          (case find_elf_in_table table b of
                             Some obj \<Rightarrow>
                               do { h \<leftarrow> free_block h bb;
                                    Some (h, ht_update hash_str elf_key table
                                      (obj\<lparr>reference_count := reference_count obj + 1\<rparr>), Some b) }
                           | None \<Rightarrow>
                               (case malloc h 128 of
                                  (h, None) \<Rightarrow> do { h \<leftarrow> free_block h bb; Some (h, table, None) }
                                | (h, Some nb) \<Rightarrow>
                                    (case strdup h (c # cs) of
                                       (h, None) \<Rightarrow>
                                         do { h \<leftarrow> free_block h bb; h \<leftarrow> free_block h nb; Some (h, table, None) }
                                     | (h, Some path) \<Rightarrow>
                                         do { (h, coll) \<leftarrow> build_symbol_collection h e;
                                              case coll of
                                                None \<Rightarrow>
                                                  do { h \<leftarrow> free_str h (Some path); h \<leftarrow> free_block h bb;
                                                       h \<leftarrow> free_block h nb; Some (h, table, None) }
                                              | Some coll \<Rightarrow>
                                                  Some (h, insert_elf_into_table table
                                                    \<lparr>file_path = Some path, build_id = (bb, b), reference_count = 1,
                                                     symbols = coll, enode_block = nb\<rparr>, Some b) }))) })
      | _ \<Rightarrow> Some (h, table, None))"

definition sym_blocks :: "symbol_info \<Rightarrow> block list" where
  "sym_blocks s = str_blocks (symbol_name s) @ [sinfo_block s]"

definition free_elf_resources :: "c_heap \<Rightarrow> elf_file \<Rightarrow> c_heap option" where
  "free_elf_resources h e = do {
     h \<leftarrow> free_block h (fst (build_id e));
     h \<leftarrow> free_str h (file_path e);
     h \<leftarrow> free_entries sym_blocks h (symbol_tree (symbols e));
     free_block h (coll_block (symbols e)) }"

definition remove_elf :: "c_heap \<Rightarrow> elf_cache \<Rightarrow> string \<Rightarrow> (c_heap \<times> elf_cache) option" where
  "remove_elf h table bid =
     (case find_elf_in_table table bid of
        None \<Rightarrow> Some (h, table)
      | Some e \<Rightarrow>
          do { h \<leftarrow> free_elf_resources h e; h \<leftarrow> free_block h (enode_block e);
               Some (h, ht_remove hash_str elf_key table bid) })"

text \<open>The object is given by its build id; releasing an object that is not in the cache is a fault.\<close>

definition release_elf_by_ptr :: "c_heap \<Rightarrow> elf_cache \<Rightarrow> string option \<Rightarrow> (c_heap \<times> elf_cache) option" where
  "release_elf_by_ptr h table obj =
     (case obj of
        None \<Rightarrow> Some (h, table)
      | Some bid \<Rightarrow>
          (case find_elf_in_table table bid of
             None \<Rightarrow> None
           | Some e \<Rightarrow>
               (let e' = e\<lparr>reference_count := reference_count e - 1\<rparr>;
                    table = ht_update hash_str elf_key table e'
                in if reference_count e' = 0 then remove_elf h table bid else Some (h, table))))"

partial_function (option) clear_bucket :: "c_heap \<Rightarrow> elf_cache \<Rightarrow> nat \<Rightarrow> (c_heap \<times> elf_cache) option" where
  "clear_bucket h table i =
     (case table ! i of
        [] \<Rightarrow> Some (h, table)
      | e # _ \<Rightarrow> do { (h, table) \<leftarrow> remove_elf h table (elf_key e); clear_bucket h table i })"

fun clear_buckets :: "c_heap \<Rightarrow> elf_cache \<Rightarrow> nat list \<Rightarrow> (c_heap \<times> elf_cache) option" where
  "clear_buckets h table [] = Some (h, table)"
| "clear_buckets h table (i # is) = do { (h, table) \<leftarrow> clear_bucket h table i; clear_buckets h table is }"

definition clear_elf_cache :: "c_heap \<Rightarrow> elf_cache option \<Rightarrow> (c_heap \<times> elf_cache option) option" where
  "clear_elf_cache h table =
     (case table of
        None \<Rightarrow> Some (h, None)
      | Some table \<Rightarrow> do { (h, table) \<leftarrow> clear_buckets h table [0..<HASHTABLE_SIZE]; Some (h, Some table) })"

section \<open>The build id stays within its section\<close>

lemma and_not3_lower: "unat (x :: u32) \<le> unat (x AND NOT 3) + 3"
proof -
  have m: "(3 :: u32) = mask 2" by (simp add: mask_eq_exp_minus_1)
  have "x AND NOT (mask 2) = push_bit 2 (drop_bit 2 x)"
  proof (rule bit_eqI)
    fix n
    have "2 \<le> n \<Longrightarrow> Suc (Suc (n - 2)) = n" by arith
    then show "bit (x AND NOT (mask 2)) n = bit (push_bit 2 (drop_bit 2 x)) n"
      by (cases "2 \<le> n") (auto simp: bit_and_iff bit_not_iff bit_mask_iff bit_push_bit_iff bit_drop_bit_eq dest: bit_imp_le_length)
  qed
  then have "x AND NOT 3 = push_bit 2 (drop_bit 2 x)" unfolding m .
  then have "x = (x AND NOT 3) + take_bit 2 x" using bits_ident[of 2 x] by simp
  then have "unat x \<le> unat (x AND NOT 3) + unat (take_bit 2 x)"
    by (metis (no_types, lifting) mod_less_eq_dividend unat_word_ariths(1))
  moreover have "unat (take_bit 2 x) < 2 ^ 2"
    using take_bit_nat_less_exp[of 2 "unat x"] by (simp only: unsigned_take_bit_eq)
  ultimately show ?thesis by simp
qed

lemma align4_lower:
  assumes "unat n < 2 ^ 32 - 3"
  shows "unat n \<le> align4 n"
proof -
  have "unat (n + 3) = unat n + 3" using assms by (simp add: unat_word_ariths)
  with and_not3_lower[of "n + 3"] show ?thesis by (simp add: align4_def)
qed

lemma note_loop_bounds:
  assumes "length buf < 2 ^ 31"
  shows "\<exists>r. note_loop getnote buf off = Some r \<and>
    (\<forall>s. r = Some s \<longrightarrow> (\<exists>start n. 0 < n \<and> start + n \<le> length buf \<and> s = hex_string (take n (drop start buf))))"
  using assms
proof (induction getnote buf off rule: note_loop.induct)
  case (1 getnote buf off)
  let ?P = "\<lambda>r. \<forall>s. r = Some s \<longrightarrow> (\<exists>start n. 0 < n \<and> start + n \<le> length buf \<and> s = hex_string (take n (drop start buf)))"
  show ?case
  proof (cases "off + 12 < length buf")
    case False
    then show ?thesis by (subst note_loop.simps) simp
  next
    case lt: True
    show ?thesis
    proof (cases "getnote buf off")
      case None
      then show ?thesis by (subst note_loop.simps) simp
    next
      case (Some nh)
      let ?ns = "align4 (n_namesz nh)" and ?ds = "align4 (n_descsz nh)"
      show ?thesis
      proof (cases "unat (n_namesz nh) > length buf \<or> unat (n_descsz nh) > length buf \<or> off + 12 + ?ns + ?ds > length buf")
        case True
        then have "note_loop getnote buf off = Some None"
          using Some lt by (subst note_loop.simps) (auto simp: Let_def)
        then show ?thesis by simp
      next
        case False
        then have ds: "unat (n_descsz nh) \<le> ?ds" using 1(2) by (intro align4_lower) auto
        show ?thesis
        proof (cases "n_type nh = NT_GNU_BUILD_ID \<and> n_descsz nh > 0")
          case True
          have nw: "unat (n_descsz nh * 2 + 1) = 2 * unat (n_descsz nh) + 1"
            using False 1(2) by (simp add: unat_word_ariths)
          have "read_bytes buf (off + 12 + ?ns) (unat (n_descsz nh)) =
              Some (take (unat (n_descsz nh)) (drop (off + 12 + ?ns) buf))"
            using False ds by (auto simp: read_bytes_def)
          then have "note_loop getnote buf off =
              Some (Some (hex_string (take (unat (n_descsz nh)) (drop (off + 12 + ?ns) buf))))"
            using True False Some lt nw by (subst note_loop.simps) (simp add: Let_def)
          moreover have "0 < unat (n_descsz nh)" "off + 12 + ?ns + unat (n_descsz nh) \<le> length buf"
            using True False ds by (auto simp: unat_gt_0 word_neq_0_conv)
          ultimately show ?thesis by blast
        next
          case nid: False
          have "note_loop getnote buf off = note_loop getnote buf (off + (12 + ?ns + ?ds))"
            using nid False Some lt by (subst note_loop.simps) (auto simp: Let_def)
          moreover have "\<exists>r. note_loop getnote buf (off + (12 + ?ns + ?ds)) = Some r \<and> ?P r"
            using 1(1)[OF lt Some _ refl refl _ nid 1(2)] False by auto
          ultimately show ?thesis by simp
        qed
      qed
    qed
  qed
qed

lemma build_id_sections_bounds:
  assumes "\<forall>s\<in>set ss. \<forall>buf. sec_data s = Some buf \<longrightarrow> length buf < 2 ^ 31"
  shows "build_id_sections getnote ss \<noteq> None"
  using assms
proof (induction ss)
  case (Cons s ss)
  show ?case
  proof (cases "sec_data s")
    case None
    with Cons show ?thesis by simp
  next
    case (Some buf)
    with Cons.prems note_loop_bounds[of buf getnote 0] obtain r where
      "note_loop getnote buf 0 = Some r" by auto
    with Some Cons show ?thesis by (cases r) auto
  qed
qed simp

section \<open>The symbol index\<close>

interpretation es: ordered_index symbol_start sym_turn
  by unfold_locales (auto simp: sym_turn_def split: if_splits)

interpretation ei: interval_search symbol_start "\<lambda>s. symbol_start s + symbol_size s" sym_look
  by unfold_locales (auto simp: sym_look_def)

lemma insert_symbol_into_tree_ok:
  assumes "indexed symbol_start t"
  shows "indexed symbol_start (insert_symbol_into_tree t s) \<and>
    mset (inorder (insert_symbol_into_tree t s)) = add_mset s (mset (inorder t))"
proof -
  have "find_link (sym_turn s) t k \<noteq> None" for k by (induction t arbitrary: k) (auto simp: sym_turn_def)
  then obtain t' where "tree_insert (sym_turn s) s t = Some t'" by (fastforce simp: tree_insert_def)
  with es.insert_ok[OF assms this] show ?thesis by (simp add: insert_symbol_into_tree_def)
qed

text \<open>What is required of a file: entry sizes are not zero and function symbols have names.\<close>

definition symbol_section :: "elf_section \<Rightarrow> bool" where
  "symbol_section s \<longleftrightarrow> (sh_type s = SHT_SYMTAB \<or> sh_type s = SHT_DYNSYM) \<and> sec_data s \<noteq> None"

definition sane_section :: "elf_section \<Rightarrow> bool" where
  "sane_section s \<longleftrightarrow> (\<forall>buf. sec_data s = Some buf \<longrightarrow> length buf < 2 ^ 31) \<and>
     (symbol_section s \<longrightarrow> (\<exists>syms. section_symbols s = Some syms \<and>
        (\<forall>g\<in>set syms. is_function g \<longrightarrow> st_name g \<noteq> None)))"

definition elf_functions :: "elf_handle \<Rightarrow> gelf_sym list" where
  "elf_functions e = filter is_function
     (concat (map (\<lambda>s. the (section_symbols s)) (filter symbol_section (sections e))))"

definition coll_blocks :: "symbol_info rbt \<Rightarrow> block list" where
  "coll_blocks t = concat (map sym_blocks (inorder t))"

definition sdata :: "symbol_info \<Rightarrow> string option \<times> u64 \<times> u64" where
  "sdata s = (map_option snd (symbol_name s), symbol_start s, symbol_size s)"

definition gdata :: "gelf_sym \<Rightarrow> string option \<times> u64 \<times> u64" where
  "gdata g = (st_name g, st_value g, st_size g)"

text \<open>The state of the symbol loops: memory, order, and the symbols taken so far.\<close>

definition sym_state :: "(block \<Rightarrow> nat option) \<Rightarrow> block list \<Rightarrow> gelf_sym list \<Rightarrow>
    c_heap \<times> symbol_info rbt \<times> nat \<Rightarrow> bool" where
  "sym_state base bs gs st \<longleftrightarrow> (case st of (h, t, n) \<Rightarrow>
     owns base h (coll_blocks t @ bs) \<and> indexed symbol_start t \<and> n = length (inorder t) \<and>
     ((\<forall>b. \<not> oom h b) \<longrightarrow> mset (map sdata (inorder t)) = mset (map gdata (filter is_function gs))))"

lemma process_symbol_ok:
  assumes "sym_state base bs gs st" and "is_function g \<longrightarrow> st_name g \<noteq> None"
  shows "\<exists>st'. process_symbol st g = Some st' \<and> sym_state base bs (gs @ [g]) st' \<and> oom (fst st') = oom (fst st)"
proof -
  obtain h t n where st: "st = (h, t, n)" by (cases st)
  show ?thesis
  proof (cases "is_function g")
    case False
    with assms(1) st show ?thesis by (simp add: process_symbol_def sym_state_def)
  next
    case True
    with assms(2) obtain nm where nm: "st_name g = Some nm" by auto
    from assms(1) st have i: "owns base h (coll_blocks t @ bs)" "indexed symbol_start t" "n = length (inorder t)"
        "(\<forall>b. \<not> oom h b) \<longrightarrow> mset (map sdata (inorder t)) = mset (map gdata (filter is_function gs))"
      by (auto simp: sym_state_def)
    obtain h1 r1 where h1: "malloc h 48 = (h1, r1)" by (cases "malloc h 48")
    note om = oom_malloc[OF h1]
    show ?thesis
    proof (cases r1)
      case None
      then have ex: "\<exists>b. oom h1 b" "oom h1 = oom h" using om by auto
      have "owns base h1 (coll_blocks t @ bs)" using owns_malloc_None[OF i(1)] h1 None by blast
      then have "sym_state base bs (gs @ [g]) (h1, t, n)"
        unfolding sym_state_def prod.case using i(2,3) ex by blast
      moreover have "process_symbol st g = Some (h1, t, n)" using st True h1 None by (simp add: process_symbol_def)
      ultimately show ?thesis using st ex(2) by (intro exI[of _ "(h1, t, n)"]) simp
    next
      case (Some sb)
      have o1: "owns base h1 (sb # coll_blocks t @ bs)" using owns_malloc[OF i(1)] h1 Some by simp
      obtain h2 p where h2: "strdup h1 nm = (h2, p)" by (cases "strdup h1 nm")
      note sd = owns_strdup[OF o1 h2]
      let ?s = "\<lparr>symbol_name = p, symbol_start = st_value g, symbol_size = st_size g, sinfo_block = sb\<rparr>"
      let ?t = "insert_symbol_into_tree t ?s"
      note it = insert_symbol_into_tree_ok[OF i(2), of ?s]
      have "mset (coll_blocks ?t) = mset (sym_blocks ?s @ coll_blocks t)"
        unfolding coll_blocks_def using it by (intro blocks_add) simp
      then have eq: "mset (str_blocks p @ sb # coll_blocks t @ bs) = mset (coll_blocks ?t @ bs)"
        by (simp add: sym_blocks_def)
      have "owns base h2 (coll_blocks ?t @ bs)" by (rule owns_perm[OF conjunct1[OF sd] eq])
      moreover have "length (inorder ?t) = Suc (length (inorder t))"
        using it by (metis size_add_mset size_mset)
      moreover have "mset (map sdata (inorder ?t)) = mset (map gdata (filter is_function (gs @ [g])))"
        if "\<forall>b. \<not> oom h2 b"
      proof -
        have "\<forall>b. \<not> oom h b" using that sd om by simp
        moreover from this obtain b where "p = Some (b, nm)" using sd om by (cases p) auto
        then have "sdata ?s = gdata g" using nm by (simp add: sdata_def gdata_def)
        moreover have "mset (map sdata (inorder ?t)) = add_mset (sdata ?s) (mset (map sdata (inorder t)))"
          using it by (simp add: mset_map)
        ultimately show ?thesis using i(4) True by simp
      qed
      ultimately have "sym_state base bs (gs @ [g]) (h2, ?t, n + 1)"
        using it i(3) by (simp add: sym_state_def)
      moreover have "process_symbol st g = Some (h2, ?t, n + 1)"
        using st True h1 Some nm h2 by (simp add: process_symbol_def)
      moreover have "oom h2 = oom h" using sd om by simp
      ultimately show ?thesis using st by (intro exI[of _ "(h2, ?t, n + 1)"]) simp
    qed
  qed
qed

lemma process_symbols_ok:
  "sym_state base bs gs st \<Longrightarrow> \<forall>g\<in>set syms. is_function g \<longrightarrow> st_name g \<noteq> None \<Longrightarrow>
    \<exists>st'. process_symbols st syms = Some st' \<and> sym_state base bs (gs @ syms) st' \<and> oom (fst st') = oom (fst st)"
proof (induction syms arbitrary: st gs)
  case (Cons g syms)
  from process_symbol_ok[OF Cons.prems(1), of g] Cons.prems(2) obtain st1 where
    s1: "process_symbol st g = Some st1" "sym_state base bs (gs @ [g]) st1" "oom (fst st1) = oom (fst st)" by auto
  from Cons.IH[OF s1(2)] Cons.prems(2) s1 show ?case by auto
qed simp

lemma process_sections_ok:
  "sym_state base bs gs st \<Longrightarrow> \<forall>s\<in>set ss. sane_section s \<Longrightarrow>
    \<exists>st'. process_sections st ss = Some st' \<and> oom (fst st') = oom (fst st) \<and>
      sym_state base bs (gs @ concat (map (\<lambda>s. the (section_symbols s)) (filter symbol_section ss))) st'"
proof (induction ss arbitrary: st gs)
  case (Cons s ss)
  show ?case
  proof (cases "symbol_section s")
    case False
    then have "process_sections st (s # ss) = process_sections st ss"
      by (auto simp: symbol_section_def process_symbol_section_def)
    with Cons False show ?thesis by simp
  next
    case True
    with Cons.prems(2) obtain syms where sy: "section_symbols s = Some syms"
        "\<forall>g\<in>set syms. is_function g \<longrightarrow> st_name g \<noteq> None" by (auto simp: sane_section_def)
    from process_symbols_ok[OF Cons.prems(1) sy(2)] obtain st1 where
      s1: "process_symbols st syms = Some st1" "sym_state base bs (gs @ syms) st1" "oom (fst st1) = oom (fst st)" by blast
    have "process_sections st (s # ss) = process_sections st1 ss"
      using True sy(1) s1(1) by (auto simp: symbol_section_def process_symbol_section_def)
    with Cons.IH[OF s1(2)] Cons.prems(2) s1(3) True sy(1) show ?thesis by simp
  qed
qed simp

lemma build_symbol_collection_ok:
  assumes "owns base h bs" and "\<forall>s\<in>set (sections e). sane_section s"
  shows "\<exists>h' r. build_symbol_collection h e = Some (h', r) \<and> oom h' = oom h \<and>
    (case r of
       None \<Rightarrow> owns base h' bs \<and> ((\<forall>b. \<not> oom h b) \<longrightarrow> elf_functions e = [])
     | Some c \<Rightarrow> owns base h' (coll_blocks (symbol_tree c) @ coll_block c # bs) \<and>
         indexed symbol_start (symbol_tree c) \<and> total_symbols c = length (inorder (symbol_tree c)) \<and>
         0 < total_symbols c \<and>
         ((\<forall>b. \<not> oom h b) \<longrightarrow>
            mset (map sdata (inorder (symbol_tree c))) = mset (map gdata (elf_functions e))))"
proof -
  obtain h1 r1 where h1: "malloc h 16 = (h1, r1)" by (cases "malloc h 16")
  note om = oom_malloc[OF h1]
  show ?thesis
  proof (cases r1)
    case None
    with h1 om owns_malloc_None[OF assms(1)] show ?thesis by (auto simp: build_symbol_collection_def)
  next
    case (Some cb)
    have "owns base h1 (cb # bs)" using owns_malloc[OF assms(1)] h1 Some by simp
    then have "sym_state base (cb # bs) [] (h1, Leaf, 0)"
      by (simp add: sym_state_def coll_blocks_def es.index_Leaf)
    from process_sections_ok[OF this assms(2)] obtain st where
      st': "process_sections (h1, Leaf, 0) (sections e) = Some st" "oom (fst st) = oom h1"
        "sym_state base (cb # bs) (concat (map (\<lambda>s. the (section_symbols s)) (filter symbol_section (sections e)))) st"
      by auto
    obtain h2 t n where s2: "st = (h2, t, n)" by (cases st)
    have p: "process_sections (h1, Leaf, 0) (sections e) = Some (h2, t, n)" "oom h2 = oom h1"
      using st'(1,2) s2 by simp_all
    have st: "owns base h2 (coll_blocks t @ cb # bs)" "indexed symbol_start t" "n = length (inorder t)"
        "(\<forall>b. \<not> oom h2 b) \<longrightarrow> mset (map sdata (inorder t)) = mset (map gdata (elf_functions e))"
      using st'(3) s2 by (simp_all add: sym_state_def elf_functions_def)
    show ?thesis
    proof (cases "n = 0")
      case True
      then have "inorder t = []" using st(3) by simp
      with st(1) have "owns base h2 (cb # bs)" by (simp add: coll_blocks_def)
      from owns_free_hd[OF this] obtain h3 where h3: "free_block h2 cb = Some h3" "owns base h3 bs" by blast
      with True h1 Some p st(4) \<open>inorder t = []\<close> om oom_free_block[OF h3(1)] show ?thesis
        by (auto simp: build_symbol_collection_def)
    next
      case False
      with h1 Some p st om show ?thesis by (auto simp: build_symbol_collection_def)
    qed
  qed
qed

text \<open>Ranges that do not wrap around and are pairwise disjoint or equal.\<close>

definition clean_ranges :: "gelf_sym list \<Rightarrow> bool" where
  "clean_ranges gs \<longleftrightarrow> (\<forall>x\<in>set gs. st_value x < st_value x + st_size x) \<and>
     (\<forall>x\<in>set gs. \<forall>y\<in>set gs. st_value x + st_size x \<le> st_value y \<or> st_value y + st_size y \<le> st_value x \<or>
        st_value x = st_value y \<and> st_size x = st_size y)"

lemma clean_layered:
  assumes "clean_ranges gs" and "indexed symbol_start t"
    and "mset (map sdata (inorder t)) = mset (map gdata gs)"
  shows "layered symbol_start (\<lambda>s. symbol_start s + symbol_size s) t"
proof -
  have ex: "\<exists>g\<in>set gs. st_value g = symbol_start s \<and> st_size g = symbol_size s" if "s \<in> set (inorder t)" for s
  proof -
    have "sdata s \<in> set (map gdata gs)" using that assms(3) by (metis image_eqI list.set_map mset_eq_setD)
    then show ?thesis by (auto simp: sdata_def gdata_def)
  qed
  have so: "sorted_wrt (\<lambda>x y. symbol_start x \<le> symbol_start y) (inorder t)"
    using assms(2) by (simp add: indexed_def sorted_wrt_map)
  have "sorted_wrt (\<lambda>x y. symbol_start x \<le> symbol_start y \<and>
      (symbol_start x + symbol_size x \<le> symbol_start y \<or>
       symbol_start x = symbol_start y \<and> symbol_start x + symbol_size x = symbol_start y + symbol_size y)) (inorder t)"
  proof (rule sorted_wrt_mono_rel[OF _ so])
    fix x y assume xy: "x \<in> set (inorder t)" "y \<in> set (inorder t)" "symbol_start x \<le> symbol_start y"
    from ex[OF xy(1)] ex[OF xy(2)] obtain gx gy where g: "gx \<in> set gs" "gy \<in> set gs"
      "st_value gx = symbol_start x" "st_size gx = symbol_size x" "st_value gy = symbol_start y" "st_size gy = symbol_size y"
      by blast
    with assms(1) have "symbol_start y < symbol_start y + symbol_size y"
      "symbol_start x + symbol_size x \<le> symbol_start y \<or> symbol_start y + symbol_size y \<le> symbol_start x \<or>
        symbol_start x = symbol_start y \<and> symbol_size x = symbol_size y"
      unfolding clean_ranges_def by metis+
    with xy(3) show "symbol_start x \<le> symbol_start y \<and>
      (symbol_start x + symbol_size x \<le> symbol_start y \<or>
       symbol_start x = symbol_start y \<and> symbol_start x + symbol_size x = symbol_start y + symbol_size y)"
      by force
  qed
  then show ?thesis by (simp add: layered_def)
qed

section \<open>The cache as a map\<close>

interpretation ec: chained_table hash_str elf_key HASHTABLE_SIZE
  by unfold_locales (rule hash_str_bound)

abbreviation cache_ok :: "elf_cache \<Rightarrow> bool" where
  "cache_ok table \<equiv> ht_ok hash_str elf_key HASHTABLE_SIZE table"

definition elf_blocks :: "elf_file \<Rightarrow> block list" where
  "elf_blocks e = fst (build_id e) # str_blocks (file_path e) @ coll_blocks (symbol_tree (symbols e)) @
     [coll_block (symbols e), enode_block e]"

abbreviation cache_blocks :: "elf_cache \<Rightarrow> block list" where
  "cache_blocks table \<equiv> concat (map elf_blocks (entries table))"

lemma free_elf_ok:
  assumes "owns base h (elf_blocks e @ bs)"
  shows "\<exists>h' h''. free_elf_resources h e = Some h' \<and> free_block h' (enode_block e) = Some h'' \<and>
    owns base h'' bs \<and> oom h'' = oom h"
proof -
  let ?p = "str_blocks (file_path e)" and ?c = "coll_blocks (symbol_tree (symbols e))"
  let ?r = "coll_block (symbols e) # enode_block e # bs"
  have "owns base h (fst (build_id e) # ?p @ ?c @ ?r)" using assms by (simp add: elf_blocks_def)
  from owns_free_hd[OF this] obtain h1 where h1: "free_block h (fst (build_id e)) = Some h1"
      "owns base h1 (?p @ ?c @ ?r)" by blast
  from owns_free_str[OF h1(2)] obtain h2 where h2: "free_str h1 (file_path e) = Some h2"
      "owns base h2 (?c @ ?r)" "oom h2 = oom h1" by blast
  from owns_free_list[OF h2(2)] obtain h3 where h3: "free_list h2 ?c = Some h3" "owns base h3 ?r" by blast
  from owns_free_hd[OF h3(2)] obtain h4 where h4: "free_block h3 (coll_block (symbols e)) = Some h4"
      "owns base h4 (enode_block e # bs)" by blast
  from owns_free_hd[OF h4(2)] obtain h5 where h5: "free_block h4 (enode_block e) = Some h5" "owns base h5 bs" by blast
  have "free_entries sym_blocks h2 (symbol_tree (symbols e)) = Some h3"
    using h3(1) by (simp add: free_entries_list coll_blocks_def)
  then have "free_elf_resources h e = Some h4" using h1(1) h2(1) h4(1) by (simp add: free_elf_resources_def)
  moreover have "oom h5 = oom h"
    using oom_free_block[OF h1(1)] h2(3) oom_free_list[OF h3(1)] oom_free_block[OF h4(1)] oom_free_block[OF h5(1)] by simp
  ultimately show ?thesis using h5 by blast
qed

lemma remove_elf_ok:
  assumes "owns base h (cache_blocks table @ bs)" and "cache_ok table"
  shows "\<exists>h'. remove_elf h table b = Some (h', ht_remove hash_str elf_key table b) \<and>
    owns base h' (cache_blocks (ht_remove hash_str elf_key table b) @ bs) \<and> oom h' = oom h"
proof (cases "find_elf_in_table table b")
  case None
  have "unlink P xs = xs" if "find P xs = None" for P :: "elf_file \<Rightarrow> bool" and xs
    using that by (induction xs) (auto split: if_splits)
  then have "ht_remove hash_str elf_key table b = table"
    using None by (simp add: find_elf_in_table_def ht_find_def ht_remove_def)
  with None assms(1) show ?thesis by (simp add: remove_elf_def)
next
  case (Some e)
  let ?t = "ht_remove hash_str elf_key table b"
  have "mset (entries table) = add_mset e (mset (entries ?t))"
    using ec.remove_ok(3)[OF assms(2), of b e] Some by (simp add: find_elf_in_table_def)
  then have "mset (cache_blocks table) = mset (elf_blocks e @ cache_blocks ?t)" by (rule blocks_add)
  then have "owns base h (elf_blocks e @ (cache_blocks ?t @ bs))" by (intro owns_perm[OF assms(1)]) simp
  from free_elf_ok[OF this] Some show ?thesis by (auto simp: remove_elf_def)
qed

lemma cache_blocks_update:
  assumes "cache_ok table" and "find_elf_in_table table (elf_key e) = Some e0" and "elf_blocks e = elf_blocks e0"
  shows "cache_blocks (ht_update hash_str elf_key table e) = cache_blocks table"
proof -
  let ?i = "hash_str (elf_key e)"
  let ?c = "map (\<lambda>x. if elf_key x = elf_key e then e else x) (table ! ?i)"
  have b: "distinct (map elf_key (table ! ?i))" "?i < length table"
    using ec.bucket_ok[OF assms(1), of "elf_key e"] by auto
  have "elf_blocks (if elf_key x = elf_key e then e else x) = elf_blocks x" if "x \<in> set (table ! ?i)" for x
    using that assms(2,3) find_key[OF b(1), of "elf_key e" x] find_key[OF b(1), of "elf_key e" e0]
    by (auto simp: find_elf_in_table_def ht_find_def)
  then have c: "map elf_blocks ?c = map elf_blocks (table ! ?i)" by simp
  have cb: "cache_blocks tbl = concat (map (\<lambda>es. concat (map elf_blocks es)) tbl)" for tbl :: elf_cache
    by (induction tbl) auto
  have "map (\<lambda>es. concat (map elf_blocks es)) (table[?i := ?c]) = map (\<lambda>es. concat (map elf_blocks es)) table"
    unfolding map_update c using b(2) by (metis (no_types, lifting) list_update_id nth_map)
  then show ?thesis unfolding ht_update_def cb by simp
qed

text \<open>
  The balance of references: \<open>held\<close> lists the objects acquired and not yet released. An object
  is in the cache exactly when it is held, and its count is the number of holders.
\<close>

definition refs_ok :: "elf_cache \<Rightarrow> string list \<Rightarrow> bool" where
  "refs_ok table held \<longleftrightarrow> (\<forall>b. case find_elf_in_table table b of
     None \<Rightarrow> b \<notin> set held
   | Some e \<Rightarrow> reference_count e = int (count (mset held) b) \<and> b \<in> set held)"

lemma find_elf_key: "cache_ok table \<Longrightarrow> find_elf_in_table table b = Some e \<Longrightarrow> elf_key e = b"
  using ec.find_entries[of table b e] by (simp add: find_elf_in_table_def)

lemma refs_ok_upd:
  assumes "refs_ok table held" and "find_elf_in_table table' = (find_elf_in_table table)(b \<mapsto> e)"
    and "\<forall>b'. b' \<noteq> b \<longrightarrow> count (mset held') b' = count (mset held) b'"
    and "reference_count e = int (count (mset held') b)" and "b \<in> set held'"
  shows "refs_ok table' held'"
proof -
  have mem: "b' \<in> set held' \<longleftrightarrow> b' \<in> set held" if "b' \<noteq> b" for b'
    using assms(3) that by (metis count_mset_0_iff)
  show ?thesis
    unfolding refs_ok_def
  proof
    fix b'
    show "case find_elf_in_table table' b' of None \<Rightarrow> b' \<notin> set held'
      | Some e \<Rightarrow> reference_count e = int (count (mset held') b') \<and> b' \<in> set held'"
    proof (cases "b' = b")
      case True
      with assms(2,4,5) show ?thesis by simp
    next
      case False
      with assms(1)[unfolded refs_ok_def, rule_format, of b'] mem[of b'] assms(2,3) show ?thesis
        by (cases "find_elf_in_table table b'") simp_all
    qed
  qed
qed

end
