(* ===== verification/Elf_Lifecycle.thy ===== *)
theory Elf_Lifecycle
  imports Elf
begin

text \<open>
  The life of the objects of the ELF cache (src/elf/elf.c): acquiring with
  \<open>find_or_create_elf\<close>, releasing with \<open>release_elf_by_ptr\<close> and clearing the cache, over any
  sequence of operations; the symbols found through an acquired object.
\<close>

section \<open>Acquiring and releasing\<close>

definition sane_elf :: "elf_handle \<Rightarrow> bool" where
  "sane_elf e \<longleftrightarrow> (\<forall>s\<in>set (sections e). sane_section s)"

text \<open>What is known of a collection built from a file, with the allocation failures \<open>om\<close>.\<close>

definition built_from :: "(block \<Rightarrow> bool) \<Rightarrow> elf_handle \<Rightarrow> elf_symbol_collection \<Rightarrow> bool" where
  "built_from om e c \<longleftrightarrow> indexed symbol_start (symbol_tree c) \<and>
     total_symbols c = length (inorder (symbol_tree c)) \<and> 0 < total_symbols c \<and>
     ((\<forall>b. \<not> om b) \<longrightarrow> mset (map sdata (inorder (symbol_tree c))) = mset (map gdata (elf_functions e)))"

text \<open>
  The invariant of the cache: it owns its memory, is a well-formed table with balanced
  references, and every object has a collection that is right (\<open>P\<close>) for its build id.
\<close>

definition elf_inv :: "(string \<Rightarrow> elf_symbol_collection \<Rightarrow> bool) \<Rightarrow> (block \<Rightarrow> bool) \<Rightarrow> (block \<Rightarrow> nat option) \<Rightarrow>
    block list \<Rightarrow> c_heap \<Rightarrow> elf_cache \<Rightarrow> string list \<Rightarrow> bool" where
  "elf_inv P om base bs h table held \<longleftrightarrow>
     owns base h (cache_blocks table @ bs) \<and> oom h = om \<and> cache_ok table \<and> refs_ok table held \<and>
     (\<forall>b e. find_elf_in_table table b = Some e \<longrightarrow> P b (symbols e))"

lemma get_build_id_ok:
  assumes "owns base h bs" and "sane_elf e"
  shows "\<exists>h' p. get_elf_build_id_from_elf h getnote e = Some (h', p) \<and> owns base h' (str_blocks p @ bs) \<and>
    oom h' = oom h \<and> (\<forall>bb b. p = Some (bb, b) \<longrightarrow> build_id_sections getnote (sections e) = Some (Some b))"
proof (cases "shstrndx_ok e")
  case False
  with assms show ?thesis by (simp add: get_elf_build_id_from_elf_def str_blocks_def)
next
  case True
  obtain r where r: "build_id_sections getnote (sections e) = Some r"
    using build_id_sections_bounds[of "sections e" getnote] assms(2) by (auto simp: sane_elf_def sane_section_def)
  show ?thesis
  proof (cases r)
    case None
    with True r assms show ?thesis by (simp add: get_elf_build_id_from_elf_def str_blocks_def)
  next
    case (Some s)
    obtain h' p where "strdup h s = (h', p)" by (cases "strdup h s")
    with owns_strdup[OF assms(1) this] True r Some show ?thesis by (simp add: get_elf_build_id_from_elf_def)
  qed
qed

text \<open>A file found in the cache: one more reference.\<close>

lemma acquire_hit:
  assumes own: "owns base h (bb # cache_blocks table @ bs)"
    and inv: "oom h = om" "cache_ok table" "refs_ok table held"
      "\<forall>b e. find_elf_in_table table b = Some e \<longrightarrow> P b (symbols e)"
    and hit: "find_elf_in_table table b = Some obj"
  shows "\<exists>h'. free_block h bb = Some h' \<and>
    elf_inv P om base bs h' (ht_update hash_str elf_key table (obj\<lparr>reference_count := reference_count obj + 1\<rparr>)) (b # held)"
proof -
  let ?e = "obj\<lparr>reference_count := reference_count obj + 1\<rparr>"
  have k: "elf_key obj = b" using find_elf_key[OF inv(2) hit] .
  then have ke: "elf_key ?e = b" by (simp add: elf_key_def)
  have f: "find_elf_in_table table (elf_key ?e) = Some obj" using hit ke by simp
  have "elf_blocks ?e = elf_blocks obj" by (simp add: elf_blocks_def)
  from cache_blocks_update[OF inv(2) f this] have cb: "cache_blocks (ht_update hash_str elf_key table ?e) = cache_blocks table" .
  have nn: "ht_find hash_str elf_key table (elf_key ?e) \<noteq> None" using f by (simp add: find_elf_in_table_def)
  note up = ec.update_ok[OF inv(2) nn]
  have ff: "find_elf_in_table (ht_update hash_str elf_key table ?e) = (find_elf_in_table table)(b \<mapsto> ?e)"
    using up(2) ke by (auto simp: find_elf_in_table_def fun_eq_iff)
  have "reference_count obj = int (count (mset held) b) \<and> b \<in> set held"
    using inv(3)[unfolded refs_ok_def, rule_format, of b] hit by simp
  then have "refs_ok (ht_update hash_str elf_key table ?e) (b # held)"
    by (intro refs_ok_upd[OF inv(3) ff]) auto
  moreover obtain h' where h': "free_block h bb = Some h'" "owns base h' (cache_blocks table @ bs)"
    using owns_free_hd[OF own] by blast
  moreover have "P b (symbols ?e)" using inv(4) hit by simp
  ultimately show ?thesis using up(1) cb ff inv(1,4) oom_free_block[OF h'(1)] by (simp add: elf_inv_def)
qed

text \<open>A file that is not in the cache: its object is built and entered with one reference.\<close>

lemma acquire_new:
  assumes own: "owns base h (elf_blocks e @ cache_blocks table @ bs)"
    and inv: "oom h = om" "cache_ok table" "refs_ok table held"
      "\<forall>b e. find_elf_in_table table b = Some e \<longrightarrow> P b (symbols e)"
    and miss: "find_elf_in_table table (elf_key e) = None" and one: "reference_count e = 1"
    and new: "P (elf_key e) (symbols e)"
  shows "elf_inv P om base bs h (insert_elf_into_table table e) (elf_key e # held)"
proof -
  have nn: "ht_find hash_str elf_key table (elf_key e) = None" using miss by (simp add: find_elf_in_table_def)
  note ins = ec.insert_ok[OF inv(2) nn]
  have "mset (cache_blocks (ht_insert hash_str elf_key table e)) = mset (elf_blocks e @ cache_blocks table)"
    by (rule blocks_add[OF ins(3)])
  then have "owns base h (cache_blocks (insert_elf_into_table table e) @ bs)"
    unfolding insert_elf_into_table_def by (intro owns_perm[OF own]) simp
  moreover have ff: "find_elf_in_table (insert_elf_into_table table e) = (find_elf_in_table table)(elf_key e \<mapsto> e)"
    using ins(2) by (simp add: find_elf_in_table_def insert_elf_into_table_def fun_eq_iff)
  moreover have "elf_key e \<notin> set held"
    using inv(3)[unfolded refs_ok_def, rule_format, of "elf_key e"] miss by simp
  then have "refs_ok (insert_elf_into_table table e) (elf_key e # held)"
    using one by (intro refs_ok_upd[OF inv(3) ff]) (auto simp: count_mset_0_iff[THEN iffD2])
  ultimately show ?thesis using ins(1) inv new by (simp add: elf_inv_def insert_elf_into_table_def)
qed

lemma create_ok:
  assumes own: "owns base h (bb # cache_blocks table @ bs)"
    and inv: "oom h = om" "cache_ok table" "refs_ok table held"
      "\<forall>b e. find_elf_in_table table b = Some e \<longrightarrow> P b (symbols e)"
    and miss: "find_elf_in_table table b = None" and sane: "sane_elf e"
    and right: "\<And>c. built_from om e c \<Longrightarrow> P b c"
  shows "\<exists>h' table' r.
    (case malloc h 128 of
       (h, None) \<Rightarrow> do { h \<leftarrow> free_block h bb; Some (h, table, None) }
     | (h, Some nb) \<Rightarrow>
         (case strdup h fname of
            (h, None) \<Rightarrow> do { h \<leftarrow> free_block h bb; h \<leftarrow> free_block h nb; Some (h, table, None) }
          | (h, Some path) \<Rightarrow>
              do { (h, coll) \<leftarrow> build_symbol_collection h e;
                   case coll of
                     None \<Rightarrow>
                       do { h \<leftarrow> free_str h (Some path); h \<leftarrow> free_block h bb; h \<leftarrow> free_block h nb; Some (h, table, None) }
                   | Some coll \<Rightarrow>
                       Some (h, insert_elf_into_table table
                         \<lparr>file_path = Some path, build_id = (bb, b), reference_count = 1,
                          symbols = coll, enode_block = nb\<rparr>, Some b) })) = Some (h', table', r) \<and>
    elf_inv P om base bs h' table' (case r of None \<Rightarrow> held | Some b \<Rightarrow> b # held)"
    (is "\<exists>h' table' r. ?run = _ \<and> _")
proof -
  let ?ob = "cache_blocks table @ bs"
  have quit: ?thesis if "?run = Some (h', table, None)" "owns base h' ?ob" "oom h' = oom h" for h'
    using that inv by (auto simp: elf_inv_def)
  obtain h1 r1 where h1: "malloc h 128 = (h1, r1)" by (cases "malloc h 128")
  note om1 = oom_malloc[OF h1]
  show ?thesis
  proof (cases r1)
    case None
    from owns_free_hd[OF owns_malloc_None[OF own h1[unfolded None]]] obtain h2 where
      h2: "free_block h1 bb = Some h2" "owns base h2 ?ob" by blast
    with h1 None om1 oom_free_block[OF h2(1)] show ?thesis by (intro quit[of h2]) simp_all
  next
    case nb: (Some nb)
    have o1: "owns base h1 (nb # bb # ?ob)" using owns_malloc[OF own] h1 nb by simp
    obtain h2 p where h2: "strdup h1 fname = (h2, p)" by (cases "strdup h1 fname")
    have o2: "owns base h2 (str_blocks p @ nb # bb # ?ob)" and om2: "oom h2 = oom h1"
      using owns_strdup[OF o1 h2] by simp_all
    have drop2: "\<exists>h4 h5. free_block h3 bb = Some h4 \<and> free_block h4 nb = Some h5 \<and> owns base h5 ?ob \<and> oom h5 = oom h3"
      if "owns base h3 (nb # bb # ?ob)" for h3
    proof -
      have "owns base h3 (bb # nb # ?ob)" using that by (rule owns_perm) simp
      then obtain h4 where h4: "free_block h3 bb = Some h4" "owns base h4 (nb # ?ob)" using owns_free_hd by blast
      with owns_free_hd[of base h4 nb ?ob] oom_free_block[OF h4(1)] oom_free_block[of h4 nb] show ?thesis by auto
    qed
    show ?thesis
    proof (cases p)
      case None
      then have "owns base h2 (nb # bb # ?ob)" using o2 by (simp add: str_blocks_def)
      from drop2[OF this] obtain h4 h5 where "free_block h2 bb = Some h4" "free_block h4 nb = Some h5" "owns base h5 ?ob"
          "oom h5 = oom h2" by blast
      with h1 nb h2 None om1 om2 show ?thesis by (intro quit[of h5]) simp_all
    next
      case path: (Some path)
      from build_symbol_collection_ok[OF o2, of e] sane obtain h3 c where
        h3: "build_symbol_collection h2 e = Some (h3, c)" "oom h3 = oom h2"
        and c: "case c of None \<Rightarrow> owns base h3 (str_blocks p @ nb # bb # ?ob) \<and> ((\<forall>b. \<not> oom h2 b) \<longrightarrow> elf_functions e = [])
          | Some c \<Rightarrow> owns base h3 (coll_blocks (symbol_tree c) @ coll_block c # str_blocks p @ nb # bb # ?ob) \<and>
              indexed symbol_start (symbol_tree c) \<and> total_symbols c = length (inorder (symbol_tree c)) \<and> 0 < total_symbols c \<and>
              ((\<forall>b. \<not> oom h2 b) \<longrightarrow> mset (map sdata (inorder (symbol_tree c))) = mset (map gdata (elf_functions e)))"
        unfolding sane_elf_def by blast
      show ?thesis
      proof (cases c)
        case None
        with c have "owns base h3 (str_blocks (Some path) @ nb # bb # ?ob)" using path by simp
        from owns_free_str[OF this] obtain h4 where h4: "free_str h3 (Some path) = Some h4" "owns base h4 (nb # bb # ?ob)"
            "oom h4 = oom h3" by blast
        from drop2[OF h4(2)] obtain h5 h6 where "free_block h4 bb = Some h5" "free_block h5 nb = Some h6" "owns base h6 ?ob"
            "oom h6 = oom h4" by blast
        with h1 nb h2 path h3 None h4 om1 om2 show ?thesis by (intro quit[of h6]) simp_all
      next
        case (Some coll)
        let ?e = "\<lparr>file_path = Some path, build_id = (bb, b), reference_count = 1, symbols = coll, enode_block = nb\<rparr>"
        have k: "elf_key ?e = b" by (simp add: elf_key_def)
        have om3: "oom h3 = om" using h3(2) om2 om1 inv(1) by simp
        have "owns base h3 (coll_blocks (symbol_tree coll) @ coll_block coll # str_blocks p @ nb # bb # ?ob)"
          using c Some by simp
        then have "owns base h3 (elf_blocks ?e @ ?ob)"
          by (rule owns_perm) (simp add: elf_blocks_def path)
        moreover have "built_from om e coll" using c Some om3 h3(2) by (auto simp: built_from_def)
        ultimately have "elf_inv P om base bs h3 (insert_elf_into_table table ?e) (elf_key ?e # held)"
          using om3 inv(2,3,4) by (intro acquire_new) (simp_all add: k miss right)
        moreover have "?run = Some (h3, insert_elf_into_table table ?e, Some b)"
          using h1 nb h2 path h3 Some by simp
        ultimately show ?thesis using k by auto
      qed
    qed
  qed
qed

text \<open>What the file system has to offer: readable files, each right for its build id.\<close>

definition files_ok :: "(string \<Rightarrow> elf_symbol_collection \<Rightarrow> bool) \<Rightarrow> (block \<Rightarrow> bool) \<Rightarrow>
    (string \<Rightarrow> elf_handle option) \<Rightarrow> note_reader \<Rightarrow> bool" where
  "files_ok P om elf_open getnote \<longleftrightarrow> (\<forall>p e. elf_open p = Some e \<longrightarrow> sane_elf e \<and>
     (\<forall>b c. build_id_sections getnote (sections e) = Some (Some b) \<longrightarrow> built_from om e c \<longrightarrow> P b c))"

lemma find_or_create_ok:
  assumes "elf_inv P om base bs h table held" and "files_ok P om elf_open getnote"
  shows "\<exists>h' table' r. find_or_create_elf h elf_open getnote table pid filename = Some (h', table', r) \<and>
    elf_inv P om base bs h' table' (case r of None \<Rightarrow> held | Some b \<Rightarrow> b # held)"
proof -
  have own: "owns base h (cache_blocks table @ bs)" using assms(1) by (simp add: elf_inv_def)
  have inv: "oom h = om" "cache_ok table" "refs_ok table held"
      "\<forall>b e. find_elf_in_table table b = Some e \<longrightarrow> P b (symbols e)"
    using assms(1) by (simp_all add: elf_inv_def)
  have quit: ?thesis if "find_or_create_elf h elf_open getnote table pid filename = Some (h', table, None)"
      "owns base h' (cache_blocks table @ bs)" "oom h' = oom h" for h'
    using that inv by (auto simp: elf_inv_def)
  show ?thesis
  proof (cases "\<exists>cs. filename = Some (CHR ''/'' # cs)")
    case False
    then have "find_or_create_elf h elf_open getnote table pid filename = Some (h, table, None)"
      by (auto simp: find_or_create_elf_def split: option.splits list.splits)
    with own show ?thesis by (intro quit) simp_all
  next
    case True
    then obtain cs where fn: "filename = Some (CHR ''/'' # cs)" by blast
    let ?open = "case elf_open (host_path pid (CHR ''/'' # cs)) of Some e \<Rightarrow> Some e | None \<Rightarrow> elf_open (CHR ''/'' # cs)"
    show ?thesis
    proof (cases ?open)
      case None
      with fn own show ?thesis by (intro quit[of h]) (simp_all add: find_or_create_elf_def)
    next
      case (Some e)
      then obtain q where "elf_open q = Some e" by (auto split: option.splits)
      then have e: "sane_elf e" "\<And>b c. build_id_sections getnote (sections e) = Some (Some b) \<Longrightarrow> built_from om e c \<Longrightarrow> P b c"
        using assms(2) by (auto simp: files_ok_def)
      from get_build_id_ok[OF own e(1), of getnote] obtain h1 p where
        h1: "get_elf_build_id_from_elf h getnote e = Some (h1, p)" "owns base h1 (str_blocks p @ cache_blocks table @ bs)"
          "oom h1 = oom h" "\<forall>bb b. p = Some (bb, b) \<longrightarrow> build_id_sections getnote (sections e) = Some (Some b)"
        by blast
      show ?thesis
      proof (cases p)
        case None
        with fn Some h1 show ?thesis by (intro quit[of h1]) (simp_all add: find_or_create_elf_def str_blocks_def)
      next
        case pb: (Some x)
        obtain bb b where x: "x = (bb, b)" by (cases x)
        have o1: "owns base h1 (bb # cache_blocks table @ bs)" using h1(2) pb x by (simp add: str_blocks_def)
        have om1: "oom h1 = om" using h1(3) inv(1) by simp
        have bid: "build_id_sections getnote (sections e) = Some (Some b)" using h1(4) pb x by simp
        show ?thesis
        proof (cases "find_elf_in_table table b")
          case None
          from create_ok[OF o1 om1 inv(2-4) None e(1), of "CHR ''/'' # cs"] e(2)[OF bid]
          show ?thesis unfolding find_or_create_elf_def fn by (simp add: Some h1(1) pb x None)
        next
          case hit: (Some obj)
          from acquire_hit[OF o1 om1 inv(2-4) hit] fn Some h1(1) pb x hit show ?thesis
            by (auto simp: find_or_create_elf_def)
        qed
      qed
    qed
  qed
qed

lemma refs_ok_del:
  assumes "refs_ok table held" and "find_elf_in_table table' = (find_elf_in_table table)(b := None)"
    and "\<forall>b'. b' \<noteq> b \<longrightarrow> count (mset held') b' = count (mset held) b'" and "b \<notin> set held'"
  shows "refs_ok table' held'"
  unfolding refs_ok_def
proof
  fix b'
  have "b' \<in> set held' \<longleftrightarrow> b' \<in> set held" if "b' \<noteq> b" using assms(3) that by (metis count_mset_0_iff)
  with assms(1)[unfolded refs_ok_def, rule_format, of b'] assms(2-4)
  show "case find_elf_in_table table' b' of None \<Rightarrow> b' \<notin> set held'
    | Some e \<Rightarrow> reference_count e = int (count (mset held') b') \<and> b' \<in> set held'"
    by (cases "b' = b"; cases "find_elf_in_table table b'") simp_all
qed

lemma release_ok:
  assumes "elf_inv P om base bs h table held" and b: "b \<in> set held"
  shows "\<exists>h' table'. release_elf_by_ptr h table (Some b) = Some (h', table') \<and>
    elf_inv P om base bs h' table' (remove1 b held)"
proof -
  have inv: "owns base h (cache_blocks table @ bs)" "oom h = om" "cache_ok table" "refs_ok table held"
      "\<forall>b e. find_elf_in_table table b = Some e \<longrightarrow> P b (symbols e)"
    using assms(1) by (simp_all add: elf_inv_def)
  from inv(4)[unfolded refs_ok_def, rule_format, of b] b obtain e where
    e: "find_elf_in_table table b = Some e" "reference_count e = int (count (mset held) b)"
    by (cases "find_elf_in_table table b") auto
  let ?e = "e\<lparr>reference_count := reference_count e - 1\<rparr>"
  let ?t = "ht_update hash_str elf_key table ?e"
  have k: "elf_key ?e = b" using find_elf_key[OF inv(3) e(1)] by (simp add: elf_key_def)
  have "elf_blocks ?e = elf_blocks e" by (simp add: elf_blocks_def)
  from cache_blocks_update[OF inv(3) _ this] k e(1) have cb: "cache_blocks ?t = cache_blocks table" by simp
  have "ht_find hash_str elf_key table (elf_key ?e) \<noteq> None" using k e(1) by (simp add: find_elf_in_table_def)
  note up = ec.update_ok[OF inv(3) this]
  have ff: "find_elf_in_table ?t = (find_elf_in_table table)(b \<mapsto> ?e)"
    using up(2) k by (auto simp: find_elf_in_table_def fun_eq_iff)
  have own: "owns base h (cache_blocks ?t @ bs)" using inv(1) cb by simp
  have cnt: "0 < count (mset held) b" using b by (simp add: count_mset_0_iff)
  have oth: "\<forall>b'. b' \<noteq> b \<longrightarrow> count (mset (remove1 b held)) b' = count (mset held) b'" by auto
  show ?thesis
  proof (cases "count (mset held) b = 1")
    case False
    then have "b \<in> set (remove1 b held)" using cnt by (simp flip: count_greater_zero_iff set_mset_mset)
    then have "refs_ok ?t (remove1 b held)"
      using e(2) cnt by (intro refs_ok_upd[OF inv(4) ff oth]) (simp_all add: of_nat_diff)
    moreover have "release_elf_by_ptr h table (Some b) = Some (h, ?t)"
      using False e cnt by (simp add: release_elf_by_ptr_def Let_def)
    ultimately show ?thesis using own inv(2,5) up(1) ff e(1) by (auto simp: elf_inv_def)
  next
    case True
    let ?t2 = "ht_remove hash_str elf_key ?t b"
    from remove_elf_ok[OF own up(1), of b] obtain h' where
      h': "remove_elf h ?t b = Some (h', ?t2)" "owns base h' (cache_blocks ?t2 @ bs)" "oom h' = oom h" by blast
    note rm = ec.remove_ok[OF up(1), of b]
    have f2: "find_elf_in_table ?t2 = (find_elf_in_table table)(b := None)"
      using rm(2) ff by (auto simp: find_elf_in_table_def fun_eq_iff)
    have "b \<notin> set (remove1 b held)" using True by (simp flip: count_mset_0_iff)
    then have "refs_ok ?t2 (remove1 b held)" by (rule refs_ok_del[OF inv(4) f2 oth])
    moreover have "release_elf_by_ptr h table (Some b) = Some (h', ?t2)"
      using True e h'(1) by (simp add: release_elf_by_ptr_def Let_def)
    ultimately show ?thesis using h' inv(2,5) rm(1) f2 by (auto simp: elf_inv_def)
  qed
qed

section \<open>Clearing\<close>

lemma clear_bucket_ok:
  assumes "owns base h (cache_blocks table @ bs)" and "cache_ok table" and "i < HASHTABLE_SIZE"
  shows "\<exists>h'. clear_bucket h table i = Some (h', table[i := []]) \<and>
    owns base h' (cache_blocks (table[i := []]) @ bs) \<and> cache_ok (table[i := []])"
  using assms
proof (induction "table ! i" arbitrary: h table)
  case Nil
  then have "table[i := []] = table" by (metis list_update_id)
  with Nil show ?case by (subst clear_bucket.simps) simp
next
  case (Cons e es)
  have le: "i < length table" and hi: "hash_str (elf_key e) = i"
    using Cons.prems(2,3) Cons.hyps(2)[symmetric] by (auto simp: ht_ok_def)
  have rm: "ht_remove hash_str elf_key table (elf_key e) = table[i := es]"
    using Cons.hyps(2) hi by (simp add: ht_remove_def flip: Cons.hyps(2))
  from remove_elf_ok[OF Cons.prems(1,2), of "elf_key e"] obtain h1 where
    h1: "remove_elf h table (elf_key e) = Some (h1, table[i := es])" "owns base h1 (cache_blocks (table[i := es]) @ bs)"
    unfolding rm by blast
  have "cache_ok (table[i := es])" using ec.remove_ok(1)[OF Cons.prems(2), of "elf_key e"] unfolding rm .
  from Cons.hyps(1)[of "table[i := es]", OF _ h1(2) this Cons.prems(3)] le show ?case
    using h1(1) Cons.hyps(2) by (subst clear_bucket.simps) (simp flip: Cons.hyps(2))
qed

lemma clear_buckets_ok:
  assumes "owns base h (cache_blocks table @ bs)" and "cache_ok table" and "set is \<subseteq> {..<HASHTABLE_SIZE}"
  shows "\<exists>h' table'. clear_buckets h table is = Some (h', table') \<and> owns base h' (cache_blocks table' @ bs) \<and>
    cache_ok table' \<and> (\<forall>j. j \<in> set is \<or> table ! j = [] \<longrightarrow> j < HASHTABLE_SIZE \<longrightarrow> table' ! j = [])"
  using assms
proof (induction "is" arbitrary: h table)
  case (Cons i "is")
  from clear_bucket_ok[OF Cons.prems(1,2), of i] Cons.prems(3) obtain h1 where
    h1: "clear_bucket h table i = Some (h1, table[i := []])" "owns base h1 (cache_blocks (table[i := []]) @ bs)"
      "cache_ok (table[i := []])" by auto
  have "table[i := []] ! j = []" if "j = i \<or> table ! j = []" "j < HASHTABLE_SIZE" for j
    using that Cons.prems(2) by (cases "j = i") (simp_all add: ht_ok_def nth_update_if)
  with Cons.IH[OF h1(2,3)] Cons.prems(3) h1(1) show ?case by fastforce
qed simp

lemma clear_elf_cache_ok:
  assumes "owns base h (cache_blocks table @ bs)" and "cache_ok table"
  shows "\<exists>h'. clear_elf_cache h (Some table) = Some (h', Some (replicate HASHTABLE_SIZE [])) \<and> owns base h' bs"
proof -
  from clear_buckets_ok[OF assms, of "[0..<HASHTABLE_SIZE]"] obtain h' table' where
    c: "clear_buckets h table [0..<HASHTABLE_SIZE] = Some (h', table')" "owns base h' (cache_blocks table' @ bs)"
      "cache_ok table'" "\<forall>j<HASHTABLE_SIZE. table' ! j = []" by (auto simp: lessThan_atLeast0)
  have "table' = replicate HASHTABLE_SIZE []"
    using c(3,4) by (intro nth_equalityI) (simp_all add: ht_ok_def)
  with c(1,2) show ?thesis by (simp add: clear_elf_cache_def)
qed

section \<open>Sequences of operations\<close>

text \<open>
  The callers keep the objects they acquired (\<open>held\<close>, the newest first) and release one of
  them by its position.
\<close>

datatype elf_op = Acquire "32 word" "string option" | Release nat

type_synonym elf_state = "c_heap \<times> elf_cache \<times> string list"

definition elf_step :: "(string \<Rightarrow> elf_handle option) \<Rightarrow> note_reader \<Rightarrow> elf_op \<Rightarrow> elf_state \<Rightarrow> elf_state option" where
  "elf_step elf_open getnote op st = (case st of (h, table, held) \<Rightarrow>
     (case op of
        Acquire pid filename \<Rightarrow>
          do { (h, table, r) \<leftarrow> find_or_create_elf h elf_open getnote table pid filename;
               Some (h, table, case r of None \<Rightarrow> held | Some b \<Rightarrow> b # held) }
      | Release k \<Rightarrow>
          if k < length held
          then do { (h, table) \<leftarrow> release_elf_by_ptr h table (Some (held ! k)); Some (h, table, remove1 (held ! k) held) }
          else Some st))"

fun elf_run :: "(string \<Rightarrow> elf_handle option) \<Rightarrow> note_reader \<Rightarrow> elf_op list \<Rightarrow> elf_state \<Rightarrow> elf_state option" where
  "elf_run elf_open getnote [] st = Some st"
| "elf_run elf_open getnote (op # ops) st = do { st \<leftarrow> elf_step elf_open getnote op st; elf_run elf_open getnote ops st }"

abbreviation empty_cache :: elf_cache where
  "empty_cache \<equiv> replicate HASHTABLE_SIZE []"

lemma elf_step_ok:
  assumes "files_ok P om elf_open getnote" and "elf_inv P om base bs h table held"
  shows "\<exists>h' table' held'. elf_step elf_open getnote op (h, table, held) = Some (h', table', held') \<and>
    elf_inv P om base bs h' table' held'"
proof (cases op)
  case (Acquire pid filename)
  from find_or_create_ok[OF assms(2,1), of pid filename] Acquire show ?thesis by (auto simp: elf_step_def)
next
  case (Release k)
  with release_ok[OF assms(2) nth_mem[of k held]] assms(2) show ?thesis
    by (cases "k < length held") (auto simp: elf_step_def)
qed

lemma elf_run_ok:
  assumes "files_ok P om elf_open getnote" and "elf_inv P om base bs h table held"
  shows "\<exists>h' table' held'. elf_run elf_open getnote ops (h, table, held) = Some (h', table', held') \<and>
    elf_inv P om base bs h' table' held'"
  using assms(2)
proof (induction ops arbitrary: h table held)
  case (Cons op ops)
  from elf_step_ok[OF assms(1) Cons.prems, of op] Cons.IH show ?case by fastforce
qed simp

lemma elf_inv_empty: "heap_ok h \<Longrightarrow> elf_inv P (oom h) (live h) [] h empty_cache []"
  using ec.ok_empty owns_start[of h]
  by (simp add: elf_inv_def refs_ok_def find_elf_in_table_def ht_find_def hash_str_bound)

lemma files_ok_any: "(\<And>p e. elf_open p = Some e \<Longrightarrow> sane_elf e) \<Longrightarrow> files_ok (\<lambda>_ _. True) om elf_open getnote"
  by (simp add: files_ok_def)

section \<open>Properties of the cache\<close>


text \<open>The functions that cover an address.\<close>

definition covering :: "gelf_sym list \<Rightarrow> u64 \<Rightarrow> gelf_sym list" where
  "covering gs a = filter (\<lambda>g. st_value g \<le> a \<and> a < st_value g + st_size g) gs"

definition complete_for :: "(string \<Rightarrow> gelf_sym list) \<Rightarrow> string \<Rightarrow> elf_symbol_collection \<Rightarrow> bool" where
  "complete_for content b c \<longleftrightarrow> indexed symbol_start (symbol_tree c) \<and> 0 < total_symbols c \<and>
     mset (map sdata (inorder (symbol_tree c))) = mset (map gdata (content b))"

lemma find_symbol_name_ok:
  assumes "complete_for content b (symbols obj)" and clean: "clean_ranges (content b)"
  shows "if covering (content b) a = [] then find_symbol_name_from_elf (Some obj) a = Some ''unknown_function''
    else (\<exists>g\<in>set (covering (content b) a). find_symbol_name_from_elf (Some obj) a = st_name g)"
proof -
  let ?t = "symbol_tree (symbols obj)"
  have m: "indexed symbol_start ?t" "total_symbols (symbols obj) \<noteq> 0"
      "mset (map sdata (inorder ?t)) = mset (map gdata (content b))"
    using assms(1) by (auto simp: complete_for_def)
  have im: "sdata ` set (inorder ?t) = gdata ` set (content b)" using m(3) by (metis list.set_map mset_eq_setD)
  note la = clean_layered[OF clean m(1,3)]
  show ?thesis
  proof (cases "rb_search_symbol ?t a")
    case None
    have "covering (content b) a = []"
    proof (rule ccontr)
      assume "covering (content b) a \<noteq> []"
      then obtain g where "g \<in> set (covering (content b) a)" by (cases "covering (content b) a") auto
      then have g: "g \<in> set (content b)" "st_value g \<le> a" "a < st_value g + st_size g" by (auto simp: covering_def)
      then have "gdata g \<in> sdata ` set (inorder ?t)" using im by simp
      then obtain s where "s \<in> set (inorder ?t)" "sdata s = gdata g" by force
      with g ei.search_layered[OF la, of s a] None show False
        by (auto simp: sdata_def gdata_def rb_search_symbol_def)
    qed
    with None m(2) show ?thesis by (simp add: find_symbol_name_from_elf_def)
  next
    case (Some s)
    then have s: "s \<in> set (inorder ?t)" "symbol_start s \<le> a" "a < symbol_start s + symbol_size s"
      using ei.search_sound[of a ?t s] by (auto simp: rb_search_symbol_def)
    then have "sdata s \<in> gdata ` set (content b)" using im by blast
    then obtain g where "g \<in> set (content b)" "sdata s = gdata g" by blast
    with s have "g \<in> set (covering (content b) a)" "map_option snd (symbol_name s) = st_name g"
      by (auto simp: covering_def sdata_def gdata_def)
    moreover from this(1) have "covering (content b) a \<noteq> []" by auto
    ultimately show ?thesis using Some m(2) by (auto simp: find_symbol_name_from_elf_def)
  qed
qed


text \<open>An id that consists of bytes of one of the note sections.\<close>

definition id_from :: "elf_section list \<Rightarrow> string \<Rightarrow> bool" where
  "id_from ss b \<longleftrightarrow> (\<exists>s buf start n. s \<in> set ss \<and> is_build_id_section s \<and> sec_data s = Some buf \<and>
     0 < n \<and> start + n \<le> length buf \<and> b = hex_string (take n (drop start buf)))"

lemma build_id_sections_ok:
  assumes "\<forall>s\<in>set ss. \<forall>buf. sec_data s = Some buf \<longrightarrow> length buf < 2 ^ 31"
  shows "\<exists>r. build_id_sections getnote ss = Some r \<and> (\<forall>b. r = Some b \<longrightarrow> id_from ss b)"
  using assms
proof (induction ss)
  case (Cons s ss)
  have up: "id_from ss b \<Longrightarrow> id_from (s # ss) b" for b unfolding id_from_def by fastforce
  from Cons have IH: "\<exists>r. build_id_sections getnote ss = Some r \<and> (\<forall>b. r = Some b \<longrightarrow> id_from (s # ss) b)" using up by auto
  show ?case
  proof (cases "is_build_id_section s \<and> sec_data s \<noteq> None")
    case False
    then have "build_id_sections getnote (s # ss) = build_id_sections getnote ss" by auto
    with IH show ?thesis by simp
  next
    case True
    then obtain buf where buf: "is_build_id_section s" "sec_data s = Some buf" by auto
    with Cons.prems note_loop_bounds[of buf getnote 0] obtain r where
      r: "note_loop getnote buf 0 = Some r" "\<forall>b. r = Some b \<longrightarrow>
        (\<exists>start n. 0 < n \<and> start + n \<le> length buf \<and> b = hex_string (take n (drop start buf)))" by auto
    have "\<forall>b. r = Some b \<longrightarrow> id_from (s # ss) b" using r(2) buf unfolding id_from_def by (metis list.set_intros(1))
    with r(1) buf IH show ?thesis by (cases r) auto
  qed
qed simp

text \<open>
  C29. The build id is read within its section: for sections below 2 GiB the parser returns
  whatever \<open>gelf_getnote\<close> reports, and an id it returns is the hexadecimal form of a
  non-empty range of bytes inside a build id note section.
\<close>

theorem build_id_in_bounds:
  assumes "\<And>s buf. s \<in> set (sections e) \<Longrightarrow> sec_data s = Some buf \<Longrightarrow> length buf < 2 ^ 31"
  shows "\<exists>h' p. get_elf_build_id_from_elf h getnote e = Some (h', p) \<and>
    (\<forall>bb b. p = Some (bb, b) \<longrightarrow>
       (\<exists>s buf start n. s \<in> set (sections e) \<and> is_build_id_section s \<and> sec_data s = Some buf \<and>
          0 < n \<and> start + n \<le> length buf \<and> b = hex_string (take n (drop start buf))))"
proof -
  from build_id_sections_ok[of "sections e" getnote] assms obtain r where
    r: "build_id_sections getnote (sections e) = Some r" "\<forall>b. r = Some b \<longrightarrow> id_from (sections e) b" by auto
  show ?thesis
  proof (cases "shstrndx_ok e \<and> r \<noteq> None")
    case False
    with r(1) show ?thesis by (auto simp: get_elf_build_id_from_elf_def)
  next
    case True
    then obtain b where b: "r = Some b" by auto
    obtain h' p where d: "strdup h b = (h', p)" by (cases "strdup h b")
    then have "p = Some (bb, b') \<Longrightarrow> b' = b" for bb b'
      by (auto simp: strdup_def split: prod.splits option.splits)
    moreover have "get_elf_build_id_from_elf h getnote e = Some (h', p)"
      using True b r(1) d by (simp add: get_elf_build_id_from_elf_def)
    ultimately show ?thesis using r(2) b unfolding id_from_def by blast
  qed
qed

section \<open>Examples\<close>

definition example_sym :: gelf_sym where
  "example_sym = \<lparr>st_name = Some ''main'', st_info = 0x12, st_value = 0x1000, st_size = 64\<rparr>"

definition example_elf :: elf_handle where
  "example_elf = \<lparr>shstrndx_ok = True, sections =
     [\<lparr>sec_name = Some ''.note.gnu.build-id'', sh_type = SHT_NOTE, sh_size = 20, sh_entsize = 0,
       sec_data = Some (replicate 18 0 @ [0xAB, 0xCD]), sec_sym = (\<lambda>_. example_sym)\<rparr>,
      \<lparr>sec_name = Some ''.symtab'', sh_type = SHT_SYMTAB, sh_size = 24, sh_entsize = 24,
       sec_data = Some [], sec_sym = (\<lambda>_. example_sym)\<rparr>]\<rparr>"

definition example_open :: "string \<Rightarrow> elf_handle option" where
  "example_open p = (if p = ''/a'' then Some example_elf else None)"

definition example_note :: note_reader where
  "example_note buf off = Some \<lparr>n_namesz = 4, n_descsz = 4, n_type = NT_GNU_BUILD_ID\<rparr>"

lemma example_symbols:
  "section_symbols (sections example_elf ! 1) = Some [example_sym]" "elf_functions example_elf = [example_sym]"
  by (simp_all add: section_symbols_def example_elf_def elf_functions_def symbol_section_def is_function_def
    example_sym_def upt_rec)

lemma example_sane: "example_open p = Some e \<Longrightarrow> sane_elf e"
proof -
  have s: "sane_section (sections example_elf ! 0)" "sane_section (sections example_elf ! 1)"
    using example_symbols(1) by (simp_all add: sane_section_def symbol_section_def example_elf_def example_sym_def)
  have "sections example_elf = [sections example_elf ! 0, sections example_elf ! 1]"
    by (simp add: example_elf_def)
  with s have "sane_elf example_elf" unfolding sane_elf_def by (metis empty_iff insert_iff list.set)
  then show "example_open p = Some e \<Longrightarrow> sane_elf e" by (simp add: example_open_def split: if_splits)
qed



theorem build_id_in_bounds_witness:
  "\<exists>h' p. get_elf_build_id_from_elf empty_heap example_note example_elf = Some (h', p) \<and>
    (\<forall>bb b. p = Some (bb, b) \<longrightarrow>
       (\<exists>s buf start n. s \<in> set (sections example_elf) \<and> is_build_id_section s \<and> sec_data s = Some buf \<and>
          0 < n \<and> start + n \<le> length buf \<and> b = hex_string (take n (drop start buf))))"
  by (rule build_id_in_bounds) (auto simp: example_elf_def)

text \<open>
  Symbols that overlap: with an outer function and two functions inside its range, the
  search for an address that only the outer one covers goes past it and reports
  \<open>unknown_function\<close>.
\<close>

theorem nested_symbol_missed:
  "let outer = example_sym\<lparr>st_name := Some ''outer'', st_size := 0x100\<rparr>;
       in1 = example_sym\<lparr>st_name := Some ''in1'', st_value := 0x1010, st_size := 16\<rparr>;
       in2 = example_sym\<lparr>st_name := Some ''in2'', st_value := 0x1020, st_size := 16\<rparr>
   in (case process_symbols (empty_heap, Leaf, 0) [outer, in1, in2] of
         None \<Rightarrow> False
       | Some (h, t, n) \<Rightarrow>
           rb_search_symbol t 0x1050 = None \<and> map st_name (covering [outer, in1, in2] 0x1050) = [Some ''outer''])"
  by code_simp

end
