(* ===== verification/Elf_Descriptors.thy ===== *)
theory Elf_Descriptors
  imports Elf_Lifecycle
begin

text \<open>
  The descriptors and libelf sessions behind an ELF file (src/elf/elf.c, elf_parser_init and
  elf_parser_cleanup). \<open>Elf\<close> takes the opened file as a parameter; here \<open>find_or_create_elf\<close> is written out
  with the calls that open and close it, and shown to give the same result and to leave nothing
  open on any of its paths.
\<close>

section \<open>Model\<close>

text \<open>What is open. A close of something that is not open is a fault here.\<close>

record elf_os =
  open_fds :: "int set"
  elf_sessions :: nat

text \<open>The answers of \<open>open\<close>, which depend on what is open, and of \<open>elf_begin\<close> for the file.\<close>

record elf_calls =
  sys_open :: "int set \<Rightarrow> string \<Rightarrow> int"
  elf_begin :: "string \<Rightarrow> elf_handle option"

definition close_fd :: "elf_os \<Rightarrow> int \<Rightarrow> elf_os option" where
  "close_fd os fd = (if fd \<in> open_fds os then Some (os\<lparr>open_fds := open_fds os - {fd}\<rparr>) else None)"

definition elf_parser_init :: "elf_calls \<Rightarrow> elf_os \<Rightarrow> string \<Rightarrow> (elf_os \<times> elf_handle option \<times> int) option" where
  "elf_parser_init calls os filename =
     (let fd = sys_open calls (open_fds os) filename in
      if fd < 0 then Some (os, None, fd)
      else (let os = os\<lparr>open_fds := insert fd (open_fds os)\<rparr> in
        case elf_begin calls filename of
          None \<Rightarrow> do { os \<leftarrow> close_fd os fd; Some (os, None, - 1) }
        | Some e \<Rightarrow> Some (os\<lparr>elf_sessions := elf_sessions os + 1\<rparr>, Some e, fd)))"

definition elf_parser_cleanup :: "elf_os \<Rightarrow> elf_handle option \<Rightarrow> int \<Rightarrow> elf_os option" where
  "elf_parser_cleanup os e fd =
     do { os \<leftarrow> (case e of
            None \<Rightarrow> Some os
          | Some _ \<Rightarrow> if elf_sessions os = 0 then None else Some (os\<lparr>elf_sessions := elf_sessions os - 1\<rparr>));
          if fd \<ge> 0 then close_fd os fd else Some os }"

text \<open>\<open>find_or_create_elf\<close> between opening and closing.\<close>

definition load_elf :: "c_heap \<Rightarrow> elf_calls \<Rightarrow> note_reader \<Rightarrow> elf_cache \<Rightarrow> string \<Rightarrow> elf_handle \<Rightarrow> int \<Rightarrow> elf_os \<Rightarrow>
    (elf_os \<times> c_heap \<times> elf_cache \<times> string option) option" where
  "load_elf h calls getnote table filename e fd os =
     do { (h, bid) \<leftarrow> get_elf_build_id_from_elf h getnote e;
          case bid of
            None \<Rightarrow> do { os \<leftarrow> elf_parser_cleanup os (Some e) fd; Some (os, h, table, None) }
          | Some (bb, b) \<Rightarrow>
              (case find_elf_in_table table b of
                 Some obj \<Rightarrow>
                   do { h \<leftarrow> free_block h bb; os \<leftarrow> elf_parser_cleanup os (Some e) fd;
                        Some (os, h, ht_update hash_str elf_key table (obj\<lparr>reference_count := reference_count obj + 1\<rparr>), Some b) }
               | None \<Rightarrow>
                   (case malloc h 128 of
                      (h, None) \<Rightarrow> do { h \<leftarrow> free_block h bb; os \<leftarrow> elf_parser_cleanup os (Some e) fd; Some (os, h, table, None) }
                    | (h, Some nb) \<Rightarrow>
                        (case strdup h filename of
                           (h, None) \<Rightarrow>
                             do { h \<leftarrow> free_block h bb; h \<leftarrow> free_block h nb; os \<leftarrow> elf_parser_cleanup os (Some e) fd;
                                  Some (os, h, table, None) }
                         | (h, Some path) \<Rightarrow>
                             do { (h, coll) \<leftarrow> build_symbol_collection h e;
                                  case coll of
                                    None \<Rightarrow>
                                      do { h \<leftarrow> free_str h (Some path); h \<leftarrow> free_block h bb; h \<leftarrow> free_block h nb;
                                           os \<leftarrow> elf_parser_cleanup os (Some e) fd; Some (os, h, table, None) }
                                  | Some coll \<Rightarrow>
                                      do { os \<leftarrow> elf_parser_cleanup os (Some e) fd;
                                           Some (os, h, insert_elf_into_table table
                                             \<lparr>file_path = Some path, build_id = (bb, b), reference_count = 1,
                                              symbols = coll, enode_block = nb\<rparr>, Some b) } }))) }"

definition find_or_create_elf_os :: "c_heap \<Rightarrow> elf_calls \<Rightarrow> note_reader \<Rightarrow> elf_cache \<Rightarrow> 32 word \<Rightarrow> string option \<Rightarrow> elf_os \<Rightarrow>
    (elf_os \<times> c_heap \<times> elf_cache \<times> string option) option" where
  "find_or_create_elf_os h calls getnote table pid filename os =
     (case filename of
        Some (c # cs) \<Rightarrow>
          if c \<noteq> CHR ''/'' then Some (os, h, table, None)
          else
            do { (os, e, fd) \<leftarrow> elf_parser_init calls os (host_path pid (c # cs));
                 case e of
                   Some e \<Rightarrow> load_elf h calls getnote table (c # cs) e fd os
                 | None \<Rightarrow>
                     do { (os, e, fd) \<leftarrow> elf_parser_init calls os (c # cs);
                          case e of
                            Some e \<Rightarrow> load_elf h calls getnote table (c # cs) e fd os
                          | None \<Rightarrow> Some (os, h, table, None) } }
      | _ \<Rightarrow> Some (os, h, table, None))"

section \<open>Nothing stays open\<close>

text \<open>\<open>open\<close> answers with an error or with a descriptor that is not in use.\<close>

definition fresh_fds :: "elf_calls \<Rightarrow> bool" where
  "fresh_fds calls \<longleftrightarrow> (\<forall>F f. sys_open calls F f < 0 \<or> sys_open calls F f \<notin> F)"

text \<open>What the calls amount to for a caller that sees only the file.\<close>

definition opened :: "elf_calls \<Rightarrow> elf_os \<Rightarrow> string \<Rightarrow> elf_handle option" where
  "opened calls os f = (if sys_open calls (open_fds os) f < 0 then None else elf_begin calls f)"

lemma parser_init_ok:
  assumes "fresh_fds calls"
  shows "\<exists>os' fd. elf_parser_init calls os f = Some (os', opened calls os f, fd) \<and>
    (case opened calls os f of None \<Rightarrow> os' = os | Some e \<Rightarrow> elf_parser_cleanup os' (Some e) fd = Some os)"
proof -
  have "sys_open calls (open_fds os) f < 0 \<or> sys_open calls (open_fds os) f \<notin> open_fds os" using assms by (simp add: fresh_fds_def)
  then show ?thesis
    by (cases "elf_begin calls f") (auto simp: elf_parser_init_def elf_parser_cleanup_def close_fd_def opened_def Let_def)
qed

lemma load_elf_closes:
  assumes "elf_parser_cleanup os' (Some e) fd = Some os" and "c = CHR ''/''"
    and "elf_open (host_path pid (c # cs)) = Some e \<or> elf_open (host_path pid (c # cs)) = None \<and> elf_open (c # cs) = Some e"
  shows "load_elf h calls getnote table (c # cs) e fd os' =
    map_option (Pair os) (find_or_create_elf h elf_open getnote table pid (Some (c # cs)))"
  using assms
  by (auto simp: load_elf_def find_or_create_elf_def map_option_bind comp_def split: option.split prod.split
      intro!: bind_option_cong)

text \<open>The calls make no difference to the result, and leave what is open as it was.\<close>

lemma elf_descriptors_same:
  assumes "fresh_fds calls"
  shows "find_or_create_elf_os h calls getnote table pid filename os =
    map_option (Pair os) (find_or_create_elf h (opened calls os) getnote table pid filename)"
proof (cases "\<exists>cs. filename = Some (CHR ''/'' # cs)")
  case False
  then show ?thesis
    by (auto simp: find_or_create_elf_os_def find_or_create_elf_def split: option.split list.split)
next
  case True
  then obtain cs where f: "filename = Some (CHR ''/'' # cs)" by blast
  let ?hp = "host_path pid (CHR ''/'' # cs)"
  from parser_init_ok[OF assms, of os ?hp] obtain os1 fd1 where
    i1: "elf_parser_init calls os ?hp = Some (os1, opened calls os ?hp, fd1)"
      "case opened calls os ?hp of None \<Rightarrow> os1 = os | Some e \<Rightarrow> elf_parser_cleanup os1 (Some e) fd1 = Some os" by blast
  show ?thesis
  proof (cases "opened calls os ?hp")
    case (Some e)
    with i1 load_elf_closes[of os1 e fd1 os _ "opened calls os"] show ?thesis by (simp add: find_or_create_elf_os_def f)
  next
    case None
    from parser_init_ok[OF assms, of os "CHR ''/'' # cs"] obtain os2 fd2 where
      i2: "elf_parser_init calls os (CHR ''/'' # cs) = Some (os2, opened calls os (CHR ''/'' # cs), fd2)"
        "case opened calls os (CHR ''/'' # cs) of None \<Rightarrow> os2 = os | Some e \<Rightarrow> elf_parser_cleanup os2 (Some e) fd2 = Some os" by blast
    show ?thesis
    proof (cases "opened calls os (CHR ''/'' # cs)")
      case s: (Some e)
      with i1 i2 None load_elf_closes[of os2 e fd2 os _ "opened calls os"] show ?thesis by (simp add: find_or_create_elf_os_def f)
    next
      case n: None
      with i1 i2 None show ?thesis by (simp add: find_or_create_elf_os_def find_or_create_elf_def f)
    qed
  qed
qed

text \<open>
  C18. On every path through \<open>find_or_create_elf\<close>, whatever \<open>open\<close>, \<open>elf_begin\<close> and \<open>malloc\<close>
  answer, each descriptor and each libelf session that is opened is closed again, once: the call
  returns with the same things open as before, without a fault, with the result of the model that
  takes the file as given and a consistent cache.
\<close>

theorem elf_descriptors_closed:
  assumes "fresh_fds calls" and "\<forall>p e. elf_begin calls p = Some e \<longrightarrow> sane_elf e" and "elf_inv (\<lambda>_ _. True) om base bs h table held"
  shows "\<exists>h' table' r. find_or_create_elf_os h calls getnote table pid filename os = Some (os, h', table', r) \<and>
    find_or_create_elf h (opened calls os) getnote table pid filename = Some (h', table', r) \<and>
    elf_inv (\<lambda>_ _. True) om base bs h' table' (case r of None \<Rightarrow> held | Some b \<Rightarrow> b # held)"
proof -
  have "files_ok (\<lambda>_ _. True) om (opened calls os) getnote"
    using assms(2) by (auto simp: files_ok_def opened_def split: if_splits)
  from find_or_create_ok[OF assms(3) this] elf_descriptors_same[OF assms(1)] show ?thesis by (metis option.simps(9))
qed

text \<open>One descriptor is available; the file is not found below the root of the process, but under its own path.\<close>

definition example_calls :: elf_calls where
  "example_calls = \<lparr>sys_open = (\<lambda>F f. if F = {} then 3 else - 1), elf_begin = example_open\<rparr>"

theorem elf_descriptors_closed_witness:
  "\<exists>h' table' r. find_or_create_elf_os empty_heap example_calls example_note empty_cache 7 (Some ''/a'') \<lparr>open_fds = {}, elf_sessions = 0\<rparr> =
    Some (\<lparr>open_fds = {}, elf_sessions = 0\<rparr>, h', table', r)"
proof -
  have "fresh_fds example_calls" "\<forall>p e. elf_begin example_calls p = Some e \<longrightarrow> sane_elf e"
    using example_sane by (auto simp: fresh_fds_def example_calls_def)
  then show ?thesis using elf_descriptors_closed[OF _ _ elf_inv_empty[OF heap_ok_empty]] by blast
qed

end
