(* ===== verification/Mempool.thy ===== *)
theory Mempool
  imports C_Heap
begin

text \<open>
  The fixed-size memory pool of src/utils/mempool.c. A pool is a stack of free chunks in the
  array \<open>pool\<close>, of which the first \<open>count\<close> are available; an empty pool falls back to
  \<open>malloc\<close>, a full one to \<open>free\<close>. The mutex makes each operation atomic. The interface
  \<open>chunk_pool\<close> states what the clients (the sample path and the database writer) rely on: a
  chunk handed out is in nobody else's hands, and every chunk may be given back once.
\<close>

section \<open>Model\<close>

record mempool_s =
  mp_block :: block
  pool_block :: block
  pool :: "block list"
  pool_size :: nat
  chunk_size :: nat
  count :: nat

text \<open>The loop that preallocates the chunks: the chunks so far and whether it succeeded.\<close>

fun alloc_chunks :: "c_heap \<Rightarrow> nat \<Rightarrow> nat \<Rightarrow> block list \<Rightarrow> c_heap \<times> block list \<times> bool" where
  "alloc_chunks h sz 0 acc = (h, acc, True)"
| "alloc_chunks h sz (Suc n) acc =
     (case malloc h sz of
        (h, None) \<Rightarrow> (h, acc, False)
      | (h, Some b) \<Rightarrow> alloc_chunks h sz n (acc @ [b]))"

definition mempool_create :: "c_heap \<Rightarrow> nat \<Rightarrow> nat \<Rightarrow> (c_heap \<times> mempool_s option) option" where
  "mempool_create h psize csize =
     (case malloc h 72 of
        (h, None) \<Rightarrow> Some (h, None)
      | (h, Some mp) \<Rightarrow>
          (case malloc h (psize * 8) of
             (h, None) \<Rightarrow> do { h \<leftarrow> free_block h mp; Some (h, None) }
           | (h, Some arr) \<Rightarrow>
               (case alloc_chunks h csize psize [] of
                  (h, chunks, ok) \<Rightarrow>
                    if ok then Some (h, Some \<lparr>mp_block = mp, pool_block = arr, pool = chunks,
                                     pool_size = psize, chunk_size = csize, count = psize\<rparr>)
                    else do { h \<leftarrow> free_list h chunks; h \<leftarrow> free_block h arr;
                              h \<leftarrow> free_block h mp; Some (h, None) })))"

definition mempool_destroy :: "c_heap \<Rightarrow> mempool_s option \<Rightarrow> c_heap option" where
  "mempool_destroy h mp =
     (case mp of
        None \<Rightarrow> Some h
      | Some mp \<Rightarrow> do { h \<leftarrow> free_list h (pool mp); h \<leftarrow> free_block h (pool_block mp);
                       free_block h (mp_block mp) })"

definition mempool_alloc :: "c_heap \<Rightarrow> mempool_s option \<Rightarrow> c_heap \<times> mempool_s option \<times> block option" where
  "mempool_alloc h mpo =
     (case mpo of
        None \<Rightarrow> (h, None, None)
      | Some mp \<Rightarrow>
          if count mp = 0 then (case malloc h (chunk_size mp) of (h, r) \<Rightarrow> (h, Some mp, r))
          else (h, Some (mp\<lparr>count := count mp - 1\<rparr>), Some (pool mp ! (count mp - 1))))"

definition mempool_free :: "c_heap \<Rightarrow> mempool_s option \<Rightarrow> block option \<Rightarrow>
    (c_heap \<times> mempool_s option) option" where
  "mempool_free h mpo chunko =
     (case (mpo, chunko) of
        (Some mp, Some chunk) \<Rightarrow>
          if count mp < pool_size mp
          then Some (h, Some (mp\<lparr>pool := (pool mp)[count mp := chunk], count := count mp + 1\<rparr>))
          else do { h \<leftarrow> free_block h chunk; Some (h, Some mp) }
      | _ \<Rightarrow> Some (h, mpo))"

section \<open>Invariant\<close>

text \<open>
  \<open>pool_inv base sz h mp out\<close>: \<open>base\<close> are the blocks of the rest of the program and \<open>out\<close> the
  chunks the clients hold. The available chunks and the chunks held are pairwise distinct
  blocks of the chunk size, apart from the two blocks of the pool itself and from \<open>base\<close>;
  these are all the blocks of the heap; and the chunks are at least as many as the pool has
  places.
\<close>

definition avail :: "mempool_s \<Rightarrow> block list" where
  "avail mp = take (count mp) (pool mp)"

definition pool_inv :: "(block \<Rightarrow> nat option) \<Rightarrow> nat \<Rightarrow> c_heap \<Rightarrow> mempool_s \<Rightarrow> block list \<Rightarrow> bool" where
  "pool_inv base sz h mp out \<longleftrightarrow>
     heap_ok h \<and> length (pool mp) = pool_size mp \<and> count mp \<le> pool_size mp \<and> chunk_size mp = sz \<and>
     distinct (mp_block mp # pool_block mp # avail mp @ out) \<and>
     (\<forall>b\<in>set (mp_block mp # pool_block mp # avail mp @ out). base b = None) \<and>
     live h = (\<lambda>b. if b \<in> set (avail mp @ out) then Some sz
                   else if b = mp_block mp then Some 72
                   else if b = pool_block mp then Some (pool_size mp * 8) else base b) \<and>
     pool_size mp \<le> count mp + length out"

lemma alloc_chunks_spec:
  assumes "alloc_chunks h sz n acc = (h', chunks, ok)" and "heap_ok h"
  shows "\<exists>new. chunks = acc @ new \<and> distinct new \<and> heap_ok h' \<and>
    (\<forall>b\<in>set new. live h b = None) \<and>
    live h' = (\<lambda>b. if b \<in> set new then Some sz else live h b) \<and> (ok \<longrightarrow> length new = n)"
  using assms
proof (induction n arbitrary: h acc)
  case (Suc n)
  obtain h1 r where m: "malloc h sz = (h1, r)" by (cases "malloc h sz")
  show ?case
  proof (cases r)
    case None
    with Suc.prems m show ?thesis
      by (auto dest: malloc_None heap_ok_malloc intro!: exI[of _ "[]"])
  next
    case (Some b)
    with Suc.prems m have "alloc_chunks h1 sz n (acc @ [b]) = (h', chunks, ok)" by simp
    from Suc.IH[OF this] heap_ok_malloc[OF Suc.prems(2) m]
    obtain new where new: "chunks = acc @ b # new" "distinct new" "heap_ok h'"
        "\<forall>x\<in>set new. live h1 x = None"
        "live h' = (\<lambda>x. if x \<in> set new then Some sz else live h1 x)" "ok \<longrightarrow> length new = n"
      by auto
    have b: "live h1 = (live h)(b \<mapsto> sz)" "live h b = None"
      using malloc_Some malloc_fresh[OF Suc.prems(2)] m Some by auto
    show ?thesis
      by (rule exI[of _ "b # new"]) (use new b in \<open>auto simp: fun_eq_iff split: if_splits\<close>)
  qed
qed auto

lemma mempool_create_inv:
  assumes "mempool_create h n sz = Some (h', Some mp)" and "heap_ok h"
  shows "pool_inv (live h) sz h' mp [] \<and> count mp = n \<and> pool_size mp = n"
proof -
  from assms(1) obtain h1 m1 h2 a2 h3 chunks where
    h: "malloc h 72 = (h1, Some m1)" "malloc h1 (n * 8) = (h2, Some a2)"
       "alloc_chunks h2 sz n [] = (h3, chunks, True)" "h' = h3"
       "mp = \<lparr>mp_block = m1, pool_block = a2, pool = chunks, pool_size = n, chunk_size = sz, count = n\<rparr>"
    by (auto simp: mempool_create_def split: prod.splits option.splits if_splits bind_splits)
  have ok: "heap_ok h1" "heap_ok h2" using assms(2) h heap_ok_malloc by blast+
  have l1: "live h1 = (live h)(m1 \<mapsto> 72)" "live h m1 = None"
    using malloc_Some malloc_fresh[OF assms(2)] h(1) by auto
  have l2: "live h2 = (live h1)(a2 \<mapsto> n * 8)" "live h1 a2 = None"
    using malloc_Some malloc_fresh[OF ok(1)] h(2) by auto
  from alloc_chunks_spec[OF h(3) ok(2)] l1 l2 h(4,5) show ?thesis
    by (auto simp: pool_inv_def avail_def split: if_splits)
qed

text \<open>A failed creation gives back everything it took.\<close>

lemma mempool_create_fail:
  assumes "heap_ok h"
  shows "\<exists>h' r. mempool_create h n sz = Some (h', r) \<and> heap_ok h' \<and>
    (r = None \<longrightarrow> live h' = live h)"
proof (cases "malloc h 72")
  case h1: (Pair h1 r1)
  note ok1 = heap_ok_malloc[OF assms h1]
  show ?thesis
  proof (cases r1)
    case None
    with h1 ok1 show ?thesis by (auto simp: mempool_create_def dest: malloc_None)
  next
    case m1: (Some m1)
    have l1: "live h1 = (live h)(m1 \<mapsto> 72)" "live h m1 = None"
      using malloc_Some malloc_fresh[OF assms] h1 m1 by auto
    obtain h2 r2 where h2: "malloc h1 (n * 8) = (h2, r2)" by (cases "malloc h1 (n * 8)")
    note ok2 = heap_ok_malloc[OF ok1 h2]
    show ?thesis
    proof (cases r2)
      case None
      with h1 m1 h2 l1 ok2 malloc_None[of h1 "n * 8" h2] show ?thesis
        by (auto simp: mempool_create_def free_block_def heap_ok_def fun_eq_iff)
    next
      case a2: (Some a2)
      have l2: "live h2 = (live h1)(a2 \<mapsto> n * 8)" "live h1 a2 = None"
        using malloc_Some malloc_fresh[OF ok1] h2 a2 by auto
      obtain h3 chunks ok where h3: "alloc_chunks h2 sz n [] = (h3, chunks, ok)"
        by (cases "alloc_chunks h2 sz n []") auto
      from alloc_chunks_spec[OF h3 ok2] have sp: "distinct chunks" "heap_ok h3"
        "\<forall>b\<in>set chunks. live h2 b = None"
        "live h3 = (\<lambda>b. if b \<in> set chunks then Some sz else live h2 b)" by auto
      show ?thesis
      proof (cases ok)
        case True
        with h1 m1 h2 a2 h3 sp show ?thesis by (simp add: mempool_create_def)
      next
        case False
        have "free_list h3 chunks = Some (h3\<lparr>live := (\<lambda>b. if b \<in> set chunks then None else live h3 b)\<rparr>)"
          using sp by (subst free_list_Some) auto
        moreover have "m1 \<notin> set chunks" "a2 \<notin> set chunks"
          using sp(3) l1 l2 by (auto split: if_splits)
        ultimately show ?thesis using False h1 m1 h2 a2 h3 sp l1 l2
          by (auto simp: mempool_create_def free_block_def heap_ok_def fun_eq_iff)
      qed
    qed
  qed
qed

text \<open>A successful creation made \<open>n + 2\<close> successful requests.\<close>

lemma alloc_chunks_needs:
  "alloc_chunks h sz n acc = (h', chunks, True) \<Longrightarrow> i < n \<Longrightarrow> \<not> oom h (next_block h + i)"
proof (induction n arbitrary: h acc i)
  case (Suc n)
  then obtain h1 b where h1: "malloc h sz = (h1, Some b)" "alloc_chunks h1 sz n (acc @ [b]) = (h', chunks, True)"
    by (auto split: prod.splits option.splits)
  then have "oom h1 = oom h" "next_block h1 = Suc (next_block h)" "\<not> oom h (next_block h)"
    by (auto simp: malloc_def split: if_splits)
  with Suc.IH[OF h1(2), of "i - 1"] Suc.prems(2) show ?case by (cases i) auto
qed simp

lemma mempool_create_needs:
  assumes "mempool_create h n sz = Some (h', Some mp)" and "i \<le> n + 1"
  shows "\<not> oom h (next_block h + i)"
proof -
  from assms(1) obtain h1 m1 h2 a2 h3 chunks where
    h: "malloc h 72 = (h1, Some m1)" "malloc h1 (n * 8) = (h2, Some a2)"
       "alloc_chunks h2 sz n [] = (h3, chunks, True)"
    by (auto simp: mempool_create_def split: prod.splits option.splits if_splits bind_splits)
  then have "oom h2 = oom h" "next_block h2 = next_block h + 2"
      "\<not> oom h (next_block h)" "\<not> oom h (next_block h + 1)"
    by (auto simp: malloc_def split: if_splits)
  with alloc_chunks_needs[OF h(3), of "i - 2"] assms(2) show ?thesis
    by (cases i rule: nat.exhaust, simp, cases "i - 1") auto
qed

lemma mempool_alloc_Some:
  assumes "pool_inv base sz h mp out" and "mempool_alloc h (Some mp) = (h', mpo, Some b)"
  shows "\<exists>mp'. mpo = Some mp' \<and> pool_inv base sz h' mp' (b # out) \<and> b \<notin> set out \<and> live h' b = Some sz"
proof (cases "count mp = 0")
  case True
  with assms(2) have m: "malloc h (chunk_size mp) = (h', Some b)" and mp': "mpo = Some mp"
    by (auto simp: mempool_alloc_def split: prod.splits)
  have ok: "heap_ok h" using assms(1) by (simp add: pool_inv_def)
  from malloc_Some[OF m] malloc_fresh[OF ok m] heap_ok_malloc[OF ok m] mp' assms(1) True
  show ?thesis by (auto simp: pool_inv_def avail_def split: if_splits)
next
  case False
  then obtain c where c: "count mp = Suc c" by (cases "count mp") auto
  with assms have len: "c < length (pool mp)" by (simp add: pool_inv_def)
  from c len have av: "avail mp = take c (pool mp) @ [pool mp ! c]"
    by (simp add: avail_def take_Suc_snoc)
  from assms(2) c have r: "h' = h" "mpo = Some (mp\<lparr>count := c\<rparr>)" "b = pool mp ! c"
    by (auto simp: mempool_alloc_def)
  with assms(1) c av show ?thesis by (auto simp: pool_inv_def avail_def)
qed

lemma mempool_alloc_None:
  assumes "pool_inv base sz h mp out" and "mempool_alloc h (Some mp) = (h', mpo, None)"
  shows "\<exists>mp'. mpo = Some mp' \<and> pool_inv base sz h' mp' out"
proof -
  from assms(2) have m: "malloc h (chunk_size mp) = (h', None)" and "mpo = Some mp"
    by (auto simp: mempool_alloc_def split: prod.splits if_splits)
  with assms(1) show ?thesis
    using malloc_None[OF m] heap_ok_malloc[OF _ m] by (auto simp: pool_inv_def)
qed

lemma mempool_alloc_oom:
  assumes "\<forall>b. \<not> oom h b"
  shows "\<exists>h' mp' b. mempool_alloc h (Some mp) = (h', mp', Some b) \<and> oom h' = oom h"
  using assms by (auto simp: mempool_alloc_def malloc_def)

lemma mempool_free_inv:
  assumes "pool_inv base sz h mp out" and "b \<in> set out"
  shows "\<exists>h' mp'. mempool_free h (Some mp) (Some b) = Some (h', Some mp') \<and> pool_inv base sz h' mp' (remove1 b out)"
proof (cases "count mp < pool_size mp")
  case True
  let ?mp = "mp\<lparr>pool := (pool mp)[count mp := b], count := count mp + 1\<rparr>"
  from True assms(1) have "count mp < length (pool mp)" by (simp add: pool_inv_def)
  then have av: "avail ?mp = avail mp @ [b]"
    by (simp add: avail_def take_Suc_snoc)
  have len: "length out = Suc (length (remove1 b out))"
    using assms(2) length_pos_if_in_set[of b out] by (simp add: length_remove1)
  from assms True have "pool_inv base sz h ?mp (remove1 b out)"
    using av len by (auto simp: pool_inv_def set_remove1_eq simp del: length_remove1)
  with True show ?thesis by (simp add: mempool_free_def)
next
  case False
  with assms have "count mp = pool_size mp" by (simp add: pool_inv_def)
  moreover have "live h b = Some sz" using assms by (simp add: pool_inv_def)
  ultimately show ?thesis using assms False
    by (auto simp: mempool_free_def free_block_def pool_inv_def set_remove1_eq fun_eq_iff
        intro!: heap_ok_free[of h b])
qed

text \<open>
  When every chunk has come back, the pool is full again and destroying it frees exactly the
  blocks it owns.
\<close>

lemma mempool_destroy_full:
  assumes "pool_inv base sz h mp []"
  shows "\<exists>h'. mempool_destroy h (Some mp) = Some h' \<and>
    live h' = base"
proof -
  from assms have full: "avail mp = pool mp" by (auto simp: pool_inv_def avail_def)
  have "free_list h (pool mp) = Some (h\<lparr>live := (\<lambda>b. if b \<in> set (pool mp) then None else live h b)\<rparr>)"
    using assms full by (subst free_list_Some) (auto simp: pool_inv_def)
  with assms full show ?thesis
    by (auto simp: mempool_destroy_def free_block_def pool_inv_def fun_eq_iff)
qed

section \<open>The interface\<close>

text \<open>
  What a client of a pool relies on. \<open>inv s out\<close> relates the pool's state to the chunks the
  client holds.
\<close>

locale chunk_pool =
  fixes alloc :: "'s \<Rightarrow> 's \<times> block option"
    and release :: "'s \<Rightarrow> block \<Rightarrow> 's option"
    and inv :: "'s \<Rightarrow> block list \<Rightarrow> bool"
  assumes alloc_Some: "inv s out \<Longrightarrow> alloc s = (s', Some b) \<Longrightarrow> b \<notin> set out \<and> inv s' (b # out)"
    and alloc_None: "inv s out \<Longrightarrow> alloc s = (s', None) \<Longrightarrow> inv s' out"
    and release_ok: "inv s out \<Longrightarrow> b \<in> set out \<Longrightarrow>
      \<exists>s'. release s b = Some s' \<and> inv s' (remove1 b out)"

text \<open>
  A client as a list of operations: allocate, or release the \<open>i\<close>-th chunk it holds. The run
  keeps the list of held chunks; \<open>None\<close> is an invalid free.
\<close>

datatype pool_op = Take | Give nat

fun pool_run :: "('s \<Rightarrow> 's \<times> block option) \<Rightarrow> ('s \<Rightarrow> block \<Rightarrow> 's option) \<Rightarrow>
    's \<Rightarrow> block list \<Rightarrow> pool_op list \<Rightarrow> ('s \<times> block list) option" where
  "pool_run al rel s out [] = Some (s, out)"
| "pool_run al rel s out (Take # ops) =
     (case al s of (s, r) \<Rightarrow>
        pool_run al rel s (case r of None \<Rightarrow> out | Some b \<Rightarrow> b # out) ops)"
| "pool_run al rel s out (Give i # ops) =
     (if i < length out then
        (case rel s (out ! i) of
           None \<Rightarrow> None
         | Some s \<Rightarrow> pool_run al rel s (remove1 (out ! i) out) ops)
      else pool_run al rel s out ops)"

context chunk_pool
begin

text \<open>Every sequence of operations is free of invalid frees and keeps the chunks apart.\<close>

lemma run_safe: "inv s out \<Longrightarrow> \<exists>s' out'. pool_run alloc release s out ops = Some (s', out') \<and> inv s' out'"
proof (induction ops arbitrary: s out)
  case (Cons op ops)
  show ?case
  proof (cases op)
    case Take
    obtain s1 r where a: "alloc s = (s1, r)" by (cases "alloc s")
    show ?thesis
    proof (cases r)
      case None
      from alloc_None[OF Cons.prems a[unfolded None]] Cons.IH[of s1 out] Take a None
      show ?thesis by simp
    next
      case (Some b)
      from alloc_Some[OF Cons.prems a[unfolded Some]] Cons.IH[of s1 "b # out"] Take a Some
      show ?thesis by simp
    qed
  next
    case (Give i)
    show ?thesis
    proof (cases "i < length out")
      case True
      then have "out ! i \<in> set out" by simp
      from release_ok[OF Cons.prems this] obtain s1 where
        "release s (out ! i) = Some s1" "inv s1 (remove1 (out ! i) out)" by blast
      with Cons.IH Give True show ?thesis by simp
    next
      case False
      with Cons Give show ?thesis by simp
    qed
  qed
qed simp

end

text \<open>The pool of the sources provides the interface, with the heap as part of its state.\<close>

definition pool_alloc :: "c_heap \<times> mempool_s option \<Rightarrow> (c_heap \<times> mempool_s option) \<times> block option" where
  "pool_alloc s = (case mempool_alloc (fst s) (snd s) of (h, mp, r) \<Rightarrow> ((h, mp), r))"

definition pool_release :: "c_heap \<times> mempool_s option \<Rightarrow> block \<Rightarrow> (c_heap \<times> mempool_s option) option" where
  "pool_release s b = mempool_free (fst s) (snd s) (Some b)"

definition pool_state :: "(block \<Rightarrow> nat option) \<Rightarrow> nat \<Rightarrow> c_heap \<times> mempool_s option \<Rightarrow> block list \<Rightarrow> bool" where
  "pool_state base sz s out = (case snd s of None \<Rightarrow> False | Some mp \<Rightarrow> pool_inv base sz (fst s) mp out)"

interpretation mp: chunk_pool pool_alloc pool_release "pool_state base sz" for base sz
proof (unfold_locales, goal_cases)
  case (1 s out s' b)
  then obtain mp where "snd s = Some mp" "pool_inv base sz (fst s) mp out"
    by (auto simp: pool_state_def split: option.splits)
  with 1 mempool_alloc_Some[of base sz "fst s" mp out "fst s'" "snd s'" b] show ?case
    by (auto simp: pool_alloc_def pool_state_def split: prod.splits)
next
  case (2 s out s')
  then obtain mp where "snd s = Some mp" "pool_inv base sz (fst s) mp out"
    by (auto simp: pool_state_def split: option.splits)
  with 2 mempool_alloc_None[of base sz "fst s" mp out "fst s'" "snd s'"] show ?case
    by (auto simp: pool_alloc_def pool_state_def split: prod.splits)
next
  case (3 s out b)
  then obtain mp where "snd s = Some mp" "pool_inv base sz (fst s) mp out"
    by (auto simp: pool_state_def split: option.splits)
  with 3 mempool_free_inv[of base sz "fst s" mp out b] show ?case
    by (auto simp: pool_release_def pool_state_def)
qed

section \<open>Properties\<close>

text \<open>
  C24. From a pool that \<open>mempool_create\<close> made, every sequence of allocations and releases runs
  without an invalid free; the chunks the client holds are at every moment pairwise distinct
  blocks of the requested size; and once all of them have come back, \<open>mempool_destroy\<close>
  succeeds and leaves the heap as it was before the pool existed.
\<close>
theorem mempool_lifecycle:
  assumes "heap_ok h" and "mempool_create h n sz = Some (h1, Some mp)"
  shows "\<exists>h2 mp2 out. pool_run pool_alloc pool_release (h1, Some mp) [] ops = Some ((h2, Some mp2), out) \<and>
    distinct out \<and> (\<forall>b\<in>set out. live h2 b = Some sz \<and> live h b = None) \<and>
    (out = [] \<longrightarrow> (\<exists>h3. mempool_destroy h2 (Some mp2) = Some h3 \<and> live h3 = live h))"
proof -
  have "pool_state (live h) sz (h1, Some mp) []"
    using mempool_create_inv[OF assms(2,1)] by (simp add: pool_state_def)
  from mp.run_safe[OF this, of ops] obtain s out where
    run: "pool_run pool_alloc pool_release (h1, Some mp) [] ops = Some (s, out)"
    and st: "pool_state (live h) sz s out" by blast
  from st obtain h2 mp2 where s: "s = (h2, Some mp2)" and inv: "pool_inv (live h) sz h2 mp2 out"
    by (cases s) (auto simp: pool_state_def split: option.splits)
  from inv have "distinct out" "\<forall>b\<in>set out. live h2 b = Some sz \<and> live h b = None"
    by (auto simp: pool_inv_def)
  moreover have "out = [] \<Longrightarrow> \<exists>h3. mempool_destroy h2 (Some mp2) = Some h3 \<and> live h3 = live h"
    using mempool_destroy_full[of "live h" sz h2 mp2] inv by simp
  ultimately show ?thesis using run s by blast
qed

text \<open>A pool of two chunks of 64 bytes: the third request is served by \<open>malloc\<close>.\<close>

definition two_chunks :: "c_heap \<times> mempool_s" where
  "two_chunks =
     (\<lparr>live = [0 \<mapsto> 72, 1 \<mapsto> 16, 2 \<mapsto> 64, 3 \<mapsto> 64], next_block = 4, oom = (\<lambda>_. False)\<rparr>,
      \<lparr>mp_block = 0, pool_block = 1, pool = [2, 3], pool_size = 2, chunk_size = 64, count = 2\<rparr>)"

lemma create_two_chunks: "mempool_create empty_heap 2 64 = Some (fst two_chunks, Some (snd two_chunks))"
  by (simp add: mempool_create_def empty_heap_def two_chunks_def malloc_def eval_nat_numeral)

theorem mempool_lifecycle_witness:
  "\<exists>h2 mp2 out. pool_run pool_alloc pool_release (fst two_chunks, Some (snd two_chunks)) []
       [Take, Take, Take, Give 1, Give 0, Give 0] = Some ((h2, Some mp2), out) \<and>
    out = [] \<and> (\<exists>h3. mempool_destroy h2 (Some mp2) = Some h3 \<and> live h3 = live empty_heap)"
proof -
  have "\<exists>s. pool_run pool_alloc pool_release (fst two_chunks, Some (snd two_chunks)) []
       [Take, Take, Take, Give 1, Give 0, Give 0] = Some (s, [])"
    by (simp add: two_chunks_def pool_alloc_def pool_release_def mempool_alloc_def
        mempool_free_def malloc_def free_block_def)
  with mempool_lifecycle[OF heap_ok_empty create_two_chunks,
      of "[Take, Take, Take, Give 1, Give 0, Give 0]"]
  show ?thesis by fastforce
qed

text \<open>
  When any of its allocations fails, \<open>mempool_create\<close> gives back every block it took: the
  rollback frees each of them once and the heap is as before.
\<close>
theorem mempool_create_no_leak:
  assumes "heap_ok h" and "\<exists>i\<le>n + 1. oom h (next_block h + i)"
  shows "\<exists>h'. mempool_create h n sz = Some (h', None) \<and> live h' = live h \<and> heap_ok h'"
proof -
  have "r = None" if "mempool_create h n sz = Some (h', r)" for h' r
    using mempool_create_needs[of h n sz] that assms(2) by (cases r) auto
  with mempool_create_fail[OF assms(1), of n sz] show ?thesis by blast
qed

theorem mempool_create_no_leak_witness:
  "\<exists>h'. mempool_create (empty_heap\<lparr>oom := (\<lambda>b. b = 3)\<rparr>) 2 64 = Some (h', None) \<and> live h' = (\<lambda>_. None)"
proof -
  have "heap_ok (empty_heap\<lparr>oom := (\<lambda>b. b = 3)\<rparr>)" by (simp add: heap_ok_def empty_heap_def)
  moreover have "\<exists>i\<le>2 + 1. oom (empty_heap\<lparr>oom := (\<lambda>b. b = 3)\<rparr>) (next_block (empty_heap\<lparr>oom := (\<lambda>b. b = 3)\<rparr>) + i)"
    by (rule exI[of _ 3]) (simp add: empty_heap_def)
  ultimately show ?thesis
    using mempool_create_no_leak[of "empty_heap\<lparr>oom := (\<lambda>b. b = 3)\<rparr>" 2 64]
    by (auto simp: empty_heap_def)
qed

text \<open>
  \<open>mempool_destroy\<close> on a pool with a chunk still outstanding is not safe: of a pool of two
  chunks the client takes both and returns the first it took. The second slot of the array
  still names that chunk, the first names it again, and destroying the pool frees it twice.
\<close>
theorem mempool_destroy_outstanding:
  "\<exists>s out. pool_run pool_alloc pool_release (fst two_chunks, Some (snd two_chunks)) []
       [Take, Take, Give 1] = Some (s, out) \<and>
    length out = 1 \<and> mempool_destroy (fst s) (snd s) = None"
  by (simp add: two_chunks_def pool_alloc_def pool_release_def mempool_alloc_def mempool_free_def
      mempool_destroy_def free_block_def numeral_2_eq_2)

end
