(* ===== verification/Concurrent_Queue.thy ===== *)
theory Concurrent_Queue
  imports C_Heap
begin

text \<open>
  The bounded queue between the stages of the profiler (src/utils/concurrent_queue.c). The
  circular buffer with its indices is modelled as it is, each operation as the critical
  section that runs under the mutex once the thread holds it: it either has to wait on one of
  the two condition variables or completes with a return value and the signals it sends.
  The out parameters \<open>latency_ns\<close> measure elapsed time only and are left out.

  The ring is shown to implement a list, through the interface \<open>ring_buffer\<close>. The threads are
  then a step relation: calls, critical sections, waits, signals, broadcasts and spurious
  wakeups in any order.
\<close>

section \<open>Model\<close>

record 'a cqueue =
  q_block :: block
  buf_block :: block
  buffer :: "'a option list"
  capacity :: nat
  size :: nat
  head :: nat
  tail :: nat
  shutdown :: bool

definition queue_init :: "c_heap \<Rightarrow> nat \<Rightarrow> (c_heap \<times> 'a cqueue option) option" where
  "queue_init h cap =
     (case malloc h 168 of
        (h, None) \<Rightarrow> Some (h, None)
      | (h, Some qb) \<Rightarrow>
          (case malloc h (8 * cap) of
             (h, None) \<Rightarrow> do { h \<leftarrow> free_block h qb; Some (h, None) }
           | (h, Some bb) \<Rightarrow>
               Some (h, Some \<lparr>q_block = qb, buf_block = bb, buffer = replicate cap None,
                 capacity = cap, size = 0, head = 0, tail = 0, shutdown = False\<rparr>)))"

definition queue_destroy :: "c_heap \<Rightarrow> 'a cqueue option \<Rightarrow> c_heap option" where
  "queue_destroy h queue =
     (case queue of
        None \<Rightarrow> Some h
      | Some q \<Rightarrow> do { h \<leftarrow> free_block h (buf_block q); free_block h (q_block q) })"

text \<open>
  What a critical section ends with: waiting on a condition variable (the mutex is released
  and the loop test runs again after the wakeup), or returning a value after a notification.
\<close>

datatype wake = NoWake | SignalFull | SignalEmpty | BroadcastEmpty | BroadcastAll

datatype 'a ret = RetVoid | RetNull | RetItem 'a | RetItems "'a list" | RetSize nat

datatype 'a outcome = WaitOnFull | WaitOnEmpty | Done "'a cqueue" "'a ret" wake

definition put_tail :: "'a cqueue \<Rightarrow> 'a \<Rightarrow> 'a cqueue" where
  "put_tail q x = q\<lparr>buffer := (buffer q)[tail q := Some x], tail := (tail q + 1) mod capacity q\<rparr>"

definition take_head :: "'a cqueue \<Rightarrow> 'a option \<times> 'a cqueue" where
  "take_head q = (buffer q ! head q,
     q\<lparr>head := (head q + 1) mod capacity q, size := size q - 1\<rparr>)"

definition queue_push :: "'a cqueue \<Rightarrow> 'a \<Rightarrow> 'a outcome" where
  "queue_push q item =
     (if size q = capacity q \<and> \<not> shutdown q then WaitOnFull
      else if shutdown q then Done q RetVoid NoWake
      else (let q = put_tail q item in Done (q\<lparr>size := size q + 1\<rparr>) RetVoid SignalEmpty))"

definition queue_pop :: "'a cqueue \<Rightarrow> 'a outcome" where
  "queue_pop q =
     (if size q = 0 \<and> \<not> shutdown q then WaitOnEmpty
      else if shutdown q \<and> size q = 0 then Done q RetNull NoWake
      else (case take_head q of (item, q) \<Rightarrow>
        Done q (case item of None \<Rightarrow> RetNull | Some x \<Rightarrow> RetItem x) SignalFull))"

fun pop_loop :: "nat \<Rightarrow> 'a cqueue \<Rightarrow> 'a list \<Rightarrow> 'a list \<times> 'a cqueue" where
  "pop_loop 0 q items = (items, q)"
| "pop_loop (Suc n) q items =
     (case take_head q of (item, q) \<Rightarrow>
        pop_loop n q (items @ (case item of None \<Rightarrow> [] | Some x \<Rightarrow> [x])))"

definition queue_pop_batch :: "'a cqueue \<Rightarrow> nat \<Rightarrow> 'a outcome" where
  "queue_pop_batch q max_items =
     (if size q = 0 \<and> \<not> shutdown q then WaitOnEmpty
      else if shutdown q \<and> size q = 0 then Done q (RetItems []) NoWake
      else (let count_to_pop = (if size q < max_items then size q else max_items) in
        case pop_loop count_to_pop q [] of (items, q) \<Rightarrow>
          Done q (RetItems items) (if count_to_pop > 0 then SignalFull else NoWake)))"

fun push_loop :: "'a cqueue \<Rightarrow> 'a list \<Rightarrow> 'a cqueue" where
  "push_loop q [] = q"
| "push_loop q (x # xs) = push_loop (put_tail q x) xs"

definition queue_push_batch :: "'a cqueue \<Rightarrow> 'a list \<Rightarrow> 'a outcome" where
  "queue_push_batch q items =
     (if items = [] then Done q RetVoid NoWake
      else if capacity q - size q < length items \<and> \<not> shutdown q then WaitOnFull
      else if shutdown q then Done q RetVoid NoWake
      else (let q = push_loop q items in
        Done (q\<lparr>size := size q + length items\<rparr>) RetVoid BroadcastEmpty))"

definition queue_signal_shutdown :: "'a cqueue \<Rightarrow> 'a outcome" where
  "queue_signal_shutdown q = Done (q\<lparr>shutdown := True\<rparr>) RetVoid BroadcastAll"

definition queue_get_size :: "'a cqueue \<Rightarrow> 'a outcome" where
  "queue_get_size q = Done q (RetSize (size q)) NoWake"

section \<open>The ring as a list\<close>

fun deq_loop :: "('q \<Rightarrow> 'a option \<times> 'q) \<Rightarrow> nat \<Rightarrow> 'q \<Rightarrow> 'a list \<Rightarrow> 'a list \<times> 'q" where
  "deq_loop d 0 q items = (items, q)"
| "deq_loop d (Suc n) q items =
     (case d q of (item, q) \<Rightarrow> deq_loop d n q (items @ (case item of None \<Rightarrow> [] | Some x \<Rightarrow> [x])))"

lemma pop_loop_deq: "pop_loop n q items = deq_loop take_head n q items"
  by (induction n arbitrary: q items) (auto split: prod.splits)

text \<open>
  What the queue code relies on from its ring: putting at the tail appends to the contents,
  taking from the head removes the first element. The bounds are the caller's.
\<close>

locale ring_buffer =
  fixes cap :: "'q \<Rightarrow> nat"
    and contents :: "'q \<Rightarrow> 'a list"
    and ok :: "'q \<Rightarrow> bool"
    and enq :: "'q \<Rightarrow> 'a \<Rightarrow> 'q"
    and deq :: "'q \<Rightarrow> 'a option \<times> 'q"
  assumes bounded: "ok q \<Longrightarrow> length (contents q) \<le> cap q"
    and enq_law: "ok q \<Longrightarrow> length (contents q) < cap q \<Longrightarrow>
      ok (enq q x) \<and> cap (enq q x) = cap q \<and> contents (enq q x) = contents q @ [x]"
    and deq_law: "ok q \<Longrightarrow> contents q = x # xs \<Longrightarrow>
      \<exists>q'. deq q = (Some x, q') \<and> ok q' \<and> cap q' = cap q \<and> contents q' = xs"
begin

lemma foldl_enq:
  "ok q \<Longrightarrow> length (contents q) + length xs \<le> cap q \<Longrightarrow>
    ok (foldl enq q xs) \<and> cap (foldl enq q xs) = cap q \<and> contents (foldl enq q xs) = contents q @ xs"
proof (induction xs arbitrary: q)
  case (Cons x xs)
  with enq_law[of q x] Cons.IH[of "enq q x"] show ?case by simp
qed simp

lemma deq_loop_law:
  "ok q \<Longrightarrow> n \<le> length (contents q) \<Longrightarrow>
    \<exists>q'. deq_loop deq n q items = (items @ take n (contents q), q') \<and> ok q' \<and> cap q' = cap q \<and>
      contents q' = drop n (contents q)"
proof (induction n arbitrary: q items)
  case (Suc n)
  then obtain x xs where c: "contents q = x # xs" by (cases "contents q") auto
  from deq_law[OF Suc.prems(1) c] obtain q' where q':
    "deq q = (Some x, q')" "ok q'" "cap q' = cap q" "contents q' = xs" by blast
  with Suc.IH[of q' "items @ [x]"] Suc.prems(2) c show ?case by auto
qed simp

end

definition slot :: "'a cqueue \<Rightarrow> nat \<Rightarrow> nat" where
  "slot q i = (head q + i) mod capacity q"

definition queue_contents :: "'a cqueue \<Rightarrow> 'a list" where
  "queue_contents q = map (\<lambda>i. the (buffer q ! slot q i)) [0..<size q]"

definition queue_ok :: "'a cqueue \<Rightarrow> bool" where
  "queue_ok q \<longleftrightarrow> 0 < capacity q \<and> length (buffer q) = capacity q \<and> size q \<le> capacity q \<and>
     head q < capacity q \<and> tail q = slot q (size q) \<and>
     (\<forall>i < size q. buffer q ! slot q i \<noteq> None)"

definition queue_enq :: "'a cqueue \<Rightarrow> 'a \<Rightarrow> 'a cqueue" where
  "queue_enq q x = (put_tail q x)\<lparr>size := size q + 1\<rparr>"

lemma length_queue_contents [simp]: "length (queue_contents q) = size q"
  by (simp add: queue_contents_def)

lemma slot_bound [ring_simps]: "0 < capacity q \<Longrightarrow> slot q i < capacity q"
  by (simp add: slot_def)

lemma slot_eq_le:
  assumes "slot q i = slot q j" and "i \<le> j" and "j < capacity q"
  shows "i = j"
proof (rule ccontr)
  assume "i \<noteq> j"
  have "(head q + j) mod capacity q = (head q + i) mod capacity q"
    using assms(1) unfolding slot_def by (rule sym)
  moreover have "head q + i \<le> head q + j" using assms(2) by simp
  ultimately have "capacity q dvd (head q + j) - (head q + i)"
    using mod_eq_dvd_iff_nat by blast
  then have "capacity q dvd j - i" by simp
  then have "capacity q \<le> j - i" using assms(2) \<open>i \<noteq> j\<close> by (intro dvd_imp_le) auto
  with assms(3) show False by simp
qed

lemma slot_inj [ring_simps]:
  assumes "i < capacity q" and "j < capacity q"
  shows "slot q i = slot q j \<longleftrightarrow> i = j"
  using slot_eq_le[of q i j] slot_eq_le[of q j i] assms by (metis nat_le_linear)

lemma slot_Suc [ring_simps]: "(slot q i + 1) mod capacity q = slot q (Suc i)"
  by (simp add: slot_def mod_Suc_eq)

lemma queue_enq_ok:
  assumes "queue_ok q" and "size q < capacity q"
  shows "queue_ok (queue_enq q x) \<and> capacity (queue_enq q x) = capacity q \<and>
    queue_contents (queue_enq q x) = queue_contents q @ [x]"
proof -
  let ?q = "queue_enq q x"
  have s: "slot ?q = slot q" by (simp add: slot_def queue_enq_def put_tail_def fun_eq_iff)
  have b: "buffer ?q = (buffer q)[slot q (size q) := Some x]" "capacity ?q = capacity q"
      "head ?q = head q" "size ?q = Suc (size q)" "tail ?q = slot q (Suc (size q))"
    using assms(1) slot_Suc[of q "size q"] by (auto simp: queue_enq_def put_tail_def queue_ok_def)
  have keep: "buffer ?q ! slot q i = buffer q ! slot q i" if "i < size q" for i
    using that assms b slot_inj[of "size q" q i] by (simp add: queue_ok_def)
  have new: "buffer ?q ! slot q (size q) = Some x"
    using assms b by (simp add: queue_ok_def slot_bound)
  have "queue_contents ?q = queue_contents q @ [x]"
    using s b keep new by (simp add: queue_contents_def)
  moreover have "queue_ok ?q"
    using assms s b keep new by (auto simp: queue_ok_def less_Suc_eq)
  ultimately show ?thesis using b by simp
qed

lemma take_head_ok:
  assumes "queue_ok q" and "queue_contents q = x # xs"
  shows "\<exists>q'. take_head q = (Some x, q') \<and> queue_ok q' \<and> capacity q' = capacity q \<and> queue_contents q' = xs"
proof -
  let ?q = "snd (take_head q)"
  from assms(2) have sz: "size q = Suc (length xs)" using length_queue_contents[of q] by simp
  have s: "slot ?q i = slot q (Suc i)" for i
    by (simp add: take_head_def slot_def mod_simps)
  have h: "head q = slot q 0" using assms(1) by (simp add: slot_def queue_ok_def)
  have c: "queue_contents q = the (buffer q ! slot q 0) # queue_contents ?q"
    using sz s by (simp add: queue_contents_def take_head_def upt_conv_Cons map_Suc_upt[symmetric] del: upt_Suc)
  moreover have "buffer q ! slot q 0 \<noteq> None" using assms(1) sz by (auto simp: queue_ok_def)
  ultimately have "fst (take_head q) = Some x" using assms(2) h by (auto simp: take_head_def)
  moreover have "queue_ok ?q"
    using assms(1) sz s by (auto simp: queue_ok_def take_head_def)
  moreover have "capacity ?q = capacity q" by (simp add: take_head_def)
  ultimately show ?thesis using c assms(2) by (metis list.inject prod.collapse)
qed

interpretation ring: ring_buffer capacity queue_contents queue_ok queue_enq take_head
proof (unfold_locales, goal_cases)
  case 1
  then show ?case by (simp add: queue_ok_def)
next
  case 2
  then show ?case using queue_enq_ok[OF 2(1)] by simp
next
  case 3
  then show ?case by (rule take_head_ok)
qed

text \<open>The batch loop moves the size only at its end; the elements go to the same places.\<close>

lemma push_loop_enq:
  "(push_loop q xs)\<lparr>size := n + length xs\<rparr> = foldl queue_enq (q\<lparr>size := n\<rparr>) xs"
proof (induction xs arbitrary: q n)
  case (Cons x xs)
  have "queue_enq (q\<lparr>size := n\<rparr>) x = (put_tail q x)\<lparr>size := Suc n\<rparr>"
    by (simp add: queue_enq_def put_tail_def)
  with Cons[where q = "put_tail q x" and n = "Suc n"] show ?case by simp
qed simp

lemma push_loop_fields [simp]:
  "size (push_loop q xs) = size q" "shutdown (push_loop q xs) = shutdown q"
  by (induction xs arbitrary: q) (simp_all add: put_tail_def)

lemma push_loop_ok:
  assumes "queue_ok q" and "size q + length xs \<le> capacity q"
  shows "queue_ok ((push_loop q xs)\<lparr>size := size q + length xs\<rparr>) \<and>
    capacity (push_loop q xs) = capacity q \<and>
    queue_contents ((push_loop q xs)\<lparr>size := size q + length xs\<rparr>) = queue_contents q @ xs"
  using ring.foldl_enq[OF assms(1), of xs] assms(2) push_loop_enq[where q = q and xs = xs and n = "cqueue.size q"]
  by (auto dest: arg_cong[of _ _ capacity])

lemma pop_loop_ok:
  assumes "queue_ok q" and "n \<le> size q"
  shows "\<exists>q'. pop_loop n q [] = (take n (queue_contents q), q') \<and> queue_ok q' \<and>
    capacity q' = capacity q \<and> queue_contents q' = drop n (queue_contents q)"
  using ring.deq_loop_law[OF assms(1), of n "[]"] assms(2) by (simp add: pop_loop_deq)

section \<open>Operations on the contents\<close>

datatype 'a qop = OpPush 'a | OpPushBatch "'a list" | OpPop | OpPopBatch nat | OpShutdown | OpGetSize

fun exec_op :: "'a cqueue \<Rightarrow> 'a qop \<Rightarrow> 'a outcome" where
  "exec_op q (OpPush x) = queue_push q x"
| "exec_op q (OpPushBatch xs) = queue_push_batch q xs"
| "exec_op q OpPop = queue_pop q"
| "exec_op q (OpPopBatch n) = queue_pop_batch q n"
| "exec_op q OpShutdown = queue_signal_shutdown q"
| "exec_op q OpGetSize = queue_get_size q"

text \<open>The room a producer asks for, and the items an operation adds to or takes from the queue.\<close>

fun demand :: "'a qop \<Rightarrow> nat" where
  "demand (OpPush x) = 1"
| "demand (OpPushBatch xs) = length xs"
| "demand _ = 0"

fun consumer :: "'a qop \<Rightarrow> bool" where
  "consumer OpPop = True"
| "consumer (OpPopBatch n) = True"
| "consumer _ = False"

fun offered :: "'a qop \<Rightarrow> 'a list" where
  "offered (OpPush x) = [x]"
| "offered (OpPushBatch xs) = xs"
| "offered _ = []"

fun ret_items :: "'a ret \<Rightarrow> 'a list" where
  "ret_items (RetItem x) = [x]"
| "ret_items (RetItems xs) = xs"
| "ret_items _ = []"

definition added :: "'a cqueue \<Rightarrow> 'a qop \<Rightarrow> 'a list" where
  "added q op = (if shutdown q then [] else offered op)"

text \<open>Batch requests of the program name at least one item.\<close>

fun valid_op :: "'a qop \<Rightarrow> bool" where
  "valid_op (OpPopBatch n) = (0 < n)"
| "valid_op _ = True"

lemmas queue_ops = queue_push_def queue_push_batch_def queue_pop_def queue_pop_batch_def
  queue_signal_shutdown_def queue_get_size_def

lemma exec_op_waits:
  assumes "queue_ok q"
  shows "exec_op q op = WaitOnEmpty \<longleftrightarrow> consumer op \<and> size q = 0 \<and> \<not> shutdown q"
    and "exec_op q op = WaitOnFull \<longleftrightarrow> capacity q - size q < demand op \<and> \<not> shutdown q"
  using assms
  by (cases op; auto simp: queue_ops queue_ok_def Let_def split: prod.splits if_splits)+

lemma queue_ok_shutdown [simp]:
  "queue_ok (q\<lparr>shutdown := b\<rparr>) = queue_ok q" "queue_contents (q\<lparr>shutdown := b\<rparr>) = queue_contents q"
  by (simp_all add: queue_ok_def queue_contents_def slot_def)

text \<open>
  The law of every completed operation: what was in the queue followed by what is added equals
  what is returned followed by what is left.
\<close>

definition conserves :: "'a cqueue \<Rightarrow> 'a qop \<Rightarrow> 'a cqueue \<Rightarrow> 'a ret \<Rightarrow> bool" where
  "conserves q op q' r \<longleftrightarrow> queue_ok q' \<and> capacity q' = capacity q \<and>
     queue_contents q @ added q op = ret_items r @ queue_contents q' \<and>
     shutdown q' = (shutdown q \<or> op = OpShutdown)"

lemma take_head_shutdown [simp]: "shutdown (snd (take_head q)) = shutdown q"
  by (simp add: take_head_def)

lemma pop_loop_shutdown [simp]: "shutdown (snd (pop_loop n q items)) = shutdown q"
  by (induction n arbitrary: q items)
    (simp_all add: case_prod_unfold)

lemma queue_push_done:
  assumes "queue_ok q" and "queue_push q x = Done q' r w"
  shows "conserves q (OpPush x) q' r \<and>
    (\<not> shutdown q \<longrightarrow> w = SignalEmpty \<and> size q' = size q + 1)"
proof (cases "shutdown q")
  case False
  with assms have "size q < capacity q" "q' = queue_enq q x" "w = SignalEmpty" "r = RetVoid"
    by (auto simp: queue_push_def queue_enq_def Let_def put_tail_def queue_ok_def split: if_splits)
  moreover have "shutdown (queue_enq q x) = shutdown q" "size (queue_enq q x) = size q + 1"
    by (simp_all add: queue_enq_def put_tail_def)
  ultimately show ?thesis
    using queue_enq_ok[OF assms(1), of x] False by (simp add: conserves_def added_def)
qed (use assms in \<open>auto simp: queue_push_def conserves_def added_def\<close>)

lemma queue_push_batch_done:
  assumes "queue_ok q" and "queue_push_batch q xs = Done q' r w"
  shows "conserves q (OpPushBatch xs) q' r \<and>
    (\<not> shutdown q \<longrightarrow> (if xs = [] then w = NoWake \<and> q' = q else w = BroadcastEmpty))"
proof (cases "shutdown q \<or> xs = []")
  case False
  with assms have "size q + length xs \<le> capacity q" "w = BroadcastEmpty" "r = RetVoid"
      "q' = (push_loop q xs)\<lparr>size := size q + length xs\<rparr>"
    by (auto simp: queue_push_batch_def Let_def queue_ok_def split: if_splits)
  with push_loop_ok[OF assms(1), of xs] False show ?thesis
    by (simp add: conserves_def added_def)
qed (use assms in \<open>auto simp: queue_push_batch_def conserves_def added_def split: if_splits\<close>)

lemma queue_pop_done:
  assumes "queue_ok q" and "queue_pop q = Done q' r w"
  shows "conserves q OpPop q' r \<and>
    (if size q = 0 then r = RetNull \<and> q' = q \<and> w = NoWake \<and> shutdown q
     else w = SignalFull \<and> r = RetItem (hd (queue_contents q)) \<and> size q' = size q - 1)"
proof (cases "queue_contents q")
  case Nil
  then have "size q = 0" using length_queue_contents[of q] by simp
  with assms show ?thesis by (auto simp: queue_pop_def conserves_def added_def split: if_splits)
next
  case (Cons x xs)
  then have sz: "size q = Suc (length xs)" using length_queue_contents[of q] by simp
  from take_head_ok[OF assms(1) Cons] obtain q1 where
    q1: "take_head q = (Some x, q1)" "queue_ok q1" "capacity q1 = capacity q" "queue_contents q1 = xs"
    by blast
  then have "q' = q1 \<and> r = RetItem x \<and> w = SignalFull" using assms(2) sz by (simp add: queue_pop_def)
  moreover have "shutdown q1 = shutdown q" using take_head_shutdown[of q] q1 by simp
  moreover have "size q1 = length xs" using length_queue_contents[of q1] q1 by simp
  ultimately show ?thesis using q1 Cons sz by (auto simp: conserves_def added_def)
qed

lemma queue_pop_batch_done:
  assumes "queue_ok q" and "queue_pop_batch q n = Done q' r w"
  shows "conserves q (OpPopBatch n) q' r \<and> r = RetItems (take n (queue_contents q)) \<and>
    (if size q = 0 then q' = q \<and> w = NoWake \<and> shutdown q else size q' = size q - n \<and> (0 < n \<longrightarrow> w = SignalFull))"
proof (cases "size q = 0")
  case True
  with assms show ?thesis
    by (auto simp: queue_pop_batch_def conserves_def added_def queue_contents_def split: if_splits)
next
  case False
  let ?k = "if size q < n then size q else n"
  have "?k \<le> size q" by simp
  from pop_loop_ok[OF assms(1) this] obtain q1 where
    q1: "pop_loop ?k q [] = (take ?k (queue_contents q), q1)" "queue_ok q1" "capacity q1 = capacity q"
      "queue_contents q1 = drop ?k (queue_contents q)" by blast
  have k: "take ?k (queue_contents q) = take n (queue_contents q)" by simp
  from q1 False assms(2) have "q' = q1" "r = RetItems (take n (queue_contents q))"
      "0 < n \<longrightarrow> w = SignalFull"
    by (auto simp: queue_pop_batch_def Let_def split: if_splits)
  moreover have "shutdown q1 = shutdown q" using pop_loop_shutdown[of ?k q "[]"] q1(1) by simp
  moreover have "size q1 = size q - n" using length_queue_contents[of q1] q1(4) by (simp split: if_splits)
  ultimately show ?thesis using q1 k False by (simp add: conserves_def added_def)
qed

lemma exec_op_conserves:
  assumes "queue_ok q" and "exec_op q op = Done q' r w"
  shows "conserves q op q' r"
proof (cases op)
  case OpShutdown
  with assms show ?thesis by (auto simp: queue_ops conserves_def added_def)
next
  case OpGetSize
  with assms show ?thesis by (auto simp: queue_ops conserves_def added_def)
qed (use assms queue_push_done queue_push_batch_done queue_pop_done queue_pop_batch_done in fastforce)+

section \<open>Threads\<close>

text \<open>
  A thread is idle, about to take the mutex for an operation (on entry or after a wakeup),
  or waiting on one of the two condition variables. \<open>pushed\<close> and \<open>popped\<close> record the items
  accepted and returned, in the order of the critical sections.
\<close>

datatype 'a tstate = Idle | Ready "'a qop" | WaitFull "'a qop" | WaitEmpty "'a qop"

record 'a qsys =
  queue :: "'a cqueue"
  threads :: "'a tstate list"
  pushed :: "'a list"
  popped :: "'a list"

fun wait_full :: "'a tstate \<Rightarrow> bool" where
  "wait_full (WaitFull op) = True"
| "wait_full _ = False"

fun wait_empty :: "'a tstate \<Rightarrow> bool" where
  "wait_empty (WaitEmpty op) = True"
| "wait_empty _ = False"

fun wake_up :: "'a tstate \<Rightarrow> 'a tstate" where
  "wake_up (WaitFull op) = Ready op"
| "wake_up (WaitEmpty op) = Ready op"
| "wake_up t = t"

text \<open>A signal wakes one of the waiting threads, chosen by the system, if there is one.\<close>

definition signal :: "('a tstate \<Rightarrow> bool) \<Rightarrow> nat \<Rightarrow> 'a tstate list \<Rightarrow> 'a tstate list option" where
  "signal P j ts =
     (if \<not> list_ex P ts then Some ts
      else if j < length ts \<and> P (ts ! j) then Some (ts[j := wake_up (ts ! j)])
      else None)"

fun notify :: "wake \<Rightarrow> nat \<Rightarrow> 'a tstate list \<Rightarrow> 'a tstate list option" where
  "notify NoWake j ts = Some ts"
| "notify SignalFull j ts = signal wait_full j ts"
| "notify SignalEmpty j ts = signal wait_empty j ts"
| "notify BroadcastEmpty j ts = Some (map (\<lambda>t. if wait_empty t then wake_up t else t) ts)"
| "notify BroadcastAll j ts = Some (map wake_up ts)"

text \<open>
  The events: thread \<open>i\<close> calls an operation; it gets the mutex and runs (a signal it sends goes
  to thread \<open>j\<close>); it returns from its wait without a signal. \<open>ok i op\<close> says which calls the
  program makes from which thread.
\<close>

datatype 'a event = Call nat "'a qop" | Run nat nat | Spurious nat

fun perform :: "(nat \<Rightarrow> 'a qop \<Rightarrow> bool) \<Rightarrow> 'a qsys \<Rightarrow> 'a event \<Rightarrow> 'a qsys option" where
  "perform ok s (Call i op) =
     (if i < length (threads s) \<and> threads s ! i = Idle \<and> ok i op
      then Some (s\<lparr>threads := (threads s)[i := Ready op]\<rparr>) else None)"
| "perform ok s (Run i j) =
     (if i < length (threads s) then
        (case threads s ! i of
           Ready op \<Rightarrow>
             (case exec_op (queue s) op of
                WaitOnFull \<Rightarrow> Some (s\<lparr>threads := (threads s)[i := WaitFull op]\<rparr>)
              | WaitOnEmpty \<Rightarrow> Some (s\<lparr>threads := (threads s)[i := WaitEmpty op]\<rparr>)
              | Done q r w \<Rightarrow>
                  do { ts \<leftarrow> notify w j ((threads s)[i := Idle]);
                       Some (s\<lparr>queue := q, threads := ts,
                               pushed := pushed s @ added (queue s) op,
                               popped := popped s @ ret_items r\<rparr>) })
         | _ \<Rightarrow> None)
      else None)"
| "perform ok s (Spurious i) =
     (if i < length (threads s) then Some (s\<lparr>threads := (threads s)[i := wake_up (threads s ! i)]\<rparr>)
      else None)"

inductive reachable :: "(nat \<Rightarrow> 'a qop \<Rightarrow> bool) \<Rightarrow> 'a qsys \<Rightarrow> 'a qsys \<Rightarrow> bool" for ok s0 where
  start: "reachable ok s0 s0"
| step: "reachable ok s0 s \<Longrightarrow> perform ok s e = Some s' \<Longrightarrow> reachable ok s0 s'"

definition initial :: "'a cqueue \<Rightarrow> nat \<Rightarrow> 'a qsys" where
  "initial q n = \<lparr>queue = q, threads = replicate n Idle, pushed = [], popped = []\<rparr>"

fun perform_all :: "(nat \<Rightarrow> 'a qop \<Rightarrow> bool) \<Rightarrow> 'a qsys \<Rightarrow> 'a event list \<Rightarrow> 'a qsys option" where
  "perform_all ok s [] = Some s"
| "perform_all ok s (e # es) = do { s \<leftarrow> perform ok s e; perform_all ok s es }"

lemma perform_all_reachable:
  "perform_all ok s es = Some s' \<Longrightarrow> reachable ok s0 s \<Longrightarrow> reachable ok s0 s'"
  by (induction es arbitrary: s) (auto intro: reachable.step split: bind_splits)

subsection \<open>Invariants\<close>

fun in_call :: "'a qop \<Rightarrow> 'a tstate \<Rightarrow> bool" where
  "in_call op Idle = False"
| "in_call op (Ready op') = (op = op')"
| "in_call op (WaitFull op') = (op = op')"
| "in_call op (WaitEmpty op') = (op = op')"

fun ready_consumer :: "'a tstate \<Rightarrow> bool" where
  "ready_consumer (Ready op) = consumer op"
| "ready_consumer _ = False"

definition waiting :: "'a tstate list \<Rightarrow> bool" where
  "waiting ts = (list_ex wait_full ts \<or> list_ex wait_empty ts)"

text \<open>The history of a system: nothing is lost, duplicated or reordered.\<close>

definition fifo :: "'a qsys \<Rightarrow> bool" where
  "fifo s \<longleftrightarrow> queue_ok (queue s) \<and> pushed s = popped s @ queue_contents (queue s)"

lemma perform_fifo:
  assumes "fifo s" and "perform ok s e = Some s'"
  shows "fifo s' \<and> capacity (queue s') = capacity (queue s)"
  using assms
proof (cases e)
  case (Run i j)
  with assms(2) obtain op where op: "threads s ! i = Ready op"
    by (auto split: if_splits tstate.splits)
  have ok: "queue_ok (queue s)" using assms(1) by (simp add: fifo_def)
  show ?thesis
  proof (cases "exec_op (queue s) op")
    case (Done q r w)
    with assms Run op exec_op_conserves[OF ok Done] show ?thesis
      by (auto simp: fifo_def conserves_def split: if_splits bind_splits)
  qed (use assms Run op in \<open>auto simp: fifo_def split: if_splits\<close>)
qed (auto simp: fifo_def split: if_splits)

lemma reachable_fifo:
  assumes "reachable ok (initial q n) s" and "queue_ok q" and "size q = 0"
  shows "fifo s \<and> capacity (queue s) = capacity q"
  using assms(1)
proof induction
  case start
  from assms(2,3) show ?case by (simp add: fifo_def initial_def queue_contents_def)
next
  case (step s e s')
  with perform_fifo[of s ok e s'] show ?case by simp
qed

text \<open>
  No wakeup of a consumer is lost: while a consumer waits, the items in the queue are no more
  than the consumers that are about to look. After the shutdown nobody waits.
\<close>

fun ts_ok :: "'a tstate \<Rightarrow> bool" where
  "ts_ok Idle = True"
| "ts_ok (Ready op) = valid_op op"
| "ts_ok (WaitFull op) = (0 < demand op \<and> valid_op op)"
| "ts_ok (WaitEmpty op) = (consumer op \<and> valid_op op)"

abbreviation n_ready :: "'a tstate list \<Rightarrow> nat" where
  "n_ready ts \<equiv> length (filter ready_consumer ts)"

definition no_lost_wakeup :: "'a qsys \<Rightarrow> bool" where
  "no_lost_wakeup s \<longleftrightarrow> list_all ts_ok (threads s) \<and>
     (shutdown (queue s) \<longrightarrow> \<not> waiting (threads s)) \<and>
     (list_ex wait_empty (threads s) \<longrightarrow> size (queue s) \<le> n_ready (threads s))"

lemma list_all_update: "list_all P ts \<Longrightarrow> P t \<Longrightarrow> list_all P (ts[i := t])"
  by (auto simp: list_all_iff dest: set_update_subset_insert[THEN subsetD])

lemma list_ex_update: "list_ex P (ts[i := t]) \<Longrightarrow> \<not> P t \<Longrightarrow> list_ex P ts"
  by (auto simp: list_ex_iff dest: set_update_subset_insert[THEN subsetD])

lemma wake_up_simps [simp]:
  "\<not> wait_full (wake_up t)" "\<not> wait_empty (wake_up t)" "ts_ok t \<Longrightarrow> ts_ok (wake_up t)"
  "ready_consumer t \<Longrightarrow> ready_consumer (wake_up t)"
  "wait_empty t \<Longrightarrow> ts_ok t \<Longrightarrow> ready_consumer (wake_up t)" "wait_empty t \<Longrightarrow> \<not> ready_consumer t"
  by (cases t; simp)+

lemma n_ready_map: "(\<And>t. ready_consumer t \<Longrightarrow> ready_consumer (f t)) \<Longrightarrow> n_ready ts \<le> n_ready (map f ts)"
  by (induction ts) auto

lemma n_ready_wake: "n_ready ts \<le> n_ready (ts[j := wake_up (ts ! j)])"
proof (cases "j < length ts")
  case True
  then show ?thesis using length_filter_update[OF True, of ready_consumer "wake_up (ts ! j)"]
    by (auto split: if_splits)
qed (simp add: list_update_beyond)

lemma signal_spec:
  assumes "signal P j ts = Some ts'" and "list_all ts_ok ts"
  shows "list_all ts_ok ts' \<and> (waiting ts' \<longrightarrow> waiting ts) \<and>
    (list_ex wait_empty ts' \<longrightarrow> list_ex wait_empty ts) \<and> n_ready ts \<le> n_ready ts' \<and>
    (P = wait_empty \<and> list_ex wait_empty ts' \<longrightarrow> n_ready ts < n_ready ts')"
proof (cases "list_ex P ts")
  case True
  with assms(1) have j: "j < length ts" "P (ts ! j)" "ts' = ts[j := wake_up (ts ! j)]"
    by (auto simp: signal_def split: if_splits)
  have t: "ts_ok (ts ! j)" using j assms(2) by (simp add: list_all_length)
  have "n_ready ts < n_ready ts'" if "P = wait_empty"
    using length_filter_update[OF j(1), of ready_consumer "wake_up (ts ! j)"] j t that by simp
  with j t assms(2) n_ready_wake[of ts j] show ?thesis
    by (auto simp: waiting_def intro: list_all_update dest: list_ex_update)
qed (use assms in \<open>auto simp: signal_def\<close>)

lemma broadcast_spec:
  assumes "list_all ts_ok ts" and "\<And>t. f t = t \<or> f t = wake_up t"
  shows "list_all ts_ok (map f ts)" "waiting (map f ts) \<longrightarrow> waiting ts"
    "list_ex wait_empty (map f ts) \<longrightarrow> list_ex wait_empty ts" "n_ready ts \<le> n_ready (map f ts)"
proof -
  have f: "ts_ok t \<Longrightarrow> ts_ok (f t)" "wait_full (f t) \<Longrightarrow> wait_full t"
      "wait_empty (f t) \<Longrightarrow> wait_empty t" "ready_consumer t \<Longrightarrow> ready_consumer (f t)" for t
    using assms(2)[of t] by auto
  show "list_all ts_ok (map f ts)" using assms(1) f(1) by (auto simp: list_all_iff)
  show "waiting (map f ts) \<longrightarrow> waiting ts" using f(2,3) by (auto simp: waiting_def list_ex_iff)
  show "list_ex wait_empty (map f ts) \<longrightarrow> list_ex wait_empty ts" using f(3) by (auto simp: list_ex_iff)
  show "n_ready ts \<le> n_ready (map f ts)" by (rule n_ready_map) (rule f(4))
qed

lemma notify_spec:
  assumes "notify w j ts = Some ts'" and "list_all ts_ok ts"
  shows "list_all ts_ok ts' \<and> (waiting ts' \<longrightarrow> waiting ts) \<and>
    (list_ex wait_empty ts' \<longrightarrow> list_ex wait_empty ts) \<and> n_ready ts \<le> n_ready ts' \<and>
    (w = SignalEmpty \<longrightarrow> list_ex wait_empty ts' \<longrightarrow> n_ready ts < n_ready ts') \<and>
    (w = BroadcastEmpty \<longrightarrow> \<not> list_ex wait_empty ts') \<and>
    (w = BroadcastAll \<longrightarrow> \<not> waiting ts')"
proof (cases w)
  case BroadcastEmpty
  let ?f = "\<lambda>t. if wait_empty t then wake_up t else t"
  have "\<not> list_ex wait_empty (map ?f ts)" by (auto simp: list_ex_iff)
  with broadcast_spec[OF assms(2), of ?f] assms(1) BroadcastEmpty show ?thesis by auto
next
  case BroadcastAll
  have "\<not> waiting (map wake_up ts)" by (auto simp: list_ex_iff waiting_def)
  with broadcast_spec[OF assms(2), of wake_up] assms(1) BroadcastAll show ?thesis by auto
qed (use assms signal_spec[of _ j ts ts'] in auto)

text \<open>How the size moves with the signal sent, for an operation that completes before the shutdown.\<close>

lemma exec_op_sizes:
  assumes "queue_ok q" and "exec_op q op = Done q' r w" and "\<not> shutdown q" and "valid_op op"
  shows "(if consumer op then size q' < size q
     else w = SignalEmpty \<and> size q' = size q + 1 \<or> w = BroadcastEmpty \<or> w = BroadcastAll \<or> size q' = size q)"
proof (cases op)
  case (OpPush x)
  with assms queue_push_done[of q x q' r w] show ?thesis by simp
next
  case (OpPushBatch xs)
  with assms queue_push_batch_done[of q xs q' r w] show ?thesis by (auto split: if_splits)
next
  case OpPop
  with assms queue_pop_done[of q q' r w] show ?thesis by (auto split: if_splits)
next
  case (OpPopBatch n)
  with assms queue_pop_batch_done[of q n q' r w] show ?thesis by (auto split: if_splits)
qed (use assms in \<open>auto simp: queue_ops\<close>)

lemma run_done_wakeup:
  assumes "fifo s" "no_lost_wakeup s" "i < length (threads s)" "threads s ! i = Ready op"
    and ex: "exec_op (queue s) op = Done q r w"
    and nt: "notify w j ((threads s)[i := Idle]) = Some ts"
  shows "list_all ts_ok ts \<and> (shutdown q \<longrightarrow> \<not> waiting ts) \<and>
    (list_ex wait_empty ts \<longrightarrow> size q \<le> n_ready ts)"
proof -
  let ?ts = "(threads s)[i := Idle]" and ?q = "queue s"
  have ok: "queue_ok ?q" using assms(1) by (simp add: fifo_def)
  have tok: "list_all ts_ok ?ts" "valid_op op"
    using assms(2-4) list_all_length[of ts_ok "threads s"]
    by (auto simp: no_lost_wakeup_def intro!: list_all_update)
  have n: "n_ready ?ts + (if consumer op then 1 else 0) = n_ready (threads s)"
    using length_filter_update[OF assms(3), of ready_consumer Idle] assms(4) by simp
  have w: "waiting ?ts \<Longrightarrow> waiting (threads s)"
      "list_ex wait_empty ?ts \<Longrightarrow> list_ex wait_empty (threads s)"
    by (auto simp: waiting_def dest: list_ex_update)
  note ns = notify_spec[OF nt tok(1)]
  have sd: "shutdown q = (shutdown ?q \<or> op = OpShutdown)"
    using exec_op_conserves[OF ok ex] by (simp add: conserves_def)
  have closed: "\<not> waiting ts" if "shutdown q"
    using that sd assms(2) ns w ex by (auto simp: no_lost_wakeup_def queue_signal_shutdown_def)
  have "size q \<le> n_ready ts" if we: "list_ex wait_empty ts"
  proof -
    have "\<not> shutdown q" using closed we by (auto simp: waiting_def)
    with sd have "\<not> shutdown ?q" by simp
    moreover have "size ?q \<le> n_ready (threads s)"
      using assms(2) ns we w(2) by (simp add: no_lost_wakeup_def)
    ultimately show ?thesis
      using exec_op_sizes[OF ok ex _ tok(2)] ns n we by (auto simp: waiting_def split: if_splits)
  qed
  with closed ns show ?thesis by blast
qed

lemma perform_wakeup:
  assumes "fifo s" and "no_lost_wakeup s" and "perform ok s e = Some s'"
    and calls: "\<And>i op. ok i op \<Longrightarrow> valid_op op"
  shows "no_lost_wakeup s'"
proof (cases e)
  case (Call i op)
  with assms(3) have i: "i < length (threads s)" "threads s ! i = Idle" "ok i op"
      "s' = s\<lparr>threads := (threads s)[i := Ready op]\<rparr>"
    by (auto split: if_splits)
  then have "n_ready (threads s) \<le> n_ready ((threads s)[i := Ready op])"
    using length_filter_update[OF i(1), of ready_consumer "Ready op"] by (auto split: if_splits)
  with i assms(2) calls show ?thesis
    by (auto simp: no_lost_wakeup_def waiting_def intro: list_all_update dest: list_ex_update)
next
  case (Run i j)
  with assms(3) obtain op where i: "i < length (threads s)" "threads s ! i = Ready op"
    by (auto split: if_splits tstate.splits)
  have ok: "queue_ok (queue s)" using assms(1) by (simp add: fifo_def)
  have op: "valid_op op"
    using assms(2) i list_all_length[of ts_ok "threads s"] by (auto simp: no_lost_wakeup_def)
  show ?thesis
  proof (cases "exec_op (queue s) op")
    case WaitOnFull
    with Run assms(3) i have s': "s' = s\<lparr>threads := (threads s)[i := WaitFull op]\<rparr>" by simp
    from WaitOnFull exec_op_waits[OF ok, of op] have "0 < demand op" "\<not> shutdown (queue s)" by auto
    moreover from this have "\<not> consumer op" by (cases op) auto
    ultimately show ?thesis
      using s' i op assms(2) length_filter_update[OF i(1), of ready_consumer "WaitFull op"]
      by (auto simp: no_lost_wakeup_def intro: list_all_update dest: list_ex_update)
  next
    case WaitOnEmpty
    with Run assms(3) i have s': "s' = s\<lparr>threads := (threads s)[i := WaitEmpty op]\<rparr>" by simp
    from WaitOnEmpty exec_op_waits[OF ok, of op] s' op assms(2) show ?thesis
      by (auto simp: no_lost_wakeup_def intro: list_all_update)
  next
    case (Done q r w)
    with Run assms(3) i obtain ts where "notify w j ((threads s)[i := Idle]) = Some ts"
        "threads s' = ts" "queue s' = q"
      by (auto split: bind_splits)
    with run_done_wakeup[OF assms(1,2) i Done] show ?thesis by (simp add: no_lost_wakeup_def)
  qed
next
  case (Spurious i)
  with assms(3) have i: "i < length (threads s)"
      "s' = s\<lparr>threads := (threads s)[i := wake_up (threads s ! i)]\<rparr>" by (auto split: if_splits)
  have "ts_ok (threads s ! i)"
    using assms(2) i list_all_length[of ts_ok "threads s"] by (auto simp: no_lost_wakeup_def)
  with i assms(2) n_ready_wake[of "threads s" i] show ?thesis
    by (auto simp: no_lost_wakeup_def waiting_def intro: list_all_update dest: list_ex_update)
qed

lemma reachable_wakeup:
  assumes "reachable ok (initial q n) s" and "queue_ok q" and "size q = 0"
    and "\<And>i op. ok i op \<Longrightarrow> valid_op op"
  shows "no_lost_wakeup s"
  using assms(1)
proof induction
  case start
  show ?case by (simp add: no_lost_wakeup_def initial_def waiting_def list_all_iff list_ex_iff)
next
  case (step s e s')
  with reachable_fifo[OF step.hyps(1) assms(2,3)] perform_wakeup[of s ok e s'] assms(4) show ?case
    by blast
qed

subsection \<open>One producer\<close>

text \<open>
  \<open>queue_pop_batch\<close> frees several places and signals one producer, so the producers' side is
  free of lost wakeups only when one thread \<open>p\<close> produces, as in the profiler.
\<close>

fun tdemand :: "'a tstate \<Rightarrow> nat" where
  "tdemand Idle = 0"
| "tdemand (Ready op) = demand op"
| "tdemand (WaitFull op) = demand op"
| "tdemand (WaitEmpty op) = demand op"

definition one_producer :: "nat \<Rightarrow> 'a qsys \<Rightarrow> bool" where
  "one_producer p s \<longleftrightarrow>
     (\<forall>i < length (threads s). 0 < tdemand (threads s ! i) \<longrightarrow> i = p) \<and>
     (\<forall>i < length (threads s). wait_full (threads s ! i) \<longrightarrow>
        capacity (queue s) - size (queue s) < tdemand (threads s ! i))"

lemma tdemand_wake_up [simp]: "tdemand (wake_up t) = tdemand t"
  by (cases t) simp_all

lemma notify_nth:
  assumes "notify w j ts = Some ts'" and "i < length ts"
  shows "length ts' = length ts \<and> tdemand (ts' ! i) = tdemand (ts ! i) \<and>
    (wait_full (ts' ! i) \<longrightarrow> ts' ! i = ts ! i)"
  using assms
  by (cases w) (auto simp: signal_def nth_list_update split: if_splits)

lemma notify_length: "notify w j ts = Some ts' \<Longrightarrow> length ts' = length ts"
  by (cases w) (auto simp: signal_def split: if_splits)

lemma exec_op_signals:
  assumes "queue_ok q" and "exec_op q op = Done q' r w" and "valid_op op"
  shows "w = SignalFull \<or> (w = NoWake \<and> q' = q) \<or> w = BroadcastAll \<or> 0 < demand op"
proof (cases op)
  case (OpPushBatch xs)
  with assms show ?thesis by (cases xs) (auto simp: queue_push_batch_def)
next
  case OpPop
  with assms queue_pop_done[of q q' r w] show ?thesis by (auto split: if_splits)
next
  case (OpPopBatch n)
  with assms queue_pop_batch_done[of q n q' r w] show ?thesis by (auto split: if_splits)
qed (use assms in \<open>auto simp: queue_ops\<close>)

lemma one_producer_update:
  assumes "one_producer p s" and "0 < tdemand t \<longrightarrow> i = p"
    and "wait_full t \<longrightarrow> capacity (queue s) - size (queue s) < tdemand t"
  shows "one_producer p (s\<lparr>threads := (threads s)[i := t]\<rparr>)"
  using assms by (auto simp: one_producer_def nth_update_if split: if_splits)

text \<open>A producer that still waits after another thread's operation saw no change of the queue.\<close>

lemma run_done_producer:
  assumes "queue_ok (queue s)" "list_all ts_ok (threads s)" "one_producer p s"
    and i: "i < length (threads s)" "threads s ! i = Ready op" "valid_op op"
    and ex: "exec_op (queue s) op = Done q r w"
    and nt: "notify w j ((threads s)[i := Idle]) = Some ts"
    and k: "k < length ts" "wait_full (ts ! k)"
  shows "q = queue s \<and> ts ! k = threads s ! k"
proof -
  have only_p: "k = p" if "k < length (threads s)" "wait_full (threads s ! k)" for k
    using that assms(2,3) by (cases "threads s ! k") (auto simp: one_producer_def list_all_length)
  have len: "length ts = length (threads s)" using notify_length[OF nt] by simp
  have tk: "ts ! k = (threads s)[i := Idle] ! k" using notify_nth[OF nt, of k] k len by simp
  then have ki: "k \<noteq> i" "ts ! k = threads s ! k" using k i(1) len by (auto simp: nth_update_if split: if_splits)
  then have kp: "k = p" using only_p[of k] k len by simp
  have "\<not> 0 < demand op" using i(1,2) ki kp assms(3) by (auto simp: one_producer_def)
  moreover have "w \<noteq> BroadcastAll" using nt k by auto
  moreover have "w \<noteq> SignalFull"
  proof
    assume "w = SignalFull"
    with nt have sg: "signal wait_full j ((threads s)[i := Idle]) = Some ts" by simp
    have "wait_full ((threads s)[i := Idle] ! k)" using k tk by simp
    then have "list_ex wait_full ((threads s)[i := Idle])"
      using k(1) len unfolding list_ex_length by auto
    with sg have j: "j < length (threads s)" "wait_full ((threads s)[i := Idle] ! j)" "\<not> wait_full (ts ! j)"
      by (auto simp: signal_def split: if_splits)
    then have "j = p" using only_p[of j] by (cases "j = i") auto
    with kp k(2) j(3) show False by simp
  qed
  ultimately show ?thesis using exec_op_signals[OF assms(1) ex i(3)] ki by auto
qed

lemma perform_one_producer:
  assumes "fifo s" "no_lost_wakeup s" "one_producer p s" "perform ok s e = Some s'"
    and calls: "\<And>i op. ok i op \<Longrightarrow> valid_op op \<and> (0 < demand op \<longrightarrow> i = p)"
  shows "one_producer p s'"
proof (cases e)
  case (Call i op)
  with assms(4) have "ok i op" "s' = s\<lparr>threads := (threads s)[i := Ready op]\<rparr>"
    by (auto split: if_splits)
  then show ?thesis using one_producer_update[OF assms(3)] calls[of i op] by simp
next
  case (Spurious i)
  with assms(4) have "i < length (threads s)" "s' = s\<lparr>threads := (threads s)[i := wake_up (threads s ! i)]\<rparr>"
    by (auto split: if_splits)
  then show ?thesis using assms(3)
    by (auto simp: one_producer_def nth_update_if split: if_splits)
next
  case (Run i j)
  with assms(4) obtain op where i: "i < length (threads s)" "threads s ! i = Ready op"
    by (auto split: if_splits tstate.splits)
  have ok: "queue_ok (queue s)" using assms(1) by (simp add: fifo_def)
  have all: "list_all ts_ok (threads s)" using assms(2) by (simp add: no_lost_wakeup_def)
  then have op: "valid_op op" using i list_all_length[of ts_ok "threads s"] by auto
  have ip: "0 < demand op \<longrightarrow> i = p" using assms(3) i by (auto simp: one_producer_def)
  show ?thesis
  proof (cases "exec_op (queue s) op")
    case WaitOnFull
    with Run assms(4) i have "s' = s\<lparr>threads := (threads s)[i := WaitFull op]\<rparr>" by simp
    with one_producer_update[OF assms(3), of "WaitFull op" i] ip WaitOnFull exec_op_waits(2)[OF ok, of op]
    show ?thesis by simp
  next
    case WaitOnEmpty
    with Run assms(4) i have "s' = s\<lparr>threads := (threads s)[i := WaitEmpty op]\<rparr>" by simp
    with one_producer_update[OF assms(3), of "WaitEmpty op" i] ip show ?thesis by simp
  next
    case (Done q r w)
    with Run assms(4) i obtain ts where nt: "notify w j ((threads s)[i := Idle]) = Some ts"
        and s': "threads s' = ts" "queue s' = q" by (auto split: bind_splits)
    have len: "length ts = length (threads s)" using notify_length[OF nt] by simp
    have "k = p" if "k < length ts" "0 < tdemand (ts ! k)" for k
      using notify_nth[OF nt, of k] assms(3) len that
      by (cases "k = i") (auto simp: one_producer_def)
    moreover have "capacity q - size q < tdemand (ts ! k)" if "k < length ts" "wait_full (ts ! k)" for k
      using run_done_producer[OF ok all assms(3) i op Done nt that] that assms(3) len
      by (simp add: one_producer_def)
    ultimately show ?thesis using s' by (simp add: one_producer_def)
  qed
qed

lemma reachable_one_producer:
  assumes "reachable ok (initial q n) s" and "queue_ok q" and "size q = 0"
    and "\<And>i op. ok i op \<Longrightarrow> valid_op op \<and> (0 < demand op \<longrightarrow> i = p)"
  shows "one_producer p s"
  using assms(1)
proof induction
  case start
  show ?case by (simp add: one_producer_def initial_def)
next
  case (step s e s')
  have "no_lost_wakeup s" by (rule reachable_wakeup[OF step.hyps(1) assms(2,3)]) (use assms(4) in blast)
  with step reachable_fifo[OF step.hyps(1) assms(2,3)] perform_one_producer[of s p ok e s'] assms(4)
  show ?case by blast
qed

subsection \<open>Batches larger than the queue\<close>

lemma in_call_wake_up: "in_call op (wake_up t) = in_call op t"
  by (cases t) simp_all

lemma notify_in_call:
  "notify w j ts = Some ts' \<Longrightarrow> i < length ts \<Longrightarrow> in_call op (ts' ! i) = in_call op (ts ! i)"
  by (cases w) (auto simp: signal_def nth_list_update in_call_wake_up split: if_splits)

lemma perform_length: "perform ok s e = Some s' \<Longrightarrow> length (threads s') = length (threads s)"
  by (cases e) (auto dest: notify_length split: if_splits tstate.splits outcome.splits bind_splits)

lemma perform_shutdown:
  assumes "fifo s" and "perform ok s e = Some s'" and "shutdown (queue s)"
  shows "shutdown (queue s')"
proof (cases e)
  case (Run i j)
  with assms(2) obtain op where op: "threads s ! i = Ready op"
    by (auto split: if_splits tstate.splits)
  show ?thesis
  proof (cases "exec_op (queue s) op")
    case (Done q r w)
    with exec_op_conserves[of "queue s" op q r w] assms Run op show ?thesis
      by (auto simp: conserves_def fifo_def split: if_splits bind_splits)
  qed (use assms Run op in \<open>auto split: if_splits\<close>)
qed (use assms in \<open>auto split: if_splits\<close>)

lemma perform_oversized:
  assumes "fifo s" and "i < length (threads s)" and "in_call (OpPushBatch xs) (threads s ! i)"
    and "capacity (queue s) < length xs" and "\<not> shutdown (queue s')" and "perform ok s e = Some s'"
  shows "i < length (threads s') \<and> in_call (OpPushBatch xs) (threads s' ! i)"
proof (cases e)
  case (Run k j)
  with assms(6) obtain op where k: "k < length (threads s)" "threads s ! k = Ready op"
    by (auto split: if_splits tstate.splits)
  have ok: "queue_ok (queue s)" using assms(1) by (simp add: fifo_def)
  show ?thesis
  proof (cases "exec_op (queue s) op")
    case (Done q r w)
    with Run assms(6) k obtain ts where nt: "notify w j ((threads s)[k := Idle]) = Some ts"
        and s': "threads s' = ts" "queue s' = q" by (auto split: bind_splits)
    have "\<not> shutdown (queue s)"
      using exec_op_conserves[OF ok Done] assms(5) s' by (simp add: conserves_def)
    then have "k \<noteq> i" using exec_op_waits(2)[OF ok, of op] k assms(3,4) Done by auto
    then have "in_call (OpPushBatch xs) ((threads s)[k := Idle] ! i)" using assms(3) by simp
    then show ?thesis
      using nt s' assms(2) notify_length[OF nt] notify_in_call[OF nt, of i] by simp
  qed (use Run assms k in \<open>auto simp: nth_list_update split: if_splits\<close>)
qed (use assms in \<open>auto simp: nth_list_update in_call_wake_up split: if_splits\<close>)

subsection \<open>Draining after the shutdown\<close>

text \<open>
  The consumer threads of the program call \<open>queue_pop_batch\<close> until it returns 0. \<open>drain\<close> is
  that loop on a queue nobody pushes to any more; \<open>fuel\<close> bounds its rounds and \<open>None\<close> means
  that it blocks or needs more rounds.
\<close>

fun drain :: "nat \<Rightarrow> 'a cqueue \<Rightarrow> nat \<Rightarrow> 'a list \<Rightarrow> ('a list \<times> 'a cqueue) option" where
  "drain 0 q n acc = None"
| "drain (Suc fuel) q n acc =
     (case queue_pop_batch q n of
        Done q (RetItems []) w \<Rightarrow> Some (acc, q)
      | Done q (RetItems xs) w \<Rightarrow> drain fuel q n (acc @ xs)
      | _ \<Rightarrow> None)"

lemma drain_all:
  assumes "queue_ok q" and "shutdown q" and "0 < n" and "size q < fuel"
  shows "\<exists>q'. drain fuel q n acc = Some (acc @ queue_contents q, q') \<and> size q' = 0"
  using assms
proof (induction fuel arbitrary: q acc)
  case (Suc fuel)
  obtain q' r w where d: "queue_pop_batch q n = Done q' r w"
    using exec_op_waits[OF Suc.prems(1), of "OpPopBatch n"] Suc.prems(2) by (cases "queue_pop_batch q n") auto
  have pb: "conserves q (OpPopBatch n) q' r" "r = RetItems (take n (queue_contents q))"
      "size q = 0 \<Longrightarrow> q' = q" "size q \<noteq> 0 \<Longrightarrow> size q' = size q - n"
    using queue_pop_batch_done[OF Suc.prems(1) d] by (metis (full_types))+
  have c: "take n (queue_contents q) @ queue_contents q' = queue_contents q" "queue_ok q'" "shutdown q'"
    using pb(1) Suc.prems(2) by (simp_all only: conserves_def added_def pb(2) ret_items.simps if_True append_Nil2 simp_thms)
  show ?case
  proof (cases "size q = 0")
    case True
    then have "queue_contents q = []" by (simp add: queue_contents_def)
    with d pb(2,3) True show ?thesis by simp
  next
    case False
    then obtain x xs where t: "take n (queue_contents q) = x # xs"
      using Suc.prems(3) by (cases "queue_contents q"; cases n) (auto simp: queue_contents_def)
    have "size q' < fuel" using pb(4) False Suc.prems(3,4) by simp
    from Suc.IH[OF c(2,3) Suc.prems(3) this, of "acc @ x # xs"]
    obtain q2 where ih: "drain fuel q' n (acc @ x # xs) = Some ((acc @ x # xs) @ queue_contents q', q2)" "size q2 = 0"
      by blast
    have "drain (Suc fuel) q n acc = drain fuel q' n (acc @ x # xs)" using d pb(2) t by simp
    moreover have "(acc @ x # xs) @ queue_contents q' = acc @ queue_contents q" using c(1) t by simp
    ultimately show ?thesis using ih by simp
  qed
qed simp

section \<open>Properties\<close>

definition fresh_queue :: "nat \<Rightarrow> 'a cqueue" where
  "fresh_queue cap = \<lparr>q_block = 0, buf_block = 1, buffer = replicate cap None, capacity = cap,
     size = 0, head = 0, tail = 0, shutdown = False\<rparr>"

text \<open>\<open>queue_init\<close> makes an empty queue; a failed request is undone.\<close>

lemma queue_init_spec:
  assumes "heap_ok h"
  shows "\<exists>h' r. queue_init h cap = Some (h', r) \<and> heap_ok h' \<and>
    (case r of
       None \<Rightarrow> live h' = live h
     | Some q \<Rightarrow> (0 < cap \<longrightarrow> queue_ok q) \<and> size q = 0 \<and> \<not> shutdown q \<and> capacity q = cap \<and>
         (\<exists>h''. queue_destroy h' (Some q) = Some h'' \<and> live h'' = live h))"
proof -
  obtain h1 r1 where h1: "malloc h 168 = (h1, r1)" by (cases "malloc h 168")
  show ?thesis
  proof (cases r1)
    case None
    with h1 heap_ok_malloc[OF assms h1] malloc_None[of h 168 h1] show ?thesis
      by (auto simp: queue_init_def)
  next
    case (Some qb)
    obtain h2 r2 where h2: "malloc h1 (8 * cap) = (h2, r2)" by (cases "malloc h1 (8 * cap)")
    have ok1: "heap_ok h1" and ok2: "heap_ok h2"
      using heap_ok_malloc[OF assms h1] heap_ok_malloc[OF _ h2] by auto
    have l1: "live h1 = (live h)(qb \<mapsto> 168)" "live h qb = None"
      using malloc_Some malloc_fresh[OF assms] h1 Some by auto
    show ?thesis
    proof (cases r2)
      case None
      with h1 h2 Some l1 ok2 malloc_None[of h1 "8 * cap" h2] show ?thesis
        by (auto simp: queue_init_def free_block_def heap_ok_def fun_eq_iff)
    next
      case (Some bb)
      have l2: "live h2 = (live h1)(bb \<mapsto> 8 * cap)" "live h1 bb = None"
        using malloc_Some malloc_fresh[OF ok1] h2 Some by auto
      from l1 l2 have "bb \<noteq> qb" by auto
      with h1 h2 \<open>r1 = Some qb\<close> Some l1 l2 ok2 show ?thesis
        by (auto simp: queue_init_def queue_destroy_def free_block_def queue_ok_def slot_def fun_eq_iff)
    qed
  qed
qed

lemma queue_ok_fresh: "0 < cap \<Longrightarrow> queue_ok (fresh_queue cap)" "size (fresh_queue cap) = 0"
  by (simp_all add: fresh_queue_def queue_ok_def slot_def)

text \<open>
  Runs used as witnesses: three threads on a queue of two places, of which the first pushes
  (and shuts down) and the others consume.
\<close>

definition role :: "nat \<Rightarrow> nat qop \<Rightarrow> bool" where
  "role i op = (valid_op op \<and> (0 < demand op \<longrightarrow> i = 0))"

definition after_events :: "nat event list \<Rightarrow> nat qsys" where
  "after_events es = the (perform_all role (initial (fresh_queue 2) 3) es)"

lemma after_events_reachable:
  "perform_all role (initial (fresh_queue 2) 3) es \<noteq> None \<Longrightarrow>
    reachable role (initial (fresh_queue 2) 3) (after_events es)"
  unfolding after_events_def by (rule perform_all_reachable[OF _ reachable.start]) auto

lemmas run_simps = after_events_def initial_def fresh_queue_def role_def queue_ops put_tail_def take_head_def
  signal_def nth_list_update numeral_3_eq_3 numeral_2_eq_2 queue_contents_def slot_def waiting_def

text \<open>
  C5. In every state the threads can reach, whatever the order of their critical sections,
  signals and spurious wakeups: the items accepted so far are the items returned so far
  followed by the items in the queue, in order, and the queue never holds more than its
  capacity. Nothing is lost, duplicated or reordered.
\<close>
theorem queue_fifo:
  assumes "reachable ok (initial q n) s" and "queue_ok q" and "size q = 0"
  shows "pushed s = popped s @ queue_contents (queue s) \<and> size (queue s) \<le> capacity q"
  using reachable_fifo[OF assms] by (auto simp: fifo_def queue_ok_def)

theorem queue_fifo_witness:
  "pushed (after_events [Call 0 (OpPush 7), Run 0 0, Call 1 OpPop, Run 1 0, Call 0 (OpPushBatch [8, 9]), Run 0 0])
     = [7, 8, 9] \<and>
   popped (after_events [Call 0 (OpPush 7), Run 0 0, Call 1 OpPop, Run 1 0, Call 0 (OpPushBatch [8, 9]), Run 0 0])
     = [7] \<and>
   pushed (after_events [Call 0 (OpPush 7), Run 0 0, Call 1 OpPop, Run 1 0, Call 0 (OpPushBatch [8, 9]), Run 0 0])
     = [7] @ queue_contents (queue
       (after_events [Call 0 (OpPush 7), Run 0 0, Call 1 OpPop, Run 1 0, Call 0 (OpPushBatch [8, 9]), Run 0 0]))"
proof -
  let ?es = "[Call 0 (OpPush 7), Run 0 0, Call 1 OpPop, Run 1 0, Call 0 (OpPushBatch [8, 9]), Run 0 0]"
  have "pushed (after_events ?es) = [7, 8, 9]" "popped (after_events ?es) = [7]" by (simp_all add: run_simps added_def)
  moreover have "perform_all role (initial (fresh_queue 2) 3) ?es \<noteq> None" by (simp add: run_simps)
  ultimately show ?thesis
    using queue_fifo[OF after_events_reachable queue_ok_fresh(1) queue_ok_fresh(2), of ?es] by simp
qed

text \<open>
  C6. No wakeup of a consumer is lost: when a thread waits for items and the queue is not
  empty, a consumer is about to take the mutex; and once the queue is shut down no thread
  waits any more.
\<close>
theorem queue_no_lost_wakeup:
  assumes "reachable ok (initial q n) s" and "queue_ok q" and "size q = 0"
    and "\<forall>i op. ok i op \<longrightarrow> valid_op op"
  shows "(list_ex wait_empty (threads s) \<longrightarrow> size (queue s) > 0 \<longrightarrow> list_ex ready_consumer (threads s)) \<and>
    (shutdown (queue s) \<longrightarrow> \<not> waiting (threads s))"
proof -
  have "\<not> list_ex ready_consumer (threads s) \<Longrightarrow> n_ready (threads s) = 0"
    by (simp add: list_ex_iff filter_empty_conv)
  moreover have "no_lost_wakeup s" by (rule reachable_wakeup[OF assms(1-3)]) (use assms(4) in blast)
  ultimately show ?thesis by (fastforce simp: no_lost_wakeup_def)
qed

theorem queue_no_lost_wakeup_witness:
  "list_ex wait_empty (threads (after_events [Call 1 OpPop, Run 1 0, Call 2 OpPop, Run 2 0, Call 0 (OpPush 7), Run 0 1])) \<and>
   list_ex ready_consumer (threads (after_events [Call 1 OpPop, Run 1 0, Call 2 OpPop, Run 2 0, Call 0 (OpPush 7), Run 0 1]))"
proof -
  let ?es = "[Call 1 OpPop, Run 1 0, Call 2 OpPop, Run 2 0, Call 0 (OpPush 7), Run 0 1]"
  have "list_ex wait_empty (threads (after_events ?es))" "0 < size (queue (after_events ?es))" by (simp_all add: run_simps)
  moreover have "perform_all role (initial (fresh_queue 2) 3) ?es \<noteq> None" by (simp add: run_simps)
  ultimately show ?thesis
    using queue_no_lost_wakeup[OF after_events_reachable queue_ok_fresh(1) queue_ok_fresh(2), of ?es]
    by (simp add: role_def)
qed

text \<open>
  With one producing thread no wakeup of the producer is lost: whenever it waits for room,
  the free room is smaller than what it asks for.
\<close>
theorem queue_producer_wakeup:
  assumes "reachable ok (initial q n) s" and "queue_ok q" and "size q = 0"
    and "\<forall>i op. ok i op \<longrightarrow> valid_op op \<and> (0 < demand op \<longrightarrow> i = p)"
    and "i < length (threads s)" and "threads s ! i = WaitFull op"
  shows "i = p \<and> capacity q - size (queue s) < demand op"
proof -
  have "one_producer p s"
    by (rule reachable_one_producer[OF assms(1-3)]) (use assms(4) in blast)
  moreover have "capacity (queue s) = capacity q" using reachable_fifo[OF assms(1-3)] by simp
  ultimately show ?thesis using assms(5,6) by (fastforce simp: one_producer_def)
qed

theorem queue_producer_wakeup_witness:
  "threads (after_events [Call 0 (OpPush 7), Run 0 0, Call 0 (OpPushBatch [8, 9]), Run 0 0]) ! 0 = WaitFull (OpPushBatch [8, 9]) \<and>
   2 - size (queue (after_events [Call 0 (OpPush 7), Run 0 0, Call 0 (OpPushBatch [8, 9]), Run 0 0])) < demand (OpPushBatch [8, 9 :: nat])"
proof -
  let ?es = "[Call 0 (OpPush 7), Run 0 0, Call 0 (OpPushBatch [8, 9]), Run 0 0]"
  have w: "threads (after_events ?es) ! 0 = WaitFull (OpPushBatch [8, 9])" "0 < length (threads (after_events ?es))"
    by (simp_all add: run_simps)
  have "perform_all role (initial (fresh_queue 2) 3) ?es \<noteq> None" by (simp add: run_simps)
  from queue_producer_wakeup[OF after_events_reachable[OF this] queue_ok_fresh(1) queue_ok_fresh(2) _ w(2,1), of 0] w(1)
  show ?thesis by (simp add: role_def fresh_queue_def)
qed

text \<open>
  A batch larger than the capacity never completes: in every continuation of the run in
  which the queue is not shut down, the thread that called \<open>queue_push_batch\<close> with it is still
  inside the call.
\<close>
theorem queue_oversized_batch_blocks:
  assumes "reachable ok (initial q n) s" and "queue_ok q" and "size q = 0"
    and "i < length (threads s)" and "in_call (OpPushBatch xs) (threads s ! i)"
    and "capacity q < length xs" and "reachable ok s s'" and "\<not> shutdown (queue s')"
  shows "in_call (OpPushBatch xs) (threads s' ! i)"
proof -
  have "fifo s' \<and> capacity (queue s') = capacity q \<and> i < length (threads s') \<and>
      (\<not> shutdown (queue s') \<longrightarrow> in_call (OpPushBatch xs) (threads s' ! i))"
    using assms(7)
  proof induction
    case start
    with reachable_fifo[OF assms(1-3)] assms(4,5) show ?case by simp
  next
    case (step s1 e s2)
    then have f: "fifo s2" "capacity (queue s2) = capacity q" using perform_fifo[of s1 ok e s2] by auto
    have "i < length (threads s2)" using perform_length[OF step.hyps(2)] step.IH by simp
    moreover have "in_call (OpPushBatch xs) (threads s2 ! i)" if "\<not> shutdown (queue s2)"
      using perform_oversized[of s1 i xs s2 ok e] perform_shutdown[of s1 ok e s2] step that assms(6) by auto
    ultimately show ?case using f by simp
  qed
  with assms(8) show ?thesis by simp
qed

theorem queue_oversized_batch_blocks_witness:
  "in_call (OpPushBatch [7, 8, 9 :: nat]) (threads (after_events [Call 0 (OpPushBatch [7, 8, 9]), Run 0 0, Spurious 0]) ! 0)"
proof -
  let ?es = "[Call 0 (OpPushBatch [7, 8, 9]), Run 0 0]"
  let ?s = "after_events ?es" and ?s' = "after_events (?es @ [Spurious 0])"
  have "perform_all role (initial (fresh_queue 2) 3) ?es \<noteq> None" by (simp add: run_simps)
  moreover have "perform role ?s (Spurious 0) = Some ?s'" by (simp add: run_simps)
  then have "reachable role ?s ?s'" by (rule reachable.step[OF reachable.start])
  moreover have "0 < length (threads ?s)" "in_call (OpPushBatch [7, 8, 9]) (threads ?s ! 0)"
      "\<not> shutdown (queue ?s')" by (simp_all add: run_simps)
  ultimately show ?thesis
    using queue_oversized_batch_blocks[OF after_events_reachable queue_ok_fresh(1) queue_ok_fresh(2), of ?es 0 "[7, 8, 9]" ?s']
    by (simp add: fresh_queue_def)
qed

text \<open>
  With two producers a wakeup can be lost: both wait on a full queue of two places, a
  consumer takes both items with one \<open>queue_pop_batch\<close>, which signals only the first producer.
  After that has pushed, a place is free, every other thread is idle, and the second producer
  still waits for room.
\<close>
theorem queue_two_producers_lost_wakeup:
  "\<exists>s. reachable (\<lambda>_. valid_op) (initial (fresh_queue 2) 3) s \<and>
     threads s = [Idle, WaitFull (OpPush (5 :: nat)), Idle] \<and> size (queue s) < capacity (queue s)"
proof -
  let ?es = "[Call 0 (OpPushBatch [1, 2 :: nat]), Run 0 0, Call 0 (OpPush 3), Run 0 0, Call 1 (OpPush 5), Run 1 0,
    Call 2 (OpPopBatch 2), Run 2 0, Run 0 0]"
  let ?s = "the (perform_all (\<lambda>_. valid_op) (initial (fresh_queue 2) 3) ?es)"
  have "perform_all (\<lambda>_. valid_op) (initial (fresh_queue 2) 3) ?es \<noteq> None" by (simp add: run_simps)
  then have "perform_all (\<lambda>_. valid_op) (initial (fresh_queue 2) 3) ?es = Some ?s"
    by (rule option.collapse[symmetric])
  then have "reachable (\<lambda>_. valid_op) (initial (fresh_queue 2) 3) ?s"
    by (rule perform_all_reachable[OF _ reachable.start])
  moreover have "threads ?s = [Idle, WaitFull (OpPush 5), Idle]" "size (queue ?s) < capacity (queue ?s)"
    by (simp_all add: run_simps)
  ultimately show ?thesis by blast
qed

text \<open>
  C28. After the shutdown the consumer loop ends, without blocking, within one round more than
  there are items, and has then received exactly the items that were in the queue, in order.
\<close>
theorem queue_shutdown_drains:
  assumes "reachable ok (initial q n) s" and "queue_ok q" and "size q = 0"
    and "shutdown (queue s)" and "0 < batch"
  shows "\<exists>q'. drain (size (queue s) + 1) (queue s) batch [] = Some (queue_contents (queue s), q') \<and>
    size q' = 0 \<and> pushed s = popped s @ queue_contents (queue s)"
proof -
  have "queue_ok (queue s)" "pushed s = popped s @ queue_contents (queue s)"
    using reachable_fifo[OF assms(1-3)] by (auto simp: fifo_def)
  with drain_all[of "queue s" batch "size (queue s) + 1" "[]"] assms(4,5) show ?thesis by simp
qed

theorem queue_shutdown_drains_witness:
  "\<exists>q'. drain 3 (queue (after_events [Call 0 (OpPushBatch [8, 9]), Run 0 0, Call 1 OpShutdown, Run 1 0])) 1 []
     = Some ([8, 9], q') \<and> size q' = 0"
proof -
  let ?es = "[Call 0 (OpPushBatch [8, 9]), Run 0 0, Call 1 OpShutdown, Run 1 0]"
  have s: "shutdown (queue (after_events ?es))" "size (queue (after_events ?es)) = 2"
      "queue_contents (queue (after_events ?es)) = [8, 9]" by (simp_all add: run_simps)
  have r: "perform_all role (initial (fresh_queue 2) 3) ?es \<noteq> None" by (simp add: run_simps)
  have "0 < (2 :: nat)" "0 < (1 :: nat)" by simp_all
  from queue_shutdown_drains[OF after_events_reachable[OF r] queue_ok_fresh(1)[OF this(1)] queue_ok_fresh(2) s(1) this(2)]
  show ?thesis unfolding s by auto
qed

end
