(* ===== verification/Db_Writer.thy ===== *)
theory Db_Writer
  imports Config Mempool Concurrent_Queue C_Text
begin

text \<open>
  The database writer (src/utils/database.c): the producer side collects entries in a buffer and
  pushes them to the queue in batches, a thread takes batches from the queue and writes each
  entry as a row. SQLite and \<open>localtime_r\<close> are parameters: \<open>sqlite\<close> says whether a call succeeds
  after the calls made so far, and the calls themselves are recorded in order. \<open>None\<close> is a fault,
  or a wait for room in the queue.
\<close>

section \<open>Latency histograms\<close>

record histogram =
  latency_buckets :: "nat list"
  latency_count :: nat
  histogram_log :: "string list"

definition bucket_thresholds :: "int list" where
  "bucket_thresholds = [1000, 5000, 10000, 50000, 100000, 500000, 1000000, 5000000, 10000000, - 1]"

fun count_latency :: "int list \<Rightarrow> int \<Rightarrow> nat list \<Rightarrow> nat list" where
  "count_latency (t # ts) ns (n # ns') = (if t = - 1 \<or> ns < t then Suc n # ns' else n # count_latency ts ns ns')"
| "count_latency _ ns bs = bs"

definition histogram_add :: "int \<Rightarrow> histogram \<Rightarrow> histogram" where
  "histogram_add ns hist = hist\<lparr>latency_buckets := count_latency bucket_thresholds ns (latency_buckets hist),
     latency_count := latency_count hist + 1\<rparr>"

fun histogram_rows :: "int \<Rightarrow> int list \<Rightarrow> nat list \<Rightarrow> string list" where
  "histogram_rows prev (t # ts) (n # ns) =
     (if t = - 1 then ''    > '' @ print_int prev @ '' ns: '' @ print_int (int n)
      else ''    < '' @ print_int t @ '' ns: '' @ print_int (int n)) # histogram_rows t ts ns"
| "histogram_rows prev _ _ = []"

text \<open>The log file may fail to open; \<open>Some\<close> is the time it is stamped with.\<close>

definition histogram_print :: "int \<Rightarrow> string \<Rightarrow> string option \<Rightarrow> histogram \<Rightarrow> histogram" where
  "histogram_print threshold title log_file hist =
     (if threshold \<le> int (latency_count hist)
      then hist\<lparr>latency_buckets := replicate 10 0, latency_count := 0,
        histogram_log := histogram_log hist @ (case log_file of
          None \<Rightarrow> []
        | Some time \<Rightarrow> (''['' @ time @ ''] Queue '' @ title @ '' BATCH latency histogram (ns):'')
            # histogram_rows 0 bucket_thresholds (latency_buckets hist) @ [[]])\<rparr>
      else hist)"

section \<open>State\<close>

record db_entry =
  entry_time :: u64
  stack_str :: string

record db_row =
  row_time :: int
  row_pid :: int
  row_name :: string
  row_stack :: string

datatype sql_call =
    SqlOpen nat string
  | SqlClose nat
  | SqlExec "nat option" string
  | SqlPrepare nat
  | SqlInsert nat db_row
  | SqlFinalize nat

record tm =
  tm_year :: int
  tm_mon :: int
  tm_mday :: int
  tm_hour :: int

record db_env =
  sqlite :: "sql_call list \<Rightarrow> sql_call \<Rightarrow> bool"
  localtime :: "int \<Rightarrow> tm"
  latency :: int
  log_time :: "string option"

record db_writer =
  ctx_block :: block
  dw_heap :: c_heap
  dw_queue :: "block cqueue"
  output_dir :: cstr
  dw_running :: bool
  thread_id :: nat
  db :: "nat option"
  current_db_path :: string
  entry_pool :: "mempool_s option"
  entries :: "block \<Rightarrow> db_entry"
  producer_batch :: "block list"
  push_hist :: histogram
  pop_hist :: histogram
  sql_log :: "sql_call list"

abbreviation QUEUE_CAPACITY :: nat where "QUEUE_CAPACITY \<equiv> 1024"
abbreviation SIZEOF_DB_ENTRY :: nat where "SIZEOF_DB_ENTRY \<equiv> 16"

definition fresh_histogram :: histogram where
  "fresh_histogram = \<lparr>latency_buckets = replicate 10 0, latency_count = 0, histogram_log = []\<rparr>"

section \<open>Life cycle\<close>

text \<open>\<open>mkdir\<close> says whether the output directory exists or can be created.\<close>

definition db_writer_init :: "profiling_config \<Rightarrow> bool \<Rightarrow> c_heap \<Rightarrow> (c_heap \<times> db_writer option) option" where
  "db_writer_init config mkdir h =
     (if \<not> mkdir then Some (h, None)
      else case malloc h 336 of
        (h, None) \<Rightarrow> Some (h, None)
      | (h, Some cb) \<Rightarrow>
          do { (h, q) \<leftarrow> queue_init h QUEUE_CAPACITY;
               case q of
                 None \<Rightarrow> do { h \<leftarrow> free_block h cb; Some (h, None) }
               | Some q \<Rightarrow>
                   (case strdup h (db_output_dir config) of (h, dir) \<Rightarrow>
                     if max_stack_depth config * 257 < 2 ^ 31 then
                       do { (h, mp) \<leftarrow> mempool_create h (nat (db_entry_pool_size config))
                              (SIZEOF_DB_ENTRY + nat (max_stack_depth config * 257));
                            case mp of
                              None \<Rightarrow> do { h \<leftarrow> queue_destroy h (Some q); h \<leftarrow> free_str h dir; h \<leftarrow> free_block h cb; Some (h, None) }
                            | Some mp \<Rightarrow> Some (h, Some \<lparr>ctx_block = cb, dw_heap = h, dw_queue = q, output_dir = dir,
                                dw_running = False, thread_id = 0, db = None, current_db_path = [], entry_pool = Some mp,
                                entries = (\<lambda>_. \<lparr>entry_time = 0, stack_str = []\<rparr>), producer_batch = [],
                                push_hist = fresh_histogram, pop_hist = fresh_histogram, sql_log = []\<rparr>) }
                     else None) })"

text \<open>\<open>tid\<close> is the thread that \<open>pthread_create\<close> gives, if it succeeds.\<close>

definition db_writer_start :: "nat option \<Rightarrow> db_writer \<Rightarrow> db_writer" where
  "db_writer_start tid ctx =
     (case tid of None \<Rightarrow> ctx\<lparr>dw_running := False\<rparr> | Some t \<Rightarrow> ctx\<lparr>dw_running := True, thread_id := t\<rparr>)"

section \<open>The producer\<close>

definition db_writer_flush :: "profiling_config \<Rightarrow> db_env \<Rightarrow> db_writer \<Rightarrow> db_writer option" where
  "db_writer_flush config env ctx =
     (if producer_batch ctx = [] then Some ctx
      else case queue_push_batch (dw_queue ctx) (producer_batch ctx) of
        Done q _ _ \<Rightarrow> Some (ctx\<lparr>dw_queue := q, producer_batch := [],
          push_hist := histogram_print (histogram_print_threshold config) ''push'' (log_time env)
            (histogram_add (latency env) (push_hist ctx))\<rparr>)
      | _ \<Rightarrow> None)"

definition flush_threshold :: "profiling_config \<Rightarrow> int" where
  "flush_threshold config =
     (if producer_batch_size config \<le> 0 \<or> producer_batch_size config > MAX_PRODUCER_BATCH_SIZE
      then MAX_PRODUCER_BATCH_SIZE else producer_batch_size config)"

text \<open>The copy behind the entry and the store into the buffer fault outside their blocks.\<close>

definition db_writer_push_stack :: "profiling_config \<Rightarrow> db_env \<Rightarrow> u64 \<Rightarrow> string \<Rightarrow> db_writer \<Rightarrow> db_writer option" where
  "db_writer_push_stack config env timestamp_ns s ctx =
     (if \<not> dw_running ctx then Some ctx
      else case mempool_alloc (dw_heap ctx) (entry_pool ctx) of
        (h, mp, None) \<Rightarrow> Some (ctx\<lparr>dw_heap := h, entry_pool := mp\<rparr>)
      | (h, mp, Some b) \<Rightarrow>
          do { sz \<leftarrow> live h b;
               if SIZEOF_DB_ENTRY + length s + 1 \<le> sz \<and> int (length (producer_batch ctx)) < MAX_PRODUCER_BATCH_SIZE then
                 (let ctx = ctx\<lparr>dw_heap := h, entry_pool := mp,
                        entries := (entries ctx)(b := \<lparr>entry_time = timestamp_ns, stack_str = s\<rparr>),
                        producer_batch := producer_batch ctx @ [b]\<rparr>
                  in if flush_threshold config \<le> int (length (producer_batch ctx))
                     then db_writer_flush config env ctx else Some ctx)
               else None })"

definition db_writer_stop :: "profiling_config \<Rightarrow> db_env \<Rightarrow> db_writer \<Rightarrow> db_writer option" where
  "db_writer_stop config env ctx =
     do { ctx \<leftarrow> db_writer_flush config env (ctx\<lparr>dw_running := False\<rparr>);
          case queue_signal_shutdown (dw_queue ctx) of
            Done q _ _ \<Rightarrow> Some (ctx\<lparr>dw_queue := q\<rparr>) | _ \<Rightarrow> None }"

section \<open>The database handle\<close>

definition zero_pad :: "nat \<Rightarrow> string \<Rightarrow> string" where
  "zero_pad n s = replicate (n - length s) (CHR ''0'') @ s"

text \<open>\<open>%0nd\<close>\<close>

definition print_padded :: "nat \<Rightarrow> int \<Rightarrow> string" where
  "print_padded n i = (if i < 0 then CHR ''-'' # zero_pad (n - 1) (print_int (- i)) else zero_pad n (print_int i))"

definition db_path :: "cstr \<Rightarrow> (int \<Rightarrow> tm) \<Rightarrow> u64 \<Rightarrow> string" where
  "db_path dir lt timestamp_ns =
     (let t = lt (int (unat timestamp_ns) div 1000000000) in
      clip 256 ((case dir of None \<Rightarrow> ''(null)'' | Some (_, d) \<Rightarrow> d) @ ''/profiling_'' @ print_padded 4 (tm_year t + 1900) @ ''-'' @
        print_padded 2 (tm_mon t + 1) @ ''-'' @ print_padded 2 (tm_mday t) @ ''_'' @ print_padded 2 (tm_hour t) @ ''.db''))"

definition sql_issue :: "sql_call \<Rightarrow> db_writer \<Rightarrow> db_writer" where
  "sql_issue c ctx = ctx\<lparr>sql_log := sql_log ctx @ [c]\<rparr>"

definition sql_ok :: "db_env \<Rightarrow> db_writer \<Rightarrow> sql_call \<Rightarrow> bool" where
  "sql_ok env ctx c = sqlite env (sql_log ctx) c"

text \<open>Connections are numbered in the order in which they are opened.\<close>

fun is_open :: "sql_call \<Rightarrow> bool" where
  "is_open (SqlOpen n p) = True"
| "is_open _ = False"

definition next_conn :: "db_writer \<Rightarrow> nat" where
  "next_conn ctx = length (filter is_open (sql_log ctx))"

definition sql_wal :: string where "sql_wal = ''PRAGMA journal_mode=WAL;''"
definition sql_table :: string where
  "sql_table = ''CREATE TABLE IF NOT EXISTS call_stacks (timestamp INTEGER, pid INTEGER, process_name TEXT, full_stack TEXT);''"
definition sql_index :: string where
  "sql_index = ''CREATE INDEX IF NOT EXISTS idx_timestamp ON call_stacks (timestamp);''"

definition close_db :: "nat \<Rightarrow> db_writer \<Rightarrow> db_writer" where
  "close_db c ctx = (sql_issue (SqlClose c) ctx)\<lparr>db := None\<rparr>"

definition setup_db :: "db_env \<Rightarrow> nat \<Rightarrow> db_writer \<Rightarrow> db_writer \<times> bool" where
  "setup_db env c ctx =
     (let ctx1 = sql_issue (SqlExec (Some c) sql_wal) ctx in
      if \<not> sql_ok env ctx (SqlExec (Some c) sql_wal) then (close_db c ctx1, False)
      else let ctx2 = sql_issue (SqlExec (Some c) sql_table) ctx1 in
        if \<not> sql_ok env ctx1 (SqlExec (Some c) sql_table) then (close_db c ctx2, False)
        else (sql_issue (SqlExec (Some c) sql_index) ctx2, True))"

definition ensure_db_handle :: "db_env \<Rightarrow> u64 \<Rightarrow> db_writer \<Rightarrow> db_writer \<times> bool" where
  "ensure_db_handle env timestamp_ns ctx =
     (let path = db_path (output_dir ctx) (localtime env) timestamp_ns in
      if current_db_path ctx = path then (ctx, db ctx \<noteq> None)
      else
        let ctx = (case db ctx of None \<Rightarrow> ctx | Some c \<Rightarrow> close_db c ctx)\<lparr>current_db_path := path\<rparr>;
            c = next_conn ctx;
            opened = sql_ok env ctx (SqlOpen c path);
            ctx = sql_issue (SqlOpen c path) ctx
        in if opened then setup_db env c (ctx\<lparr>db := Some c\<rparr>) else (ctx\<lparr>db := None\<rparr>, False))"

section \<open>The writer thread\<close>

text \<open>\<open>strtok_r\<close>: the token and what is left for the next call.\<close>

definition strtok_r :: "string \<Rightarrow> string \<Rightarrow> string option \<times> string" where
  "strtok_r delim s =
     (let s = dropWhile (\<lambda>c. c \<in> set delim) s; tok = takeWhile (\<lambda>c. c \<notin> set delim) s
      in if s = [] then (None, []) else (Some tok, drop (length tok + 1) s))"

definition parse_entry :: "db_entry \<Rightarrow> db_row" where
  "parse_entry e =
     (let (t1, s) = strtok_r ''|'' (stack_str e); (t2, s) = strtok_r ''|'' s; (t3, s) = strtok_r [] s
      in \<lparr>row_time = sint (entry_time e),
          row_pid = (case t1 of None \<Rightarrow> - 1 | Some t \<Rightarrow> atoi t),
          row_name = (case t2 of None \<Rightarrow> ''unknown'' | Some t \<Rightarrow> t),
          row_stack = (case t3 of None \<Rightarrow> [] | Some t \<Rightarrow> t)\<rparr>)"

text \<open>
  Discarding frees \<open>stack_str\<close>, which points into the chunk behind the entry: only the start of a
  block may be freed.
\<close>

definition free_at :: "c_heap \<Rightarrow> block \<Rightarrow> nat \<Rightarrow> c_heap option" where
  "free_at h b offset = (if offset = 0 then free_block h b else None)"

fun discard_batch :: "c_heap \<Rightarrow> block list \<Rightarrow> c_heap option" where
  "discard_batch h [] = Some h"
| "discard_batch h (b # bs) = do { h \<leftarrow> free_at h b SIZEOF_DB_ENTRY; h \<leftarrow> free_block h b; discard_batch h bs }"

text \<open>The rows of a batch, through the statement prepared on \<open>stmt\<close>; how many chunks are left to return.\<close>

fun insert_entries :: "db_env \<Rightarrow> nat \<Rightarrow> block list \<Rightarrow> db_writer \<Rightarrow> (db_writer \<times> bool) option" where
  "insert_entries env stmt [] ctx = Some (ctx, True)"
| "insert_entries env stmt (b # bs) ctx =
     (case ensure_db_handle env (entry_time (entries ctx b)) ctx of
        (ctx, False) \<Rightarrow>
          do { h \<leftarrow> discard_batch (dw_heap ctx) (b # bs);
               Some ((sql_issue (SqlExec (db ctx) ''COMMIT;'') ctx)\<lparr>dw_heap := h\<rparr>, False) }
      | (ctx, True) \<Rightarrow>
          insert_entries env stmt bs (sql_issue (SqlInsert stmt (parse_entry (entries ctx b))) ctx))"

fun return_chunks :: "block list \<Rightarrow> db_writer \<Rightarrow> db_writer option" where
  "return_chunks [] ctx = Some ctx"
| "return_chunks (b # bs) ctx =
     do { (h, mp) \<leftarrow> mempool_free (dw_heap ctx) (entry_pool ctx) (Some b);
          return_chunks bs (ctx\<lparr>dw_heap := h, entry_pool := mp\<rparr>) }"

definition write_batch :: "db_env \<Rightarrow> block list \<Rightarrow> db_writer \<Rightarrow> db_writer option" where
  "write_batch env batch ctx =
     (case ensure_db_handle env (entry_time (entries ctx (hd batch))) ctx of
        (ctx, False) \<Rightarrow> do { h \<leftarrow> discard_batch (dw_heap ctx) batch; Some (ctx\<lparr>dw_heap := h\<rparr>) }
      | (ctx, True) \<Rightarrow>
          do { c \<leftarrow> db ctx;
               let prepared = sql_ok env ctx (SqlPrepare c);
               let ctx = sql_issue (SqlPrepare c) ctx;
               if \<not> prepared then do { h \<leftarrow> discard_batch (dw_heap ctx) batch; Some (ctx\<lparr>dw_heap := h\<rparr>) }
               else
                 do { (ctx, whole) \<leftarrow> insert_entries env c batch (sql_issue (SqlExec (Some c) ''BEGIN TRANSACTION;'') ctx);
                      let ctx = (if whole then sql_issue (SqlExec (db ctx) ''COMMIT;'') ctx else ctx);
                      return_chunks (if whole then batch else []) (sql_issue (SqlFinalize c) ctx) } })"

text \<open>One round of the loop: \<open>Some (ctx, True)\<close> to go on, \<open>Some (ctx, False)\<close> at the end of the thread.\<close>

definition writer_round :: "profiling_config \<Rightarrow> db_env \<Rightarrow> db_writer \<Rightarrow> (db_writer \<times> bool) option" where
  "writer_round config env ctx =
     (if \<not> (dw_running ctx \<or> size (dw_queue ctx) > 0) then Some (ctx, False)
      else case queue_pop_batch (dw_queue ctx) (nat (db_batch_size config)) of
        Done q (RetItems batch) _ \<Rightarrow>
          (let ctx = ctx\<lparr>dw_queue := q, pop_hist := histogram_add (latency env) (pop_hist ctx)\<rparr> in
           if batch = [] then Some (ctx, dw_running ctx)
           else map_option (\<lambda>ctx. (ctx, True)) (write_batch env batch
             (ctx\<lparr>pop_hist := histogram_print (histogram_print_threshold config) ''pop'' (log_time env) (pop_hist ctx)\<rparr>)))
      | _ \<Rightarrow> None)"

text \<open>The loop; \<open>n\<close> bounds the number of rounds.\<close>

fun writer_loop :: "nat \<Rightarrow> profiling_config \<Rightarrow> db_env \<Rightarrow> db_writer \<Rightarrow> db_writer option" where
  "writer_loop 0 config env ctx = None"
| "writer_loop (Suc n) config env ctx =
     do { (ctx, go) \<leftarrow> writer_round config env ctx;
          if go then writer_loop n config env ctx else Some ctx }"

definition db_writer_thread_func :: "nat \<Rightarrow> profiling_config \<Rightarrow> db_env \<Rightarrow> db_writer \<Rightarrow> db_writer option" where
  "db_writer_thread_func n config env ctx =
     (case malloc (dw_heap ctx) (8 * nat (db_batch_size config)) of
        (h, None) \<Rightarrow> Some (ctx\<lparr>dw_heap := h\<rparr>)
      | (h, Some batch) \<Rightarrow>
          do { ctx \<leftarrow> writer_loop n config env (ctx\<lparr>dw_heap := h\<rparr>);
               h \<leftarrow> free_block (dw_heap ctx) batch;
               Some (ctx\<lparr>dw_heap := h\<rparr>) })"

text \<open>The loop of \<open>db_writer_wait\<close> that empties the queue; \<open>n\<close> bounds the rounds.\<close>

fun empty_queue :: "nat \<Rightarrow> block cqueue \<Rightarrow> block cqueue option" where
  "empty_queue 0 q = None"
| "empty_queue (Suc n) q =
     (case queue_pop q of
        Done q (RetItem x) _ \<Rightarrow> empty_queue n q
      | Done q RetNull _ \<Rightarrow> Some q
      | _ \<Rightarrow> None)"

definition db_writer_wait :: "nat \<Rightarrow> db_writer \<Rightarrow> (c_heap \<times> sql_call list) option" where
  "db_writer_wait n ctx =
     (if thread_id ctx = 0 then Some (dw_heap ctx, sql_log ctx)
      else let ctx = (case db ctx of None \<Rightarrow> ctx | Some c \<Rightarrow> sql_issue (SqlClose c) ctx) in
      do { h \<leftarrow> free_str (dw_heap ctx) (output_dir ctx);
           q \<leftarrow> empty_queue n (dw_queue ctx);
           h \<leftarrow> queue_destroy h (Some q);
           h \<leftarrow> mempool_destroy h (entry_pool ctx);
           h \<leftarrow> free_block h (ctx_block ctx);
           Some (h, sql_log ctx) })"

definition db_writer_get_db_handle :: "db_writer option \<Rightarrow> nat option" where
  "db_writer_get_db_handle context = Option.bind context db"

section \<open>The pool among other blocks\<close>

lemma pool_inv_perm: "pool_inv base sz h mp out \<Longrightarrow> mset out = mset out' \<Longrightarrow> pool_inv base sz h mp out'"
proof -
  assume i: "pool_inv base sz h mp out" and m: "mset out = mset out'"
  from m have "set out = set out'" "length out = length out'" "distinct out = distinct out'"
    using mset_eq_setD mset_eq_length mset_eq_imp_distinct_iff by blast+
  with i show ?thesis by (simp add: pool_inv_def)
qed

lemma pool_inv_free_other:
  assumes "pool_inv base sz h mp out" and "base b \<noteq> None"
  shows "\<exists>h'. free_block h b = Some h' \<and> pool_inv (base(b := None)) sz h' mp out \<and> oom h' = oom h"
proof -
  have n: "b \<notin> set (mp_block mp # pool_block mp # avail mp @ out)" using assms by (auto simp: pool_inv_def)
  then have l: "live h b = base b" using assms(1) by (auto simp: pool_inv_def)
  let ?h = "h\<lparr>live := (live h)(b := None)\<rparr>"
  have f: "free_block h b = Some ?h" using l assms(2) by (simp add: free_block_def)
  moreover have "pool_inv (base(b := None)) sz ?h mp out"
    using assms(1) n heap_ok_free[OF _ f] by (auto simp: pool_inv_def fun_eq_iff)
  ultimately show ?thesis by simp
qed

lemma pool_inv_malloc_other:
  assumes "pool_inv base sz h mp out" and "malloc h n = (h', Some b)"
  shows "base b = None" "pool_inv (base(b \<mapsto> n)) sz h' mp out"
proof -
  have ok: "heap_ok h" using assms(1) by (simp add: pool_inv_def)
  note m = malloc_Some[OF assms(2)] malloc_fresh[OF ok assms(2)] heap_ok_malloc[OF ok assms(2)]
  from m(2) assms(1) have n: "b \<notin> set (mp_block mp # pool_block mp # avail mp @ out)" by (auto simp: pool_inv_def split: if_splits)
  then show "base b = None" using m(2) assms(1) by (auto simp: pool_inv_def split: if_splits)
  show "pool_inv (base(b \<mapsto> n)) sz h' mp out" using assms(1) n m by (auto simp: pool_inv_def fun_eq_iff)
qed

lemma mempool_create_oom:
  assumes "mempool_create h n sz = Some (h', r)"
  shows "oom h' = oom h"
proof -
  have c: "alloc_chunks h sz n acc = (h', bs, ok) \<Longrightarrow> oom h' = oom h" for h h' acc bs ok
    by (induction n arbitrary: h acc) (auto dest: oom_malloc split: prod.splits option.splits)
  from assms show ?thesis
    by (auto simp: mempool_create_def dest!: oom_malloc oom_free_block oom_free_list c split: prod.splits option.splits if_splits bind_splits)
qed

lemma mempool_free_oom: "mempool_free h mp b = Some (h', mp') \<Longrightarrow> oom h' = oom h"
  by (auto simp: mempool_free_def dest: oom_free_block split: option.splits if_splits bind_splits)

lemma return_chunks_ok:
  assumes "entry_pool ctx = Some mp" and "pool_inv base sz (dw_heap ctx) mp (bs @ out)"
  shows "\<exists>h mp'. return_chunks bs ctx = Some (ctx\<lparr>dw_heap := h, entry_pool := Some mp'\<rparr>) \<and>
    pool_inv base sz h mp' out \<and> oom h = oom (dw_heap ctx)"
  using assms
proof (induction bs arbitrary: ctx mp)
  case Nil
  then show ?case by (intro exI[of _ "dw_heap ctx"] exI[of _ mp]) simp
next
  case (Cons b bs)
  from mempool_free_inv[OF Cons.prems(2), of b] obtain h1 mp1 where
    f: "mempool_free (dw_heap ctx) (Some mp) (Some b) = Some (h1, Some mp1)" "pool_inv base sz h1 mp1 (bs @ out)" by auto
  from Cons.IH[of "ctx\<lparr>dw_heap := h1, entry_pool := Some mp1\<rparr>" mp1] f mempool_free_oom[OF f(1)] Cons.prems(1)
  show ?case by auto
qed

section \<open>Transactions\<close>

text \<open>
  The rows that one connection has committed, and those of the transaction it is in: what the
  recorded calls mean on the connection.
\<close>

fun replay_call :: "nat \<Rightarrow> sql_call \<Rightarrow> db_row list \<times> db_row list option \<Rightarrow> db_row list \<times> db_row list option" where
  "replay_call c (SqlExec c' q) (rows, tx) =
     (if c' \<noteq> Some c then (rows, tx)
      else if q = ''BEGIN TRANSACTION;'' then (rows, Some [])
      else if q = ''COMMIT;'' then (rows @ (case tx of None \<Rightarrow> [] | Some new \<Rightarrow> new), None)
      else (rows, tx))"
| "replay_call c (SqlInsert c' r) (rows, tx) =
     (if c' \<noteq> c then (rows, tx) else case tx of None \<Rightarrow> (rows @ [r], None) | Some new \<Rightarrow> (rows, Some (new @ [r])))"
| "replay_call c _ s = s"

definition replay :: "nat \<Rightarrow> sql_call list \<Rightarrow> db_row list \<times> db_row list option" where
  "replay c log = fold (replay_call c) log ([], None)"

lemma replay_append: "replay c (log @ [x]) = replay_call c x (replay c log)"
  by (simp add: replay_def)

lemma replay_inserts:
  "replay c log = (rows, Some new) \<Longrightarrow> replay c (log @ map (SqlInsert c) rs) = (rows, Some (new @ rs))"
proof (induction rs arbitrary: log new)
  case (Cons r rs)
  from Cons.prems have "replay c (log @ [SqlInsert c r]) = (rows, Some (new @ [r]))" by (simp add: replay_append)
  from Cons.IH[OF this] show ?case by simp
qed simp

section \<open>Writing a batch\<close>

text \<open>All the files of an hour have one path; the database is not open yet, or is the first one.\<close>

definition db_state :: "string \<Rightarrow> db_row list \<Rightarrow> db_writer \<Rightarrow> bool" where
  "db_state P rows ctx \<longleftrightarrow> replay 0 (sql_log ctx) = (rows, None) \<and>
     (db ctx = Some 0 \<and> current_db_path ctx = P \<or> db ctx = None \<and> current_db_path ctx = [] \<and> sql_log ctx = [])"

lemma db_path_nonempty: "db_path dir lt ts \<noteq> []"
  by (auto simp: db_path_def clip_def Let_def)

lemma ensure_ok:
  assumes "db_state P rows ctx" and "db_path (output_dir ctx) (localtime env) ts = P" and "\<forall>l c. sqlite env l c"
  shows "\<exists>log. ensure_db_handle env ts ctx = (ctx\<lparr>db := Some 0, current_db_path := P, sql_log := log\<rparr>, True) \<and>
    replay 0 log = (rows, None)"
proof (cases "db ctx = Some 0 \<and> current_db_path ctx = P")
  case True
  with assms show ?thesis by (intro exI[of _ "sql_log ctx"]) (simp add: ensure_db_handle_def db_state_def)
next
  case False
  with assms have s: "db ctx = None" "current_db_path ctx = []" "sql_log ctx = []" "rows = []" "[] \<noteq> P"
    using db_path_nonempty[of "output_dir ctx" "localtime env" ts] by (auto simp: db_state_def replay_def)
  let ?log = "[SqlOpen 0 P, SqlExec (Some 0) sql_wal, SqlExec (Some 0) sql_table, SqlExec (Some 0) sql_index]"
  have "replay 0 ?log = ([], None)" by (simp add: replay_def sql_wal_def sql_table_def sql_index_def)
  with s assms(2,3) show ?thesis
    by (intro exI[of _ ?log]) (simp add: ensure_db_handle_def setup_db_def sql_ok_def sql_issue_def next_conn_def Let_def)
qed

lemma insert_entries_ok:
  assumes "db ctx \<noteq> None" and "current_db_path ctx = P"
    and "\<forall>b\<in>set bs. db_path (output_dir ctx) (localtime env) (entry_time (entries ctx b)) = P"
  shows "insert_entries env stmt bs ctx =
    Some (ctx\<lparr>sql_log := sql_log ctx @ map (SqlInsert stmt) (map (parse_entry \<circ> entries ctx) bs)\<rparr>, True)"
  using assms
proof (induction bs arbitrary: ctx)
  case (Cons b bs)
  have "ensure_db_handle env (entry_time (entries ctx b)) ctx = (ctx, True)"
    using Cons.prems by (simp add: ensure_db_handle_def)
  with Cons.IH[of "sql_issue (SqlInsert stmt (parse_entry (entries ctx b))) ctx"] Cons.prems show ?case
    by (simp add: sql_issue_def)
qed simp

lemma write_batch_ok:
  assumes st: "db_state P rows ctx" and ne: "batch \<noteq> []" and sq: "\<forall>l c. sqlite env l c"
    and path: "\<forall>b\<in>set batch. db_path (output_dir ctx) (localtime env) (entry_time (entries ctx b)) = P"
    and pool: "entry_pool ctx = Some mp" "pool_inv base sz (dw_heap ctx) mp (batch @ out)"
  shows "\<exists>h mp' log. let ctx' = ctx\<lparr>db := Some 0, current_db_path := P, sql_log := log, dw_heap := h, entry_pool := Some mp'\<rparr> in
    write_batch env batch ctx = Some ctx' \<and> db_state P (rows @ map (parse_entry \<circ> entries ctx) batch) ctx' \<and>
    pool_inv base sz h mp' out \<and> oom h = oom (dw_heap ctx)"
proof -
  have "db_path (output_dir ctx) (localtime env) (entry_time (entries ctx (hd batch))) = P" using ne path by auto
  from ensure_ok[OF st this sq] obtain log where
    e: "ensure_db_handle env (entry_time (entries ctx (hd batch))) ctx = (ctx\<lparr>db := Some 0, current_db_path := P, sql_log := log\<rparr>, True)"
      "replay 0 log = (rows, None)" by blast
  let ?rows = "map (parse_entry \<circ> entries ctx) batch"
  let ?ctx1 = "ctx\<lparr>db := Some 0, current_db_path := P, sql_log := (log @ [SqlPrepare 0]) @ [SqlExec (Some 0) ''BEGIN TRANSACTION;'']\<rparr>"
  let ?log2 = "sql_log ?ctx1 @ map (SqlInsert 0) ?rows"
  let ?ctx2 = "ctx\<lparr>db := Some 0, current_db_path := P, sql_log := (?log2 @ [SqlExec (Some 0) ''COMMIT;'']) @ [SqlFinalize 0]\<rparr>"
  have i: "insert_entries env 0 batch ?ctx1 = Some (?ctx1\<lparr>sql_log := ?log2\<rparr>, True)"
    using insert_entries_ok[of ?ctx1 P batch env 0] path by simp
  have "replay 0 ((log @ [SqlPrepare 0]) @ [SqlExec (Some 0) ''BEGIN TRANSACTION;'']) = (rows, Some [])"
    by (simp only: replay_append e(2)) simp
  then have "replay 0 (sql_log ?ctx1) = (rows, Some [])" by simp
  from replay_inserts[OF this, of ?rows] have r: "replay 0 ((?log2 @ [SqlExec (Some 0) ''COMMIT;'']) @ [SqlFinalize 0]) = (rows @ ?rows, None)"
    by (simp only: replay_append) simp
  have "entry_pool ?ctx2 = Some mp" "pool_inv base sz (dw_heap ?ctx2) mp (batch @ out)" using pool by simp_all
  from return_chunks_ok[OF this] obtain h mp' where
    c: "return_chunks batch ?ctx2 = Some (?ctx2\<lparr>dw_heap := h, entry_pool := Some mp'\<rparr>)" "pool_inv base sz h mp' out"
      "oom h = oom (dw_heap ?ctx2)" by blast
  have "write_batch env batch ctx = Some (?ctx2\<lparr>dw_heap := h, entry_pool := Some mp'\<rparr>)"
    using e(1) i c(1) sq by (simp add: write_batch_def sql_ok_def sql_issue_def)
  with r c(2,3) show ?thesis
    by (intro exI[of _ h] exI[of _ mp'] exI[of _ "sql_log ?ctx2"]) (simp add: Let_def db_state_def)
qed

section \<open>The writer as a whole\<close>

definition pending_blocks :: "db_writer \<Rightarrow> block list" where
  "pending_blocks ctx = queue_contents (dw_queue ctx) @ producer_batch ctx"

text \<open>The entries on their way: those in the queue, then those in the producer's buffer.\<close>

definition pending :: "db_writer \<Rightarrow> db_entry list" where
  "pending ctx = map (entries ctx) (pending_blocks ctx)"

definition same_writer :: "db_writer \<Rightarrow> db_writer \<Rightarrow> bool" where
  "same_writer ctx ctx' \<longleftrightarrow> ctx_block ctx' = ctx_block ctx \<and> thread_id ctx' = thread_id ctx \<and>
     output_dir ctx' = output_dir ctx \<and> dw_running ctx' = dw_running ctx \<and>
     q_block (dw_queue ctx') = q_block (dw_queue ctx) \<and> buf_block (dw_queue ctx') = buf_block (dw_queue ctx) \<and>
     capacity (dw_queue ctx') = capacity (dw_queue ctx) \<and> shutdown (dw_queue ctx') = shutdown (dw_queue ctx)"

lemma same_writer_trans: "same_writer a b \<Longrightarrow> same_writer b c \<Longrightarrow> same_writer a c"
  by (simp add: same_writer_def)

text \<open>
  The chunks handed out are those of the pending entries, all of one hour; the rows are those
  committed so far.
\<close>

definition dw_inv :: "(block \<Rightarrow> nat option) \<Rightarrow> nat \<Rightarrow> string \<Rightarrow> (int \<Rightarrow> tm) \<Rightarrow> profiling_config \<Rightarrow> db_row list \<Rightarrow> db_writer \<Rightarrow> bool" where
  "dw_inv base sz P lt config rows ctx \<longleftrightarrow>
     (\<exists>mp. entry_pool ctx = Some mp \<and> pool_inv base sz (dw_heap ctx) mp (pending_blocks ctx)) \<and>
     (\<forall>b. \<not> oom (dw_heap ctx) b) \<and> queue_ok (dw_queue ctx) \<and>
     int (length (producer_batch ctx)) < flush_threshold config \<and> db_state P rows ctx \<and>
     (\<forall>e\<in>set (pending ctx). db_path (output_dir ctx) lt (entry_time e) = P)"

lemma push_loop_blocks [simp]:
  "q_block (push_loop q xs) = q_block q" "buf_block (push_loop q xs) = buf_block q"
  by (induction xs arbitrary: q) (simp_all add: put_tail_def)

lemma pop_loop_blocks:
  "pop_loop n q items = (items', q') \<Longrightarrow> q_block q' = q_block q \<and> buf_block q' = buf_block q"
  by (induction n arbitrary: q items) (auto simp: take_head_def)

lemma push_batch_blocks:
  "queue_push_batch q xs = Done q' r w \<Longrightarrow> q_block q' = q_block q \<and> buf_block q' = buf_block q"
  by (auto simp: queue_push_batch_def Let_def split: if_splits)

lemma pop_batch_blocks:
  "queue_pop_batch q n = Done q' r w \<Longrightarrow> q_block q' = q_block q \<and> buf_block q' = buf_block q"
  by (auto simp: queue_pop_batch_def Let_def dest: pop_loop_blocks split: if_splits prod.splits)

lemma flush_ok:
  assumes "queue_ok (dw_queue ctx)" and "\<not> shutdown (dw_queue ctx)"
  shows "case db_writer_flush config env ctx of
      None \<Rightarrow> capacity (dw_queue ctx) - size (dw_queue ctx) < length (producer_batch ctx)
    | Some ctx' \<Rightarrow> \<exists>q hist. ctx' = ctx\<lparr>dw_queue := q, producer_batch := [], push_hist := hist\<rparr> \<and> queue_ok q \<and>
        queue_contents q = queue_contents (dw_queue ctx) @ producer_batch ctx \<and> same_writer ctx ctx'"
proof (cases "producer_batch ctx = []")
  case True
  then have "ctx = ctx\<lparr>dw_queue := dw_queue ctx, producer_batch := [], push_hist := push_hist ctx\<rparr>" by simp
  moreover have "same_writer ctx ctx" by (simp add: same_writer_def)
  ultimately have "\<exists>q hist. ctx = ctx\<lparr>dw_queue := q, producer_batch := [], push_hist := hist\<rparr> \<and> queue_ok q \<and>
        queue_contents q = queue_contents (dw_queue ctx) @ producer_batch ctx \<and> same_writer ctx ctx"
    using True assms by (metis append_Nil2)
  with True show ?thesis by (simp add: db_writer_flush_def)
next
  case False
  show ?thesis
  proof (cases "queue_push_batch (dw_queue ctx) (producer_batch ctx)")
    case WaitOnFull
    with False assms show ?thesis by (auto simp: db_writer_flush_def queue_push_batch_def Let_def split: if_splits)
  next
    case WaitOnEmpty
    with False show ?thesis by (auto simp: queue_push_batch_def Let_def split: if_splits)
  next
    case (Done q r w)
    from queue_push_batch_done[OF assms(1) Done] have c: "conserves (dw_queue ctx) (OpPushBatch (producer_batch ctx)) q r" by blast
    moreover have "r = RetVoid" using Done False assms(2) by (auto simp: queue_push_batch_def Let_def split: if_splits)
    ultimately show ?thesis
      using False Done push_batch_blocks[OF Done] assms(2)
      by (auto simp: db_writer_flush_def conserves_def added_def same_writer_def)
  qed
qed

lemma push_ok:
  assumes inv: "dw_inv base sz P lt config rows ctx" and run: "dw_running ctx" "\<not> shutdown (dw_queue ctx)"
    and fits: "SIZEOF_DB_ENTRY + length s + 1 \<le> sz" and path: "db_path (output_dir ctx) lt ts = P"
  shows "case db_writer_push_stack config env ts s ctx of
      None \<Rightarrow> int (capacity (dw_queue ctx)) - int (size (dw_queue ctx)) < flush_threshold config
    | Some ctx' \<Rightarrow> dw_inv base sz P lt config rows ctx' \<and> same_writer ctx ctx' \<and>
        pending ctx' = pending ctx @ [\<lparr>entry_time = ts, stack_str = s\<rparr>]"
proof -
  let ?e = "\<lparr>entry_time = ts, stack_str = s\<rparr>"
  from inv obtain mp where mp: "entry_pool ctx = Some mp" "pool_inv base sz (dw_heap ctx) mp (pending_blocks ctx)"
    and i: "\<forall>b. \<not> oom (dw_heap ctx) b" "queue_ok (dw_queue ctx)" "int (length (producer_batch ctx)) < flush_threshold config"
      "db_state P rows ctx" "\<forall>e\<in>set (pending ctx). db_path (output_dir ctx) lt (entry_time e) = P"
    by (auto simp: dw_inv_def)
  from mempool_alloc_oom[OF i(1)] obtain h mp1 b where
    a: "mempool_alloc (dw_heap ctx) (Some mp) = (h, mp1, Some b)" "oom h = oom (dw_heap ctx)" by blast
  from mempool_alloc_Some[OF mp(2) a(1)] obtain mp' where
    mp': "mp1 = Some mp'" "pool_inv base sz h mp' (b # pending_blocks ctx)" "b \<notin> set (pending_blocks ctx)" "live h b = Some sz" by blast
  let ?c = "ctx\<lparr>dw_heap := h, entry_pool := Some mp', entries := (entries ctx)(b := ?e), producer_batch := producer_batch ctx @ [b]\<rparr>"
  have th: "flush_threshold config \<le> MAX_PRODUCER_BATCH_SIZE" by (simp add: flush_threshold_def)
  then have push: "db_writer_push_stack config env ts s ctx =
      (if flush_threshold config \<le> int (length (producer_batch ?c)) then db_writer_flush config env ?c else Some ?c)"
    using run a(1) mp(1) mp'(1,4) fits i(3) by (simp add: db_writer_push_stack_def Let_def)
  have pb: "pending_blocks ?c = pending_blocks ctx @ [b]" by (simp add: pending_blocks_def)
  have "map ((entries ctx)(b := ?e)) (pending_blocks ctx) = map (entries ctx) (pending_blocks ctx)" using mp'(3) by auto
  then have pe: "pending ?c = pending ctx @ [?e]" unfolding pending_def pb by simp
  have pool: "pool_inv base sz h mp' (pending_blocks ?c)" unfolding pb by (rule pool_inv_perm[OF mp'(2)]) simp
  have dst: "db_state P rows ?c" using i(4) by (simp add: db_state_def)
  have paths: "\<forall>e\<in>set (pending ?c). db_path (output_dir ?c) lt (entry_time e) = P" unfolding pe using i(5) path by simp
  show ?thesis
  proof (cases "flush_threshold config \<le> int (length (producer_batch ?c))")
    case False
    moreover have "dw_inv base sz P lt config rows ?c"
      unfolding dw_inv_def using pool dst paths False i(1,2) a(2) by auto
    ultimately show ?thesis using pe push by (simp add: same_writer_def)
  next
    case True
    note fl = flush_ok[of ?c config env]
    show ?thesis
    proof (cases "db_writer_flush config env ?c")
      case None
      with fl i(2) run(2) have "capacity (dw_queue ctx) - size (dw_queue ctx) < length (producer_batch ctx) + 1" by simp
      with None True push i(2,3) show ?thesis by (simp add: queue_ok_def)
    next
      case (Some ctx')
      with fl i(2) run(2) obtain q hist where q: "ctx' = ?c\<lparr>dw_queue := q, producer_batch := [], push_hist := hist\<rparr>"
          "queue_ok q" "queue_contents q = pending_blocks ?c" "same_writer ?c ctx'" by (auto simp: pending_blocks_def)
      have b': "pending_blocks ctx' = pending_blocks ?c" using q(1,3) by (simp add: pending_blocks_def)
      have e': "pending ctx' = pending ?c" unfolding pending_def b' using q(1) by simp
      have "0 < flush_threshold config" by (simp add: flush_threshold_def)
      then have "dw_inv base sz P lt config rows ctx'"
        unfolding dw_inv_def b' e' using q(1,2) pool dst paths i(1) a(2) by (simp add: db_state_def)
      moreover have "same_writer ctx ctx'" using q(4) by (simp add: same_writer_def)
      ultimately show ?thesis using e' pe Some push True by simp
    qed
  qed
qed

text \<open>One round of the thread moves the head of the pending entries into the database.\<close>

lemma round_ok:
  assumes inv: "dw_inv base sz P lt config rows ctx" and env: "\<forall>l c. sqlite env l c" "localtime env = lt"
    and n: "0 < db_batch_size config"
  shows "case writer_round config env ctx of
      None \<Rightarrow> size (dw_queue ctx) = 0 \<and> dw_running ctx \<and> \<not> shutdown (dw_queue ctx)
    | Some (ctx', go) \<Rightarrow> \<exists>rows'. dw_inv base sz P lt config rows' ctx' \<and> same_writer ctx ctx' \<and>
        rows' @ map parse_entry (pending ctx') = rows @ map parse_entry (pending ctx) \<and>
        producer_batch ctx' = producer_batch ctx \<and>
        size (dw_queue ctx') = size (dw_queue ctx) - nat (db_batch_size config) \<and>
        go = (dw_running ctx \<or> 0 < size (dw_queue ctx))"
proof -
  let ?n = "nat (db_batch_size config)" and ?q = "dw_queue ctx"
  from inv obtain mp where mp: "entry_pool ctx = Some mp" "pool_inv base sz (dw_heap ctx) mp (pending_blocks ctx)"
    and i: "\<forall>b. \<not> oom (dw_heap ctx) b" "queue_ok ?q" "int (length (producer_batch ctx)) < flush_threshold config"
      "db_state P rows ctx" "\<forall>e\<in>set (pending ctx). db_path (output_dir ctx) lt (entry_time e) = P"
    by (auto simp: dw_inv_def)
  show ?thesis
  proof (cases "dw_running ctx \<or> 0 < size ?q")
    case False
    with inv show ?thesis by (simp add: writer_round_def same_writer_def)
  next
    case go: True
    show ?thesis
    proof (cases "queue_pop_batch ?q ?n")
      case WaitOnFull
      then show ?thesis by (auto simp: queue_pop_batch_def Let_def split: if_splits prod.splits)
    next
      case WaitOnEmpty
      then have "size ?q = 0 \<and> \<not> shutdown ?q" by (auto simp: queue_pop_batch_def Let_def split: if_splits prod.splits)
      with WaitOnEmpty go show ?thesis by (auto simp: writer_round_def)
    next
      case (Done q r w)
      let ?batch = "take ?n (queue_contents ?q)"
      from queue_pop_batch_done[OF i(2) Done] have c: "conserves ?q (OpPopBatch ?n) q r" "r = RetItems ?batch"
          "size ?q = 0 \<longrightarrow> q = ?q \<and> shutdown ?q" "size q = size ?q - ?n" by (auto split: if_splits)
      then have q: "queue_ok q" "queue_contents ?q = ?batch @ queue_contents q" "shutdown q = shutdown ?q" "capacity q = capacity ?q"
        by (auto simp: conserves_def added_def)
      note qb = pop_batch_blocks[OF Done]
      show ?thesis
      proof (cases "?batch = []")
        case True
        with n have "size ?q = 0" using length_queue_contents[of ?q] by auto
        with True c go Done inv show ?thesis
          by (auto simp: writer_round_def same_writer_def dw_inv_def pending_def pending_blocks_def db_state_def)
      next
        case False
        let ?c = "ctx\<lparr>dw_queue := q, pop_hist := histogram_print (histogram_print_threshold config) ''pop'' (log_time env)
            (histogram_add (latency env) (pop_hist ctx))\<rparr>"
        have pb: "pending_blocks ctx = ?batch @ pending_blocks ?c" unfolding pending_blocks_def by (simp add: q(2)[symmetric])
        then have pe: "pending ctx = map (entries ctx) ?batch @ pending ?c" unfolding pending_def pb by simp
        have "db_state P rows ?c" using i(4) by (simp add: db_state_def)
        moreover have "\<forall>b\<in>set ?batch. db_path (output_dir ?c) (localtime env) (entry_time (entries ?c b)) = P"
          using i(5) env(2) unfolding pe by simp
        moreover have "entry_pool ?c = Some mp" "pool_inv base sz (dw_heap ?c) mp (?batch @ pending_blocks ?c)"
          using mp unfolding pb by simp_all
        ultimately obtain h mp' log where
          w: "write_batch env ?batch ?c = Some (?c\<lparr>db := Some 0, current_db_path := P, sql_log := log, dw_heap := h, entry_pool := Some mp'\<rparr>)"
            "db_state P (rows @ map (parse_entry \<circ> entries ?c) ?batch)
               (?c\<lparr>db := Some 0, current_db_path := P, sql_log := log, dw_heap := h, entry_pool := Some mp'\<rparr>)"
            "pool_inv base sz h mp' (pending_blocks ?c)" "oom h = oom (dw_heap ?c)"
          using write_batch_ok[of P rows ?c ?batch env mp base sz "pending_blocks ?c"] False env(1) by (auto simp: Let_def)
        let ?c' = "?c\<lparr>db := Some 0, current_db_path := P, sql_log := log, dw_heap := h, entry_pool := Some mp'\<rparr>"
        have p': "pending_blocks ?c' = pending_blocks ?c" "pending ?c' = pending ?c"
          by (simp_all add: pending_blocks_def pending_def)
        have "dw_inv base sz P lt config (rows @ map (parse_entry \<circ> entries ctx) ?batch) ?c'"
          unfolding dw_inv_def p' using w(2-4) i q(1) pe by simp
        moreover have "writer_round config env ctx = Some (?c', True)"
          using go Done c(2) False w(1) by (simp add: writer_round_def Let_def)
        moreover have "same_writer ctx ?c'" using qb q(3,4) by (simp add: same_writer_def)
        moreover have "(rows @ map (parse_entry \<circ> entries ctx) ?batch) @ map parse_entry (pending ?c') =
            rows @ map parse_entry (pending ctx)" unfolding p'(2) pe by simp
        ultimately show ?thesis
          using go c(4) by (simp add: option.split prod.split) (intro exI[of _ "rows @ map (parse_entry \<circ> entries ctx) ?batch"], simp)
      qed
    qed
  qed
qed

section \<open>Producer and writer interleaved\<close>

text \<open>
  The symbolizer pushes stacks while the thread takes its rounds, in any order; each step comes
  with the latency it measures and the state of the log file.
\<close>

datatype db_event = PushStack int "string option" u64 string | WriterRound int "string option"

fun db_step :: "profiling_config \<Rightarrow> db_env \<Rightarrow> db_event \<Rightarrow> db_writer \<Rightarrow> db_writer option" where
  "db_step config env (PushStack l t ts s) ctx = db_writer_push_stack config (env\<lparr>latency := l, log_time := t\<rparr>) ts s ctx"
| "db_step config env (WriterRound l t) ctx = map_option fst (writer_round config (env\<lparr>latency := l, log_time := t\<rparr>) ctx)"

fun db_run :: "profiling_config \<Rightarrow> db_env \<Rightarrow> db_event list \<Rightarrow> db_writer \<Rightarrow> db_writer option" where
  "db_run config env [] ctx = Some ctx"
| "db_run config env (ev # evs) ctx = do { ctx \<leftarrow> db_step config env ev ctx; db_run config env evs ctx }"

fun pushed_entries :: "db_event list \<Rightarrow> db_entry list" where
  "pushed_entries [] = []"
| "pushed_entries (PushStack l t ts s # evs) = \<lparr>entry_time = ts, stack_str = s\<rparr> # pushed_entries evs"
| "pushed_entries (WriterRound l t # evs) = pushed_entries evs"

text \<open>The entries fit into a chunk of \<open>sz\<close> bytes and belong to the hour of \<open>P\<close>.\<close>

definition entries_fit :: "nat \<Rightarrow> string \<Rightarrow> (u64 \<Rightarrow> string) \<Rightarrow> db_entry list \<Rightarrow> bool" where
  "entries_fit sz P path es \<longleftrightarrow> (\<forall>e\<in>set es. SIZEOF_DB_ENTRY + length (stack_str e) + 1 \<le> sz \<and> path (entry_time e) = P)"

lemma db_run_ok:
  assumes "dw_inv base sz P (localtime env) config rows ctx" and "dw_running ctx" and "\<not> shutdown (dw_queue ctx)"
    and env: "\<forall>l c. sqlite env l c" "0 < db_batch_size config"
    and "entries_fit sz P (db_path (output_dir ctx) (localtime env)) (pushed_entries evs)"
    and "db_run config env evs ctx = Some ctx'"
  shows "\<exists>rows'. dw_inv base sz P (localtime env) config rows' ctx' \<and> same_writer ctx ctx' \<and>
    rows' @ map parse_entry (pending ctx') = rows @ map parse_entry (pending ctx @ pushed_entries evs)"
  using assms(1-3,6,7)
proof (induction evs arbitrary: ctx rows)
  case (Cons ev evs)
  from Cons.prems(5) obtain ctx1 where c1: "db_step config env ev ctx = Some ctx1" "db_run config env evs ctx1 = Some ctx'"
    by (auto split: bind_splits)
  have "\<exists>rows1. dw_inv base sz P (localtime env) config rows1 ctx1 \<and> same_writer ctx ctx1 \<and>
      rows1 @ map parse_entry (pending ctx1) = rows @ map parse_entry (pending ctx @ pushed_entries [ev])"
  proof (cases ev)
    case (PushStack l t ts s)
    with Cons.prems(4) have "SIZEOF_DB_ENTRY + length s + 1 \<le> sz" "db_path (output_dir ctx) (localtime env) ts = P"
      by (auto simp: entries_fit_def)
    from push_ok[OF Cons.prems(1-3) this, of "env\<lparr>latency := l, log_time := t\<rparr>"] c1(1) PushStack show ?thesis by auto
  next
    case (WriterRound l t)
    with c1(1) obtain go where "writer_round config (env\<lparr>latency := l, log_time := t\<rparr>) ctx = Some (ctx1, go)" by auto
    with round_ok[OF Cons.prems(1), of "env\<lparr>latency := l, log_time := t\<rparr>"] env WriterRound show ?thesis by auto
  qed
  then obtain rows1 where r1: "dw_inv base sz P (localtime env) config rows1 ctx1" "same_writer ctx ctx1"
      "rows1 @ map parse_entry (pending ctx1) = rows @ map parse_entry (pending ctx @ pushed_entries [ev])" by blast
  have pe: "pushed_entries (ev # evs) = pushed_entries [ev] @ pushed_entries evs" by (cases ev) auto
  have "dw_running ctx1" "\<not> shutdown (dw_queue ctx1)" "entries_fit sz P (db_path (output_dir ctx1) (localtime env)) (pushed_entries evs)"
    using r1(2) Cons.prems(2-4) by (auto simp: same_writer_def entries_fit_def pe)
  from Cons.IH[OF r1(1) this c1(2)] obtain rows' where
    r: "dw_inv base sz P (localtime env) config rows' ctx'" "same_writer ctx1 ctx'"
      "rows' @ map parse_entry (pending ctx') = rows1 @ map parse_entry (pending ctx1 @ pushed_entries evs)" by blast
  have "rows' @ map parse_entry (pending ctx') = rows @ map parse_entry (pending ctx @ pushed_entries (ev # evs))"
    unfolding r(3) pe using r1(3) by simp
  with r same_writer_trans[OF r1(2)] show ?case by blast
qed (auto simp: same_writer_def)

section \<open>Shutting down\<close>

lemma stop_ok:
  assumes inv: "dw_inv base sz P lt config rows ctx" and "\<not> shutdown (dw_queue ctx)"
    and room: "size (dw_queue ctx) + length (producer_batch ctx) \<le> capacity (dw_queue ctx)"
  shows "\<exists>ctx'. db_writer_stop config env ctx = Some ctx' \<and> dw_inv base sz P lt config rows ctx' \<and>
    pending ctx' = pending ctx \<and> producer_batch ctx' = [] \<and> shutdown (dw_queue ctx') \<and> \<not> dw_running ctx' \<and>
    same_writer ctx (ctx'\<lparr>dw_running := dw_running ctx, dw_queue := (dw_queue ctx')\<lparr>shutdown := False\<rparr>\<rparr>)"
proof -
  let ?c = "ctx\<lparr>dw_running := False\<rparr>"
  have q: "queue_ok (dw_queue ctx)" using inv by (simp add: dw_inv_def)
  with flush_ok[of ?c config env] room assms(2) obtain qu hist where
    f: "db_writer_flush config env ?c = Some (?c\<lparr>dw_queue := qu, producer_batch := [], push_hist := hist\<rparr>)" "queue_ok qu"
      "queue_contents qu = queue_contents (dw_queue ctx) @ producer_batch ctx"
      "same_writer ?c (?c\<lparr>dw_queue := qu, producer_batch := [], push_hist := hist\<rparr>)"
    by (auto split: option.splits)
  let ?c' = "?c\<lparr>dw_queue := qu\<lparr>shutdown := True\<rparr>, producer_batch := [], push_hist := hist\<rparr>"
  have s: "db_writer_stop config env ctx = Some ?c'" using f(1) by (simp add: db_writer_stop_def queue_signal_shutdown_def)
  have pb: "pending_blocks ?c' = pending_blocks ctx" using f(3) by (simp add: pending_blocks_def)
  then have pe: "pending ?c' = pending ctx" unfolding pending_def pb by simp
  have "dw_inv base sz P lt config rows ?c'"
    using inv f(2) unfolding dw_inv_def pb pe by (auto simp: db_state_def flush_threshold_def)
  with s pe f(4) assms(2) show ?thesis by (intro exI[of _ ?c']) (auto simp: same_writer_def)
qed

lemma writer_loop_ok:
  assumes "dw_inv base sz P (localtime env) config rows ctx" and "\<not> dw_running ctx" and "producer_batch ctx = []"
    and env: "\<forall>l c. sqlite env l c" "0 < db_batch_size config" and "size (dw_queue ctx) < n"
  shows "\<exists>ctx'. writer_loop n config env ctx = Some ctx' \<and> same_writer ctx ctx' \<and> pending_blocks ctx' = [] \<and>
    dw_inv base sz P (localtime env) config (rows @ map parse_entry (pending ctx)) ctx'"
  using assms(1-3,6)
proof (induction n arbitrary: rows ctx)
  case (Suc n)
  from round_ok[OF Suc.prems(1) env(1) refl env(2)] Suc.prems(2) obtain ctx1 go rows1 where
    r: "writer_round config env ctx = Some (ctx1, go)" "dw_inv base sz P (localtime env) config rows1 ctx1" "same_writer ctx ctx1"
      "rows1 @ map parse_entry (pending ctx1) = rows @ map parse_entry (pending ctx)" "producer_batch ctx1 = producer_batch ctx"
      "size (dw_queue ctx1) = size (dw_queue ctx) - nat (db_batch_size config)" "go = (0 < size (dw_queue ctx))"
    by (auto split: option.splits)
  show ?case
  proof (cases go)
    case True
    have "\<not> dw_running ctx1" "producer_batch ctx1 = []" "size (dw_queue ctx1) < n"
      using r(3,5,6,7) True Suc.prems(2-4) env(2) by (auto simp: same_writer_def)
    from Suc.IH[OF r(2) this] obtain ctx' where "writer_loop n config env ctx1 = Some ctx'" "same_writer ctx1 ctx'"
        "pending_blocks ctx' = []" "dw_inv base sz P (localtime env) config (rows1 @ map parse_entry (pending ctx1)) ctx'" by blast
    with r True same_writer_trans[OF r(3)] show ?thesis by auto
  next
    case False
    with r(7) have "size (dw_queue ctx1) = 0" using r(6) by simp
    then have "pending_blocks ctx1 = []"
      using r(5) Suc.prems(3) by (simp add: pending_blocks_def queue_contents_def)
    moreover from this have "rows1 = rows @ map parse_entry (pending ctx)" using r(4) by (simp add: pending_def)
    ultimately show ?thesis using r(1-3) False by auto
  qed
qed simp

lemma dw_inv_heap:
  assumes "dw_inv base sz P lt config rows ctx"
    and "\<And>mp. pool_inv base sz (dw_heap ctx) mp (pending_blocks ctx) \<Longrightarrow> pool_inv base' sz h mp (pending_blocks ctx)"
    and "oom h = oom (dw_heap ctx)"
  shows "dw_inv base' sz P lt config rows (ctx\<lparr>dw_heap := h\<rparr>)"
  using assms unfolding dw_inv_def by (auto simp: pending_def pending_blocks_def db_state_def)

lemma thread_ok:
  assumes inv: "dw_inv base sz P (localtime env) config rows ctx" and st: "\<not> dw_running ctx" "producer_batch ctx = []"
    and env: "\<forall>l c. sqlite env l c" "0 < db_batch_size config" and n: "size (dw_queue ctx) < n"
  shows "\<exists>ctx'. db_writer_thread_func n config env ctx = Some ctx' \<and> same_writer ctx ctx' \<and> pending_blocks ctx' = [] \<and>
    dw_inv base sz P (localtime env) config (rows @ map parse_entry (pending ctx)) ctx'"
proof -
  have "\<forall>b. \<not> oom (dw_heap ctx) b" using inv by (simp add: dw_inv_def)
  then obtain h b where m: "malloc (dw_heap ctx) (8 * nat (db_batch_size config)) = (h, Some b)" by (auto simp: malloc_def)
  from inv obtain mp where "pool_inv base sz (dw_heap ctx) mp (pending_blocks ctx)" by (auto simp: dw_inv_def)
  from pool_inv_malloc_other(1)[OF this m] have bn: "base b = None" .
  let ?base = "base(b \<mapsto> 8 * nat (db_batch_size config))" and ?c = "ctx\<lparr>dw_heap := h\<rparr>"
  have "dw_inv ?base sz P (localtime env) config rows ?c"
    using dw_inv_heap[OF inv pool_inv_malloc_other(2)[OF _ m]] oom_malloc[OF m] by simp
  from writer_loop_ok[OF this _ _ env, of n] st n obtain ctx1 where
    w: "writer_loop n config env ?c = Some ctx1" "same_writer ?c ctx1" "pending_blocks ctx1 = []"
      "dw_inv ?base sz P (localtime env) config (rows @ map parse_entry (pending ?c)) ctx1" by auto
  have pc: "pending ?c = pending ctx" by (simp add: pending_def pending_blocks_def)
  from w(4) obtain mp1 where "pool_inv ?base sz (dw_heap ctx1) mp1 (pending_blocks ctx1)" by (auto simp: dw_inv_def)
  from pool_inv_free_other[OF this, of b] obtain h2 where h2: "free_block (dw_heap ctx1) b = Some h2" "oom h2 = oom (dw_heap ctx1)" by auto
  have "pool_inv base sz h2 mp (pending_blocks ctx1)" if "pool_inv ?base sz (dw_heap ctx1) mp (pending_blocks ctx1)" for mp
    using pool_inv_free_other[OF that, of b] h2 bn by (auto simp: fun_upd_idem)
  from dw_inv_heap[OF w(4) this h2(2)] have "dw_inv base sz P (localtime env) config (rows @ map parse_entry (pending ctx)) (ctx1\<lparr>dw_heap := h2\<rparr>)"
    by (simp add: pc)
  moreover have "db_writer_thread_func n config env ctx = Some (ctx1\<lparr>dw_heap := h2\<rparr>)"
    using m w(1) h2 by (simp add: db_writer_thread_func_def)
  ultimately show ?thesis using w(2,3) by (auto simp: same_writer_def pending_blocks_def)
qed

text \<open>The blocks of the writer besides the pool, on top of the rest of the program.\<close>

definition extends :: "(block \<Rightarrow> nat option) \<Rightarrow> block list \<Rightarrow> (block \<Rightarrow> nat option) \<Rightarrow> bool" where
  "extends base0 bs base \<longleftrightarrow> distinct bs \<and> (\<forall>b\<in>set bs. base0 b = None \<and> base b \<noteq> None) \<and>
     (\<forall>b. b \<notin> set bs \<longrightarrow> base b = base0 b)"

lemma extends_hd:
  "extends base0 (b # bs) base \<Longrightarrow> base b \<noteq> None \<and> extends base0 bs (base(b := None))"
  by (auto simp: extends_def)

lemma extends_nil: "extends base0 [] base \<Longrightarrow> base = base0"
  by (auto simp: extends_def)

lemma owns_extends: "owns base h bs \<Longrightarrow> extends base bs (live h)"
  by (auto simp: owns_def extends_def)

definition writer_blocks :: "db_writer \<Rightarrow> block list" where
  "writer_blocks ctx = str_blocks (output_dir ctx) @ [buf_block (dw_queue ctx), q_block (dw_queue ctx), ctx_block ctx]"

lemma wait_ok:
  assumes inv: "dw_inv base sz P lt config rows ctx" and "pending_blocks ctx = []" and "shutdown (dw_queue ctx)"
    and "thread_id ctx \<noteq> 0" and ext: "extends base0 (writer_blocks ctx) base"
  shows "\<exists>h log. db_writer_wait 1 ctx = Some (h, log) \<and> live h = base0 \<and> replay 0 log = (rows, None)"
proof -
  from inv obtain mp where mp: "entry_pool ctx = Some mp" "pool_inv base sz (dw_heap ctx) mp []"
    and rp: "replay 0 (sql_log ctx) = (rows, None)" using assms(2) by (auto simp: dw_inv_def db_state_def)
  have "queue_contents (dw_queue ctx) = []" using assms(2) by (simp add: pending_blocks_def)
  then have "size (dw_queue ctx) = 0" using length_queue_contents[of "dw_queue ctx"] by simp
  then have q: "empty_queue 1 (dw_queue ctx) = Some (dw_queue ctx)" using assms(3) by (simp add: queue_pop_def numeral_1_eq_Suc_0)
  let ?rest = "[buf_block (dw_queue ctx), q_block (dw_queue ctx), ctx_block ctx]"
  have "\<exists>h1 base1. free_str (dw_heap ctx) (output_dir ctx) = Some h1 \<and> pool_inv base1 sz h1 mp [] \<and> extends base0 ?rest base1"
  proof (cases "output_dir ctx")
    case None
    with mp(2) ext show ?thesis by (auto simp: free_str_def writer_blocks_def str_blocks_def)
  next
    case (Some p)
    obtain b d where p: "p = (b, d)" by (cases p)
    from ext Some p have "extends base0 (b # ?rest) base" by (simp add: writer_blocks_def str_blocks_def)
    note e = extends_hd[OF this]
    from pool_inv_free_other[OF mp(2), of b] e Some p show ?thesis by (auto simp: free_str_def)
  qed
  then obtain h1 base1 where 1: "free_str (dw_heap ctx) (output_dir ctx) = Some h1" "pool_inv base1 sz h1 mp []" "extends base0 ?rest base1" by blast
  note e1 = extends_hd[OF 1(3)]
  from pool_inv_free_other[OF 1(2)] e1 obtain h2 where
    2: "free_block h1 (buf_block (dw_queue ctx)) = Some h2" "pool_inv (base1(buf_block (dw_queue ctx) := None)) sz h2 mp []" by blast
  note e2 = extends_hd[OF conjunct2[OF e1]]
  from pool_inv_free_other[OF 2(2)] e2 obtain h3 where
    3: "free_block h2 (q_block (dw_queue ctx)) = Some h3"
      "pool_inv (base1(buf_block (dw_queue ctx) := None, q_block (dw_queue ctx) := None)) sz h3 mp []" by blast
  from mempool_destroy_full[OF 3(2)] obtain h4 where
    4: "mempool_destroy h3 (Some mp) = Some h4" "live h4 = base1(buf_block (dw_queue ctx) := None, q_block (dw_queue ctx) := None)" by blast
  note e3 = extends_hd[OF conjunct2[OF e2]]
  from e3 4(2) have 5: "free_block h4 (ctx_block ctx) = Some (h4\<lparr>live := (live h4)(ctx_block ctx := None)\<rparr>)" by (simp add: free_block_def)
  have "live (h4\<lparr>live := (live h4)(ctx_block ctx := None)\<rparr>) = base0" using extends_nil[OF conjunct2[OF e3]] 4(2) by simp
  moreover have "replay 0 (sql_log ctx @ [SqlClose c]) = (rows, None)" for c by (simp add: replay_append rp)
  ultimately show ?thesis using assms(4) q 1(1) 2(1) 3(1) 4(1) 5 mp(1) rp
    by (cases "db ctx") (simp_all add: db_writer_wait_def queue_destroy_def sql_issue_def)
qed

lemma init_ok:
  assumes "heap_ok h" and "\<forall>b. \<not> oom h b" and "db_writer_init config True h = Some (h0, Some ctx)"
  shows "\<exists>base. dw_inv base (SIZEOF_DB_ENTRY + nat (max_stack_depth config * 257)) P lt config [] ctx \<and>
    extends (live h) (writer_blocks ctx) base \<and> pending ctx = [] \<and> \<not> shutdown (dw_queue ctx) \<and>
    capacity (dw_queue ctx) = QUEUE_CAPACITY \<and> (\<exists>b. output_dir ctx = Some (b, db_output_dir config)) \<and> size (dw_queue ctx) = 0"
proof -
  let ?sz = "SIZEOF_DB_ENTRY + nat (max_stack_depth config * 257)"
  obtain h1 cb where m1: "malloc h 336 = (h1, Some cb)" using assms(2) by (auto simp: malloc_def)
  have o1: "oom h1 = oom h" "owns (live h) h1 [cb]" using oom_malloc[OF m1] owns_malloc[OF owns_start[OF assms(1)] m1] by auto
  obtain h2 qb where m2: "malloc h1 168 = (h2, Some qb)" using assms(2) o1 by (auto simp: malloc_def)
  have o2: "oom h2 = oom h" "owns (live h) h2 [qb, cb]" using oom_malloc[OF m2] owns_malloc[OF o1(2) m2] o1(1) by auto
  obtain h3 bb where m3: "malloc h2 (8 * QUEUE_CAPACITY) = (h3, Some bb)" using assms(2) o2 by (auto simp: malloc_def)
  have o3: "oom h3 = oom h" "owns (live h) h3 [bb, qb, cb]" using oom_malloc[OF m3] owns_malloc[OF o2(2) m3] o2(1) by auto
  obtain h4 db where m4: "strdup h3 (db_output_dir config) = (h4, Some (db, db_output_dir config))"
    using assms(2) o3 by (auto simp: strdup_def malloc_def)
  have o4: "oom h4 = oom h" "owns (live h) h4 [db, bb, qb, cb]"
    using owns_strdup[OF o3(2) m4] o3(1) by (auto simp: str_blocks_def)
  have qi: "queue_init h1 QUEUE_CAPACITY = Some (h3, Some \<lparr>q_block = qb, buf_block = bb, buffer = replicate QUEUE_CAPACITY None,
      capacity = QUEUE_CAPACITY, size = 0, head = 0, tail = 0, shutdown = False\<rparr>)"
    using m2 m3 by (simp add: queue_init_def)
  let ?q = "\<lparr>q_block = qb, buf_block = bb, buffer = (replicate QUEUE_CAPACITY None :: block option list),
      capacity = QUEUE_CAPACITY, size = 0, head = 0, tail = 0, shutdown = False\<rparr>"
  from assms(3) obtain h5 mp where
    mp: "mempool_create h4 (nat (db_entry_pool_size config)) ?sz = Some (h5, Some mp)"
    and ctx: "dw_heap ctx = h5" "dw_queue ctx = ?q" "output_dir ctx = Some (db, db_output_dir config)"
      "db_writer.db ctx = None" "current_db_path ctx = []" "entry_pool ctx = Some mp" "producer_batch ctx = []" "sql_log ctx = []"
      "ctx_block ctx = cb"
    by (auto simp: db_writer_init_def m1 m4 qi split: if_splits bind_splits option.splits)
  note pi = mempool_create_inv[OF mp owns_heap_ok[OF o4(2)]]
  have qc: "queue_contents ?q = []" by (simp add: queue_contents_def)
  have pb: "pending_blocks ctx = []" unfolding pending_blocks_def ctx qc by simp
  have om: "oom h5 = oom h" using mempool_create_oom[OF mp] o4(1) by simp
  have "queue_ok ?q" by (simp add: queue_ok_def slot_def)
  then have "dw_inv (live h4) ?sz P lt config [] ctx"
    unfolding dw_inv_def pending_def pb using ctx pi om assms(2)
    by (simp add: db_state_def replay_def flush_threshold_def)
  moreover have "extends (live h) (writer_blocks ctx) (live h4)"
    using owns_extends[OF o4(2)] ctx by (simp add: writer_blocks_def str_blocks_def)
  ultimately show ?thesis using ctx pb by (intro exI[of _ "live h4"]) (simp add: pending_def)
qed

text \<open>From the start of the writer to the join of its thread.\<close>

lemma writer_commits:
  assumes "heap_ok h" and "\<forall>b. \<not> oom h b" and "db_writer_init config True h = Some (h0, Some ctx0)"
    and "\<forall>l c. sqlite env l c" and "0 < db_batch_size config" and "0 < tid"
    and "entries_fit (SIZEOF_DB_ENTRY + nat (max_stack_depth config * 257)) P
          (db_path (output_dir ctx0) (localtime env)) (pushed_entries evs)"
    and "db_run config env evs (db_writer_start (Some tid) ctx0) = Some ctx1"
    and "size (dw_queue ctx1) + length (producer_batch ctx1) \<le> QUEUE_CAPACITY"
  shows "\<exists>ctx2 ctx3 h3 log. db_writer_stop config env ctx1 = Some ctx2 \<and>
    db_writer_thread_func (size (dw_queue ctx2) + 1) config env ctx2 = Some ctx3 \<and>
    db_writer_wait 1 ctx3 = Some (h3, log) \<and> live h3 = live h \<and>
    replay 0 log = (map parse_entry (pushed_entries evs), None)"
proof -
  let ?sz = "SIZEOF_DB_ENTRY + nat (max_stack_depth config * 257)" and ?c0 = "db_writer_start (Some tid) ctx0"
  from init_ok[OF assms(1-3), of P "localtime env"] obtain base where
    i: "dw_inv base ?sz P (localtime env) config [] ctx0" "extends (live h) (writer_blocks ctx0) base" "pending ctx0 = []"
      "\<not> shutdown (dw_queue ctx0)" "capacity (dw_queue ctx0) = QUEUE_CAPACITY" by blast
  have c0: "dw_inv base ?sz P (localtime env) config [] ?c0" "dw_running ?c0" "thread_id ?c0 \<noteq> 0" "pending ?c0 = []"
      "writer_blocks ?c0 = writer_blocks ctx0" "dw_queue ?c0 = dw_queue ctx0" "output_dir ?c0 = output_dir ctx0"
    using i(1,3) assms(6) by (auto simp: db_writer_start_def dw_inv_def pending_def pending_blocks_def db_state_def writer_blocks_def)
  from db_run_ok[OF c0(1,2) _ assms(4,5) _ assms(8)] i(4) c0(6,7) assms(7) obtain rows where
    r: "dw_inv base ?sz P (localtime env) config rows ctx1" "same_writer ?c0 ctx1"
      "rows @ map parse_entry (pending ctx1) = map parse_entry (pushed_entries evs)" by (auto simp: c0(4))
  have nsh: "\<not> shutdown (dw_queue ctx1)" "capacity (dw_queue ctx1) = QUEUE_CAPACITY"
    using r(2) i(4,5) c0(6) by (auto simp: same_writer_def)
  from stop_ok[OF r(1) nsh(1), of env] assms(9) nsh(2) obtain ctx2 where
    s: "db_writer_stop config env ctx1 = Some ctx2" "dw_inv base ?sz P (localtime env) config rows ctx2"
      "pending ctx2 = pending ctx1" "producer_batch ctx2 = []" "shutdown (dw_queue ctx2)" "\<not> dw_running ctx2"
      "same_writer ctx1 (ctx2\<lparr>dw_running := dw_running ctx1, dw_queue := (dw_queue ctx2)\<lparr>shutdown := False\<rparr>\<rparr>)" by auto
  from thread_ok[OF s(2,6,4) assms(4,5), of "size (dw_queue ctx2) + 1"] obtain ctx3 where
    t: "db_writer_thread_func (size (dw_queue ctx2) + 1) config env ctx2 = Some ctx3" "same_writer ctx2 ctx3" "pending_blocks ctx3 = []"
      "dw_inv base ?sz P (localtime env) config (map parse_entry (pushed_entries evs)) ctx3" unfolding s(3) r(3) by auto
  have "shutdown (dw_queue ctx3)" "thread_id ctx3 \<noteq> 0" "writer_blocks ctx3 = writer_blocks ctx0"
    using r(2) s(5,7) t(2) c0(3,5) by (auto simp: same_writer_def writer_blocks_def)
  with wait_ok[OF t(4,3), of "live h"] i(2) obtain h3 log where "db_writer_wait 1 ctx3 = Some (h3, log)" "live h3 = live h"
      "replay 0 log = (map parse_entry (pushed_entries evs), None)" by auto
  with s(1) t(1) show ?thesis by blast
qed

section \<open>Properties\<close>


definition bucket_of :: "int \<Rightarrow> nat" where
  "bucket_of l = length (takeWhile (\<lambda>t. t \<le> l) [1000, 5000, 10000, 50000, 100000, 500000, 1000000, 5000000, 10000000])"

lemma count_latency_bucket:
  assumes "list_all (\<lambda>t. t \<noteq> - 1) ts" and "length bs = Suc (length ts)"
  shows "count_latency (ts @ [- 1]) l bs = bs[length (takeWhile (\<lambda>t. t \<le> l) ts) := Suc (bs ! length (takeWhile (\<lambda>t. t \<le> l) ts))]"
  using assms
proof (induction ts arbitrary: bs)
  case Nil
  then show ?case by (cases bs) auto
next
  case (Cons t ts)
  then obtain b bs' where "bs = b # bs'" by (cases bs) auto
  with Cons show ?case by auto
qed

lemma histogram_add_bucket:
  assumes "length (latency_buckets hist) = 10"
  shows "latency_buckets (histogram_add l hist) =
    (latency_buckets hist)[bucket_of l := Suc (latency_buckets hist ! bucket_of l)]"
  using count_latency_bucket[of "[1000, 5000, 10000, 50000, 100000, 500000, 1000000, 5000000, 10000000]" "latency_buckets hist" l] assms
  by (simp add: histogram_add_def bucket_thresholds_def bucket_of_def)

text \<open>
  The latency histogram against its meaning: after any sequence of latencies, the \<open>i\<close>-th of
  the ten counters is the number of latencies that lie between the \<open>i\<close>-th and the next limit.
\<close>

theorem latency_histogram:
  "latency_count (fold histogram_add ls fresh_histogram) = length ls \<and>
   latency_buckets (fold histogram_add ls fresh_histogram) = map (\<lambda>i. length (filter (\<lambda>l. bucket_of l = i) ls)) [0..<10]"
proof (induction ls rule: rev_induct)
  case Nil
  then show ?case by (simp add: fresh_histogram_def map_replicate_const)
next
  case (snoc l ls)
  let ?h = "fold histogram_add ls fresh_histogram"
  have b: "bucket_of l < 10"
    using length_takeWhile_le[of "\<lambda>t. t \<le> l" "[1000, 5000, 10000, 50000, 100000, 500000, 1000000, 5000000, 10000000]"]
    unfolding bucket_of_def by simp
  from snoc have "length (latency_buckets ?h) = 10" by simp
  from histogram_add_bucket[OF this, of l] have "latency_buckets (fold histogram_add (ls @ [l]) fresh_histogram) =
      (latency_buckets ?h)[bucket_of l := Suc (latency_buckets ?h ! bucket_of l)]" by simp
  also have "\<dots> = map (\<lambda>i. length (filter (\<lambda>l. bucket_of l = i) (ls @ [l]))) [0..<10]"
    unfolding conjunct2[OF snoc] by (rule nth_equalityI) (use b in \<open>auto simp: nth_list_update\<close>)
  finally show ?case using snoc by (simp add: histogram_add_def)
qed

text \<open>
  Entries are not checked against the chunk they are copied into: a stack string longer than
  the configured depth times 257 bytes (12336 by default, while the symbolizer forms strings of
  up to 16639 characters) is written past the end of the chunk.
\<close>

theorem entry_overflow:
  assumes "dw_inv base sz P lt config rows ctx" and "dw_running ctx" and "sz < SIZEOF_DB_ENTRY + length s + 1"
  shows "db_writer_push_stack config env ts s ctx = None"
proof -
  from assms(1) obtain mp where mp: "entry_pool ctx = Some mp" "pool_inv base sz (dw_heap ctx) mp (pending_blocks ctx)"
      "\<forall>b. \<not> oom (dw_heap ctx) b" by (auto simp: dw_inv_def)
  from mempool_alloc_oom[OF mp(3)] obtain h mp1 b where
    a: "mempool_alloc (dw_heap ctx) (Some mp) = (h, mp1, Some b)" by blast
  from mempool_alloc_Some[OF mp(2) a] have "live h b = Some sz" by blast
  with a mp(1) assms(2,3) show ?thesis by (simp add: db_writer_push_stack_def)
qed

text \<open>
  The error path of the thread: when the database file cannot be opened, the batch is
  discarded by freeing the strings, which lie inside their chunks, so the program faults.
\<close>

theorem db_open_failure_faults:
  assumes "batch \<noteq> []" and "db_path (output_dir ctx) (localtime env) (entry_time (entries ctx (hd batch))) \<noteq> current_db_path ctx"
    and "\<forall>l n p. \<not> sqlite env l (SqlOpen n p)"
  shows "write_batch env batch ctx = None"
  using assms by (cases batch) (simp_all add: write_batch_def ensure_db_handle_def sql_ok_def Let_def free_at_def)

text \<open>The switch to the database of another hour in the middle of a batch.\<close>

definition switch_calls :: "string \<Rightarrow> sql_call list" where
  "switch_calls P = [SqlClose 0, SqlOpen 1 P, SqlExec (Some 1) sql_wal, SqlExec (Some 1) sql_table, SqlExec (Some 1) sql_index]"

lemma ensure_switch:
  assumes "db ctx = Some 0" and "next_conn ctx = 1" and "current_db_path ctx \<noteq> P'"
    and "db_path (output_dir ctx) (localtime env) ts = P'" and "\<forall>l c. sqlite env l c"
  shows "ensure_db_handle env ts ctx = (ctx\<lparr>db := Some 1, current_db_path := P', sql_log := sql_log ctx @ switch_calls P'\<rparr>, True)"
  using assms
  by (simp add: ensure_db_handle_def setup_db_def sql_ok_def sql_issue_def close_db_def next_conn_def switch_calls_def Let_def)

lemma insert_entries_append:
  "insert_entries env stmt xs ctx = Some (ctx', True) \<Longrightarrow> insert_entries env stmt (xs @ ys) ctx = insert_entries env stmt ys ctx'"
  by (induction xs arbitrary: ctx) (auto split: prod.splits bool.splits bind_splits)

lemma insert_entries_switch:
  assumes "db ctx = Some 0" and "next_conn ctx = 1" and "current_db_path ctx \<noteq> P'" and "\<forall>l c. sqlite env l c"
    and "bs \<noteq> []" and "\<forall>b\<in>set bs. db_path (output_dir ctx) (localtime env) (entry_time (entries ctx b)) = P'"
  shows "insert_entries env stmt bs ctx =
    Some (ctx\<lparr>db := Some 1, current_db_path := P',
      sql_log := sql_log ctx @ switch_calls P' @ map (SqlInsert stmt) (map (parse_entry \<circ> entries ctx) bs)\<rparr>, True)"
proof -
  from assms(5) obtain b bs' where bs: "bs = b # bs'" by (cases bs) auto
  let ?c = "ctx\<lparr>db := Some 1, current_db_path := P', sql_log := sql_log ctx @ switch_calls P'\<rparr>"
  have "ensure_db_handle env (entry_time (entries ctx b)) ctx = (?c, True)"
    using ensure_switch[OF assms(1-3) _ assms(4)] assms(6) bs by simp
  with insert_entries_ok[of "sql_issue (SqlInsert stmt (parse_entry (entries ctx b))) ?c" P' bs' env stmt] assms(6) bs
  show ?thesis by (simp add: sql_issue_def)
qed

lemma replay_same: "list_all (\<lambda>x. \<forall>s. replay_call c x s = s) l \<Longrightarrow> replay c (log @ l) = replay c log"
proof (induction l arbitrary: log rule: rev_induct)
  case (snoc x l)
  have "replay c (log @ l @ [x]) = replay_call c x (replay c (log @ l))" by (simp add: replay_append flip: append_assoc)
  with snoc show ?case by (cases "replay c log") simp
qed simp

text \<open>
  C40. The change of the hour within a batch: the statement and the transaction belong to the
  connection of the first entry, the commit goes to the connection of the last one. The rows of the
  whole batch, those of the old hour too, stay in a transaction that is never committed.
\<close>

theorem hour_change_loses_batch:
  assumes "replay 0 (sql_log ctx) = (rows, None)" and "db ctx = Some 0" and "next_conn ctx = 1" and "current_db_path ctx = P"
    and "P' \<noteq> P" and "\<forall>l c. sqlite env l c" and "bs \<noteq> []" and "bs' \<noteq> []"
    and "\<forall>b\<in>set bs. db_path (output_dir ctx) (localtime env) (entry_time (entries ctx b)) = P"
    and "\<forall>b\<in>set bs'. db_path (output_dir ctx) (localtime env) (entry_time (entries ctx b)) = P'"
    and "entry_pool ctx = Some mp" and "pool_inv base sz (dw_heap ctx) mp ((bs @ bs') @ out)"
  shows "\<exists>ctx' log. write_batch env (bs @ bs') ctx = Some ctx' \<and>
    sql_log ctx' = log @ [SqlExec (Some 1) ''COMMIT;'', SqlFinalize 0] \<and>
    replay 0 (sql_log ctx') = (rows, Some (map (parse_entry \<circ> entries ctx) (bs @ bs')))"
proof -
  let ?row = "parse_entry \<circ> entries ctx"
  let ?log1 = "(sql_log ctx @ [SqlPrepare 0]) @ [SqlExec (Some 0) ''BEGIN TRANSACTION;'']"
  let ?c1 = "ctx\<lparr>sql_log := ?log1\<rparr>"
  let ?c2 = "ctx\<lparr>sql_log := ?log1 @ map (SqlInsert 0) (map ?row bs)\<rparr>"
  let ?log = "?log1 @ map (SqlInsert 0) (map ?row bs) @ switch_calls P' @ map (SqlInsert 0) (map ?row bs')"
  let ?c3 = "ctx\<lparr>db := Some 1, current_db_path := P', sql_log := ?log @ [SqlExec (Some 1) ''COMMIT;'', SqlFinalize 0]\<rparr>"
  have nc: "next_conn ?c2 = 1" using assms(3) by (simp add: next_conn_def comp_def)
  have i1: "insert_entries env 0 bs ?c1 = Some (?c2, True)"
    using insert_entries_ok[of ?c1 P bs env 0] assms(2,4,9) by simp
  have i2: "insert_entries env 0 bs' ?c2 = Some (ctx\<lparr>db := Some 1, current_db_path := P', sql_log := ?log\<rparr>, True)"
    using insert_entries_switch[of ?c2 P' env bs' 0] nc assms(2,4,5,6,8,10) by simp
  have e: "ensure_db_handle env (entry_time (entries ctx (hd (bs @ bs')))) ctx = (ctx, True)"
    using assms(2,4,7,9) by (simp add: ensure_db_handle_def)
  from return_chunks_ok[of ?c3 mp base sz "bs @ bs'" out] assms(11,12) obtain h mp' where
    r: "return_chunks (bs @ bs') ?c3 = Some (?c3\<lparr>dw_heap := h, entry_pool := Some mp'\<rparr>)" by auto
  have "write_batch env (bs @ bs') ctx = Some (?c3\<lparr>dw_heap := h, entry_pool := Some mp'\<rparr>)"
    using e r insert_entries_append[OF i1, of bs'] i2 assms(2,6) by (simp add: write_batch_def sql_ok_def sql_issue_def)
  moreover have "replay 0 (?log @ [SqlExec (Some 1) ''COMMIT;'', SqlFinalize 0]) = (rows, Some (map ?row (bs @ bs')))"
  proof -
    have "replay 0 ?log1 = (rows, Some [])" by (simp only: replay_append assms(1)) simp
    from replay_inserts[OF this, of "map ?row bs"]
    have "replay 0 ((?log1 @ map (SqlInsert 0) (map ?row bs)) @ switch_calls P') = (rows, Some (map ?row bs))"
      by (subst replay_same) (simp_all add: switch_calls_def)
    from replay_inserts[OF this, of "map ?row bs'"] have "replay 0 ?log = (rows, Some (map ?row (bs @ bs')))" by simp
    then show ?thesis by (subst replay_same) simp_all
  qed
  ultimately show ?thesis by (intro exI[of _ "?c3\<lparr>dw_heap := h, entry_pool := Some mp'\<rparr>"] exI[of _ ?log]) simp
qed

section \<open>Examples\<close>

definition example_db_config :: profiling_config where
  "example_db_config = default_config\<lparr>max_stack_depth := 65, db_entry_pool_size := 2\<rparr>"

definition example_db_env :: db_env where
  "example_db_env = \<lparr>sqlite = (\<lambda>_ _. True), localtime = (\<lambda>t. \<lparr>tm_year = 125, tm_mon = 0, tm_mday = 2, tm_hour = t div 3600\<rparr>),
     latency = 700, log_time = None\<rparr>"

lemma example_writer_init: "\<exists>h0 ctx0. db_writer_init example_db_config True empty_heap = Some (h0, Some ctx0)"
  by (simp add: db_writer_init_def example_db_config_def default_config_def queue_init_def mempool_create_def strdup_def
      malloc_def empty_heap_def numeral_2_eq_2)

lemma example_row: "parse_entry \<lparr>entry_time = 7, stack_str = ''42|sh|sh[42];main''\<rparr> =
    \<lparr>row_time = 7, row_pid = 42, row_name = ''sh'', row_stack = ''sh[42];main''\<rparr>"
  by code_simp

text \<open>A session with one stack.\<close>

definition example_session :: "db_event list" where
  "example_session = [PushStack 0 None 7 ''42|sh|sh[42];main'']"

lemma example_session_runs:
  "\<exists>h0 ctx0 ctx1 b. db_writer_init example_db_config True empty_heap = Some (h0, Some ctx0) \<and>
    entries_fit (SIZEOF_DB_ENTRY + nat (max_stack_depth example_db_config * 257)) (db_path (output_dir ctx0) (localtime example_db_env) 7)
      (db_path (output_dir ctx0) (localtime example_db_env)) (pushed_entries example_session) \<and>
    db_run example_db_config example_db_env example_session (db_writer_start (Some 1) ctx0) = Some ctx1 \<and>
    size (dw_queue ctx1) + length (producer_batch ctx1) \<le> QUEUE_CAPACITY \<and> output_dir ctx0 = Some (b, db_output_dir example_db_config)"
proof -
  let ?config = example_db_config and ?env = example_db_env and ?sz = "SIZEOF_DB_ENTRY + nat (max_stack_depth example_db_config * 257)"
  let ?evs = "[PushStack 0 None 7 ''42|sh|sh[42];main'']"
  have om: "\<forall>b. \<not> oom empty_heap b" by (simp add: empty_heap_def)
  from example_writer_init obtain h0 ctx0 where init: "db_writer_init ?config True empty_heap = Some (h0, Some ctx0)" by blast
  let ?P = "db_path (output_dir ctx0) (localtime ?env) 7" and ?c0 = "db_writer_start (Some 1) ctx0"
  from init_ok[OF heap_ok_empty om init, of ?P "localtime ?env"] obtain base where
    i: "dw_inv base ?sz ?P (localtime ?env) ?config [] ctx0" "\<not> shutdown (dw_queue ctx0)"
      "capacity (dw_queue ctx0) = QUEUE_CAPACITY" "size (dw_queue ctx0) = 0" by blast
  have c0: "dw_inv base ?sz ?P (localtime ?env) ?config [] ?c0" "dw_running ?c0" "\<not> shutdown (dw_queue ?c0)"
    using i(1,2) by (auto simp: db_writer_start_def dw_inv_def pending_def pending_blocks_def db_state_def)
  have fit: "entries_fit ?sz ?P (db_path (output_dir ctx0) (localtime ?env)) (pushed_entries ?evs)"
    by (simp add: entries_fit_def example_db_config_def)
  from push_ok[OF c0, of "''42|sh|sh[42];main''" 7 "?env\<lparr>latency := 0, log_time := None\<rparr>"] i(3,4) obtain ctx1 where
    p: "db_writer_push_stack ?config (?env\<lparr>latency := 0, log_time := None\<rparr>) 7 ''42|sh|sh[42];main'' ?c0 = Some ctx1"
      "dw_inv base ?sz ?P (localtime ?env) ?config [] ctx1" "pending ctx1 = pending ?c0 @ [\<lparr>entry_time = 7, stack_str = ''42|sh|sh[42];main''\<rparr>]"
    by (auto simp: db_writer_start_def example_db_config_def default_config_def flush_threshold_def split: option.splits)
  have run: "db_run ?config ?env ?evs ?c0 = Some ctx1" using p(1) by simp
  have "length (pending ctx1) = size (dw_queue ctx1) + length (producer_batch ctx1)" by (simp add: pending_def pending_blocks_def)
  moreover have "length (pending ctx1) = 1 + length (pending ?c0)" using p(3) by simp
  moreover have "pending ?c0 = []" using init_ok[OF heap_ok_empty om init, of ?P "localtime ?env"]
    by (auto simp: db_writer_start_def pending_def pending_blocks_def)
  ultimately have "size (dw_queue ctx1) + length (producer_batch ctx1) \<le> QUEUE_CAPACITY" by simp
  with init fit run show ?thesis unfolding example_session_def using init_ok[OF heap_ok_empty om init, of ?P "localtime ?env"] by blast
qed

lemma example_setting:
  "\<forall>b. \<not> oom empty_heap b" "\<forall>l c. sqlite example_db_env l c" "0 < db_batch_size example_db_config"
  by (simp_all add: empty_heap_def example_db_env_def example_db_config_def default_config_def)


theorem entry_overflow_witness:
  "\<exists>h0 ctx0. db_writer_init example_db_config True empty_heap = Some (h0, Some ctx0) \<and>
    db_writer_push_stack example_db_config example_db_env 7 (replicate 16705 CHR ''a'') (db_writer_start (Some 1) ctx0) = None"
proof -
  have om: "\<forall>b. \<not> oom empty_heap b" by (simp add: empty_heap_def)
  from example_writer_init obtain h0 ctx0 where init: "db_writer_init example_db_config True empty_heap = Some (h0, Some ctx0)" by blast
  from init_ok[OF heap_ok_empty om init, of "[]" "localtime example_db_env"] obtain base where
    "dw_inv base 16721 [] (localtime example_db_env) example_db_config [] ctx0" by (auto simp: example_db_config_def)
  then have "dw_inv base 16721 [] (localtime example_db_env) example_db_config [] (db_writer_start (Some 1) ctx0)"
    by (auto simp: db_writer_start_def dw_inv_def pending_def pending_blocks_def db_state_def)
  from entry_overflow[OF this, of "replicate 16705 CHR ''a''"] init show ?thesis by (auto simp: db_writer_start_def)
qed

theorem db_open_failure_faults_witness:
  "\<exists>h0 ctx0. db_writer_init example_db_config True empty_heap = Some (h0, Some ctx0) \<and>
    write_batch (example_db_env\<lparr>sqlite := (\<lambda>_ _. False)\<rparr>) [0] ctx0 = None"
proof -
  have om: "\<forall>b. \<not> oom empty_heap b" by (simp add: empty_heap_def)
  from example_writer_init obtain h0 ctx0 where init: "db_writer_init example_db_config True empty_heap = Some (h0, Some ctx0)" by blast
  from init_ok[OF heap_ok_empty om init, of "[]"] have "current_db_path ctx0 = []" by (auto simp: dw_inv_def db_state_def)
  with db_open_failure_faults[of "[0]" ctx0 "example_db_env\<lparr>sqlite := (\<lambda>_ _. False)\<rparr>"] init db_path_nonempty show ?thesis by auto
qed

text \<open>Two entries, one second apart, at the turn of an hour.\<close>

definition example_open_writer :: db_writer where
  "example_open_writer = \<lparr>ctx_block = 8, dw_heap = fst two_chunks, dw_queue = fresh_queue 4, output_dir = Some (9, ''/tmp''),
     dw_running = True, thread_id = 1, db = Some 0, current_db_path = ''/tmp/profiling_2025-01-02_00.db'',
     entry_pool = Some ((snd two_chunks)\<lparr>count := 0\<rparr>),
     entries = (\<lambda>b. if b = 2 then \<lparr>entry_time = 3599000000000, stack_str = ''42|sh|sh[42]''\<rparr>
       else \<lparr>entry_time = 3600000000000, stack_str = ''42|sh|sh[42];main''\<rparr>),
     producer_batch = [], push_hist = fresh_histogram, pop_hist = fresh_histogram,
     sql_log = [SqlOpen 0 ''/tmp/profiling_2025-01-02_00.db'']\<rparr>"

lemma example_paths:
  "db_path (Some (9, ''/tmp'')) (localtime example_db_env) 3599000000000 = ''/tmp/profiling_2025-01-02_00.db''"
  "db_path (Some (9, ''/tmp'')) (localtime example_db_env) 3600000000000 = ''/tmp/profiling_2025-01-02_01.db''"
proof -
  have "print_padded 4 2025 = ''2025''" "print_padded 2 0 = ''00''" "print_padded 2 1 = ''01''" "print_padded 2 2 = ''02''"
    by code_simp+
  then show "db_path (Some (9, ''/tmp'')) (localtime example_db_env) 3599000000000 = ''/tmp/profiling_2025-01-02_00.db''"
    "db_path (Some (9, ''/tmp'')) (localtime example_db_env) 3600000000000 = ''/tmp/profiling_2025-01-02_01.db''"
    by (simp_all add: db_path_def example_db_env_def clip_def Let_def)
qed

theorem hour_change_loses_batch_witness:
  "\<exists>ctx' log. write_batch example_db_env ([2] @ [3]) example_open_writer = Some ctx' \<and>
    sql_log ctx' = log @ [SqlExec (Some 1) ''COMMIT;'', SqlFinalize 0] \<and>
    replay 0 (sql_log ctx') = ([], Some (map (parse_entry \<circ> entries example_open_writer) ([2] @ [3])))"
proof (rule hour_change_loses_batch)
  show "replay 0 (sql_log example_open_writer) = ([], None)" "next_conn example_open_writer = 1" "db example_open_writer = Some 0"
      "current_db_path example_open_writer = ''/tmp/profiling_2025-01-02_00.db''"
      "entry_pool example_open_writer = Some ((snd two_chunks)\<lparr>count := 0\<rparr>)"
    by (simp_all add: example_open_writer_def next_conn_def replay_def)
  show "''/tmp/profiling_2025-01-02_01.db'' \<noteq> ''/tmp/profiling_2025-01-02_00.db''" "[2] \<noteq> ([] :: block list)" "[3] \<noteq> ([] :: block list)"
      "\<forall>l c. sqlite example_db_env l c" by (simp_all add: example_db_env_def)
  show "\<forall>b\<in>set [2]. db_path (output_dir example_open_writer) (localtime example_db_env) (entry_time (entries example_open_writer b)) =
      ''/tmp/profiling_2025-01-02_00.db''"
    "\<forall>b\<in>set [3]. db_path (output_dir example_open_writer) (localtime example_db_env) (entry_time (entries example_open_writer b)) =
      ''/tmp/profiling_2025-01-02_01.db''" using example_paths by (simp_all add: example_open_writer_def)
  show "pool_inv (live empty_heap) 64 (dw_heap example_open_writer) ((snd two_chunks)\<lparr>count := 0\<rparr>) (([2] @ [3]) @ [])"
    by (auto simp: pool_inv_def example_open_writer_def two_chunks_def avail_def heap_ok_def empty_heap_def fun_eq_iff split: if_splits)
qed

end
