(* ===== verification/Query_Tool.thy ===== *)
theory Query_Tool
  imports Db_Writer Hash_Tables
begin

text \<open>
  The query tool (config/query_tool.c), a program of its own that reads the data the profiler
  left: it sums up the counts of each stack in a chained hash table, either over the database
  files of the hours asked for (historical mode) or over the answer of the server (live mode).
  The file system, SQLite, cURL, cJSON and \<open>localtime_r\<close> are parameters. \<open>None\<close> is a fault.
\<close>

section \<open>The response buffer\<close>

definition realloc :: "c_heap \<Rightarrow> block option \<Rightarrow> nat \<Rightarrow> (c_heap \<times> block option) option" where
  "realloc h p n = (case malloc h n of
     (h, None) \<Rightarrow> Some (h, None)
   | (h, Some b) \<Rightarrow>
       (case p of
          None \<Rightarrow> Some (h, Some b)
        | Some q \<Rightarrow> do { h \<leftarrow> free_block h q; Some (h, Some b) }))"

text \<open>\<open>ms_data\<close> are the bytes before the terminating NUL; \<open>None\<close> for memory never written.\<close>

record memory_struct =
  ms_memory :: "block option"
  ms_data :: "string option"
  ms_size :: nat

text \<open>The callback for \<open>size * nmemb\<close> bytes \<open>contents\<close>; it returns how many it took.\<close>

definition write_memory_callback ::
  "c_heap \<Rightarrow> string \<Rightarrow> memory_struct \<Rightarrow> (c_heap \<times> memory_struct \<times> nat) option" where
  "write_memory_callback h contents ms = do {
     let realsize = length contents;
     (h, p) \<leftarrow> realloc h (ms_memory ms) (ms_size ms + realsize + 1);
     case p of
       None \<Rightarrow> Some (h, ms, 0)
     | Some b \<Rightarrow> Some (h, \<lparr>ms_memory = Some b,
         ms_data = Some (take (ms_size ms) (case ms_data ms of None \<Rightarrow> [] | Some d \<Rightarrow> d) @ contents),
         ms_size = ms_size ms + realsize\<rparr>, realsize) }"

section \<open>The aggregation table\<close>

abbreviation HASH_TABLE_SIZE :: nat where "HASH_TABLE_SIZE \<equiv> 4096"

record ht_entry =
  entry_block :: block
  entry_key :: "block \<times> string"
  entry_value :: int

record ht_t =
  ht_block :: block
  ht_array :: block
  ht_slots :: "ht_entry list list"

text \<open>DJB2 in an \<open>unsigned long\<close>; a \<open>char\<close> is signed.\<close>

definition char_val_long :: "char \<Rightarrow> u64" where
  "char_val_long c = (let n = of_char c in if n < 128 then of_nat n else of_nat n - 256)"

fun djb2 :: "u64 \<Rightarrow> string \<Rightarrow> u64" where
  "djb2 hash [] = hash"
| "djb2 hash (c # cs) = djb2 ((push_bit 5 hash + hash) + char_val_long c) cs"

definition hash_key :: "string \<Rightarrow> nat" where
  "hash_key key = unat (djb2 5381 key mod 4096)"

definition ht_create :: "c_heap \<Rightarrow> (c_heap \<times> ht_t option) option" where
  "ht_create h = (case malloc h 8 of
     (h, None) \<Rightarrow> Some (h, None)
   | (h, Some b) \<Rightarrow>
       (case malloc h (8 * HASH_TABLE_SIZE) of
          (h, None) \<Rightarrow> do { h \<leftarrow> free_block h b; Some (h, None) }
        | (h, Some a) \<Rightarrow> Some (h, Some \<lparr>ht_block = b, ht_array = a, ht_slots = replicate HASH_TABLE_SIZE []\<rparr>)))"

abbreviation key_of :: "ht_entry \<Rightarrow> string" where
  "key_of e \<equiv> snd (entry_key e)"

text \<open>Signed overflow is undefined.\<close>

definition int_add :: "int \<Rightarrow> int \<Rightarrow> int option" where
  "int_add a b = (if - (2 ^ 31) \<le> a + b \<and> a + b < 2 ^ 31 then Some (a + b) else None)"

definition agg_insert :: "c_heap \<Rightarrow> ht_t option \<Rightarrow> string \<Rightarrow> int \<Rightarrow> (c_heap \<times> ht_t option) option" where
  "agg_insert h tbl key value = do {
     t \<leftarrow> tbl;
     case ht_find hash_key key_of (ht_slots t) key of
       Some e \<Rightarrow> do {
         v \<leftarrow> int_add (entry_value e) value;
         Some (h, Some (t\<lparr>ht_slots := ht_update hash_key key_of (ht_slots t) (e\<lparr>entry_value := v\<rparr>)\<rparr>)) }
     | None \<Rightarrow>
         (case malloc h 24 of
            (h, None) \<Rightarrow> Some (h, Some t)
          | (h, Some b) \<Rightarrow>
              (case strdup h key of
                 (h, None) \<Rightarrow> do { h \<leftarrow> free_block h b; Some (h, Some t) }
               | (h, Some k) \<Rightarrow>
                   Some (h, Some (t\<lparr>ht_slots := ht_insert hash_key key_of (ht_slots t)
                     \<lparr>entry_block = b, entry_key = k, entry_value = value\<rparr>\<rparr>)))) }"

definition print_entry :: "ht_entry \<Rightarrow> string" where
  "print_entry e = key_of e @ ''|'' @ print_int (entry_value e)"

definition ht_foreach :: "ht_t \<Rightarrow> string list" where
  "ht_foreach t = concat (map (map print_entry) (ht_slots t))"

fun free_chain :: "c_heap \<Rightarrow> ht_entry list \<Rightarrow> c_heap option" where
  "free_chain h [] = Some h"
| "free_chain h (e # es) = do {
     h \<leftarrow> free_block h (fst (entry_key e));
     h \<leftarrow> free_block h (entry_block e);
     free_chain h es }"

fun free_chains :: "c_heap \<Rightarrow> ht_entry list list \<Rightarrow> c_heap option" where
  "free_chains h [] = Some h"
| "free_chains h (c # cs) = do { h \<leftarrow> free_chain h c; free_chains h cs }"

definition ht_destroy :: "c_heap \<Rightarrow> ht_t option \<Rightarrow> c_heap option" where
  "ht_destroy h tbl = (case tbl of
     None \<Rightarrow> Some h
   | Some t \<Rightarrow> do {
       h \<leftarrow> free_chains h (ht_slots t);
       h \<leftarrow> free_block h (ht_array t);
       free_block h (ht_block t) })"

section \<open>Building text in a buffer\<close>

text \<open>
  \<open>offset += snprintf(buf + offset, sizeof(buf) - offset, ...)\<close>: the text in the buffer and the
  offset, which counts what did not fit. With the offset past the end the size wraps around and
  the write is out of bounds.
\<close>

definition append_fmt :: "nat \<Rightarrow> string \<Rightarrow> string \<times> nat \<Rightarrow> (string \<times> nat) option" where
  "append_fmt n s st = (case st of (buf, offset) \<Rightarrow>
     if n < offset then None
     else Some (if offset < n then buf @ clip (n - offset) s else buf, offset + length s))"

definition append_if :: "bool \<Rightarrow> nat \<Rightarrow> string \<Rightarrow> string \<times> nat \<Rightarrow> (string \<times> nat) option" where
  "append_if c n s st = (if c then append_fmt n s st else Some st)"

text \<open>\<open>seconds * 1000000000LL\<close>, in a \<open>long long\<close>.\<close>

definition to_ns :: "int \<Rightarrow> int option" where
  "to_ns s = (if - (2 ^ 63) \<le> s * 1000000000 \<and> s * 1000000000 < 2 ^ 63 then Some (s * 1000000000) else None)"

definition ns_if :: "int \<Rightarrow> int option" where
  "ns_if s = (if 0 < s then to_ns s else Some 0)"

section \<open>The historical query\<close>

record query_opts =
  db_dir :: "string option"
  start_time :: int
  end_time :: int
  q_pid :: int
  q_name :: "string option"
  server_url :: string

record query_env =
  q_localtime :: "int \<Rightarrow> tm"
  q_exists :: "string \<Rightarrow> bool"
  q_opens :: "string \<Rightarrow> bool"
  q_prepares :: "string \<Rightarrow> string \<Rightarrow> bool"
  q_rows :: "string \<Rightarrow> string \<Rightarrow> (string option \<times> int) list"

definition query_path :: "string \<Rightarrow> (int \<Rightarrow> tm) \<Rightarrow> int \<Rightarrow> string" where
  "query_path dir lt ts =
     (let t = lt ts in
      clip 256 (dir @ ''/profiling_'' @ print_padded 4 (tm_year t + 1900) @ ''-'' @
        print_padded 2 (tm_mon t + 1) @ ''-'' @ print_padded 2 (tm_mday t) @ ''_'' @ print_padded 2 (tm_hour t) @ ''.db''))"

definition quote :: char where
  "quote = CHR 0x27"

definition where_clauses :: "query_opts \<Rightarrow> string option" where
  "where_clauses opts = do {
     let st = ('' WHERE 1=1 '', 11);
     start_ns \<leftarrow> ns_if (start_time opts);
     st \<leftarrow> append_if (0 < start_time opts) 512 ('' AND timestamp >= '' @ print_int start_ns) st;
     end_ns \<leftarrow> ns_if (end_time opts);
     st \<leftarrow> append_if (0 < end_time opts) 512 ('' AND timestamp <= '' @ print_int end_ns) st;
     st \<leftarrow> append_if (0 < q_pid opts) 512 ('' AND pid = '' @ print_int (q_pid opts)) st;
     st \<leftarrow> (case q_name opts of
             None \<Rightarrow> Some st
           | Some name \<Rightarrow> append_fmt 512 ('' AND process_name = '' @ [quote] @ name @ [quote]) st);
     Some (fst st) }"

definition query_sql :: "string \<Rightarrow> string" where
  "query_sql clauses = clip 1024 (''SELECT pid, process_name, full_stack, COUNT(*) FROM call_stacks '' @ clauses @
     '' GROUP BY pid, process_name, full_stack;'')"

text \<open>The rows of a result; a row without a stack is skipped.\<close>

fun insert_rows :: "(string option \<times> int) list \<Rightarrow> c_heap \<Rightarrow> ht_t option \<Rightarrow> (c_heap \<times> ht_t option) option" where
  "insert_rows [] h t = Some (h, t)"
| "insert_rows ((stack, n) # rows) h t = do {
     (h, t) \<leftarrow> (case stack of None \<Rightarrow> Some (h, t) | Some s \<Rightarrow> agg_insert h t s n);
     insert_rows rows h t }"

text \<open>
  The body of the loop over the hours. The last component are the connections that SQLite holds:
  \<open>sqlite3_open_v2\<close> makes one even when it fails, and only \<open>sqlite3_close\<close> releases it.
\<close>

definition query_hour :: "query_env \<Rightarrow> query_opts \<Rightarrow> string \<Rightarrow> int \<Rightarrow>
    c_heap \<times> ht_t option \<times> string list \<Rightarrow> (c_heap \<times> ht_t option \<times> string list) option" where
  "query_hour env opts dir ts st = (case st of (h, t, conns) \<Rightarrow>
     let path = query_path dir (q_localtime env) ts in
     if \<not> q_exists env path then Some (h, t, conns)
     else if \<not> q_opens env path then Some (h, t, path # conns)
     else do {
       clauses \<leftarrow> where_clauses opts;
       let sql = query_sql clauses;
       (h, t) \<leftarrow> (if q_prepares env path sql then insert_rows (q_rows env path sql) h t else Some (h, t));
       Some (h, t, conns) })"

text \<open>The loop; \<open>current_hour_ts += 3600\<close> may not leave \<open>time_t\<close>.\<close>

function query_hours :: "query_env \<Rightarrow> query_opts \<Rightarrow> string \<Rightarrow> int \<Rightarrow>
    c_heap \<times> ht_t option \<times> string list \<Rightarrow> (c_heap \<times> ht_t option \<times> string list) option" where
  "query_hours env opts dir ts st =
     (if ts \<le> end_time opts then do {
        st \<leftarrow> query_hour env opts dir ts st;
        if ts + 3600 < 2 ^ 63 then query_hours env opts dir (ts + 3600) st else None }
      else Some st)"
  by pat_completeness auto
termination
  by (relation "measure (\<lambda>(env, opts, dir, ts, st). nat (end_time opts - ts + 1))") auto

declare query_hours.simps [simp del]

text \<open>The remainder of C takes the sign of the dividend.\<close>

definition c_rem :: "int \<Rightarrow> int \<Rightarrow> int" where
  "c_rem a b = sgn a * (abs a mod abs b)"

definition perform_historical_query :: "query_env \<Rightarrow> query_opts \<Rightarrow> string \<Rightarrow> c_heap \<Rightarrow>
    (c_heap \<times> string list \<times> string list) option" where
  "perform_historical_query env opts dir h = do {
     (h, t) \<leftarrow> ht_create h;
     (h, t, conns) \<leftarrow> query_hours env opts dir (start_time opts - c_rem (start_time opts) 3600) (h, t, []);
     tbl \<leftarrow> t;
     let out = ht_foreach tbl;
     h \<leftarrow> ht_destroy h t;
     Some (h, out, conns) }"

section \<open>The live query\<close>

definition query_params :: "query_opts \<Rightarrow> string option" where
  "query_params opts = do {
     st \<leftarrow> append_fmt 512 ''?'' ([], 0);
     st \<leftarrow> append_if (0 < start_time opts) 512 (''start_time='' @ print_int (start_time opts) @ ''&'') st;
     st \<leftarrow> append_if (0 < end_time opts) 512 (''end_time='' @ print_int (end_time opts) @ ''&'') st;
     st \<leftarrow> append_if (0 < q_pid opts) 512 (''pid='' @ print_int (q_pid opts) @ ''&'') st;
     (buf, offset) \<leftarrow> (case q_name opts of
             None \<Rightarrow> Some st
           | Some name \<Rightarrow> append_fmt 512 (''name='' @ name @ ''&'') st);
     if 1 < offset
     then (if offset - 1 < 512 then Some (take (offset - 1) buf) else None)
     else Some buf }"

definition live_url :: "query_opts \<Rightarrow> string option" where
  "live_url opts = do { p \<leftarrow> query_params opts; Some (clip 1024 (server_url opts @ ''/query'' @ p)) }"

text \<open>
  cURL delivers the body in pieces and ends the transfer when the callback takes fewer bytes than
  it was given; \<open>transfer\<close> gives the pieces and whether the transfer itself succeeds.
\<close>

fun receive :: "string list \<Rightarrow> c_heap \<Rightarrow> memory_struct \<Rightarrow> (c_heap \<times> memory_struct \<times> bool) option" where
  "receive [] h ms = Some (h, ms, True)"
| "receive (p # ps) h ms = do {
     (h, ms, n) \<leftarrow> write_memory_callback h p ms;
     if n = length p then receive ps h ms else Some (h, ms, False) }"

record live_env =
  curl_init :: bool
  transfer :: "string \<Rightarrow> string list \<times> bool"
  cjson_parse :: "string \<Rightarrow> (string option \<times> int option) list option"

text \<open>The items with a string under \<open>stack\<close> and a number under \<open>count\<close>.\<close>

fun insert_items :: "(string option \<times> int option) list \<Rightarrow> c_heap \<Rightarrow> ht_t option \<Rightarrow> (c_heap \<times> ht_t option) option" where
  "insert_items [] h t = Some (h, t)"
| "insert_items (i # items) h t = do {
     (h, t) \<leftarrow> (case i of (Some s, Some c) \<Rightarrow> agg_insert h t s c | _ \<Rightarrow> Some (h, t));
     insert_items items h t }"

text \<open>The answer is parsed up to its NUL; reading a buffer nothing was written to is a fault.\<close>

definition print_answer :: "live_env \<Rightarrow> memory_struct \<Rightarrow> c_heap \<Rightarrow> (c_heap \<times> string list) option" where
  "print_answer env ms h = do {
     body \<leftarrow> ms_data ms;
     case cjson_parse env (c_str body) of
       None \<Rightarrow> Some (h, [])
     | Some items \<Rightarrow> do {
         (h, t) \<leftarrow> ht_create h;
         (h, t) \<leftarrow> insert_items items h t;
         tbl \<leftarrow> t;
         h \<leftarrow> ht_destroy h t;
         Some (h, ht_foreach tbl) } }"

definition free_memory :: "c_heap \<Rightarrow> block option \<Rightarrow> c_heap option" where
  "free_memory h p = (case p of None \<Rightarrow> Some h | Some b \<Rightarrow> free_block h b)"

definition perform_live_query :: "live_env \<Rightarrow> query_opts \<Rightarrow> c_heap \<Rightarrow> (c_heap \<times> int \<times> string list) option" where
  "perform_live_query env opts h = do {
     url \<leftarrow> live_url opts;
     case malloc h 1 of (h, b) \<Rightarrow>
       if \<not> curl_init env then do { h \<leftarrow> free_memory h b; Some (h, 1, []) }
       else (case transfer env url of (pieces, fine) \<Rightarrow> do {
         (h, ms, taken) \<leftarrow> receive pieces h \<lparr>ms_memory = b, ms_data = None, ms_size = 0\<rparr>;
         if \<not> (fine \<and> taken) then do { h \<leftarrow> free_memory h (ms_memory ms); Some (h, 1, []) }
         else do {
           (h, out) \<leftarrow> print_answer env ms h;
           h \<leftarrow> free_memory h (ms_memory ms);
           Some (h, 0, out) } }) }"

section \<open>The command line\<close>

text \<open>\<open>atoll\<close>: \<open>strtoll\<close>, which stops at the bounds of \<open>long long\<close>.\<close>

definition atoll :: "string \<Rightarrow> int" where
  "atoll s = (case scan_sign (skip_space s) of (neg, s) \<Rightarrow>
     let v = int (digits_value 10 0 (takeWhile (is_digit 10) s))
     in max (- (2 ^ 63)) (min (2 ^ 63 - 1) (if neg then - v else v)))"

definition default_opts :: query_opts where
  "default_opts = \<lparr>db_dir = None, start_time = 0, end_time = 0, q_pid = 0, q_name = None,
     server_url = ''http://localhost:8081''\<rparr>"

text \<open>The loop over the arguments; \<open>None\<close> when \<open>--help\<close> ends the program.\<close>

fun parse_query_args :: "string list \<Rightarrow> query_opts \<Rightarrow> query_opts option" where
  "parse_query_args [] o1 = Some o1"
| "parse_query_args [a] o1 = (if a = ''--help'' then None else Some o1)"
| "parse_query_args (a # v # rest) o1 =
     (if a = ''--dir'' then parse_query_args rest (o1\<lparr>db_dir := Some v\<rparr>)
      else if a = ''--start-time'' then parse_query_args rest (o1\<lparr>start_time := atoll v\<rparr>)
      else if a = ''--end-time'' then parse_query_args rest (o1\<lparr>end_time := atoll v\<rparr>)
      else if a = ''--pid'' then parse_query_args rest (o1\<lparr>q_pid := atoi v\<rparr>)
      else if a = ''--name'' then parse_query_args rest (o1\<lparr>q_name := Some v\<rparr>)
      else if a = ''--server'' then parse_query_args rest (o1\<lparr>server_url := v\<rparr>)
      else if a = ''--help'' then None
      else parse_query_args (v # rest) o1)"

text \<open>\<open>main\<close>: exit code and output; \<open>now\<close> is what \<open>time(NULL)\<close> gives.\<close>

definition query_main :: "query_env \<Rightarrow> live_env \<Rightarrow> int \<Rightarrow> string list \<Rightarrow> c_heap \<Rightarrow> (c_heap \<times> int \<times> string list) option" where
  "query_main env lenv now args h =
     (case parse_query_args args default_opts of
        None \<Rightarrow> Some (h, 0, [])
      | Some opts \<Rightarrow>
          let opts = (if end_time opts = 0 then opts\<lparr>end_time := now\<rparr> else opts) in
          case db_dir opts of
            Some dir \<Rightarrow> do { (h, out, conns) \<leftarrow> perform_historical_query env opts dir h; Some (h, 0, out) }
          | None \<Rightarrow> perform_live_query lenv opts h)"

section \<open>The table sums up\<close>

interpretation agg: chained_table hash_key key_of HASH_TABLE_SIZE
  by unfold_locales (simp add: hash_key_def unat_mod)

definition stack_total :: "string \<Rightarrow> (string \<times> int) list \<Rightarrow> int" where
  "stack_total k rows = sum_list (map snd (filter (\<lambda>r. fst r = k) rows))"

lemma stack_total_snoc: "stack_total k (rows @ [(s, c)]) = stack_total k rows + (if s = k then c else 0)"
  by (simp add: stack_total_def)

lemma stack_total_none: "k \<notin> fst ` set rows \<Longrightarrow> stack_total k rows = 0"
  by (auto simp: stack_total_def filter_empty_conv intro!: arg_cong[where f = sum_list and y = "[]", simplified])

lemma stack_total_nonneg: "\<forall>r\<in>set rows. 0 \<le> snd r \<Longrightarrow> 0 \<le> stack_total k rows"
  by (auto simp: stack_total_def intro!: sum_list_nonneg)

text \<open>The table holds the sum of the counts of every stack seen so far.\<close>

definition sums :: "ht_t \<Rightarrow> (string \<times> int) list \<Rightarrow> bool" where
  "sums t rows \<longleftrightarrow> ht_ok hash_key key_of HASH_TABLE_SIZE (ht_slots t) \<and>
     (\<forall>k. map_option entry_value (ht_find hash_key key_of (ht_slots t) k) =
       (if k \<in> fst ` set rows then Some (stack_total k rows) else None))"

definition entry_blocks :: "ht_entry \<Rightarrow> block list" where
  "entry_blocks e = [fst (entry_key e), entry_block e]"

definition table_blocks :: "ht_t \<Rightarrow> block list" where
  "table_blocks t = concat (map entry_blocks (concat (ht_slots t))) @ [ht_array t, ht_block t]"

lemma table_blocks_update:
  assumes "ht_ok hash_key key_of HASH_TABLE_SIZE tbl" and "ht_find hash_key key_of tbl (key_of e) = Some e"
  shows "map entry_blocks (concat (ht_update hash_key key_of tbl (e\<lparr>entry_value := v\<rparr>))) =
    map entry_blocks (concat tbl)"
proof -
  let ?i = "hash_key (key_of e)" and ?f = "\<lambda>x. if key_of x = key_of e then e\<lparr>entry_value := v\<rparr> else x"
  have b: "distinct (map key_of (tbl ! ?i))" "?i < length tbl"
    using agg.bucket_ok[OF assms(1), of "key_of e"] by blast+
  have e: "e \<in> set (tbl ! ?i)" using assms(2) find_key[OF b(1), of "key_of e" e] by (simp add: ht_find_def)
  have same: "entry_blocks (?f x) = entry_blocks x" if "x \<in> set (tbl ! ?i)" for x
  proof (cases "key_of x = key_of e")
    case True
    then have "x = e" using that e b by (auto simp: distinct_map dest: inj_onD)
    then show ?thesis by (simp add: entry_blocks_def)
  qed simp
  have c: "map entry_blocks (map ?f (tbl ! ?i)) = map entry_blocks (tbl ! ?i)"
    unfolding map_map comp_def using same by (intro map_cong) auto
  have "map (map entry_blocks) (tbl[?i := map ?f (tbl ! ?i)]) =
      (map (map entry_blocks) tbl)[?i := map entry_blocks (map ?f (tbl ! ?i))]" by (rule map_update)
  also have "\<dots> = (map (map entry_blocks) tbl)[?i := map (map entry_blocks) tbl ! ?i]"
    unfolding c using b by (simp only: nth_map)
  also have "\<dots> = map (map entry_blocks) tbl" by (rule list_update_id)
  finally have "concat (map (map entry_blocks) (tbl[?i := map ?f (tbl ! ?i)])) = concat (map (map entry_blocks) tbl)"
    by (rule arg_cong)
  moreover have "ht_update hash_key key_of tbl (e\<lparr>entry_value := v\<rparr>) = tbl[?i := map ?f (tbl ! ?i)]"
    unfolding ht_update_def by simp
  ultimately show ?thesis unfolding map_concat by simp
qed

lemma agg_insert_ok:
  assumes own: "owns base h (table_blocks t @ bs)" and sums: "sums t rows" and mem: "\<And>b. \<not> oom h b"
    and range: "0 \<le> stack_total s rows" "0 \<le> c" "stack_total s rows + c < 2 ^ 31"
  shows "\<exists>h' t'. agg_insert h (Some t) s c = Some (h', Some t') \<and> owns base h' (table_blocks t' @ bs) \<and>
    sums t' (rows @ [(s, c)]) \<and> oom h' = oom h"
proof (cases "ht_find hash_key key_of (ht_slots t) s")
  case (Some e)
  have ok: "ht_ok hash_key key_of HASH_TABLE_SIZE (ht_slots t)" using sums by (simp add: sums_def)
  have k: "key_of e = s" using Some agg.find_entries[OF ok] by blast
  have "map_option entry_value (ht_find hash_key key_of (ht_slots t) s) =
      (if s \<in> fst ` set rows then Some (stack_total s rows) else None)" using sums by (simp add: sums_def)
  then have v: "entry_value e = stack_total s rows" "s \<in> fst ` set rows" using Some by (auto split: if_splits)
  let ?e = "e\<lparr>entry_value := stack_total s rows + c\<rparr>"
  let ?t = "t\<lparr>ht_slots := ht_update hash_key key_of (ht_slots t) ?e\<rparr>"
  have ins: "agg_insert h (Some t) s c = Some (h, Some ?t)"
    using Some v range by (simp add: agg_insert_def int_add_def)
  have "table_blocks ?t = table_blocks t"
    using table_blocks_update[OF ok, of e] Some k by (simp add: table_blocks_def)
  moreover have "sums ?t (rows @ [(s, c)])"
    using agg.update_ok[OF ok, of ?e] Some k v sums by (auto simp: sums_def stack_total_snoc split: if_splits)
  ultimately show ?thesis using ins own by auto
next
  case None
  have ok: "ht_ok hash_key key_of HASH_TABLE_SIZE (ht_slots t)" using sums by (simp add: sums_def)
  have "map_option entry_value (ht_find hash_key key_of (ht_slots t) s) =
      (if s \<in> fst ` set rows then Some (stack_total s rows) else None)" using sums by (simp add: sums_def)
  then have new: "s \<notin> fst ` set rows" using None by (auto split: if_splits)
  obtain h1 b where m: "malloc h 24 = (h1, Some b)" using mem by (simp add: malloc_def)
  obtain h2 p where d: "strdup h1 s = (h2, p)" by (cases "strdup h1 s")
  have o1: "owns base h1 (b # table_blocks t @ bs)" "oom h1 = oom h"
    using owns_malloc[OF own m] oom_malloc[OF m] by auto
  from owns_strdup[OF o1(1) d] o1(2) mem obtain kb where p: "p = Some (kb, s)"
      and o2: "owns base h2 (kb # b # table_blocks t @ bs)" "oom h2 = oom h"
    by (cases p) (auto simp: str_blocks_def)
  let ?e = "\<lparr>entry_block = b, entry_key = (kb, s), entry_value = c\<rparr>"
  let ?t = "t\<lparr>ht_slots := ht_insert hash_key key_of (ht_slots t) ?e\<rparr>"
  have ins: "agg_insert h (Some t) s c = Some (h2, Some ?t)"
    using None m d p by (simp add: agg_insert_def)
  note io = agg.insert_ok[OF ok, of ?e, simplified, OF None]
  have "mset (kb # b # table_blocks t @ bs) = mset (table_blocks ?t @ bs)"
    using blocks_add[OF io(3), of entry_blocks] by (simp add: table_blocks_def entry_blocks_def)
  then have "owns base h2 (table_blocks ?t @ bs)" by (rule owns_perm[OF o2(1)])
  moreover have "sums ?t (rows @ [(s, c)])"
    using io(1,2) sums new stack_total_none[OF new] by (auto simp: sums_def stack_total_snoc split: if_splits)
  ultimately show ?thesis using ins o2(2) by auto
qed

section \<open>Rows and hours\<close>

definition kept :: "(string option \<times> int) list \<Rightarrow> (string \<times> int) list" where
  "kept rows = concat (map (\<lambda>(s, c). case s of None \<Rightarrow> [] | Some s \<Rightarrow> [(s, c)]) rows)"

text \<open>Counts are not negative and no sum leaves \<open>int\<close>.\<close>

definition counts_ok :: "(string \<times> int) list \<Rightarrow> bool" where
  "counts_ok rows \<longleftrightarrow> (\<forall>r\<in>set rows. 0 \<le> snd r) \<and> (\<forall>k. stack_total k rows < 2 ^ 31)"

lemma stack_total_append: "stack_total k (xs @ ys) = stack_total k xs + stack_total k ys"
  by (simp add: stack_total_def)

lemma counts_ok_append: "counts_ok (xs @ ys) \<Longrightarrow> counts_ok xs"
proof -
  assume a: "counts_ok (xs @ ys)"
  then have "0 \<le> stack_total k ys" for k by (intro stack_total_nonneg) (auto simp: counts_ok_def)
  with a show "counts_ok xs" unfolding counts_ok_def stack_total_append
    by (metis (no_types, lifting) Un_iff add_increasing2 le_less_trans order_refl set_append)
qed

lemma insert_rows_ok:
  assumes "owns base h (table_blocks t @ bs)" and "sums t seen" and "\<And>b. \<not> oom h b"
    and "counts_ok (seen @ kept rows)"
  shows "\<exists>h' t'. insert_rows rows h (Some t) = Some (h', Some t') \<and> owns base h' (table_blocks t' @ bs) \<and>
    sums t' (seen @ kept rows) \<and> oom h' = oom h"
  using assms
proof (induction rows arbitrary: h t seen)
  case (Cons r rows)
  obtain p c where r: "r = (p, c)" by (cases r)
  show ?case
  proof (cases p)
    case None
    with Cons r show ?thesis by (simp add: kept_def)
  next
    case (Some s)
    then have k: "kept (r # rows) = (s, c) # kept rows" by (simp add: r kept_def)
    with Cons.prems(4) have co: "counts_ok (seen @ [(s, c)])" using counts_ok_append[of "seen @ [(s, c)]"] by simp
    have "0 \<le> stack_total s seen" "0 \<le> c" "stack_total s seen + c < 2 ^ 31"
      using co stack_total_nonneg[of seen s] by (auto simp: counts_ok_def stack_total_snoc split: if_splits)
    from agg_insert_ok[OF Cons.prems(1-3) this] obtain h1 t1 where
        1: "agg_insert h (Some t) s c = Some (h1, Some t1)" "owns base h1 (table_blocks t1 @ bs)"
          "sums t1 (seen @ [(s, c)])" "oom h1 = oom h" by auto
    from Cons.IH[OF 1(2,3)] Cons.prems(3,4) k 1 r Some show ?thesis by simp
  qed
qed (simp add: kept_def)

text \<open>The hours the loop visits, and what it finds in the file of one of them.\<close>

function hour_list :: "int \<Rightarrow> int \<Rightarrow> int list" where
  "hour_list ts en = (if ts \<le> en then ts # hour_list (ts + 3600) en else [])"
  by pat_completeness auto
termination
  by (relation "measure (\<lambda>(ts, en). nat (en - ts + 1))") auto

declare hour_list.simps [simp del]

definition hour_rows :: "query_env \<Rightarrow> string \<Rightarrow> string \<Rightarrow> int \<Rightarrow> (string \<times> int) list" where
  "hour_rows env dir sql ts = (let path = query_path dir (q_localtime env) ts in
     if q_exists env path \<and> q_opens env path \<and> q_prepares env path sql then kept (q_rows env path sql) else [])"

definition open_failures :: "query_env \<Rightarrow> string \<Rightarrow> int list \<Rightarrow> string list" where
  "open_failures env dir hours =
     filter (\<lambda>p. q_exists env p \<and> \<not> q_opens env p) (map (query_path dir (q_localtime env)) hours)"

lemma query_hour_ok:
  assumes cl: "where_clauses opts = Some clauses"
    and "owns base h (table_blocks t @ bs)" and "sums t seen" and "\<And>b. \<not> oom h b"
    and "counts_ok (seen @ hour_rows env dir (query_sql clauses) ts)"
  shows "\<exists>h' t'. query_hour env opts dir ts (h, Some t, conns) = Some (h', Some t', open_failures env dir [ts] @ conns) \<and>
    owns base h' (table_blocks t' @ bs) \<and> sums t' (seen @ hour_rows env dir (query_sql clauses) ts) \<and> oom h' = oom h"
proof -
  let ?p = "query_path dir (q_localtime env) ts"
  consider "\<not> q_exists env ?p" | "q_exists env ?p" "\<not> q_opens env ?p"
    | "q_exists env ?p" "q_opens env ?p" "\<not> q_prepares env ?p (query_sql clauses)"
    | "q_exists env ?p" "q_opens env ?p" "q_prepares env ?p (query_sql clauses)" by blast
  then show ?thesis
  proof cases
    case 4
    with assms(5) have "counts_ok (seen @ kept (q_rows env ?p (query_sql clauses)))" by (simp add: hour_rows_def Let_def)
    from insert_rows_ok[OF assms(2-4) this] 4 cl show ?thesis
      by (auto simp: query_hour_def hour_rows_def open_failures_def Let_def)
  qed (use assms in \<open>auto simp: query_hour_def hour_rows_def open_failures_def Let_def\<close>)
qed

lemma query_hours_ok:
  assumes "where_clauses opts = Some clauses" and "end_time opts < 2 ^ 62"
    and "owns base h (table_blocks t @ bs)" and "sums t seen" and "\<And>b. \<not> oom h b"
    and "counts_ok (seen @ concat (map (hour_rows env dir (query_sql clauses)) (hour_list ts (end_time opts))))"
  shows "\<exists>h' t'. query_hours env opts dir ts (h, Some t, conns) =
      Some (h', Some t', rev (open_failures env dir (hour_list ts (end_time opts))) @ conns) \<and>
    owns base h' (table_blocks t' @ bs) \<and> oom h' = oom h \<and>
    sums t' (seen @ concat (map (hour_rows env dir (query_sql clauses)) (hour_list ts (end_time opts))))"
  using assms
proof (induction ts "end_time opts" arbitrary: h t seen conns rule: hour_list.induct)
  case (1 ts)
  let ?R = "hour_rows env dir (query_sql clauses)"
  show ?case
  proof (cases "ts \<le> end_time opts")
    case True
    then have hl: "hour_list ts (end_time opts) = ts # hour_list (ts + 3600) (end_time opts)"
      by (subst hour_list.simps) simp
    have co: "counts_ok (seen @ ?R ts)" using counts_ok_append[of "seen @ ?R ts"] "1.prems"(6) by (simp add: hl)
    from query_hour_ok[OF "1.prems"(1,3,4,5) co] obtain h1 t1 where
        s1: "query_hour env opts dir ts (h, Some t, conns) = Some (h1, Some t1, open_failures env dir [ts] @ conns)"
          "owns base h1 (table_blocks t1 @ bs)" "sums t1 (seen @ ?R ts)" "oom h1 = oom h" by blast
    have nx: "ts + 3600 < 2 ^ 63" using True "1.prems"(2) by simp
    have "\<And>b. \<not> oom h1 b" using s1(4) "1.prems"(5) by simp
    moreover have "counts_ok ((seen @ ?R ts) @ concat (map ?R (hour_list (ts + 3600) (end_time opts))))"
      using "1.prems"(6) by (simp add: hl)
    moreover have "rev (open_failures env dir (ts # hs)) = rev (open_failures env dir hs) @ open_failures env dir [ts]" for hs
      by (auto simp: open_failures_def)
    ultimately show ?thesis
      using "1.hyps"[OF True "1.prems"(1,2) s1(2,3), of "open_failures env dir [ts] @ conns"] s1(1,4) nx True
      by (subst query_hours.simps) (simp add: hl)
  next
    case False
    then have "hour_list ts (end_time opts) = []" by (subst hour_list.simps) simp
    with False "1.prems" show ?thesis by (subst query_hours.simps) (simp add: open_failures_def)
  qed
qed

section \<open>The buffers do not overflow\<close>

lemma print_int_length_ll:
  assumes "- (2 ^ 63) \<le> i" "i < 2 ^ 63"
  shows "length (print_int i) \<le> 20"
proof -
  have "length (print_dec n) \<le> 19" if "n \<le> 2 ^ 63" for n
    unfolding print_dec_def by (rule print_base_length) (use that in auto)
  moreover have "nat (- i) \<le> 2 ^ 63" "nat i \<le> 2 ^ 63" using assms by (simp_all add: nat_le_iff)
  ultimately have "length (print_dec (nat (- i))) \<le> 19" "length (print_dec (nat i)) \<le> 19" by blast+
  then show ?thesis by (simp add: print_int_def)
qed

lemma append_if_ok:
  assumes "offset \<le> n" and "length s \<le> m"
  shows "\<exists>buf' offset'. append_if c n s (buf, offset) = Some (buf', offset') \<and> offset' \<le> offset + m"
  using assms by (auto simp: append_if_def append_fmt_def)

definition times_ok :: "query_opts \<Rightarrow> bool" where
  "times_ok opts \<longleftrightarrow> start_time opts \<le> 9223372036 \<and> end_time opts \<le> 9223372036 \<and>
     - (2 ^ 31) \<le> q_pid opts \<and> q_pid opts < 2 ^ 31"

lemma ns_if_ok: "s \<le> 9223372036 \<Longrightarrow> \<exists>ns. ns_if s = Some ns \<and> length (print_int ns) \<le> 20"
  using print_int_length_ll[of "s * 1000000000"] print_int_length_ll[of 0] by (auto simp: ns_if_def to_ns_def)

lemma where_clauses_ok:
  assumes "times_ok opts"
  shows "\<exists>clauses. where_clauses opts = Some clauses"
proof -
  obtain ns1 ns2 where n: "ns_if (start_time opts) = Some ns1" "length (print_int ns1) \<le> 20"
      "ns_if (end_time opts) = Some ns2" "length (print_int ns2) \<le> 20"
    using ns_if_ok assms unfolding times_ok_def by metis
  have p: "length (print_int (q_pid opts)) \<le> 11" using print_int_length assms by (simp add: times_ok_def)
  obtain b1 o1 where 1: "append_if (0 < start_time opts) 512 ('' AND timestamp >= '' @ print_int ns1) ('' WHERE 1=1 '', 11) = Some (b1, o1)"
      "o1 \<le> 11 + 50" using append_if_ok[of 11 512 "'' AND timestamp >= '' @ print_int ns1" 50] n by fastforce
  obtain b2 o2 where 2: "append_if (0 < end_time opts) 512 ('' AND timestamp <= '' @ print_int ns2) (b1, o1) = Some (b2, o2)"
      "o2 \<le> o1 + 50" using append_if_ok[of o1 512 "'' AND timestamp <= '' @ print_int ns2" 50] n 1(2) by fastforce
  obtain b3 o3 where 3: "append_if (0 < q_pid opts) 512 ('' AND pid = '' @ print_int (q_pid opts)) (b2, o2) = Some (b3, o3)"
      "o3 \<le> o2 + 50" using append_if_ok[of o2 512 "'' AND pid = '' @ print_int (q_pid opts)" 50] p 1(2) 2(2) by fastforce
  show ?thesis using n 1 2 3 by (auto simp: where_clauses_def append_fmt_def split: option.split)
qed

section \<open>Printing and destroying the table\<close>

lemma ht_foreach_sums:
  assumes "sums t rows"
  shows "\<exists>ks. distinct ks \<and> set ks = fst ` set rows \<and> ht_foreach t = map (\<lambda>k. k @ ''|'' @ print_int (stack_total k rows)) ks"
proof (intro exI conjI)
  let ?es = "concat (ht_slots t)"
  have ok: "ht_ok hash_key key_of HASH_TABLE_SIZE (ht_slots t)" using assms by (simp add: sums_def)
  have val: "map_option entry_value (ht_find hash_key key_of (ht_slots t) k) =
      (if k \<in> fst ` set rows then Some (stack_total k rows) else None)" for k using assms by (simp add: sums_def)
  show "distinct (map key_of ?es)" by (rule ht_ok_distinct[OF ok])
  have e: "key_of e \<in> fst ` set rows \<and> entry_value e = stack_total (key_of e) rows" if "e \<in> set ?es" for e
    using val[of "key_of e"] agg.find_entries[OF ok, of "key_of e" e] that by (auto split: if_splits)
  show "set (map key_of ?es) = fst ` set rows"
  proof
    show "set (map key_of ?es) \<subseteq> fst ` set rows" using e by fastforce
    show "fst ` set rows \<subseteq> set (map key_of ?es)"
    proof
      fix k assume "k \<in> fst ` set rows"
      with val[of k] obtain x where "ht_find hash_key key_of (ht_slots t) k = Some x" by (auto split: if_splits)
      with agg.find_entries[OF ok] show "k \<in> set (map key_of ?es)" by force
    qed
  qed
  show "ht_foreach t = map (\<lambda>k. k @ ''|'' @ print_int (stack_total k rows)) (map key_of ?es)"
    using e by (simp add: ht_foreach_def print_entry_def map_concat[symmetric] del: set_concat)
qed

lemma free_chain_blocks: "free_chain h es = free_list h (concat (map entry_blocks es))"
  by (induction es arbitrary: h) (auto simp: entry_blocks_def)

lemma free_chains_blocks: "free_chains h cs = free_list h (concat (map entry_blocks (concat cs)))"
  by (induction cs arbitrary: h) (auto simp: free_chain_blocks free_list_append)

lemma ht_destroy_ok:
  assumes "owns base h (table_blocks t @ bs)"
  shows "\<exists>h'. ht_destroy h (Some t) = Some h' \<and> owns base h' bs \<and> oom h' = oom h"
proof -
  have "ht_destroy h (Some t) = free_list h (table_blocks t)"
    by (simp add: ht_destroy_def free_chains_blocks table_blocks_def free_list_append)
  with owns_free_list[OF assms] oom_free_list show ?thesis by metis
qed

lemma ht_create_ok:
  assumes "owns base h bs" and "\<And>b. \<not> oom h b"
  shows "\<exists>h' t. ht_create h = Some (h', Some t) \<and> owns base h' (table_blocks t @ bs) \<and> sums t [] \<and> oom h' = oom h"
proof -
  obtain h1 b where m1: "malloc h 8 = (h1, Some b)" using assms(2) by (simp add: malloc_def)
  have o1: "oom h1 = oom h" using oom_malloc[OF m1] by simp
  obtain h2 a where m2: "malloc h1 (8 * HASH_TABLE_SIZE) = (h2, Some a)"
    using assms(2) unfolding malloc_def o1 by simp
  let ?t = "\<lparr>ht_block = b, ht_array = a, ht_slots = replicate HASH_TABLE_SIZE []\<rparr>"
  have "table_blocks ?t = [a, b]" by (simp add: table_blocks_def)
  moreover have "sums ?t []"
    using agg.ok_empty agg.bucket_ok[OF agg.ok_empty] by (auto simp: sums_def ht_find_def)
  ultimately show ?thesis
    using m1 m2 o1 oom_malloc[OF m2] owns_malloc[OF owns_malloc[OF assms(1) m1] m2] by (auto simp: ht_create_def)
qed

section \<open>Historical queries\<close>

text \<open>The whole hours from the one of the start time to the end time, and all they hold.\<close>

definition query_hour_list :: "query_opts \<Rightarrow> int list" where
  "query_hour_list opts = hour_list (start_time opts - c_rem (start_time opts) 3600) (end_time opts)"

definition query_rows :: "query_env \<Rightarrow> query_opts \<Rightarrow> string \<Rightarrow> (string \<times> int) list" where
  "query_rows env opts dir = (case where_clauses opts of
     None \<Rightarrow> []
   | Some clauses \<Rightarrow> concat (map (hour_rows env dir (query_sql clauses)) (query_hour_list opts)))"

lemma historical_query_sums:
  assumes "heap_ok h" and "\<And>b. \<not> oom h b" and "times_ok opts" and "counts_ok (query_rows env opts dir)"
  shows "\<exists>h' out ks. perform_historical_query env opts dir h =
      Some (h', out, rev (open_failures env dir (query_hour_list opts))) \<and> live h' = live h \<and>
    distinct ks \<and> set ks = fst ` set (query_rows env opts dir) \<and>
    out = map (\<lambda>k. k @ ''|'' @ print_int (stack_total k (query_rows env opts dir))) ks"
proof -
  obtain clauses where cl: "where_clauses opts = Some clauses" using where_clauses_ok[OF assms(3)] by blast
  have rows: "query_rows env opts dir = concat (map (hour_rows env dir (query_sql clauses)) (query_hour_list opts))"
    by (simp add: query_rows_def cl)
  have en: "end_time opts < 2 ^ 62" using assms(3) by (simp add: times_ok_def)
  from ht_create_ok[OF owns_start[OF assms(1)] assms(2)] obtain h1 t1 where
      c: "ht_create h = Some (h1, Some t1)" "owns (live h) h1 (table_blocks t1 @ [])" "sums t1 []" "oom h1 = oom h" by auto
  have m1: "\<And>b. \<not> oom h1 b" using c(4) assms(2) by simp
  have co: "counts_ok ([] @ concat (map (hour_rows env dir (query_sql clauses))
      (hour_list (start_time opts - c_rem (start_time opts) 3600) (end_time opts))))"
    using assms(4) by (simp add: rows query_hour_list_def)
  from query_hours_ok[OF cl en c(2,3) m1 co, of "[]"] obtain h2 t2 where
      q: "query_hours env opts dir (start_time opts - c_rem (start_time opts) 3600) (h1, Some t1, []) =
        Some (h2, Some t2, rev (open_failures env dir (query_hour_list opts)))"
      "owns (live h) h2 (table_blocks t2 @ [])" "sums t2 (query_rows env opts dir)"
    by (auto simp: rows query_hour_list_def)
  from ht_destroy_ok[OF q(2)] obtain h3 where d: "ht_destroy h2 (Some t2) = Some h3" "owns (live h) h3 []" by blast
  from ht_foreach_sums[OF q(3)] c(1) q(1) d owns_empty[OF d(2)] show ?thesis
    by (auto simp: perform_historical_query_def)
qed

text \<open>
  C16. The historical query: with memory available, times whose nanoseconds fit \<open>long long\<close> and
  counts whose sums fit \<open>int\<close>, the loop over the hours ends without a fault and the output has
  exactly one line per stack that occurs in a file of one of the hours, with the sum of the
  counts of that stack over all of them; all memory is given back, and the connections still
  held are those of the files that exist but could not be opened.
\<close>

theorem historical_query_aggregates:
  assumes "heap_ok h" and "\<And>b. \<not> oom h b" and "times_ok opts" and "counts_ok (query_rows env opts dir)"
  shows "\<exists>h' out ks. perform_historical_query env opts dir h =
      Some (h', out, rev (open_failures env dir (query_hour_list opts))) \<and> live h' = live h \<and>
    distinct ks \<and> set ks = fst ` set (query_rows env opts dir) \<and>
    out = map (\<lambda>k. k @ ''|'' @ print_int (stack_total k (query_rows env opts dir))) ks"
  by (rule historical_query_sums[OF assms])

lemma hour_list_member:
  assumes "ts \<le> t" "3600 dvd t - ts" "t \<le> en"
  shows "t \<in> set (hour_list ts en)"
  using assms
proof (induction ts en rule: hour_list.induct)
  case (1 ts en)
  show ?case
  proof (cases "t = ts")
    case True
    with 1 show ?thesis by (subst hour_list.simps) simp
  next
    case False
    with "1.prems"(1,2) have le: "ts + 3600 \<le> t" using zdvd_imp_le[of 3600 "t - ts"] by simp
    have "t - (ts + 3600) = (t - ts) - 3600" by simp
    then have dv: "3600 dvd t - (ts + 3600)" using "1.prems"(2) by (simp only: dvd_diff dvd_refl)
    have "t \<in> set (hour_list (ts + 3600) en)"
      by (rule "1.IH"[OF _ le dv "1.prems"(3)]) (use "1.prems" in simp)
    with "1.prems" show ?thesis by (subst hour_list.simps) simp
  qed
qed

text \<open>
  The file the writer puts a stack into is among the files a query over its time reads: for
  a stack written at a time between the start and the end of the query, in a time zone a whole
  number of hours from UTC (so the local hour of the time is that of the full hour before it),
  one of the hours of the loop gives the path the writer uses for that time.
\<close>

theorem query_reads_written_file:
  assumes "0 \<le> start_time opts" "start_time opts \<le> t" "t \<le> end_time opts" "t = int (unat ns) div 1000000000"
    and zone: "q_localtime env (t - t mod 3600) = q_localtime env t"
  shows "db_path (Some (b, dir)) (q_localtime env) ns \<in>
    set (map (query_path dir (q_localtime env)) (query_hour_list opts))"
proof -
  let ?s = "start_time opts" and ?h = "t - t mod 3600"
  have s: "c_rem ?s 3600 = ?s mod 3600" using assms(1) by (cases "?s = 0") (auto simp: c_rem_def sgn_if)
  have "?s - ?s mod 3600 \<le> ?h" using assms(2)
    by (metis minus_mod_eq_mult_div mult_left_mono zdiv_mono1 zero_le_numeral zero_less_numeral)
  moreover have "3600 dvd ?h - (?s - ?s mod 3600)" by (intro dvd_diff dvd_minus_mod)
  moreover have "?h \<le> end_time opts" using assms(3) by (smt (verit) pos_mod_sign)
  ultimately have "?h \<in> set (query_hour_list opts)" unfolding query_hour_list_def s by (rule hour_list_member)
  moreover have "db_path (Some (b, dir)) (q_localtime env) ns = query_path dir (q_localtime env) ?h"
    unfolding db_path_def query_path_def zone assms(4)[symmetric] by simp
  ultimately show ?thesis by simp
qed

section \<open>Live queries\<close>

fun item_row :: "string option \<times> int option \<Rightarrow> string option \<times> int" where
  "item_row (Some s, Some c) = (Some s, c)"
| "item_row _ = (None, 0)"

lemma insert_items_rows: "insert_items items h t = insert_rows (map item_row items) h t"
proof (induction items arbitrary: h t)
  case (Cons i items)
  have ext: "(\<lambda>(h, t). insert_items items h t) = (\<lambda>(h, t). insert_rows (map item_row items) h t)"
    using Cons by (intro ext) auto
  show ?case by (cases i rule: item_row.cases) (simp_all add: ext Cons split: option.split)
qed simp

definition ms_blocks :: "memory_struct \<Rightarrow> block list" where
  "ms_blocks ms = (case ms_memory ms of None \<Rightarrow> [] | Some b \<Rightarrow> [b])"

text \<open>The buffer holds the bytes received so far, \<open>[]\<close> before the first.\<close>

definition ms_holds :: "memory_struct \<Rightarrow> string \<Rightarrow> bool" where
  "ms_holds ms s \<longleftrightarrow> ms_size ms = length s \<and> (case ms_data ms of None \<Rightarrow> s = [] | Some d \<Rightarrow> d = s)"

lemma write_memory_callback_ok:
  assumes "owns base h (ms_blocks ms @ bs)" and "\<And>b. \<not> oom h b" and "ms_holds ms s"
  shows "\<exists>h' ms'. write_memory_callback h contents ms = Some (h', ms', length contents) \<and>
    owns base h' (ms_blocks ms' @ bs) \<and> ms_holds ms' (s @ contents) \<and> ms_data ms' \<noteq> None \<and> oom h' = oom h"
proof -
  obtain h1 b where m: "malloc h (ms_size ms + length contents + 1) = (h1, Some b)" using assms(2) by (simp add: malloc_def)
  have o1: "owns base h1 (b # ms_blocks ms @ bs)" "oom h1 = oom h" using owns_malloc[OF assms(1) m] oom_malloc[OF m] by auto
  have d: "take (ms_size ms) (case ms_data ms of None \<Rightarrow> [] | Some d \<Rightarrow> d) = s"
    using assms(3) by (cases "ms_data ms") (auto simp: ms_holds_def)
  show ?thesis
  proof (cases "ms_memory ms")
    case None
    with m o1 d assms(3) show ?thesis
      by (auto simp: write_memory_callback_def realloc_def ms_blocks_def ms_holds_def Let_def)
  next
    case (Some q)
    then have "owns base h1 (q # b # bs)" using owns_perm[OF o1(1), of "q # b # bs"] by (simp add: ms_blocks_def)
    from owns_free_hd[OF this] obtain h2 where f: "free_block h1 q = Some h2" "owns base h2 (b # bs)" by blast
    with Some m o1 d assms(3) oom_free_block[OF f(1)] show ?thesis
      by (auto simp: write_memory_callback_def realloc_def ms_blocks_def ms_holds_def Let_def)
  qed
qed

lemma receive_ok:
  assumes "owns base h (ms_blocks ms @ bs)" and "\<And>b. \<not> oom h b" and "ms_holds ms s"
  shows "\<exists>h' ms'. receive pieces h ms = Some (h', ms', True) \<and> owns base h' (ms_blocks ms' @ bs) \<and>
    ms_holds ms' (s @ concat pieces) \<and> (ms_data ms' = None \<longrightarrow> pieces = [] \<and> ms_data ms = None) \<and> oom h' = oom h"
  using assms
proof (induction pieces arbitrary: h ms s)
  case (Cons p ps)
  from write_memory_callback_ok[OF Cons.prems, of p] obtain h1 ms1 where
      1: "write_memory_callback h p ms = Some (h1, ms1, length p)" "owns base h1 (ms_blocks ms1 @ bs)"
        "ms_holds ms1 (s @ p)" "ms_data ms1 \<noteq> None" "oom h1 = oom h" by blast
  have "\<And>b. \<not> oom h1 b" using 1(5) Cons.prems(2) by simp
  from Cons.IH[OF 1(2) this 1(3)] 1 show ?case by auto
qed auto

lemma free_memory_ok: "owns base h (ms_blocks ms @ bs) \<Longrightarrow> \<exists>h'. free_memory h (ms_memory ms) = Some h' \<and> owns base h' bs"
  using owns_free_hd by (auto simp: ms_blocks_def free_memory_def split: option.splits)

lemma print_answer_ok:
  assumes "owns base h bs" and "\<And>b. \<not> oom h b" and "ms_data ms = Some body"
    and "cjson_parse env (c_str body) = Some items" and "counts_ok (kept (map item_row items))"
  shows "\<exists>h' out ks. print_answer env ms h = Some (h', out) \<and> owns base h' bs \<and>
    distinct ks \<and> set ks = fst ` set (kept (map item_row items)) \<and>
    out = map (\<lambda>k. k @ ''|'' @ print_int (stack_total k (kept (map item_row items)))) ks"
proof -
  from ht_create_ok[OF assms(1,2)] obtain h1 t1 where
      c: "ht_create h = Some (h1, Some t1)" "owns base h1 (table_blocks t1 @ bs)" "sums t1 []" "oom h1 = oom h" by auto
  have "\<And>b. \<not> oom h1 b" using c(4) assms(2) by simp
  from insert_rows_ok[OF c(2,3) this, of "map item_row items"] assms(5) obtain h2 t2 where
      i: "insert_items items h1 (Some t1) = Some (h2, Some t2)" "owns base h2 (table_blocks t2 @ bs)"
        "sums t2 (kept (map item_row items))" by (auto simp: insert_items_rows)
  from ht_destroy_ok[OF i(2)] obtain h3 where d: "ht_destroy h2 (Some t2) = Some h3" "owns base h3 bs" by blast
  from ht_foreach_sums[OF i(3)] assms(3,4) c(1) i(1) d show ?thesis by (auto simp: print_answer_def)
qed

text \<open>
  The live query: with memory available, when the server answers with a nonempty body that
  parses to a list of items whose counts sum up within \<open>int\<close>, the output has one line per stack
  with the sum of its counts, the program ends with 0 and gives back all memory, however the
  body was cut into pieces.
\<close>

theorem live_query_aggregates:
  assumes "heap_ok h" and "\<And>b. \<not> oom h b" and "live_url opts = Some url" and "curl_init env"
    and "transfer env url = (pieces, True)" and "pieces \<noteq> []"
    and "cjson_parse env (c_str (concat pieces)) = Some items" and "counts_ok (kept (map item_row items))"
  shows "\<exists>h' out ks. perform_live_query env opts h = Some (h', 0, out) \<and> live h' = live h \<and>
    distinct ks \<and> set ks = fst ` set (kept (map item_row items)) \<and>
    out = map (\<lambda>k. k @ ''|'' @ print_int (stack_total k (kept (map item_row items)))) ks"
proof -
  obtain h1 b where m: "malloc h 1 = (h1, Some b)" using assms(2) by (simp add: malloc_def)
  let ?ms = "\<lparr>ms_memory = Some b, ms_data = None, ms_size = 0\<rparr>"
  have o1: "owns (live h) h1 (ms_blocks ?ms @ [])" "\<And>b. \<not> oom h1 b"
    using owns_malloc[OF owns_start[OF assms(1)] m] oom_malloc[OF m] assms(2) by (auto simp: ms_blocks_def)
  have "ms_holds ?ms []" by (simp add: ms_holds_def)
  from receive_ok[OF o1 this, of pieces] assms(6) obtain h2 ms where
      r: "receive pieces h1 ?ms = Some (h2, ms, True)" "owns (live h) h2 (ms_blocks ms @ [])"
        "ms_data ms = Some (concat pieces)" "oom h2 = oom h1" by (auto simp: ms_holds_def)
  have "\<And>b. \<not> oom h2 b" using r(4) o1(2) by simp
  from print_answer_ok[OF r(2) this r(3) assms(7,8)] obtain h3 out ks where
      p: "print_answer env ms h2 = Some (h3, out)" "owns (live h) h3 (ms_blocks ms @ [])" "distinct ks"
        "set ks = fst ` set (kept (map item_row items))"
        "out = map (\<lambda>k. k @ ''|'' @ print_int (stack_total k (kept (map item_row items)))) ks" by blast
  from free_memory_ok[OF p(2)] obtain h4 where f: "free_memory h3 (ms_memory ms) = Some h4" "owns (live h) h4 []" by blast
  have "perform_live_query env opts h = Some (h4, 0, out)"
    using assms(3-5) m r(1) p(1) f(1) by (simp add: perform_live_query_def)
  with p owns_empty[OF f(2)] show ?thesis by blast
qed

text \<open>
  A server that answers with an empty body makes the live query read a buffer it never wrote:
  the single byte it allocates at the start is not a terminated string.
\<close>

theorem live_query_empty_answer:
  assumes "live_url opts = Some url" and "curl_init env" and "transfer env url = ([], True)"
  shows "perform_live_query env opts h = None"
  using assms by (simp add: perform_live_query_def print_answer_def split: prod.split)

text \<open>
  A process name of 506 characters or more makes the live query write outside its buffer: the
  offset counts the characters \<open>snprintf\<close> did not store, and the NUL that replaces the last \<open>&\<close>
  is stored at that offset.
\<close>

theorem live_query_name_overflow:
  assumes "start_time opts \<le> 0" "end_time opts \<le> 0" "q_pid opts \<le> 0" "q_name opts = Some name" "506 \<le> length name"
  shows "perform_live_query env opts h = None"
  using assms by (simp add: perform_live_query_def live_url_def query_params_def append_if_def append_fmt_def)

section \<open>Examples\<close>

text \<open>A query over two hours whose files both hold one stack, seen twice.\<close>

definition example_query_env :: query_env where
  "example_query_env = \<lparr>q_localtime = (\<lambda>t. \<lparr>tm_year = 70, tm_mon = 0, tm_mday = 1, tm_hour = t div 3600\<rparr>),
     q_exists = (\<lambda>_. True), q_opens = (\<lambda>_. True), q_prepares = (\<lambda>_ _. True),
     q_rows = (\<lambda>_ _. [(Some ''main'', 2), (None, 7)])\<rparr>"

definition example_query :: query_opts where
  "example_query = default_opts\<lparr>end_time := 5000\<rparr>"

lemma example_query_ok:
  "times_ok example_query" "query_hour_list example_query = [0, 3600]"
  "query_rows example_query_env example_query dir = [(''main'', 2), (''main'', 2)]"
proof -
  show t: "times_ok example_query" by (simp add: times_ok_def example_query_def default_opts_def)
  show hl: "query_hour_list example_query = [0, 3600]"
    by (simp add: query_hour_list_def example_query_def default_opts_def c_rem_def hour_list.simps)
  show "query_rows example_query_env example_query dir = [(''main'', 2), (''main'', 2)]"
    using where_clauses_ok[OF t] by (auto simp: query_rows_def hl hour_rows_def kept_def example_query_env_def)
qed

lemma example_open_failures: "rev (open_failures example_query_env dir hours) = []"
  by (simp add: open_failures_def example_query_env_def)

lemma example_counts: "counts_ok [(''main'', 2), (''main'', 2)]"
  by (simp add: counts_ok_def stack_total_def)

theorem historical_query_aggregates_witness:
  "\<exists>h'. perform_historical_query example_query_env example_query ''/data'' empty_heap = Some (h', [''main|4''], []) \<and>
     live h' = live empty_heap"
proof -
  have "\<exists>h' out ks. perform_historical_query example_query_env example_query ''/data'' empty_heap =
      Some (h', out, rev (open_failures example_query_env ''/data'' (query_hour_list example_query))) \<and>
    live h' = live empty_heap \<and> distinct ks \<and> set ks = fst ` set (query_rows example_query_env example_query ''/data'') \<and>
    out = map (\<lambda>k. k @ ''|'' @ print_int (stack_total k (query_rows example_query_env example_query ''/data''))) ks"
    by (rule historical_query_aggregates)
       (simp_all add: example_query_ok example_counts heap_ok_empty, simp add: empty_heap_def)
  then obtain h' ks where h: "perform_historical_query example_query_env example_query ''/data'' empty_heap =
      Some (h', map (\<lambda>k. k @ ''|'' @ print_int (stack_total k [(''main'', 2), (''main'', 2)])) ks, [])"
      "live h' = live empty_heap" and ks: "distinct ks" "set ks = {''main''}"
    unfolding example_query_ok example_open_failures by auto
  from ks have "length ks = 1" using distinct_card[of ks] by simp
  with ks(2) have "ks = [''main'']" by (cases ks) auto
  moreover have "print_int 4 = ''4''" by code_simp
  ultimately show ?thesis using h by (simp add: stack_total_def)
qed

theorem query_reads_written_file_witness:
  "db_path (Some (0, ''/data'')) (q_localtime example_query_env) 4000000000000 \<in>
     set (map (query_path ''/data'' (q_localtime example_query_env)) [0, 3600])"
proof -
  have "db_path (Some (0, ''/data'')) (q_localtime example_query_env) 4000000000000 \<in>
     set (map (query_path ''/data'' (q_localtime example_query_env)) (query_hour_list example_query))"
    by (rule query_reads_written_file[where t = 4000])
       (simp_all add: example_query_def default_opts_def example_query_env_def)
  then show ?thesis unfolding example_query_ok(2) .
qed

definition example_live_env :: live_env where
  "example_live_env = \<lparr>curl_init = True, transfer = (\<lambda>_. ([''[1'', '']''], True)),
     cjson_parse = (\<lambda>_. Some [(Some ''main'', Some 2), (None, Some 1), (Some ''main'', Some 2)])\<rparr>"

lemma example_live_url: "\<exists>url. live_url default_opts = Some url"
  by (simp add: live_url_def query_params_def default_opts_def append_fmt_def append_if_def)

theorem live_query_aggregates_witness:
  "\<exists>h' out. perform_live_query example_live_env default_opts empty_heap = Some (h', 0, out) \<and> live h' = live empty_heap"
proof -
  obtain url where u: "live_url default_opts = Some url" using example_live_url by blast
  show ?thesis
    using live_query_aggregates[OF heap_ok_empty _ u, of example_live_env "[''[1'', '']'']"]
    by (auto simp: example_live_env_def empty_heap_def kept_def example_counts)
qed

theorem live_query_empty_answer_witness:
  "perform_live_query (example_live_env\<lparr>transfer := (\<lambda>_. ([], True))\<rparr>) default_opts empty_heap = None"
proof -
  obtain url where u: "live_url default_opts = Some url" using example_live_url by blast
  show ?thesis by (rule live_query_empty_answer[OF u]) (simp_all add: example_live_env_def)
qed

theorem live_query_name_overflow_witness:
  "perform_live_query example_live_env (default_opts\<lparr>q_name := Some (replicate 506 (CHR ''x''))\<rparr>) empty_heap = None"
  by (rule live_query_name_overflow[where name = "replicate 506 (CHR ''x'')"]) (simp_all add: default_opts_def)

end
