(* ===== verification/Reporting.thy ===== *)
theory Reporting
  imports Query_Tool
begin

text \<open>
  The database writer and the query tool together: what the symbolizer pushes is what a later
  query reports. SQLite stands between them; what it answers to the statement of the query tool
  on the rows the writer committed is a hypothesis.
\<close>

section \<open>From the pushed stacks to the report\<close>

text \<open>
  What SQLite answers to the statement of the query tool, for a name without a quote: one row for
  every group of equal process id, name and stack among the rows that pass the filters, with the
  size of the group.
\<close>

definition row_matches :: "query_opts \<Rightarrow> db_row \<Rightarrow> bool" where
  "row_matches opts r \<longleftrightarrow> (0 < start_time opts \<longrightarrow> start_time opts * 1000000000 \<le> row_time r) \<and>
     (0 < end_time opts \<longrightarrow> row_time r \<le> end_time opts * 1000000000) \<and>
     (0 < q_pid opts \<longrightarrow> row_pid r = q_pid opts) \<and> (\<forall>n. q_name opts = Some n \<longrightarrow> row_name r = n)"

definition row_group :: "db_row \<Rightarrow> int \<times> string \<times> string" where
  "row_group r = (row_pid r, row_name r, row_stack r)"

definition grouped :: "db_row list \<Rightarrow> (string option \<times> int) list \<Rightarrow> bool" where
  "grouped rows res \<longleftrightarrow> (\<exists>gs. distinct gs \<and> set gs = row_group ` set rows \<and>
     res = map (\<lambda>g. (Some (snd (snd g)), int (length (filter (\<lambda>r. row_group r = g) rows)))) gs)"

definition answers_query :: "query_env \<Rightarrow> query_opts \<Rightarrow> string \<Rightarrow> db_row list \<Rightarrow> bool" where
  "answers_query env opts path rows \<longleftrightarrow> (\<forall>clauses. where_clauses opts = Some clauses \<longrightarrow>
     q_prepares env path (query_sql clauses) \<and> grouped (filter (row_matches opts) rows) (q_rows env path (query_sql clauses)))"

lemma group_sizes:
  assumes "distinct gs" and "row_group ` set rows \<subseteq> set gs"
  shows "(\<Sum>g\<leftarrow>filter P gs. length (filter (\<lambda>r. row_group r = g) rows)) = length (filter (\<lambda>r. P (row_group r)) rows)"
  using assms(2)
proof (induction rows)
  case (Cons r rows)
  have "(\<Sum>g\<leftarrow>filter P gs. length (filter (\<lambda>x. row_group x = g) (r # rows))) =
      (\<Sum>g\<leftarrow>filter P gs. (if row_group r = g then 1 else 0)) + (\<Sum>g\<leftarrow>filter P gs. length (filter (\<lambda>x. row_group x = g) rows))"
    by (simp add: sum_list_addf[symmetric] if_distrib cong: if_cong map_cong) (auto intro!: arg_cong[where f = sum_list])
  also have "(\<Sum>g\<leftarrow>filter P gs. (if row_group r = g then 1 else 0)) = (if P (row_group r) then 1 else (0::nat))"
    using assms(1) Cons.prems by (simp add: sum_list_distinct_conv_sum_set)
  finally show ?case using Cons by simp
qed simp

lemma int_sum_list: "int (sum_list (map f xs)) = (\<Sum>x\<leftarrow>xs. int (f x))"
  by (induction xs) simp_all

lemma grouped_totals:
  assumes "grouped rows res"
  shows "fst ` set (kept res) = row_stack ` set rows"
    and "stack_total k (kept res) = int (length (filter (\<lambda>r. row_stack r = k) rows))"
    and "\<forall>r\<in>set (kept res). 0 \<le> snd r"
proof -
  obtain gs where gs: "distinct gs" "set gs = row_group ` set rows"
    and res: "res = map (\<lambda>g. (Some (snd (snd g)), int (length (filter (\<lambda>r. row_group r = g) rows)))) gs"
    using assms by (auto simp: grouped_def)
  have kept: "kept res = map (\<lambda>g. (snd (snd g), int (length (filter (\<lambda>r. row_group r = g) rows)))) gs"
    by (simp add: res kept_def comp_def)
  show "fst ` set (kept res) = row_stack ` set rows" by (auto simp: kept gs(2) row_group_def image_image)
  show "\<forall>r\<in>set (kept res). 0 \<le> snd r" by (auto simp: kept)
  have "stack_total k (kept res) = int (\<Sum>g\<leftarrow>filter (\<lambda>g. snd (snd g) = k) gs. length (filter (\<lambda>r. row_group r = g) rows))"
    by (simp add: stack_total_def kept filter_map comp_def int_sum_list)
  then show "stack_total k (kept res) = int (length (filter (\<lambda>r. row_stack r = k) rows))"
    using group_sizes[OF gs(1), of rows "\<lambda>g. snd (snd g) = k"] gs(2) by (simp add: row_group_def)
qed

lemma hour_list_distinct: "distinct (hour_list ts en) \<and> (\<forall>t\<in>set (hour_list ts en). ts \<le> t)"
proof (induction ts en rule: hour_list.induct)
  case (1 ts en)
  then show ?case by (subst (1 2) hour_list.simps) force
qed

lemma single_file_rows:
  assumes "where_clauses opts = Some clauses" and t: "t \<in> set (query_hour_list opts)"
    and "q_exists env (query_path dir (q_localtime env) t)" "q_opens env (query_path dir (q_localtime env) t)"
      "q_prepares env (query_path dir (q_localtime env) t) (query_sql clauses)"
    and other: "\<forall>x\<in>set (query_hour_list opts). x \<noteq> t \<longrightarrow> \<not> q_exists env (query_path dir (q_localtime env) x)"
  shows "query_rows env opts dir = kept (q_rows env (query_path dir (q_localtime env) t) (query_sql clauses))"
    and "open_failures env dir (query_hour_list opts) = []"
proof -
  have d: "distinct (query_hour_list opts)" using hour_list_distinct by (simp add: query_hour_list_def)
  obtain xs ys where xs: "query_hour_list opts = xs @ t # ys" "t \<notin> set xs" "t \<notin> set ys"
    using split_list[OF t] d by auto
  have none: "concat (map (hour_rows env dir (query_sql clauses)) zs) = []" if "set zs \<subseteq> set (query_hour_list opts)" "t \<notin> set zs" for zs
  proof -
    have "hour_rows env dir (query_sql clauses) z = []" if "z \<in> set zs" for z
      using that \<open>set zs \<subseteq> _\<close> \<open>t \<notin> set zs\<close> other by (auto simp: hour_rows_def Let_def)
    then show ?thesis by simp
  qed
  show "query_rows env opts dir = kept (q_rows env (query_path dir (q_localtime env) t) (query_sql clauses))"
  proof -
    have "concat (map (hour_rows env dir (query_sql clauses)) xs) = []" "concat (map (hour_rows env dir (query_sql clauses)) ys) = []"
      using xs by (auto intro!: none simp del: concat_eq_Nil_conv)
    then have "query_rows env opts dir = hour_rows env dir (query_sql clauses) t"
      unfolding query_rows_def xs(1) by (simp add: assms(1) del: concat_eq_Nil_conv)
    then show ?thesis using assms(3-5) by (simp add: hour_rows_def Let_def)
  qed
  show "open_failures env dir (query_hour_list opts) = []"
    using other assms(4) by (auto simp: open_failures_def filter_empty_conv)
qed


text \<open>
  C15. From the pushed stacks to the report: a session of the writer within one hour, and a query over
  a range that holds this hour and no other file. Once the writer is stopped, its thread joined and
  its memory given back, and given that SQLite answers the query from the rows committed to the
  file, the query tool prints exactly one line per stack that was pushed and passes the filters, with the
  number of times it was pushed, and gives its memory back.
\<close>

theorem pushed_stacks_reported:
  assumes w: "heap_ok h" "\<forall>b. \<not> oom h b" "db_writer_init config True h = Some (h0, Some ctx0)"
      "\<forall>l c. sqlite env l c" "0 < db_batch_size config" "0 < tid"
      "entries_fit (SIZEOF_DB_ENTRY + nat (max_stack_depth config * 257)) P
        (db_path (output_dir ctx0) (localtime env)) (pushed_entries evs)"
      "db_run config env evs (db_writer_start (Some tid) ctx0) = Some ctx1"
      "size (dw_queue ctx1) + length (producer_batch ctx1) \<le> QUEUE_CAPACITY"
    and q: "heap_ok g" "\<And>b. \<not> oom g b" "times_ok opts" "length (pushed_entries evs) < 2 ^ 31"
    and t: "t \<in> set (query_hour_list opts)" "P = query_path (db_output_dir config) (q_localtime qenv) t"
    and files: "q_exists qenv P" "q_opens qenv P"
      "\<forall>x\<in>set (query_hour_list opts). x \<noteq> t \<longrightarrow> \<not> q_exists qenv (query_path (db_output_dir config) (q_localtime qenv) x)"
  shows "\<exists>ctx2 ctx3 h3 log. db_writer_stop config env ctx1 = Some ctx2 \<and>
    db_writer_thread_func (size (dw_queue ctx2) + 1) config env ctx2 = Some ctx3 \<and>
    db_writer_wait 1 ctx3 = Some (h3, log) \<and> live h3 = live h \<and>
    (answers_query qenv opts P (fst (replay 0 log)) \<longrightarrow>
      (let shown = filter (row_matches opts) (map parse_entry (pushed_entries evs)) in
       \<exists>g' ks. distinct ks \<and> set ks = row_stack ` set shown \<and> live g' = live g \<and>
         perform_historical_query qenv opts (db_output_dir config) g = Some (g',
           map (\<lambda>k. k @ ''|'' @ print_int (int (length (filter (\<lambda>r. row_stack r = k) shown)))) ks, [])))"
proof -
  let ?shown = "filter (row_matches opts) (map parse_entry (pushed_entries evs))" and ?dir = "db_output_dir config"
  from writer_commits[OF w] obtain ctx2 ctx3 h3 log where
    l: "db_writer_stop config env ctx1 = Some ctx2" "db_writer_thread_func (size (dw_queue ctx2) + 1) config env ctx2 = Some ctx3"
      "db_writer_wait 1 ctx3 = Some (h3, log)" "live h3 = live h" "fst (replay 0 log) = map parse_entry (pushed_entries evs)" by force
  obtain clauses where cl: "where_clauses opts = Some clauses" using where_clauses_ok[OF q(3)] by blast
  have "\<exists>g' ks. distinct ks \<and> set ks = row_stack ` set ?shown \<and> live g' = live g \<and>
      perform_historical_query qenv opts ?dir g = Some (g',
        map (\<lambda>k. k @ ''|'' @ print_int (int (length (filter (\<lambda>r. row_stack r = k) ?shown)))) ks, [])"
    if "answers_query qenv opts P (fst (replay 0 log))"
  proof -
    have a: "q_prepares qenv P (query_sql clauses)" "grouped ?shown (q_rows qenv P (query_sql clauses))"
      using that cl l(5) by (auto simp: answers_query_def)
    note f = single_file_rows[OF cl t(1) files(1,2)[unfolded t(2)] a(1)[unfolded t(2)] files(3)]
    note tot = grouped_totals[OF a(2)]
    have rows: "query_rows qenv opts ?dir = kept (q_rows qenv P (query_sql clauses))" using f(1) by (simp add: t(2))
    have "length (filter (\<lambda>r. row_stack r = k) ?shown) < 2 ^ 31" for k
      by (rule le_less_trans[OF order_trans[OF length_filter_le length_filter_le]]) (use q(4) in simp)
    then have "counts_ok (query_rows qenv opts ?dir)" unfolding rows counts_ok_def tot(2) using tot(3) by simp
    from historical_query_sums[OF q(1-3) this] show ?thesis unfolding f(2) unfolding rows tot(1,2) by auto
  qed
  with l show ?thesis by (auto simp: Let_def)
qed


section \<open>Example\<close>

definition example_report :: query_opts where
  "example_report = default_opts\<lparr>end_time := 3599\<rparr>"

definition example_report_env :: query_env where
  "example_report_env = \<lparr>q_localtime = localtime example_db_env, q_exists = (\<lambda>_. True), q_opens = (\<lambda>_. True),
     q_prepares = (\<lambda>_ _. True), q_rows = (\<lambda>_ _. [(Some ''sh[42];main'', 1)])\<rparr>"

lemma example_report_hours: "query_hour_list example_report = [0]"
  by (simp add: query_hour_list_def example_report_def default_opts_def c_rem_def hour_list.simps)

lemma example_report_answers:
  "answers_query example_report_env example_report path [\<lparr>row_time = 7, row_pid = 42, row_name = ''sh'', row_stack = ''sh[42];main''\<rparr>]"
  by (auto simp: answers_query_def grouped_def example_report_env_def example_report_def default_opts_def row_matches_def row_group_def
      intro!: exI[of _ "[(42, ''sh'', ''sh[42];main'')]"])

theorem pushed_stacks_reported_witness:
  "\<exists>ctx0 ctx1 ctx2 ctx3 h0 h3 log g'. db_writer_init example_db_config True empty_heap = Some (h0, Some ctx0) \<and>
    db_run example_db_config example_db_env example_session (db_writer_start (Some 1) ctx0) = Some ctx1 \<and>
    db_writer_stop example_db_config example_db_env ctx1 = Some ctx2 \<and>
    db_writer_thread_func (size (dw_queue ctx2) + 1) example_db_config example_db_env ctx2 = Some ctx3 \<and>
    db_writer_wait 1 ctx3 = Some (h3, log) \<and>
    perform_historical_query example_report_env example_report ''/tmp'' empty_heap = Some (g', [''sh[42];main|1''], [])"
proof -
  obtain h0 ctx0 ctx1 b where s: "db_writer_init example_db_config True empty_heap = Some (h0, Some ctx0)"
      "entries_fit (SIZEOF_DB_ENTRY + nat (max_stack_depth example_db_config * 257)) (db_path (output_dir ctx0) (localtime example_db_env) 7)
        (db_path (output_dir ctx0) (localtime example_db_env)) (pushed_entries example_session)"
      "db_run example_db_config example_db_env example_session (db_writer_start (Some 1) ctx0) = Some ctx1"
      "size (dw_queue ctx1) + length (producer_batch ctx1) \<le> QUEUE_CAPACITY"
      "output_dir ctx0 = Some (b, db_output_dir example_db_config)" using example_session_runs by blast
  let ?P = "db_path (output_dir ctx0) (localtime example_db_env) 7"
    and ?row = "\<lparr>row_time = 7, row_pid = 42, row_name = ''sh'', row_stack = ''sh[42];main''\<rparr>"
  note w = heap_ok_empty example_setting(1) s(1) example_setting(2,3) zero_less_one s(2-4)
  have P: "?P = query_path (db_output_dir example_db_config) (q_localtime example_report_env) 0"
    by (simp add: db_path_def query_path_def s(5) example_report_env_def)
  have t: "times_ok example_report" by (simp add: times_ok_def example_report_def default_opts_def)
  have rows: "map parse_entry (pushed_entries example_session) = [?row]" by (simp add: example_session_def example_row)
  have m: "row_matches example_report ?row" by (simp add: row_matches_def example_report_def default_opts_def)
  from writer_commits[OF w] obtain ctx2 ctx3 h3 log where
    l: "db_writer_stop example_db_config example_db_env ctx1 = Some ctx2"
      "db_writer_thread_func (size (dw_queue ctx2) + 1) example_db_config example_db_env ctx2 = Some ctx3"
      "db_writer_wait 1 ctx3 = Some (h3, log)" "fst (replay 0 log) = [?row]" by (auto simp: rows)
  have "\<exists>g' ks. distinct ks \<and> set ks = {''sh[42];main''} \<and>
      perform_historical_query example_report_env example_report (db_output_dir example_db_config) empty_heap =
        Some (g', map (\<lambda>k. k @ ''|'' @ print_int (int (length (filter (\<lambda>r. row_stack r = k) [?row])))) ks, [])"
    using pushed_stacks_reported[OF w heap_ok_empty _ t _ _ P, simplified rows example_report_hours] l example_setting(1) m
      example_report_answers[of ?P]
    by (auto simp: example_report_env_def example_session_def Let_def)
  then obtain g' ks where g: "distinct ks" "set ks = {''sh[42];main''}"
      "perform_historical_query example_report_env example_report (db_output_dir example_db_config) empty_heap =
        Some (g', map (\<lambda>k. k @ ''|'' @ print_int (int (length (filter (\<lambda>r. row_stack r = k) [?row])))) ks, [])" by blast
  then have "length ks = 1" using distinct_card[of ks] by simp
  with g(2) have "ks = [''sh[42];main'']" by (cases ks) auto
  moreover have "print_int 1 = ''1''" by code_simp
  moreover have "db_output_dir example_db_config = ''/tmp''" by (simp add: example_db_config_def default_config_def)
  ultimately show ?thesis using g(3) l s(1,3) by auto
qed

end
