(* ===== verification/Http_Server.thy ===== *)
theory Http_Server
  imports Query_Tool
begin

text \<open>
  The HTTP server (src/utils/http_server.c): the callback that answers \<open>GET /query\<close> from the
  database the writer has open, and starting and stopping the daemon. libmicrohttpd decodes the
  arguments of a request and runs the daemon, SQLite answers the query, cJSON prints the answer;
  they are parameters. \<open>None\<close> is a fault.
\<close>

section \<open>Answering a request\<close>

record http_request =
  req_method :: string
  req_url :: string
  req_param :: "string \<Rightarrow> string option"

datatype sql_value = SqlInt int | SqlText string

record http_env =
  http_prepares :: "nat \<Rightarrow> string \<Rightarrow> bool"
  http_rows :: "nat \<Rightarrow> string \<Rightarrow> (string \<times> sql_value) list \<Rightarrow> (string option \<times> int) list"
  json_print :: "(string option \<times> int) list \<Rightarrow> string option"

record http_response =
  resp_status :: nat
  resp_body :: string

definition get_query_param :: "http_request \<Rightarrow> string \<Rightarrow> string option" where
  "get_query_param req key = req_param req key"

text \<open>\<open>strcat\<close> into a buffer of \<open>n\<close> bytes, when a condition holds.\<close>

definition strcat_if :: "bool \<Rightarrow> nat \<Rightarrow> string \<Rightarrow> string \<Rightarrow> string option" where
  "strcat_if c n s buf = (if \<not> c then Some buf else if length buf + length s < n then Some (buf @ s) else None)"

definition http_where :: "bool \<Rightarrow> bool \<Rightarrow> bool \<Rightarrow> bool \<Rightarrow> string option" where
  "http_where has_start has_end has_pid has_name = do {
     let w = '' WHERE 1=1 '';
     w \<leftarrow> strcat_if has_start 512 '' AND timestamp >= :start_time'' w;
     w \<leftarrow> strcat_if has_end 512 '' AND timestamp <= :end_time'' w;
     w \<leftarrow> strcat_if has_pid 512 '' AND pid = :pid'' w;
     strcat_if has_name 512 '' AND process_name = :name'' w }"

definition http_sql :: "string \<Rightarrow> string" where
  "http_sql clauses = clip 1024 (''SELECT full_stack, COUNT(*) as count FROM call_stacks '' @ clauses @
     '' GROUP BY full_stack ORDER BY count DESC;'')"

text \<open>The values bound to the parameters of the statement.\<close>

definition http_bindings :: "int \<Rightarrow> int \<Rightarrow> string option \<Rightarrow> string option \<Rightarrow> (string \<times> sql_value) list option" where
  "http_bindings st en pid_str name_str = do {
     start_ns \<leftarrow> ns_if st;
     end_ns \<leftarrow> ns_if en;
     Some ((if 0 < st then [('':start_time'', SqlInt start_ns)] else []) @
       (if 0 < en then [('':end_time'', SqlInt end_ns)] else []) @
       (case pid_str of None \<Rightarrow> [] | Some s \<Rightarrow> [('':pid'', SqlInt (atoi s))]) @
       (case name_str of None \<Rightarrow> [] | Some s \<Rightarrow> [('':name'', SqlText s)])) }"

definition not_found :: http_response where
  \<open>not_found = \<lparr>resp_status = 404, resp_body = ''{"error": "Not Found"}''\<rparr>\<close>

definition not_available :: http_response where
  \<open>not_available = \<lparr>resp_status = 500, resp_body = ''{"error": "Database not available"}''\<rparr>\<close>

text \<open>\<open>now\<close> is what \<open>time(NULL)\<close> gives; a statement that cannot be prepared gives no rows.\<close>

definition request_handler :: "http_env \<Rightarrow> db_writer option \<Rightarrow> int \<Rightarrow> http_request \<Rightarrow> http_response option" where
  "request_handler env db_context now req =
     (if req_method req \<noteq> ''GET'' \<or> req_url req \<noteq> ''/query'' then Some not_found
      else
        let start_str = get_query_param req ''start_time'';
            end_str = get_query_param req ''end_time'';
            pid_str = get_query_param req ''pid'';
            name_str = get_query_param req ''name'';
            st = (case start_str of None \<Rightarrow> 0 | Some s \<Rightarrow> atoll s);
            en = (case end_str of None \<Rightarrow> now | Some s \<Rightarrow> atoll s)
        in do {
          clauses \<leftarrow> http_where (0 < st) (0 < en) (pid_str \<noteq> None) (name_str \<noteq> None);
          let sql = http_sql clauses;
          case db_writer_get_db_handle db_context of
            None \<Rightarrow> Some not_available
          | Some conn \<Rightarrow> do {
              rows \<leftarrow> (if http_prepares env conn sql
                       then do { bs \<leftarrow> http_bindings st en pid_str name_str; Some (http_rows env conn sql bs) }
                       else Some []);
              json \<leftarrow> json_print env rows;
              Some \<lparr>resp_status = 200, resp_body = json\<rparr> } })"

section \<open>The daemon\<close>

record http_context =
  hc_block :: block
  hc_daemon :: bool
  hc_db :: "db_writer option"

text \<open>\<open>started\<close> says whether \<open>MHD_start_daemon\<close> succeeds on the port.\<close>

definition http_server_start :: "(int \<Rightarrow> bool) \<Rightarrow> int \<Rightarrow> db_writer option \<Rightarrow> c_heap \<Rightarrow> (c_heap \<times> http_context option) option" where
  "http_server_start started port db_context h = (case malloc h 16 of
     (h, None) \<Rightarrow> Some (h, None)
   | (h, Some b) \<Rightarrow>
       if started port then Some (h, Some \<lparr>hc_block = b, hc_daemon = True, hc_db = db_context\<rparr>)
       else do { h \<leftarrow> free_block h b; Some (h, None) })"

definition http_server_stop :: "http_context option \<Rightarrow> c_heap \<Rightarrow> c_heap option" where
  "http_server_stop context h = (case context of
     None \<Rightarrow> Some h
   | Some c \<Rightarrow> if hc_daemon c then free_block h (hc_block c) else Some h)"

lemma http_server_start_ok:
  assumes "owns base h bs"
  shows "\<exists>h' r. http_server_start started port db_context h = Some (h', r) \<and> oom h' = oom h \<and>
    owns base h' ((case r of None \<Rightarrow> [] | Some c \<Rightarrow> [hc_block c]) @ bs) \<and> (\<forall>c. r = Some c \<longrightarrow> hc_daemon c)"
proof -
  obtain h1 r where m: "malloc h 16 = (h1, r)" by (cases "malloc h 16")
  show ?thesis
  proof (cases r)
    case None
    with m assms owns_malloc_None oom_malloc[OF m] show ?thesis by (auto simp: http_server_start_def)
  next
    case (Some b)
    with m have o1: "owns base h1 (b # bs)" "oom h1 = oom h" using owns_malloc[OF assms] oom_malloc[OF m] by auto
    from owns_free_hd[OF o1(1)] obtain h2 where f: "free_block h1 b = Some h2" "owns base h2 bs" by blast
    show ?thesis using m Some o1 f oom_free_block[OF f(1)] by (cases "started port") (auto simp: http_server_start_def)
  qed
qed

text \<open>Whatever is started is stopped and gives its memory back.\<close>

lemma http_server_stop_ok:
  assumes "owns base h ((case r of None \<Rightarrow> [] | Some c \<Rightarrow> [hc_block c]) @ bs)" and "\<forall>c. r = Some c \<longrightarrow> hc_daemon c"
  shows "\<exists>h'. http_server_stop r h = Some h' \<and> owns base h' bs \<and> oom h' = oom h"
proof (cases r)
  case (Some c)
  with assms owns_free_hd[of base h "hc_block c" bs] oom_free_block show ?thesis by (auto simp: http_server_stop_def)
qed (use assms in \<open>simp add: http_server_stop_def\<close>)

section \<open>The query tool and the server\<close>

lemma atoll_print_int:
  assumes "0 \<le> i" "i < 2 ^ 63"
  shows "atoll (print_int i) = i"
proof -
  have "nat i < 2 ^ 64" using assms(2) by simp
  note d = print_dec_digits[OF this]
  have "max (- (2 ^ 63)) (min (2 ^ 63 - 1) i) = i" using assms by simp
  moreover have tw: "takeWhile (is_digit 10) (print_dec (nat i)) = print_dec (nat i)"
    using takeWhile_digits[OF d(2), of "[]"] by (simp only: append_Nil2 simp_thms)
  ultimately show ?thesis using d scan_sign_digits[OF d(2,1), of "[]"] assms(1)
    by (simp add: atoll_def print_int_def tw)
qed

lemma http_where_ok: "\<exists>w. http_where a b c d = Some w"
  by (cases a; cases b; cases c; cases d) (simp_all add: http_where_def strcat_if_def)

lemma http_where_bind: "Option.bind (http_where a b c d) (\<lambda>_. Some r) = Some r"
  using http_where_ok[of a b c d] by auto

text \<open>The arguments the query tool puts into its URL, as a server decodes them.\<close>

definition sent_params :: "query_opts \<Rightarrow> string \<Rightarrow> string option" where
  "sent_params opts key =
     (if key = ''start_time'' \<and> 0 < start_time opts then Some (print_int (start_time opts))
      else if key = ''end_time'' \<and> 0 < end_time opts then Some (print_int (end_time opts))
      else if key = ''pid'' \<and> 0 < q_pid opts then Some (print_int (q_pid opts))
      else if key = ''name'' then q_name opts else None)"

definition filter_values :: "query_opts \<Rightarrow> (string \<times> sql_value) list" where
  "filter_values opts =
     (if 0 < start_time opts then [('':start_time'', SqlInt (start_time opts * 1000000000))] else []) @
     (if 0 < end_time opts then [('':end_time'', SqlInt (end_time opts * 1000000000))] else []) @
     (if 0 < q_pid opts then [('':pid'', SqlInt (q_pid opts))] else []) @
     (case q_name opts of None \<Rightarrow> [] | Some s \<Rightarrow> [('':name'', SqlText s)])"


text \<open>Every other request is answered with an error status.\<close>

lemma request_refused:
  "req_method req \<noteq> ''GET'' \<or> req_url req \<noteq> ''/query'' \<Longrightarrow> request_handler env ctx now req = Some not_found"
  "req_method req = ''GET'' \<Longrightarrow> req_url req = ''/query'' \<Longrightarrow> db_writer_get_db_handle ctx = None \<Longrightarrow>
    request_handler env ctx now req = Some not_available"
proof -
  show "req_method req = ''GET'' \<Longrightarrow> req_url req = ''/query'' \<Longrightarrow> db_writer_get_db_handle ctx = None \<Longrightarrow>
    request_handler env ctx now req = Some not_available"
    by (simp add: request_handler_def Let_def http_where_bind)
qed (simp add: request_handler_def)

text \<open>A tool that asks for the process 7 until second 5000, and a writer with an open database.\<close>

definition example_http_env :: http_env where
  "example_http_env = \<lparr>http_prepares = (\<lambda>_ _. True),
     http_rows = (\<lambda>_ _ bs. if bs = [('':end_time'', SqlInt 5000000000000), ('':pid'', SqlInt 7)] then [(Some ''main'', 3)] else []),
     json_print = (\<lambda>rows. Some (if rows = [(Some ''main'', 3)] then ''one row'' else ''no row''))\<rparr>"


end
