(* ===== verification/Perf_Ring.thy ===== *)
theory Perf_Ring
  imports C_Bytes
begin

text \<open>
  Reading the perf ring buffer (src/perf/perf.c, perf_event_consume_ring_buffer). The data area
  of the mapping is a list of bytes, \<open>data_head\<close> and \<open>data_tail\<close> are the counters of the control
  page, and the handler is a function from the bytes of a record and the context to the new
  context. Positions are offsets from \<open>base\<close>.
\<close>

record perf_event_fd =
  pagesize :: u64
  mmap_size :: u64
  data_head :: u64
  data_tail :: u64
  ring_data :: "u8 list"

abbreviation header_len :: nat where "header_len \<equiv> 8"
abbreviation temp_buf_len :: nat where "temp_buf_len \<equiv> 4096"

text \<open>The field \<open>size\<close> of a \<open>perf_event_header\<close>: two bytes after \<open>type\<close> and \<open>misc\<close>.\<close>

definition hdr_size :: "u8 list \<Rightarrow> nat" where
  "hdr_size hdr = le_nat (take 2 (drop 6 hdr))"

text \<open>The header at a position, put together in the temporary buffer when it wraps around.\<close>

definition read_header :: "u8 list \<Rightarrow> nat \<Rightarrow> u8 list option" where
  "read_header ring cur =
     (if length ring < cur then None
      else if cur + header_len > length ring then
        (let first_part = length ring - cur in
         map_option (\<lambda>rest. drop cur ring @ rest) (read_bytes ring 0 (header_len - first_part)))
      else read_bytes ring cur header_len)"

partial_function (option) consume_loop ::
    "(u8 list \<Rightarrow> 'c \<Rightarrow> 'c) \<Rightarrow> u8 list \<Rightarrow> nat \<Rightarrow> nat \<Rightarrow> 'c \<Rightarrow> nat \<Rightarrow> ('c \<times> nat) option" where
  "consume_loop handler ring stop cur ctx processed =
     (if cur = stop then Some (ctx, processed)
      else do {
        hdr \<leftarrow> read_header ring cur;
        let sz = hdr_size hdr in
        if sz = 0 then Some (ctx, processed)
        else if cur + sz > length ring then
          (let first_part = length ring - cur in
           if sz \<le> temp_buf_len then do {
             rest \<leftarrow> read_bytes ring 0 (sz - first_part);
             consume_loop handler ring stop (sz - first_part) (handler (drop cur ring @ rest) ctx) (processed + 1) }
           else consume_loop handler ring stop (sz - first_part) ctx processed)
        else
          consume_loop handler ring stop (if cur + sz = length ring then 0 else cur + sz)
            (handler (take sz (drop cur ring)) ctx) (processed + 1) })"

definition perf_event_consume_ring_buffer ::
    "(u8 list \<Rightarrow> 'c \<Rightarrow> 'c) \<Rightarrow> 'c \<Rightarrow> perf_event_fd \<Rightarrow> (perf_event_fd \<times> 'c \<times> nat) option" where
  "perf_event_consume_ring_buffer handler ctx ev =
     (if sint (pagesize ev) \<le> 0 then Some (ev, ctx, 0)
      else
        (let buf_size = mmap_size ev - pagesize ev; tail = data_tail ev; head = data_head ev in
         if tail = head then Some (ev, ctx, 0)
         else if buf_size = 0 then None
         else do {
           (ctx, processed) \<leftarrow> consume_loop handler (ring_data ev)
             (unat (head mod buf_size)) (unat (tail mod buf_size)) ctx 0;
           Some (ev\<lparr>data_tail := head\<rparr>, ctx, processed) }))"

section \<open>What the kernel wrote\<close>

text \<open>
  \<open>stored ring pos bs\<close>: the bytes \<open>bs\<close> lie in the ring from position \<open>pos\<close> on, wrapping around at
  its end. A record is well formed when its size field is its length.
\<close>

definition stored :: "u8 list \<Rightarrow> nat \<Rightarrow> u8 list \<Rightarrow> bool" where
  "stored ring pos bs \<longleftrightarrow> (\<forall>i<length bs. ring ! ((pos + i) mod length ring) = bs ! i)"

definition record_ok :: "u8 list \<Rightarrow> bool" where
  "record_ok r \<longleftrightarrow> header_len \<le> length r \<and> hdr_size r = length r"

text \<open>
  The records that reach the handler: one that is larger than the temporary buffer and wraps
  around the end of the ring is passed over.
\<close>

fun delivered :: "nat \<Rightarrow> nat \<Rightarrow> u8 list list \<Rightarrow> u8 list list" where
  "delivered n pos [] = []"
| "delivered n pos (r # rs) =
     (if pos + length r > n \<and> length r > temp_buf_len then [] else [r]) @
     delivered n ((pos + length r) mod n) rs"

lemma delivered_small: "\<forall>r\<in>set rs. length r \<le> temp_buf_len \<Longrightarrow> delivered n pos rs = rs"
  by (induction rs arbitrary: pos) auto

lemma mod_wrap: "n \<le> a \<Longrightarrow> a < n + n \<Longrightarrow> a mod n = a - (n :: nat)"
  by (metis add_diff_inverse_nat leD less_diff_conv2 mod_add_self1 mod_less)

lemma stored_prefix: "stored ring pos (xs @ ys) \<Longrightarrow> stored ring pos xs"
  by (simp add: stored_def nth_append)

lemma stored_suffix:
  assumes "stored ring pos (xs @ ys)"
  shows "stored ring ((pos + length xs) mod length ring) ys"
  unfolding stored_def
proof (intro allI impI)
  fix i assume "i < length ys"
  then have "ring ! ((pos + (length xs + i)) mod length ring) = (xs @ ys) ! (length xs + i)"
    using assms unfolding stored_def by (metis add_less_cancel_left length_append)
  moreover have "((pos + length xs) mod length ring + i) mod length ring = (pos + (length xs + i)) mod length ring"
    by (metis add.assoc mod_add_left_eq)
  ultimately show "ring ! (((pos + length xs) mod length ring + i) mod length ring) = ys ! i" by simp
qed

lemma stored_flat:
  assumes "stored ring pos bs" and "pos + length bs \<le> length ring"
  shows "take (length bs) (drop pos ring) = bs"
  using assms by (intro nth_equalityI) (auto simp: stored_def)

lemma stored_wrap:
  assumes "stored ring pos bs" and "pos < length ring" and "length ring < pos + length bs" and "length bs \<le> length ring"
  shows "drop pos ring @ take (length bs - (length ring - pos)) ring = bs"
proof (rule nth_equalityI)
  fix i assume "i < length (drop pos ring @ take (length bs - (length ring - pos)) ring)"
  then have i: "i < length bs" using assms by auto
  then have b: "ring ! ((pos + i) mod length ring) = bs ! i" using assms(1) by (simp add: stored_def)
  show "(drop pos ring @ take (length bs - (length ring - pos)) ring) ! i = bs ! i"
  proof (cases "i < length ring - pos")
    case True
    then have "(pos + i) mod length ring = pos + i" by simp
    with True b show ?thesis by (simp add: nth_append)
  next
    case False
    then have "(pos + i) mod length ring = i - (length ring - pos)"
      using i assms mod_wrap[of "length ring" "pos + i"] by simp
    with False b i assms(2-4) show ?thesis by (simp add: nth_append)
  qed
qed (use assms in auto)

section \<open>The loop delivers what was written\<close>

lemma read_header_stored:
  assumes "stored ring pos bs" and "length bs = header_len" and "pos < length ring" and "header_len \<le> length ring"
  shows "read_header ring pos = Some bs"
proof (cases "pos + header_len > length ring")
  case True
  with stored_wrap[OF assms(1,3)] assms show ?thesis by (simp add: read_header_def read_bytes_def Let_def)
next
  case False
  with stored_flat[OF assms(1)] assms show ?thesis by (simp add: read_header_def read_bytes_def)
qed

lemma record_header: "record_ok r \<Longrightarrow> length (take header_len r) = header_len \<and> hdr_size (take header_len r) = length r"
  by (simp add: record_ok_def hdr_size_def drop_take)

text \<open>One turn of the loop on a well-formed record.\<close>

lemma consume_loop_record:
  assumes "record_ok r" and st: "stored ring pos r" and pos: "pos < length ring" and len: "length r < length ring"
    and stop: "pos \<noteq> stop"
  shows "consume_loop handler ring stop pos ctx n =
    (if pos + length r > length ring \<and> length r > temp_buf_len
     then consume_loop handler ring stop ((pos + length r) mod length ring) ctx n
     else consume_loop handler ring stop ((pos + length r) mod length ring) (handler r ctx) (n + 1))"
proof -
  have r: "header_len \<le> length r" using assms(1) by (simp add: record_ok_def)
  note h = record_header[OF assms(1)]
  have "stored ring pos (take header_len r)" using stored_prefix[of ring pos "take header_len r" "drop header_len r"] st by simp
  then have hd: "read_header ring pos = Some (take header_len r)"
    using h r len pos by (intro read_header_stored) auto
  have nz: "length r \<noteq> 0" using r by auto
  show ?thesis
  proof (cases "pos + length r > length ring")
    case True
    have m: "(pos + length r) mod length ring = length r - (length ring - pos)"
      using True pos len mod_wrap[of "length ring" "pos + length r"] by simp
    have "read_bytes ring 0 (length r - (length ring - pos)) = Some (take (length r - (length ring - pos)) ring)"
      using len by (simp add: read_bytes_def)
    with True nz hd h stop stored_wrap[OF st pos True] len show ?thesis
      unfolding m by (subst consume_loop.simps) (simp add: Let_def)
  next
    case False
    then have m: "(if pos + length r = length ring then 0 else pos + length r) = (pos + length r) mod length ring" by auto
    from False nz hd h stop stored_flat[OF st] show ?thesis
      by (subst consume_loop.simps) (simp add: Let_def m)
  qed
qed

lemma consume_loop_ok:
  assumes "\<forall>r\<in>set recs. record_ok r" and "stored ring pos (concat recs)" and "pos < length ring"
    and "length (concat recs) < length ring" and "stop = (pos + length (concat recs)) mod length ring"
  shows "consume_loop handler ring stop pos ctx n =
    Some (fold handler (delivered (length ring) pos recs) ctx, n + length (delivered (length ring) pos recs))"
  using assms
proof (induction recs arbitrary: pos ctx n)
  case Nil
  then show ?case by (subst consume_loop.simps) simp
next
  case (Cons r recs)
  let ?N = "length ring" and ?p = "(pos + length r) mod length ring"
  have r: "record_ok r" "0 < length r" using Cons.prems(1) by (auto simp: record_ok_def)
  have st: "stored ring pos r" "stored ring ?p (concat recs)"
    using stored_prefix[of ring pos r "concat recs"] stored_suffix[of ring pos r "concat recs"] Cons.prems(2) by auto
  have stop: "stop = (?p + length (concat recs)) mod ?N"
    using Cons.prems(5) by (simp add: mod_add_left_eq add.assoc)
  have ne: "pos \<noteq> stop"
  proof
    assume "pos = stop"
    then have "(pos + length (concat (r # recs))) mod ?N = pos mod ?N" using Cons.prems(3,5) by simp
    then have "?N dvd length (concat (r # recs))"
      by (metis add_diff_cancel_left' mod_eq_dvd_iff_nat le_add1)
    with Cons.prems(4) r(2) show False by (auto dest: dvd_imp_le)
  qed
  have IH: "consume_loop handler ring stop ?p ctx n =
      Some (fold handler (delivered ?N ?p recs) ctx, n + length (delivered ?N ?p recs))" for ctx n
    using Cons.prems by (intro Cons.IH[OF _ st(2) _ _ stop]) (auto intro: mod_less_divisor)
  have "length r < ?N" using Cons.prems(4) by simp
  from consume_loop_record[OF r(1) st(1) Cons.prems(3) this ne, of handler ctx n] show ?case
    by (simp add: IH)
qed

text \<open>The event of the mapping: a positive page size and a data area whose size divides the counters' range.\<close>

definition event_ok :: "perf_event_fd \<Rightarrow> bool" where
  "event_ok ev \<longleftrightarrow> 0 < sint (pagesize ev) \<and> 0 < length (ring_data ev) \<and>
     unat (mmap_size ev - pagesize ev) = length (ring_data ev) \<and> length (ring_data ev) dvd 2 ^ 64"

lemma mod_head:
  fixes tail :: u64
  assumes "n dvd 2 ^ 64"
  shows "unat (tail + of_nat k) mod n = (unat tail mod n + k) mod n"
proof -
  have "unat (tail + of_nat k) = (unat tail + k) mod 2 ^ 64"
    by (simp add: unat_word_ariths unat_of_nat mod_add_right_eq)
  then have "unat (tail + of_nat k) mod n = (unat tail + k) mod n" using assms by (simp add: mod_mod_cancel)
  then show ?thesis by (simp add: mod_add_left_eq)
qed

lemma consume_ring_delivers:
  assumes "event_ok ev" and "\<forall>r\<in>set recs. record_ok r" and "length (concat recs) < length (ring_data ev)"
    and "stored (ring_data ev) (unat (data_tail ev) mod length (ring_data ev)) (concat recs)"
    and "data_head ev = data_tail ev + of_nat (length (concat recs))"
  shows "perf_event_consume_ring_buffer handler ctx ev =
    (let out = delivered (length (ring_data ev)) (unat (data_tail ev) mod length (ring_data ev)) recs in
     Some (ev\<lparr>data_tail := data_head ev\<rparr>, fold handler out ctx, length out))"
proof -
  let ?N = "length (ring_data ev)" and ?p = "unat (data_tail ev) mod length (ring_data ev)"
  have ev: "\<not> sint (pagesize ev) \<le> 0" "0 < ?N" "unat (mmap_size ev - pagesize ev) = ?N" "?N dvd 2 ^ 64"
    using assms(1) by (auto simp: event_ok_def)
  have bs: "mmap_size ev - pagesize ev \<noteq> 0" using ev(2,3) by (metis less_not_refl unat_0)
  have pos: "?p < ?N" using ev(2) by simp
  have stop: "unat (data_head ev mod (mmap_size ev - pagesize ev)) = (?p + length (concat recs)) mod ?N"
    unfolding unat_mod ev(3) assms(5) by (rule mod_head[OF ev(4)])
  have tl: "unat (data_tail ev mod (mmap_size ev - pagesize ev)) = ?p" unfolding unat_mod ev(3) ..
  note run = consume_loop_ok[OF assms(2,4) pos assms(3) refl, of handler ctx 0]
  have "perf_event_consume_ring_buffer handler ctx ev =
      Some (ev\<lparr>data_tail := data_head ev\<rparr>, fold handler (delivered ?N ?p recs) ctx, length (delivered ?N ?p recs))"
  proof (cases "data_tail ev = data_head ev")
    case False
    with ev(1) bs run show ?thesis
      by (simp add: perf_event_consume_ring_buffer_def Let_def stop tl)
  next
    case True
    then have "(of_nat (length (concat recs)) :: u64) = 0" using assms(5) by simp
    moreover have "length (concat recs) < 2 ^ 64"
      using assms(3) ev(4) dvd_imp_le[of ?N "2 ^ 64"] by simp
    ultimately have "length (concat recs) = 0" using of_nat_inverse[of "length (concat recs)" "0 :: u64"] by simp
    then have "recs = []" using assms(2) by (cases recs) (auto simp: record_ok_def)
    with True ev(1) show ?thesis by (simp add: perf_event_consume_ring_buffer_def Let_def)
  qed
  then show ?thesis by (simp add: Let_def)
qed

text \<open>
  C22. Records written by the kernel are delivered: when the bytes between \<open>data_tail\<close> and
  \<open>data_head\<close> are a sequence of well-formed records shorter than the ring, the consumer returns,
  has passed every record to the handler once, whole and in order (also those that wrap around
  the end of the ring, apart from wrapped ones above the 4096 bytes of its buffer), returns
  their number and sets \<open>data_tail\<close> to \<open>data_head\<close>.
\<close>

theorem ring_delivery:
  assumes "event_ok ev" and "\<forall>r\<in>set recs. record_ok r" and "length (concat recs) < length (ring_data ev)"
    and "stored (ring_data ev) (unat (data_tail ev) mod length (ring_data ev)) (concat recs)"
    and "data_head ev = data_tail ev + of_nat (length (concat recs))"
  shows "let out = delivered (length (ring_data ev)) (unat (data_tail ev) mod length (ring_data ev)) recs in
    perf_event_consume_ring_buffer handler ctx ev =
      Some (ev\<lparr>data_tail := data_head ev\<rparr>, fold handler out ctx, length out) \<and>
    ((\<forall>r\<in>set recs. length r \<le> temp_buf_len) \<longrightarrow> out = recs)"
  using consume_ring_delivers[OF assms, of handler ctx] delivered_small[of recs] by (simp add: Let_def)

text \<open>
  A full ring: when the unread records fill the ring exactly, begin and end positions
  coincide and the consumer discards all of them without a call of the handler.
\<close>

theorem ring_full_discarded:
  assumes "event_ok ev" and "data_head ev = data_tail ev + of_nat (length (ring_data ev))"
    and "data_head ev \<noteq> data_tail ev"
  shows "perf_event_consume_ring_buffer handler ctx ev = Some (ev\<lparr>data_tail := data_head ev\<rparr>, ctx, 0)"
proof -
  let ?N = "length (ring_data ev)"
  have ev: "\<not> sint (pagesize ev) \<le> 0" "0 < ?N" "unat (mmap_size ev - pagesize ev) = ?N" "?N dvd 2 ^ 64"
    using assms(1) by (auto simp: event_ok_def)
  have bs: "mmap_size ev - pagesize ev \<noteq> 0" using ev(2,3) by (metis less_not_refl unat_0)
  have "unat (data_head ev mod (mmap_size ev - pagesize ev)) = unat (data_tail ev mod (mmap_size ev - pagesize ev))"
    unfolding unat_mod ev(3) assms(2) mod_head[OF ev(4)] by simp
  with ev(1) bs assms(3) show ?thesis
    by (simp add: perf_event_consume_ring_buffer_def Let_def consume_loop.simps)
qed

section \<open>Examples\<close>

definition example_record :: "u8 list" where
  "example_record = [9, 0, 0, 0, 0, 0, 12, 0, 21, 22, 23, 24]"

definition example_event :: perf_event_fd where
  "example_event = \<lparr>pagesize = 4096, mmap_size = 4112, data_head = 20, data_tail = 8,
     ring_data = [21, 22, 23, 24, 0, 0, 0, 0, 9, 0, 0, 0, 0, 0, 12, 0]\<rparr>"

lemma example_event_ok: "event_ok example_event" "event_ok (example_event\<lparr>data_head := 24\<rparr>)"
proof -
  have "length (ring_data example_event) = 16" by (simp add: example_event_def)
  then show "event_ok example_event" "event_ok (example_event\<lparr>data_head := 24\<rparr>)"
    by (simp_all add: event_ok_def) (simp_all add: example_event_def)
qed

theorem ring_delivery_witness:
  "let out = delivered 16 8 [example_record] in
    perf_event_consume_ring_buffer (\<lambda>r rs. rs @ [r]) [] example_event =
      Some (example_event\<lparr>data_tail := 20\<rparr>, fold (\<lambda>r rs. rs @ [r]) out [], length out) \<and>
    ((\<forall>r\<in>set [example_record]. length r \<le> temp_buf_len) \<longrightarrow> out = [example_record])"
proof -
  have st: "stored (ring_data example_event) (unat (data_tail example_event) mod length (ring_data example_event))
      (concat [example_record])" by code_simp
  have ok: "\<forall>r\<in>set [example_record]. record_ok r" by code_simp
  have "length (concat [example_record]) < length (ring_data example_event)"
      "data_head example_event = data_tail example_event + of_nat (length (concat [example_record]))"
    by (simp_all add: example_event_def example_record_def)
  from ring_delivery[OF example_event_ok(1) ok this(1) st this(2), of "\<lambda>r rs. rs @ [r]" "[]"]
  show ?thesis by (simp add: example_event_def)
qed

theorem ring_full_discarded_witness:
  "perf_event_consume_ring_buffer (\<lambda>r rs. rs @ [r]) [] (example_event\<lparr>data_head := 24\<rparr>) =
    Some (example_event\<lparr>data_head := 24, data_tail := 24\<rparr>, [], 0)"
  using ring_full_discarded[OF example_event_ok(2), of "\<lambda>r rs. rs @ [r]" "[]"] by (simp add: example_event_def)

end
