(* ===== verification/Samples.thy ===== *)
theory Samples
  imports Perf_Ring
begin

text \<open>
  Decoding a sample record (src/core/handler.c, parse_sample_data). A record is the list of its
  bytes, the header included; every read outside it and every store outside the caller's
  buffer of addresses is the value \<open>None\<close>.
\<close>

record callchain_result =
  cc_timestamp :: u64
  cc_pid :: u32
  cc_tid :: u32
  cc_ip :: u64
  cc_nr :: nat
  cc_ips :: "u64 list"

definition store_ip :: "u64 list \<Rightarrow> nat \<Rightarrow> u64 \<Rightarrow> u64 list option" where
  "store_ip ips i v = (if i < length ips then Some (ips[i := v]) else None)"

text \<open>The copy of the call chain, and the loop over the branch records (24 bytes each, \<open>from\<close> first).\<close>

fun copy_ips :: "u8 list \<Rightarrow> nat \<Rightarrow> nat \<Rightarrow> nat \<Rightarrow> u64 list \<Rightarrow> u64 list option" where
  "copy_ips hdr ptr 0 i ips = Some ips"
| "copy_ips hdr ptr (Suc n) i ips =
     do { w \<leftarrow> read_u64 hdr ptr; ips \<leftarrow> store_ip ips i w; copy_ips hdr (ptr + 8) n (i + 1) ips }"

fun copy_branches :: "u8 list \<Rightarrow> nat \<Rightarrow> nat \<Rightarrow> nat \<Rightarrow> u64 list \<Rightarrow> (nat \<times> u64 list) option" where
  "copy_branches hdr ptr 0 nr ips = Some (nr, ips)"
| "copy_branches hdr ptr (Suc n) nr ips =
     do { from_ip \<leftarrow> read_u64 hdr ptr;
          if from_ip \<noteq> 0 then do { ips \<leftarrow> store_ip ips nr from_ip; copy_branches hdr (ptr + 24) n (nr + 1) ips }
          else copy_branches hdr (ptr + 24) n nr ips }"

text \<open>How many entries are copied: what the record says, what its size allows, what the buffer holds.\<close>

definition count_to_copy :: "u64 \<Rightarrow> nat \<Rightarrow> nat \<Rightarrow> nat \<Rightarrow> nat" where
  "count_to_copy nr_from_data remaining_bytes entry_size max_ips =
     (let nr_from_size = remaining_bytes div entry_size;
          nr = (if unat nr_from_data < nr_from_size then unat nr_from_data else nr_from_size)
      in if nr < max_ips then nr else max_ips)"

definition parse_sample_data :: "bool \<Rightarrow> u8 list \<Rightarrow> callchain_result \<Rightarrow> nat \<Rightarrow> callchain_result option" where
  "parse_sample_data lbr hdr result max_ips =
     (let result = result\<lparr>cc_pid := 0, cc_tid := 0, cc_ip := 0, cc_nr := 0\<rparr>; end_ptr = hdr_size hdr in
      if 8 + 8 > end_ptr then Some result
      else do {
        ip \<leftarrow> read_u64 hdr 8;
        let result = result\<lparr>cc_ip := ip\<rparr> in
        if 16 + 8 > end_ptr then Some result
        else do {
          pid \<leftarrow> read_u32 hdr 16;
          tid \<leftarrow> read_u32 hdr (16 + 4);
          let result = result\<lparr>cc_pid := pid, cc_tid := tid\<rparr> in
          if 24 + 8 > end_ptr then Some result
          else do {
            ts \<leftarrow> read_u64 hdr 24;
            let result = result\<lparr>cc_timestamp := ts\<rparr> in
            if 32 + 8 > end_ptr then Some result
            else do {
              nr_from_data \<leftarrow> read_u64 hdr 32;
              if lbr then do {
                (nr, ips) \<leftarrow> copy_branches hdr 40 (count_to_copy nr_from_data (end_ptr - 40) 24 max_ips) 0 (cc_ips result);
                Some (result\<lparr>cc_nr := nr, cc_ips := ips\<rparr>) }
              else do {
                let n = count_to_copy nr_from_data (end_ptr - 40) 8 max_ips in
                do { ips \<leftarrow> copy_ips hdr 40 n 0 (cc_ips result);
                     Some (result\<lparr>cc_nr := n, cc_ips := ips\<rparr>) } } } } } })"

section \<open>Bounds\<close>

lemma read_u64_Some: "off + 8 \<le> length buf \<Longrightarrow> \<exists>w. read_u64 buf off = Some w"
  by (simp add: read_u64_def read_bytes_def)

lemma read_u32_Some: "off + 4 \<le> length buf \<Longrightarrow> \<exists>w. read_u32 buf off = Some w"
  by (simp add: read_u32_def read_bytes_def)

lemma count_to_copy_le: "count_to_copy nr rem sz m \<le> m" "count_to_copy nr rem sz m * sz \<le> rem"
proof -
  have c: "count_to_copy nr rem sz m \<le> rem div sz" "count_to_copy nr rem sz m \<le> m"
    by (auto simp: count_to_copy_def Let_def)
  then show "count_to_copy nr rem sz m \<le> m" by simp
  show "count_to_copy nr rem sz m * sz \<le> rem" using c(1) by (metis div_times_less_eq_dividend le_trans mult_le_mono1)
qed

lemma copy_ips_ok:
  "ptr + n * 8 \<le> length hdr \<Longrightarrow> i + n \<le> length ips \<Longrightarrow>
    \<exists>ips'. copy_ips hdr ptr n i ips = Some ips' \<and> length ips' = length ips"
proof (induction n arbitrary: ptr i ips)
  case (Suc n)
  from Suc.prems(1) obtain w where "read_u64 hdr ptr = Some w" using read_u64_Some[of ptr hdr] by auto
  with Suc.IH[of "ptr + 8" "i + 1" "ips[i := w]"] Suc.prems show ?case by (simp add: store_ip_def)
qed simp

lemma copy_branches_ok:
  "ptr + n * 24 \<le> length hdr \<Longrightarrow> nr + n \<le> length ips \<Longrightarrow>
    \<exists>nr' ips'. copy_branches hdr ptr n nr ips = Some (nr', ips') \<and> nr' \<le> nr + n \<and> length ips' = length ips"
proof (induction n arbitrary: ptr nr ips)
  case (Suc n)
  from Suc.prems(1) obtain w where w: "read_u64 hdr ptr = Some w" using read_u64_Some[of ptr hdr] by auto
  show ?case
  proof (cases "w = 0")
    case True
    with w Suc.IH[of "ptr + 24" nr ips] Suc.prems show ?thesis by fastforce
  next
    case False
    with w Suc.IH[of "ptr + 24" "nr + 1" "ips[nr := w]"] Suc.prems show ?thesis by (fastforce simp: store_ip_def)
  qed
qed simp

text \<open>
  C34. Decoding stays in bounds: for every record whose size field is its length, in both modes
  and for every claimed number of entries, \<open>parse_sample_data\<close> reads inside the record and
  writes inside the caller's buffer, and reports at most \<open>max_ips\<close> addresses.
\<close>

theorem sample_decoding_in_bounds:
  assumes "hdr_size hdr = length hdr" and "max_ips \<le> length (cc_ips result)"
  shows "\<exists>r. parse_sample_data lbr hdr result max_ips = Some r \<and> cc_nr r \<le> max_ips \<and>
    length (cc_ips r) = length (cc_ips result)"
proof (cases "40 \<le> length hdr")
  case False
  then show ?thesis
    using read_u64_Some[of 8 hdr] read_u32_Some[of 16 hdr] read_u32_Some[of 20 hdr] read_u64_Some[of 24 hdr]
    by (auto simp: parse_sample_data_def Let_def assms(1))
next
  case True
  obtain ip pid tid ts nr where r: "read_u64 hdr 8 = Some ip" "read_u32 hdr 16 = Some pid" "read_u32 hdr 20 = Some tid"
      "read_u64 hdr 24 = Some ts" "read_u64 hdr 32 = Some nr"
    using read_u64_Some[of 8 hdr] read_u32_Some[of 16 hdr] read_u32_Some[of 20 hdr] read_u64_Some[of 24 hdr]
      read_u64_Some[of 32 hdr] True by auto
  let ?k = "\<lambda>sz. count_to_copy nr (length hdr - 40) sz max_ips"
  have k: "40 + ?k sz * sz \<le> length hdr" "?k sz \<le> max_ips" for sz
    using count_to_copy_le[of nr "length hdr - 40" sz max_ips] True by auto
  show ?thesis
  proof (cases lbr)
    case l: True
    from copy_branches_ok[of 40 "?k 24" hdr 0 "cc_ips result"] k[of 24] assms(2) obtain n ips where
      "copy_branches hdr 40 (?k 24) 0 (cc_ips result) = Some (n, ips)" "n \<le> ?k 24" "length ips = length (cc_ips result)"
      by auto
    with l r True k(2)[of 24] show ?thesis by (simp add: parse_sample_data_def Let_def assms(1))
  next
    case l: False
    from copy_ips_ok[of 40 "?k 8" hdr 0 "cc_ips result"] k[of 8] assms(2) obtain ips where
      "copy_ips hdr 40 (?k 8) 0 (cc_ips result) = Some ips" "length ips = length (cc_ips result)" by auto
    with l r True k(2)[of 8] show ?thesis by (simp add: parse_sample_data_def Let_def assms(1))
  qed
qed

section \<open>What the kernel writes is read back\<close>

text \<open>
  A sample as the kernel lays it out for the attributes the profiler asks for: header, address,
  process and thread, time, the number of entries, the entries, and the user registers
  (\<open>extra\<close>). The entries are addresses or branch records.
\<close>

record perf_sample =
  s_misc :: u16
  s_ip :: u64
  s_pid :: u32
  s_tid :: u32
  s_time :: u64
  s_chain :: "u64 list"
  s_branches :: "(u64 \<times> u64 \<times> u64) list"
  s_extra :: "u8 list"

definition encode_words :: "u64 list \<Rightarrow> u8 list" where
  "encode_words ws = concat (map (\<lambda>w. le_bytes 8 (unat w)) ws)"

definition encode_branches :: "(u64 \<times> u64 \<times> u64) list \<Rightarrow> u8 list" where
  "encode_branches bs = concat (map (\<lambda>(f, t, x). encode_words [f, t, x]) bs)"

definition sample_entries :: "bool \<Rightarrow> perf_sample \<Rightarrow> nat \<times> u8 list" where
  "sample_entries lbr s =
     (if lbr then (length (s_branches s), encode_branches (s_branches s)) else (length (s_chain s), encode_words (s_chain s)))"

definition sample_size :: "bool \<Rightarrow> perf_sample \<Rightarrow> nat" where
  "sample_size lbr s = 40 + length (snd (sample_entries lbr s)) + length (s_extra s)"

definition encode_sample :: "bool \<Rightarrow> perf_sample \<Rightarrow> u8 list" where
  "encode_sample lbr s =
     le_bytes 4 9 @ le_bytes 2 (unat (s_misc s)) @ le_bytes 2 (sample_size lbr s) @
     le_bytes 8 (unat (s_ip s)) @ le_bytes 4 (unat (s_pid s)) @ le_bytes 4 (unat (s_tid s)) @
     le_bytes 8 (unat (s_time s)) @ le_bytes 8 (fst (sample_entries lbr s)) @
     snd (sample_entries lbr s) @ s_extra s"

text \<open>The addresses a sample stands for.\<close>

definition sample_ips :: "bool \<Rightarrow> perf_sample \<Rightarrow> nat \<Rightarrow> u64 list" where
  "sample_ips lbr s m =
     (if lbr then filter (\<lambda>a. a \<noteq> 0) (map fst (take m (s_branches s))) else take m (s_chain s))"

lemma length_encode_words [simp]: "length (encode_words ws) = length ws * 8"
  by (induction ws) (auto simp: encode_words_def)

lemma length_encode_branches [simp]: "length (encode_branches bs) = length bs * 24"
  by (induction bs) (auto simp: encode_branches_def)

lemma copy_ips_encode:
  "length pre = ptr \<Longrightarrow> i + n \<le> length ips \<Longrightarrow> n \<le> length ws \<Longrightarrow>
    copy_ips (pre @ encode_words ws @ post) ptr n i ips = Some (take i ips @ take n ws @ drop (i + n) ips)"
proof (induction n arbitrary: pre ptr i ips ws)
  case (Suc n)
  then obtain w ws' where ws: "ws = w # ws'" by (cases ws) auto
  have e: "pre @ encode_words ws @ post = pre @ le_bytes 8 (unat w) @ (encode_words ws' @ post)"
      "pre @ encode_words ws @ post = (pre @ le_bytes 8 (unat w)) @ encode_words ws' @ post"
    by (simp_all add: ws encode_words_def)
  have r: "read_u64 (pre @ encode_words ws @ post) ptr = Some w"
    unfolding e(1) by (rule read_u64_mid) (rule Suc.prems(1))
  have "copy_ips (pre @ encode_words ws @ post) (ptr + 8) n (i + 1) (ips[i := w]) =
      Some (take (i + 1) (ips[i := w]) @ take n ws' @ drop (i + 1 + n) (ips[i := w]))"
    unfolding e(2) using Suc.prems ws by (intro Suc.IH) auto
  moreover have "take (i + 1) (ips[i := w]) = take i ips @ [w]"
    using Suc.prems(2) by (simp add: take_Suc_conv_app_nth)
  ultimately show ?case using r Suc.prems(2) ws by (simp add: store_ip_def)
qed simp

lemma copy_branches_encode:
  "length pre = ptr \<Longrightarrow> nr + n \<le> length ips \<Longrightarrow> n \<le> length bs \<Longrightarrow>
    copy_branches (pre @ encode_branches bs @ post) ptr n nr ips =
      (let fs = filter (\<lambda>a. a \<noteq> 0) (map fst (take n bs))
       in Some (nr + length fs, take nr ips @ fs @ drop (nr + length fs) ips))"
proof (induction n arbitrary: pre ptr nr ips bs)
  case (Suc n)
  then obtain f t x bs' where bs: "bs = (f, t, x) # bs'" by (cases bs) auto
  have e: "pre @ encode_branches bs @ post = pre @ le_bytes 8 (unat f) @ (encode_words [t, x] @ encode_branches bs' @ post)"
      "pre @ encode_branches bs @ post = (pre @ encode_words [f, t, x]) @ encode_branches bs' @ post"
    by (simp_all add: bs encode_branches_def encode_words_def)
  have r: "read_u64 (pre @ encode_branches bs @ post) ptr = Some f"
    unfolding e(1) by (rule read_u64_mid) (rule Suc.prems(1))
  have IH: "copy_branches (pre @ encode_branches bs @ post) (ptr + 24) n nr' ips' =
      (let fs = filter (\<lambda>a. a \<noteq> 0) (map fst (take n bs'))
       in Some (nr' + length fs, take nr' ips' @ fs @ drop (nr' + length fs) ips'))"
    if "nr' + n \<le> length ips'" for nr' ips'
    unfolding e(2) using Suc.prems bs that by (intro Suc.IH) auto
  show ?case
  proof (cases "f = 0")
    case True
    with r IH[of nr ips] Suc.prems(2) bs show ?thesis by simp
  next
    case False
    have "take (nr + 1) (ips[nr := f]) = take nr ips @ [f]"
      using Suc.prems(2) by (simp add: take_Suc_conv_app_nth)
    with False r IH[of "nr + 1" "ips[nr := f]"] Suc.prems(2) bs show ?thesis by (simp add: store_ip_def Let_def)
  qed
qed simp

lemma count_to_copy_all:
  "0 < sz \<Longrightarrow> k < 2 ^ 64 \<Longrightarrow> count_to_copy (of_nat k) (k * sz + x) sz m = min k m"
proof -
  assume a: "0 < sz" "k < 2 ^ 64"
  then have "k \<le> (k * sz + x) div sz" by (simp add: div_add_self1 mult.commute)
  moreover have "unat (of_nat k :: u64) = k" using a(2) of_nat_inverse[of k "of_nat k :: u64"] by simp
  ultimately show ?thesis by (auto simp: count_to_copy_def Let_def)
qed

lemma encode_sample_record:
  assumes "sample_size lbr s < 2 ^ 16"
  shows "length (encode_sample lbr s) = sample_size lbr s" "hdr_size (encode_sample lbr s) = sample_size lbr s"
    "record_ok (encode_sample lbr s)"
proof -
  show l: "length (encode_sample lbr s) = sample_size lbr s" by (simp add: encode_sample_def sample_size_def)
  have "sample_size lbr s < 256 ^ 2" using assms by simp
  from le_nat_le_bytes[OF this] show h: "hdr_size (encode_sample lbr s) = sample_size lbr s"
    by (simp add: hdr_size_def encode_sample_def)
  show "record_ok (encode_sample lbr s)" using l h by (simp add: record_ok_def) (simp add: sample_size_def)
qed

text \<open>The fields of the fixed part, at their places.\<close>

lemma encode_sample_fields:
  shows "read_u64 (encode_sample lbr s) 8 = Some (s_ip s)"
    and "read_u32 (encode_sample lbr s) 16 = Some (s_pid s)"
    and "read_u32 (encode_sample lbr s) 20 = Some (s_tid s)"
    and "read_u64 (encode_sample lbr s) 24 = Some (s_time s)"
proof -
  let ?h = "le_bytes 4 9 @ le_bytes 2 (unat (s_misc s)) @ le_bytes 2 (sample_size lbr s)"
  let ?ip = "le_bytes 8 (unat (s_ip s))" and ?pid = "le_bytes 4 (unat (s_pid s))" and ?tid = "le_bytes 4 (unat (s_tid s))"
  show "read_u64 (encode_sample lbr s) 8 = Some (s_ip s)"
    using read_u64_mid[of ?h 8 "s_ip s"] by (simp add: encode_sample_def)
  show "read_u32 (encode_sample lbr s) 16 = Some (s_pid s)"
    using read_u32_mid[of "?h @ ?ip" 16 "s_pid s"] by (simp add: encode_sample_def)
  show "read_u32 (encode_sample lbr s) 20 = Some (s_tid s)"
    using read_u32_mid[of "?h @ ?ip @ ?pid" 20 "s_tid s"] by (simp add: encode_sample_def)
  show "read_u64 (encode_sample lbr s) 24 = Some (s_time s)"
    using read_u64_mid[of "?h @ ?ip @ ?pid @ ?tid" 24 "s_time s"] by (simp add: encode_sample_def)
qed

definition sample_prefix :: "bool \<Rightarrow> perf_sample \<Rightarrow> u8 list" where
  "sample_prefix lbr s = take 40 (encode_sample lbr s)"

lemma encode_sample_split:
  "length (sample_prefix lbr s) = 40"
  "encode_sample lbr s = sample_prefix lbr s @ snd (sample_entries lbr s) @ s_extra s"
  by (simp_all add: sample_prefix_def encode_sample_def sample_size_def)

lemma encode_sample_count:
  assumes "fst (sample_entries lbr s) < 2 ^ 64"
  shows "read_u64 (encode_sample lbr s) 32 = Some (of_nat (fst (sample_entries lbr s)))"
proof -
  let ?w = "of_nat (fst (sample_entries lbr s)) :: u64"
  have u: "unat ?w = fst (sample_entries lbr s)" using assms of_nat_inverse[of "fst (sample_entries lbr s)" ?w] by simp
  let ?pre = "le_bytes 4 9 @ le_bytes 2 (unat (s_misc s)) @ le_bytes 2 (sample_size lbr s) @ le_bytes 8 (unat (s_ip s)) @
    le_bytes 4 (unat (s_pid s)) @ le_bytes 4 (unat (s_tid s)) @ le_bytes 8 (unat (s_time s))"
  show ?thesis using read_u64_mid[of ?pre 32 ?w] by (simp add: encode_sample_def u)
qed

lemma parse_encode_sample:
  assumes "sample_size lbr s < 2 ^ 16" and "max_ips \<le> length (cc_ips result)"
  shows "parse_sample_data lbr (encode_sample lbr s) result max_ips =
    Some \<lparr>cc_timestamp = s_time s, cc_pid = s_pid s, cc_tid = s_tid s, cc_ip = s_ip s,
      cc_nr = length (sample_ips lbr s max_ips),
      cc_ips = sample_ips lbr s max_ips @ drop (length (sample_ips lbr s max_ips)) (cc_ips result)\<rparr>"
proof -
  let ?e = "encode_sample lbr s" and ?k = "fst (sample_entries lbr s)"
  have sz: "40 + length (snd (sample_entries lbr s)) + length (s_extra s) = sample_size lbr s" by (simp add: sample_size_def)
  have k: "?k < 2 ^ 64" using assms(1) sz by (simp add: sample_entries_def split: if_splits)
  note f = encode_sample_fields[of lbr s] encode_sample_count[OF k] encode_sample_record(2)[OF assms(1)]
  note sp = encode_sample_split[of lbr s]
  show ?thesis
  proof (cases lbr)
    case True
    have c: "count_to_copy (of_nat ?k) (sample_size lbr s - 40) 24 max_ips = min (length (s_branches s)) max_ips"
      using count_to_copy_all[of 24 ?k "length (s_extra s)" max_ips] k True by (simp add: sample_size_def sample_entries_def)
    have "copy_branches ?e 40 (min (length (s_branches s)) max_ips) 0 (cc_ips result) =
        Some (length (sample_ips lbr s max_ips),
          sample_ips lbr s max_ips @ drop (length (sample_ips lbr s max_ips)) (cc_ips result))"
      using copy_branches_encode[of "sample_prefix lbr s" 40 0 "min (length (s_branches s)) max_ips" "cc_ips result" "s_branches s" "s_extra s"]
        assms(2) True sp by (simp add: sample_entries_def sample_ips_def Let_def min_def)
    with True f c sz show ?thesis by (simp add: parse_sample_data_def Let_def)
  next
    case False
    have c: "count_to_copy (of_nat ?k) (sample_size lbr s - 40) 8 max_ips = min (length (s_chain s)) max_ips"
      using count_to_copy_all[of 8 ?k "length (s_extra s)" max_ips] k False by (simp add: sample_size_def sample_entries_def)
    have "copy_ips ?e 40 (min (length (s_chain s)) max_ips) 0 (cc_ips result) =
        Some (sample_ips lbr s max_ips @ drop (length (sample_ips lbr s max_ips)) (cc_ips result))"
      using copy_ips_encode[of "sample_prefix lbr s" 40 0 "min (length (s_chain s)) max_ips" "cc_ips result" "s_chain s" "s_extra s"]
        assms(2) False sp by (simp add: sample_entries_def sample_ips_def min_def)
    with False f c sz show ?thesis by (simp add: parse_sample_data_def Let_def sample_ips_def)
  qed
qed

text \<open>
  C32. Samples round trip: a sample that the kernel encodes, with a call chain or with branch
  records, is decoded to its address, process, thread and time and to the addresses of its
  entries, cut to the buffer; entries of a branch stack without a source are left out.
\<close>

theorem sample_roundtrip:
  assumes "sample_size lbr s < 2 ^ 16" and "max_ips \<le> length (cc_ips result)"
  shows "parse_sample_data lbr (encode_sample lbr s) result max_ips =
    Some \<lparr>cc_timestamp = s_time s, cc_pid = s_pid s, cc_tid = s_tid s, cc_ip = s_ip s,
      cc_nr = length (sample_ips lbr s max_ips),
      cc_ips = sample_ips lbr s max_ips @ drop (length (sample_ips lbr s max_ips)) (cc_ips result)\<rparr>"
  using assms by (rule parse_encode_sample)

definition example_sample :: perf_sample where
  "example_sample = \<lparr>s_misc = 2, s_ip = 0x401000, s_pid = 77, s_tid = 78, s_time = 5,
     s_chain = [0xFFFFFFFFFFFFFE00, 0x401000, 0x400800], s_branches = [], s_extra = [1, 2]\<rparr>"

theorem sample_roundtrip_witness:
  "parse_sample_data False (encode_sample False example_sample)
      \<lparr>cc_timestamp = 0, cc_pid = 0, cc_tid = 0, cc_ip = 0, cc_nr = 0, cc_ips = replicate 2 0\<rparr> 2 =
    Some \<lparr>cc_timestamp = 5, cc_pid = 77, cc_tid = 78, cc_ip = 0x401000, cc_nr = 2,
      cc_ips = [0xFFFFFFFFFFFFFE00, 0x401000]\<rparr>"
  using sample_roundtrip[of False example_sample 2
      "\<lparr>cc_timestamp = 0, cc_pid = 0, cc_tid = 0, cc_ip = 0, cc_nr = 0, cc_ips = replicate 2 0\<rparr>"]
  by (simp add: sample_size_def sample_entries_def sample_ips_def example_sample_def)

theorem sample_decoding_in_bounds_witness:
  "\<exists>r. parse_sample_data True example_record
      \<lparr>cc_timestamp = 0, cc_pid = 0, cc_tid = 0, cc_ip = 0, cc_nr = 0, cc_ips = [0]\<rparr> 1 = Some r \<and> cc_nr r \<le> 1 \<and>
    length (cc_ips r) = 1"
  using sample_decoding_in_bounds[of example_record 1
      "\<lparr>cc_timestamp = 0, cc_pid = 0, cc_tid = 0, cc_ip = 0, cc_nr = 0, cc_ips = [0]\<rparr>" True]
  by (simp add: example_record_def hdr_size_def)

end
