(* ===== verification/Sample_Path.thy ===== *)
theory Sample_Path
  imports Samples Mempool Concurrent_Queue
begin

text \<open>
  From the ring buffer to the symbolizer (src/core/main_loop.c, dispatch_sample_event): the
  callback that decodes a record, copies it into a chunk of the sample pool and hands the chunk
  to the queue. The contents of the chunks are a map from blocks to samples.
\<close>

abbreviation MAX_STACK_DEPTH_COPY :: nat where "MAX_STACK_DEPTH_COPY \<equiv> 128"
abbreviation PERF_RECORD_SAMPLE :: nat where "PERF_RECORD_SAMPLE \<equiv> 9"

record raw_sample =
  rs_timestamp :: u64
  rs_pid :: u32
  rs_tid :: u32
  rs_ip :: u64
  rs_nr :: nat
  rs_ips :: "u64 list"

record sample_path =
  path_heap :: c_heap
  sample_pool :: "mempool_s option"
  chunks :: "block \<Rightarrow> raw_sample"
  symbolizer_queue :: "block cqueue"

definition hdr_type :: "u8 list \<Rightarrow> nat" where
  "hdr_type hdr = le_nat (take 4 hdr)"

text \<open>
  The local variables \<open>result\<close> and \<open>ips_buffer\<close> are not initialized: \<open>locals\<close> is whatever they
  hold. \<open>None\<close> is a fault or a wait for room in the queue.
\<close>

definition dispatch_sample_event :: "bool \<Rightarrow> callchain_result \<Rightarrow> u8 list \<Rightarrow> sample_path \<Rightarrow> sample_path option" where
  "dispatch_sample_event lbr locals hdr ctx =
     (if hdr_type hdr = PERF_RECORD_SAMPLE then do {
        result \<leftarrow> parse_sample_data lbr hdr locals MAX_STACK_DEPTH_COPY;
        case mempool_alloc (path_heap ctx) (sample_pool ctx) of
          (h, mp, None) \<Rightarrow> Some (ctx\<lparr>path_heap := h, sample_pool := mp\<rparr>)
        | (h, mp, Some b) \<Rightarrow>
            (let nr = (if cc_nr result < MAX_STACK_DEPTH_COPY then cc_nr result else MAX_STACK_DEPTH_COPY);
                 sample = \<lparr>rs_timestamp = cc_timestamp result, rs_pid = cc_pid result, rs_tid = cc_tid result,
                   rs_ip = cc_ip result, rs_nr = nr,
                   rs_ips = take nr (cc_ips result) @ drop nr (rs_ips (chunks ctx b))\<rparr>
             in case queue_push (symbolizer_queue ctx) b of
                  Done q _ _ \<Rightarrow> Some (ctx\<lparr>path_heap := h, sample_pool := mp,
                    chunks := (chunks ctx)(b := sample), symbolizer_queue := q\<rparr>)
                | _ \<Rightarrow> None) }
      else Some ctx)"

section \<open>Every sample reaches the queue\<close>

text \<open>What a sample in a chunk says.\<close>

definition sample_view :: "raw_sample \<Rightarrow> u64 \<times> u32 \<times> u32 \<times> u64 \<times> u64 list" where
  "sample_view r = (rs_timestamp r, rs_pid r, rs_tid r, rs_ip r, take (rs_nr r) (rs_ips r))"

definition sample_expected :: "bool \<Rightarrow> perf_sample \<Rightarrow> u64 \<times> u32 \<times> u32 \<times> u64 \<times> u64 list" where
  "sample_expected lbr s = (s_time s, s_pid s, s_tid s, s_ip s, sample_ips lbr s MAX_STACK_DEPTH_COPY)"

text \<open>The pool and the queue are in order, memory is available, the queued chunks are handed out.\<close>

definition path_inv :: "(block \<Rightarrow> nat option) \<Rightarrow> nat \<Rightarrow> sample_path \<Rightarrow> block list \<Rightarrow> bool" where
  "path_inv base sz ctx out \<longleftrightarrow>
     (\<exists>mp. sample_pool ctx = Some mp \<and> pool_inv base sz (path_heap ctx) mp out) \<and>
     (\<forall>b. \<not> oom (path_heap ctx) b) \<and> queue_ok (symbolizer_queue ctx) \<and> \<not> shutdown (symbolizer_queue ctx) \<and>
     distinct (queue_contents (symbolizer_queue ctx)) \<and> set (queue_contents (symbolizer_queue ctx)) \<subseteq> set out"

definition queued :: "sample_path \<Rightarrow> (u64 \<times> u32 \<times> u32 \<times> u64 \<times> u64 list) list" where
  "queued ctx = map (sample_view \<circ> chunks ctx) (queue_contents (symbolizer_queue ctx))"

lemma sample_ips_length: "length (sample_ips lbr s m) \<le> m"
  by (auto simp: sample_ips_def intro: le_trans[OF length_filter_le])

lemma dispatch_sample_ok:
  assumes inv: "path_inv base sz ctx out" and room: "size (symbolizer_queue ctx) < capacity (symbolizer_queue ctx)"
    and s: "sample_size lbr s < 2 ^ 16" and loc: "length (cc_ips locals) = MAX_STACK_DEPTH_COPY"
  shows "\<exists>ctx' b. dispatch_sample_event lbr locals (encode_sample lbr s) ctx = Some ctx' \<and>
    path_inv base sz ctx' (b # out) \<and> queued ctx' = queued ctx @ [sample_expected lbr s] \<and>
    size (symbolizer_queue ctx') = size (symbolizer_queue ctx) + 1 \<and>
    capacity (symbolizer_queue ctx') = capacity (symbolizer_queue ctx)"
proof -
  let ?q = "symbolizer_queue ctx" and ?ips = "sample_ips lbr s MAX_STACK_DEPTH_COPY"
  have ty: "hdr_type (encode_sample lbr s) = PERF_RECORD_SAMPLE"
    using le_nat_le_bytes[of 9 4] by (simp add: hdr_type_def encode_sample_def)
  obtain mp where mp: "sample_pool ctx = Some mp" "pool_inv base sz (path_heap ctx) mp out"
    and om: "\<forall>b. \<not> oom (path_heap ctx) b" and q: "queue_ok ?q" "\<not> shutdown ?q" "set (queue_contents ?q) \<subseteq> set out"
      "distinct (queue_contents ?q)"
    using inv by (auto simp: path_inv_def)
  from mempool_alloc_oom[OF om, of mp] obtain h1 mp1 b where
    a: "mempool_alloc (path_heap ctx) (Some mp) = (h1, mp1, Some b)" "oom h1 = oom (path_heap ctx)" by blast
  from mempool_alloc_Some[OF mp(2) a(1)] obtain mp' where
    mp': "mp1 = Some mp'" "pool_inv base sz h1 mp' (b # out)" "b \<notin> set out" by blast
  from room q(1,2) obtain q' r w where push: "queue_push ?q b = Done q' r w" by (auto simp: queue_push_def Let_def)
  note pd = queue_push_done[OF q(1) push]
  have q': "queue_ok q'" "\<not> shutdown q'" "queue_contents q' = queue_contents ?q @ [b]" "size q' = size ?q + 1" "capacity q' = capacity ?q"
  proof -
    have "q' = queue_enq ?q b" using push q(2) room by (auto simp: queue_push_def queue_enq_def Let_def put_tail_def split: if_splits)
    with queue_enq_ok[OF q(1), of b] room q(2) show "queue_ok q'" "\<not> shutdown q'" "queue_contents q' = queue_contents ?q @ [b]"
        "size q' = size ?q + 1" "capacity q' = capacity ?q"
      by (auto simp: queue_enq_def put_tail_def)
  qed
  let ?s = "\<lparr>rs_timestamp = s_time s, rs_pid = s_pid s, rs_tid = s_tid s, rs_ip = s_ip s, rs_nr = length ?ips,
    rs_ips = ?ips @ drop (length ?ips) (rs_ips (chunks ctx b))\<rparr>"
  let ?ctx = "ctx\<lparr>path_heap := h1, sample_pool := mp1, chunks := (chunks ctx)(b := ?s), symbolizer_queue := q'\<rparr>"
  have nr: "length ?ips < MAX_STACK_DEPTH_COPY \<or> length ?ips = MAX_STACK_DEPTH_COPY"
    using sample_ips_length[of lbr s MAX_STACK_DEPTH_COPY] by auto
  have "dispatch_sample_event lbr locals (encode_sample lbr s) ctx = Some ?ctx"
    using ty parse_encode_sample[OF s, of MAX_STACK_DEPTH_COPY locals] loc a(1) mp(1) push nr
    by (elim disjE) (simp_all add: dispatch_sample_event_def Let_def)
  moreover have "path_inv base sz ?ctx (b # out)"
    using mp' a(2) om q' q(3,4) by (auto simp: path_inv_def)
  moreover have "queued ?ctx = queued ctx @ [sample_expected lbr s]"
  proof -
    have "((chunks ctx)(b := ?s)) x = chunks ctx x" if "x \<in> set (queue_contents ?q)" for x
      using that q(3) mp'(3) by auto
    then show ?thesis by (simp add: queued_def q'(3) sample_view_def sample_expected_def)
  qed
  ultimately show ?thesis using q'(4,5) by (intro exI[of _ ?ctx] exI[of _ b]) simp
qed

text \<open>The callback as the ring buffer loop calls it.\<close>

definition sample_handler :: "bool \<Rightarrow> callchain_result \<Rightarrow> u8 list \<Rightarrow> sample_path option \<Rightarrow> sample_path option" where
  "sample_handler lbr locals hdr ctx = Option.bind ctx (dispatch_sample_event lbr locals hdr)"

lemma dispatch_all:
  assumes "path_inv base sz ctx out" and "\<forall>s\<in>set ss. sample_size lbr s < 2 ^ 16"
    and "size (symbolizer_queue ctx) + length ss \<le> capacity (symbolizer_queue ctx)"
    and "length (cc_ips locals) = MAX_STACK_DEPTH_COPY"
  shows "\<exists>ctx' out'. fold (sample_handler lbr locals) (map (encode_sample lbr) ss) (Some ctx) = Some ctx' \<and>
    path_inv base sz ctx' out' \<and> queued ctx' = queued ctx @ map (sample_expected lbr) ss \<and>
    capacity (symbolizer_queue ctx') = capacity (symbolizer_queue ctx)"
  using assms
proof (induction ss arbitrary: ctx out)
  case (Cons s ss)
  then have "size (symbolizer_queue ctx) < capacity (symbolizer_queue ctx)" "sample_size lbr s < 2 ^ 16" by auto
  from dispatch_sample_ok[OF Cons.prems(1) this Cons.prems(4)] obtain ctx1 b where
    c: "dispatch_sample_event lbr locals (encode_sample lbr s) ctx = Some ctx1" "path_inv base sz ctx1 (b # out)"
      "queued ctx1 = queued ctx @ [sample_expected lbr s]"
      "size (symbolizer_queue ctx1) = size (symbolizer_queue ctx) + 1"
      "capacity (symbolizer_queue ctx1) = capacity (symbolizer_queue ctx)" by blast
  from Cons.IH[OF c(2)] Cons.prems c show ?case by (auto simp: sample_handler_def)
qed auto

text \<open>The callback blocks when the queue is full.\<close>

lemma dispatch_full:
  assumes inv: "path_inv base sz ctx out" and full: "\<not> size (symbolizer_queue ctx) < capacity (symbolizer_queue ctx)"
    and s: "sample_size lbr s < 2 ^ 16" and loc: "length (cc_ips locals) = MAX_STACK_DEPTH_COPY"
  shows "dispatch_sample_event lbr locals (encode_sample lbr s) ctx = None"
proof -
  have ty: "hdr_type (encode_sample lbr s) = PERF_RECORD_SAMPLE"
    using le_nat_le_bytes[of 9 4] by (simp add: hdr_type_def encode_sample_def)
  obtain mp where mp: "sample_pool ctx = Some mp" and om: "\<forall>b. \<not> oom (path_heap ctx) b"
    and q: "queue_ok (symbolizer_queue ctx)" "\<not> shutdown (symbolizer_queue ctx)" using inv by (auto simp: path_inv_def)
  from mempool_alloc_oom[OF om, of mp] obtain h mp1 b where "mempool_alloc (path_heap ctx) (Some mp) = (h, mp1, Some b)" by blast
  moreover have "queue_push (symbolizer_queue ctx) b = WaitOnFull"
    using q full by (auto simp: queue_push_def queue_ok_def)
  ultimately show ?thesis
    using ty parse_encode_sample[OF s, of MAX_STACK_DEPTH_COPY locals] loc mp by (simp add: dispatch_sample_event_def Let_def)
qed

lemma consume_samples_ok:
  assumes "event_ok ev" and "\<forall>s\<in>set ss. sample_size lbr s \<le> temp_buf_len"
    and "length (concat (map (encode_sample lbr) ss)) < length (ring_data ev)"
    and "stored (ring_data ev) (unat (data_tail ev) mod length (ring_data ev)) (concat (map (encode_sample lbr) ss))"
    and "data_head ev = data_tail ev + of_nat (length (concat (map (encode_sample lbr) ss)))"
    and "path_inv base sz ctx out"
    and "size (symbolizer_queue ctx) + length ss \<le> capacity (symbolizer_queue ctx)"
    and "length (cc_ips locals) = MAX_STACK_DEPTH_COPY"
  shows "\<exists>ctx' out'. perf_event_consume_ring_buffer (sample_handler lbr locals) (Some ctx) ev =
      Some (ev\<lparr>data_tail := data_head ev\<rparr>, Some ctx', length ss) \<and>
    path_inv base sz ctx' out' \<and> queued ctx' = queued ctx @ map (sample_expected lbr) ss \<and>
    capacity (symbolizer_queue ctx') = capacity (symbolizer_queue ctx)"
proof -
  let ?recs = "map (encode_sample lbr) ss"
  have sz: "\<forall>s\<in>set ss. sample_size lbr s < 2 ^ 16" using assms(2) by auto
  then have ok: "\<forall>r\<in>set ?recs. record_ok r" using encode_sample_record(3) by auto
  have small: "\<forall>r\<in>set ?recs. length r \<le> temp_buf_len" using sz assms(2) encode_sample_record(1) by auto
  from consume_ring_delivers[OF assms(1) ok assms(3-5), of "sample_handler lbr locals" "Some ctx"]
    delivered_small[OF small] dispatch_all[OF assms(6) sz assms(7,8)]
  show ?thesis by (auto simp: Let_def)
qed

text \<open>
  From the kernel to the symbolizer: when the unread part of the ring buffer holds encoded
  samples (each at most 4096 bytes), the queue has room for them and memory is available, one
  call of the consumer with the sample callback empties the ring buffer and appends to the
  queue, in order, one chunk per sample that holds the sample's time, process, thread, address
  and first 128 stack addresses; the samples already queued keep their contents.
\<close>

theorem samples_reach_queue:
  assumes "event_ok ev" and "\<forall>s\<in>set ss. sample_size lbr s \<le> temp_buf_len"
    and "length (concat (map (encode_sample lbr) ss)) < length (ring_data ev)"
    and "stored (ring_data ev) (unat (data_tail ev) mod length (ring_data ev)) (concat (map (encode_sample lbr) ss))"
    and "data_head ev = data_tail ev + of_nat (length (concat (map (encode_sample lbr) ss)))"
    and "path_inv base sz ctx out"
    and "size (symbolizer_queue ctx) + length ss \<le> capacity (symbolizer_queue ctx)"
    and "length (cc_ips locals) = MAX_STACK_DEPTH_COPY"
  shows "\<exists>ctx' out'. perf_event_consume_ring_buffer (sample_handler lbr locals) (Some ctx) ev =
      Some (ev\<lparr>data_tail := data_head ev\<rparr>, Some ctx', length ss) \<and>
    path_inv base sz ctx' out' \<and> queued ctx' = queued ctx @ map (sample_expected lbr) ss"
  using consume_samples_ok[OF assms] by blast

text \<open>A ring of 64 bytes with one sample, a pool of two chunks and an empty queue.\<close>

definition small_sample :: perf_sample where
  "small_sample = example_sample\<lparr>s_chain := [0x401000]\<rparr>"

definition small_event :: perf_event_fd where
  "small_event = \<lparr>pagesize = 4096, mmap_size = 4160, data_head = 50, data_tail = 0,
     ring_data = encode_sample False small_sample @ replicate 14 0\<rparr>"

definition small_path :: sample_path where
  "small_path = \<lparr>path_heap = fst two_chunks, sample_pool = Some (snd two_chunks),
     chunks = (\<lambda>_. \<lparr>rs_timestamp = 0, rs_pid = 0, rs_tid = 0, rs_ip = 0, rs_nr = 0, rs_ips = replicate 128 0\<rparr>),
     symbolizer_queue = fresh_queue 4\<rparr>"

lemma small_sample_size: "sample_size False small_sample = 50" "length (encode_sample False small_sample) = 50"
  by (simp_all add: sample_size_def sample_entries_def small_sample_def example_sample_def encode_sample_def)

lemma small_path_inv: "path_inv (live empty_heap) 64 small_path []"
  using mempool_create_inv[OF create_two_chunks heap_ok_empty] queue_ok_fresh[of 4]
  by (simp add: path_inv_def small_path_def fresh_queue_def queue_contents_def)
    (simp add: two_chunks_def)

theorem samples_reach_queue_witness:
  "\<exists>ctx' out'. perf_event_consume_ring_buffer
      (sample_handler False \<lparr>cc_timestamp = 0, cc_pid = 0, cc_tid = 0, cc_ip = 0, cc_nr = 0, cc_ips = replicate 128 0\<rparr>)
      (Some small_path) small_event = Some (small_event\<lparr>data_tail := 50\<rparr>, Some ctx', 1) \<and>
    path_inv (live empty_heap) 64 ctx' out' \<and> queued ctx' = queued small_path @ [sample_expected False small_sample]"
proof -
  note sz = small_sample_size
  have ev: "event_ok small_event" using sz by (simp add: event_ok_def small_event_def)
  have st: "stored (ring_data small_event) (unat (data_tail small_event) mod length (ring_data small_event))
      (concat (map (encode_sample False) [small_sample]))"
    using sz by (simp add: stored_def small_event_def nth_append)
  show ?thesis
    using samples_reach_queue[OF ev _ _ st _ small_path_inv, of
      "\<lparr>cc_timestamp = 0, cc_pid = 0, cc_tid = 0, cc_ip = 0, cc_nr = 0, cc_ips = replicate 128 0\<rparr>"] sz
    by (simp add: small_event_def small_path_def fresh_queue_def)
qed

end
