(* ===== verification/Kernel_Symbols.thy ===== *)
theory Kernel_Symbols
  imports Index_Memory C_Text
begin

text \<open>
  The kernel symbol table (src/core/kernel_symbol.c): loading /proc/kallsyms into a red-black
  tree ordered by address, the lookup of the symbol at or below an address, and freeing the
  table. The file is given as the lines \<open>getline\<close> returns (\<open>None\<close> when it cannot be opened);
  \<open>getline\<close>'s own buffer is allocated and freed by the library and left out. Proved: the table
  holds, for every address, the first text symbol the file gives for it; the lookup returns
  the symbol with the greatest address not above the one asked for; loading and freeing leave
  the heap as it was, whichever allocations fail.
\<close>

section \<open>Model\<close>

record kernel_symbol =
  address :: u64
  sym_type :: char
  name :: string
  sym_block :: block
  name_block :: block

definition symbol_turn :: "kernel_symbol \<Rightarrow> kernel_symbol \<Rightarrow> turn" where
  "symbol_turn new_symbol entry =
     (if address new_symbol < address entry then GoLeft
      else if address new_symbol > address entry then GoRight
      else Found)"

text \<open>\<open>None\<close> is the return value \<open>false\<close>: the address is taken.\<close>

definition insert_symbol :: "kernel_symbol rbt \<Rightarrow> kernel_symbol \<Rightarrow> kernel_symbol rbt option" where
  "insert_symbol root new_symbol = tree_insert (symbol_turn new_symbol) new_symbol root"

text \<open>\<open>sscanf(line, "%lx %c %255s", ...) == 3\<close>\<close>

definition parse_kallsyms_line :: "string \<Rightarrow> (u64 \<times> char \<times> string) option" where
  "parse_kallsyms_line line = do {
     (addr, s) \<leftarrow> scan_hex line;
     (type, s) \<leftarrow> scan_char (skip_space s);
     (nm, s) \<leftarrow> scan_word 255 s;
     Some (addr, type, nm) }"

definition text_symbol :: "string \<Rightarrow> (u64 \<times> char \<times> string) option" where
  "text_symbol line =
     (case parse_kallsyms_line line of
        None \<Rightarrow> None
      | Some (addr, type, nm) \<Rightarrow>
          if type = CHR ''t'' \<or> type = CHR ''T'' then Some (addr, type, nm) else None)"

text \<open>The body of the loop over the lines.\<close>

definition load_line :: "c_heap \<Rightarrow> kernel_symbol rbt \<Rightarrow> string \<Rightarrow> (c_heap \<times> kernel_symbol rbt) option" where
  "load_line h root line =
     (case text_symbol line of
        None \<Rightarrow> Some (h, root)
      | Some (addr, type, nm) \<Rightarrow>
          (case malloc h 48 of
             (h, None) \<Rightarrow> Some (h, root)
           | (h, Some sb) \<Rightarrow>
               (case malloc h (length nm + 1) of
                  (h, None) \<Rightarrow> do { h \<leftarrow> free_block h sb; Some (h, root) }
                | (h, Some nb) \<Rightarrow>
                    (case insert_symbol root \<lparr>address = addr, sym_type = type, name = nm,
                            sym_block = sb, name_block = nb\<rparr> of
                       Some root \<Rightarrow> Some (h, root)
                     | None \<Rightarrow> do { h \<leftarrow> free_block h nb; h \<leftarrow> free_block h sb; Some (h, root) }))))"

fun load_lines :: "c_heap \<Rightarrow> kernel_symbol rbt \<Rightarrow> string list \<Rightarrow> (c_heap \<times> kernel_symbol rbt) option" where
  "load_lines h root [] = Some (h, root)"
| "load_lines h root (line # lines) = do { (h, root) \<leftarrow> load_line h root line; load_lines h root lines }"

text \<open>The table is the block of the \<open>struct rb_root\<close> with the tree it heads.\<close>

definition load_kernel_symbols :: "c_heap \<Rightarrow> string list option \<Rightarrow>
    (c_heap \<times> (block \<times> kernel_symbol rbt) option) option" where
  "load_kernel_symbols h file =
     (case file of
        None \<Rightarrow> Some (h, None)
      | Some lines \<Rightarrow>
          (case malloc h 8 of
             (h, None) \<Rightarrow> Some (h, None)
           | (h, Some rb) \<Rightarrow> do { (h, root) \<leftarrow> load_lines h Leaf lines; Some (h, Some (rb, root)) }))"

definition find_kernel_symbol :: "kernel_symbol rbt option \<Rightarrow> u64 \<Rightarrow> string" where
  "find_kernel_symbol root addr =
     (case root of
        None \<Rightarrow> ''unknown_kernel_function''
      | Some Leaf \<Rightarrow> ''unknown_kernel_function''
      | Some t \<Rightarrow>
          (case tree_floor (\<lambda>s. addr \<ge> address s) t None of
             Some found_symbol \<Rightarrow> name found_symbol
           | None \<Rightarrow> ''unknown_kernel_function''))"

definition symbol_blocks :: "kernel_symbol \<Rightarrow> block list" where
  "symbol_blocks s = [name_block s, sym_block s]"

definition free_kernel_symbols :: "c_heap \<Rightarrow> (block \<times> kernel_symbol rbt) option \<Rightarrow> c_heap option" where
  "free_kernel_symbols h table =
     (case table of
        None \<Rightarrow> Some h
      | Some (rb, root) \<Rightarrow> do { h \<leftarrow> free_entries symbol_blocks h root; free_block h rb })"

section \<open>The index\<close>

interpretation ks: ordered_index address symbol_turn
  by unfold_locales (auto simp: symbol_turn_def split: if_splits)

interpretation kf: floor_search address "\<lambda>a s. a \<ge> address s"
  by unfold_locales simp

text \<open>An address is refused exactly when the table has it already.\<close>

lemma insert_symbol_None:
  assumes "indexed address t"
  shows "insert_symbol t s = None \<longleftrightarrow> address s \<in> address ` set (inorder t)"
proof -
  have so: "sorted (map address (inorder t))" using assms by (simp add: indexed_def)
  have "find_link (symbol_turn s) t k = None \<longleftrightarrow> address s \<in> address ` set (inorder t)"
    if "sorted (map address (inorder t))" for k
    using that
  proof (induction t arbitrary: k)
    case (Node c l a r)
    then have sub: "sorted (map address (inorder l))" "sorted (map address (inorder r))"
        "\<forall>x\<in>set (inorder l). address x \<le> address a" "\<forall>x\<in>set (inorder r). address a \<le> address x"
      by (auto simp: sorted_append)
    consider "address s < address a" | "address s = address a" | "address s > address a" by fastforce
    then show ?case
    proof cases
      case 1
      with sub(4) have "address s \<notin> address ` set (inorder r)" by force
      with 1 Node.IH(1)[OF sub(1)] show ?thesis by (auto simp: symbol_turn_def)
    next
      case 2
      then show ?thesis by (auto simp: symbol_turn_def)
    next
      case 3
      with sub(3) have "address s \<notin> address ` set (inorder l)" by force
      with 3 Node.IH(2)[OF sub(2)] show ?thesis by (auto simp: symbol_turn_def)
    qed
  qed simp
  with so show ?thesis by (simp add: insert_symbol_def tree_insert_def)
qed

definition table_ok :: "kernel_symbol rbt \<Rightarrow> bool" where
  "table_ok t \<longleftrightarrow> indexed address t \<and> distinct (map address (inorder t))"

lemma insert_symbol_ok:
  assumes "table_ok t" and "insert_symbol t s = Some t'"
  shows "table_ok t' \<and> mset (inorder t') = add_mset s (mset (inorder t)) \<and>
    address s \<notin> address ` set (inorder t)"
proof -
  have ix: "indexed address t" using assms(1) by (simp add: table_ok_def)
  have ins: "indexed address t'" "mset (inorder t') = add_mset s (mset (inorder t))"
    using ks.insert_ok[OF ix] assms(2) by (auto simp: insert_symbol_def)
  have new: "address s \<notin> address ` set (inorder t)"
    using insert_symbol_None[OF ix, of s] assms(2) by simp
  have "mset (map address (inorder t')) = mset (address s # map address (inorder t))"
    using ins(2) by (simp add: mset_map)
  then have "distinct (map address (inorder t'))"
    using new assms(1) by (metis distinct.simps(2) list.set_map mset_eq_imp_distinct_iff table_ok_def)
  with ins new show ?thesis by (simp add: table_ok_def)
qed

section \<open>Loading\<close>

definition table_blocks :: "kernel_symbol rbt \<Rightarrow> block list" where
  "table_blocks t = concat (map symbol_blocks (inorder t))"

lemma table_blocks_insert:
  "mset (inorder t') = add_mset s (mset (inorder t)) \<Longrightarrow>
    mset (table_blocks t') = mset (name_block s # sym_block s # table_blocks t)"
  by (drule blocks_add[of _ s _ symbol_blocks]) (simp add: table_blocks_def symbol_blocks_def)

text \<open>The data a symbol carries for its readers.\<close>

definition sym_data :: "kernel_symbol \<Rightarrow> u64 \<times> char \<times> string" where
  "sym_data s = (address s, sym_type s, name s)"

text \<open>
  One line: the heap stays in order, and the table gains the symbol of the line, or stays as
  it is because the line has none, its address is taken, or memory is short.
\<close>

lemma load_line_ok:
  assumes "owns base h (rb # table_blocks t)" and "table_ok t"
  shows "\<exists>h' t'. load_line h t line = Some (h', t') \<and> owns base h' (rb # table_blocks t') \<and>
    table_ok t' \<and> oom h' = oom h \<and>
    (t' = t \<and> (\<forall>a ty n. text_symbol line = Some (a, ty, n) \<longrightarrow>
        a \<in> address ` set (inorder t) \<or> (\<exists>b. oom h b)) \<or>
     (\<exists>s. text_symbol line = Some (sym_data s) \<and> address s \<notin> address ` set (inorder t) \<and>
        mset (inorder t') = add_mset s (mset (inorder t))))"
proof (cases "text_symbol line")
  case None
  with assms show ?thesis by (simp add: load_line_def)
next
  case (Some x)
  obtain a ty n where x: "x = (a, ty, n)" by (cases x)
  obtain h1 r1 where h1: "malloc h 48 = (h1, r1)" by (cases "malloc h 48")
  have oom1: "oom h1 = oom h" "r1 = None \<longrightarrow> (\<exists>b. oom h b)"
    using h1 by (auto simp: malloc_def split: if_splits)
  show ?thesis
  proof (cases r1)
    case None
    with assms Some x h1 oom1 owns_malloc_None[OF assms(1)] show ?thesis by (simp add: load_line_def)
  next
    case sb: (Some sb)
    have o1: "owns base h1 (sb # rb # table_blocks t)" using owns_malloc[OF assms(1)] h1 sb by simp
    obtain h2 r2 where h2: "malloc h1 (length n + 1) = (h2, r2)" by (cases "malloc h1 (length n + 1)")
    have oom2: "oom h2 = oom h" "r2 = None \<longrightarrow> (\<exists>b. oom h b)"
      using h2 oom1 by (auto simp: malloc_def split: if_splits)
    show ?thesis
    proof (cases r2)
      case None
      have "owns base h2 (sb # rb # table_blocks t)" using owns_malloc_None[OF o1] h2 None by simp
      then obtain h3 where h3: "free_block h2 sb = Some h3" "owns base h3 (rb # table_blocks t)"
        using owns_free_hd by blast
      then have "oom h3 = oom h" using oom2 by (auto simp: free_block_def split: if_splits)
      with None Some x h1 sb h2 h3 oom2 assms(2) show ?thesis by (simp add: load_line_def)
    next
      case nb: (Some nb)
      let ?s = "\<lparr>address = a, sym_type = ty, name = n, sym_block = sb, name_block = nb\<rparr>"
      have o2: "owns base h2 (nb # sb # rb # table_blocks t)" using owns_malloc[OF o1] h2 nb by simp
      show ?thesis
      proof (cases "insert_symbol t ?s")
        case None
        from owns_free_hd[OF o2] obtain h3 where h3: "free_block h2 nb = Some h3"
            "owns base h3 (sb # rb # table_blocks t)" by blast
        from owns_free_hd[OF h3(2)] obtain h4 where h4: "free_block h3 sb = Some h4"
            "owns base h4 (rb # table_blocks t)" by blast
        have "oom h4 = oom h" using h3 h4 oom2 by (auto simp: free_block_def split: if_splits)
        moreover have "a \<in> address ` set (inorder t)"
          using insert_symbol_None[of t ?s] None assms(2) by (simp add: table_ok_def)
        ultimately show ?thesis
          using None Some x h1 sb h2 nb h3 h4 assms(2) by (simp add: load_line_def)
      next
        case ins: (Some t')
        note io = insert_symbol_ok[OF assms(2) ins]
        have "mset (nb # sb # rb # table_blocks t) = mset (rb # table_blocks t')"
          using table_blocks_insert[of t' ?s t] io by simp
        then have "owns base h2 (rb # table_blocks t')" using owns_perm[OF o2] by blast
        moreover have "load_line h t line = Some (h2, t')"
          using Some x h1 sb h2 nb ins by (simp add: load_line_def)
        moreover have "text_symbol line = Some (sym_data ?s)" using Some x by (simp add: sym_data_def)
        ultimately show ?thesis
          using io oom2 by (intro exI[of _ h2] exI[of _ t'] conjI disjI2 exI[of _ ?s]) simp_all
      qed
    qed
  qed
qed

text \<open>
  What the table should hold: for every address the first text symbol of the file.
\<close>

definition note_symbol :: "(u64 \<rightharpoonup> char \<times> string) \<Rightarrow> string \<Rightarrow> (u64 \<rightharpoonup> char \<times> string)" where
  "note_symbol m line =
     (case text_symbol line of
        None \<Rightarrow> m
      | Some (a, ty, n) \<Rightarrow> if m a = None then m(a \<mapsto> (ty, n)) else m)"

definition first_symbols :: "string list \<Rightarrow> (u64 \<rightharpoonup> char \<times> string)" where
  "first_symbols lines = foldl note_symbol Map.empty lines"

definition table_map :: "kernel_symbol rbt \<Rightarrow> (u64 \<rightharpoonup> char \<times> string)" where
  "table_map t = map_of (map sym_data (inorder t))"

lemma table_map_Some:
  assumes "table_ok t"
  shows "table_map t a = Some (ty, n) \<longleftrightarrow> (\<exists>s\<in>set (inorder t). sym_data s = (a, ty, n))"
proof -
  have "map fst (map sym_data (inorder t)) = map address (inorder t)" by (simp add: sym_data_def comp_def)
  then have "distinct (map fst (map sym_data (inorder t)))" using assms unfolding table_ok_def by metis
  then show ?thesis unfolding table_map_def by (subst map_of_eq_Some_iff) (auto simp: image_iff eq_commute)
qed

lemma table_map_None: "table_map t a = None \<longleftrightarrow> a \<notin> address ` set (inorder t)"
  unfolding table_map_def map_of_eq_None_iff by (auto simp: sym_data_def image_image)

lemma table_map_insert:
  assumes "table_ok t" "table_ok t'" "mset (inorder t') = add_mset s (mset (inorder t))"
    and "address s \<notin> address ` set (inorder t)"
  shows "table_map t' = (table_map t)(address s \<mapsto> (sym_type s, name s))"
proof
  fix a
  have st: "set (inorder t') = insert s (set (inorder t))" using assms(3) by (metis set_mset_add_mset_insert set_mset_mset)
  show "table_map t' a = ((table_map t)(address s \<mapsto> (sym_type s, name s))) a"
  proof (cases "a = address s")
    case True
    with table_map_Some[OF assms(2), of a "sym_type s" "name s"] st show ?thesis
      by (auto simp: sym_data_def)
  next
    case False
    show ?thesis
    proof (cases "table_map t a")
      case None
      then have "table_map t' a = None" using False st by (auto simp: table_map_None)
      with None False show ?thesis by simp
    next
      case (Some v)
      obtain ty n where v: "v = (ty, n)" by (cases v)
      with Some table_map_Some[OF assms(1), of a ty n] have "\<exists>s\<in>set (inorder t). sym_data s = (a, ty, n)" by simp
      then have "table_map t' a = Some (ty, n)" using table_map_Some[OF assms(2), of a ty n] st by auto
      with Some v False show ?thesis by simp
    qed
  qed
qed

lemma load_lines_ok:
  assumes "owns base h (rb # table_blocks t)" and "table_ok t"
  shows "\<exists>h' t'. load_lines h t lines = Some (h', t') \<and> owns base h' (rb # table_blocks t') \<and>
    table_ok t' \<and> ((\<forall>b. \<not> oom h b) \<longrightarrow> table_map t' = foldl note_symbol (table_map t) lines)"
  using assms
proof (induction lines arbitrary: h t)
  case (Cons line lines)
  from load_line_ok[OF Cons.prems, of line] obtain h1 t1 where
    l: "load_line h t line = Some (h1, t1)" "owns base h1 (rb # table_blocks t1)" "table_ok t1" "oom h1 = oom h"
    and ch: "t1 = t \<and> (\<forall>a ty n. text_symbol line = Some (a, ty, n) \<longrightarrow>
        a \<in> address ` set (inorder t) \<or> (\<exists>b. oom h b)) \<or>
     (\<exists>s. text_symbol line = Some (sym_data s) \<and> address s \<notin> address ` set (inorder t) \<and>
        mset (inorder t1) = add_mset s (mset (inorder t)))" by blast
  have "table_map t1 = note_symbol (table_map t) line" if no: "\<forall>b. \<not> oom h b"
    using ch
  proof (elim disjE exE conjE)
    assume "t1 = t" "\<forall>a ty n. text_symbol line = Some (a, ty, n) \<longrightarrow>
        a \<in> address ` set (inorder t) \<or> (\<exists>b. oom h b)"
    with no show ?thesis
      using table_map_None[of t] by (auto simp: note_symbol_def split: option.splits)
  next
    fix s assume s: "text_symbol line = Some (sym_data s)" "address s \<notin> address ` set (inorder t)"
      "mset (inorder t1) = add_mset s (mset (inorder t))"
    then show ?thesis
      using table_map_insert[OF Cons.prems(2) l(3) s(3,2)] table_map_None[of t "address s"]
      by (simp add: note_symbol_def sym_data_def)
  qed
  with Cons.IH[OF l(2,3)] l show ?case by fastforce
qed simp

lemma load_kernel_symbols_ok:
  assumes "heap_ok h"
  shows "\<exists>h' r. load_kernel_symbols h file = Some (h', r) \<and>
    (case r of
       None \<Rightarrow> owns (live h) h' [] \<and> (file = None \<or> (\<exists>b. oom h b))
     | Some (rb, t) \<Rightarrow> owns (live h) h' (rb # table_blocks t) \<and> table_ok t \<and>
         (\<exists>lines. file = Some lines \<and> ((\<forall>b. \<not> oom h b) \<longrightarrow> table_map t = first_symbols lines)))"
proof (cases "file")
  case None
  with assms show ?thesis by (simp add: load_kernel_symbols_def owns_start)
next
  case (Some lines)
  obtain h1 r1 where h1: "malloc h 8 = (h1, r1)" by (cases "malloc h 8")
  show ?thesis
  proof (cases r1)
    case None
    with h1 have "\<exists>b. oom h b" by (auto simp: malloc_def split: if_splits)
    with None Some h1 owns_malloc_None[OF owns_start[OF assms]] show ?thesis
      by (simp add: load_kernel_symbols_def)
  next
    case rb: (Some rb)
    have "owns (live h) h1 (rb # table_blocks Leaf)"
      using owns_malloc[OF owns_start[OF assms]] h1 rb by (simp add: table_blocks_def)
    moreover have "table_ok Leaf" by (simp add: table_ok_def ks.index_Leaf)
    ultimately obtain h' t where l: "load_lines h1 Leaf lines = Some (h', t)"
        "owns (live h) h' (rb # table_blocks t)" "table_ok t"
        "(\<forall>b. \<not> oom h1 b) \<longrightarrow> table_map t = foldl note_symbol (table_map Leaf) lines"
      using load_lines_ok[of "live h" h1 rb Leaf lines] by blast
    moreover have "oom h1 = oom h" using h1 by (auto simp: malloc_def split: if_splits)
    moreover have "table_map Leaf = Map.empty" by (simp add: table_map_def)
    ultimately show ?thesis using Some h1 rb by (simp add: load_kernel_symbols_def first_symbols_def)
  qed
qed

section \<open>Properties\<close>

text \<open>
  C8. Kernel symbolization end to end: when memory suffices, the table loaded from the lines of
  /proc/kallsyms maps every address to the name of the text symbol with the greatest address
  not above it, the first one the file lists for that address; and to
  \<open>unknown_kernel_function\<close> when all text symbols lie above it.
\<close>
theorem kernel_lookup_correct:
  assumes "heap_ok h" and "\<forall>b. \<not> oom h b"
    and "load_kernel_symbols h (Some lines) = Some (h', r)"
  shows "find_kernel_symbol (map_option snd r) addr =
    (let A = {a \<in> dom (first_symbols lines). a \<le> addr} in
     if A = {} then ''unknown_kernel_function'' else snd (the (first_symbols lines (Max A))))"
proof -
  from load_kernel_symbols_ok[OF assms(1), of "Some lines"] assms(2,3) obtain rb t where
    r: "r = Some (rb, t)" and ok: "table_ok t" and m: "table_map t = first_symbols lines"
    by (auto split: option.splits)
  let ?f = "tree_floor (\<lambda>s. addr \<ge> address s) t None"
  have so: "sorted (map address (inorder t))" using ok by (simp add: table_ok_def indexed_def)
  have dom: "dom (first_symbols lines) = address ` set (inorder t)"
    using table_map_None[of t] m by (auto simp: dom_def)
  have unf: "find_kernel_symbol (map_option snd r) addr =
      (case ?f of Some x \<Rightarrow> name x | None \<Rightarrow> ''unknown_kernel_function'')"
    using r by (cases t) (simp_all add: find_kernel_symbol_def)
  show ?thesis
  proof (cases ?f)
    case None
    with kf.floor_None[OF so, of addr] dom have "{a \<in> dom (first_symbols lines). a \<le> addr} = {}"
      by (auto simp: not_le)
    with None unf show ?thesis by simp
  next
    case (Some e)
    note fl = kf.floor_Some[OF so Some]
    let ?A = "{a \<in> dom (first_symbols lines). a \<le> addr}"
    have "Max ?A = address e" using fl dom by (intro Max_eqI) auto
    moreover have "first_symbols lines (address e) = Some (sym_type e, name e)"
      using table_map_Some[OF ok, of "address e" "sym_type e" "name e"] fl m by (auto simp: sym_data_def)
    moreover have "?A \<noteq> {}" using fl dom by auto
    ultimately show ?thesis using Some unf unfolding Let_def by (metis (no_types, lifting) option.case(2) option.sel snd_conv)
  qed
qed

text \<open>
  Loading the kernel symbols and freeing them again leaves the heap as it was, with no leak
  and no invalid free, whichever of the allocations fail.
\<close>
theorem kernel_symbols_no_leak:
  assumes "heap_ok h"
  shows "\<exists>h' r h''. load_kernel_symbols h file = Some (h', r) \<and>
    free_kernel_symbols h' r = Some h'' \<and> live h'' = live h"
proof -
  from load_kernel_symbols_ok[OF assms, of "file"] obtain h' r where
    l: "load_kernel_symbols h file = Some (h', r)"
    and o: "case r of None \<Rightarrow> owns (live h) h' [] \<and> (file = None \<or> (\<exists>b. oom h b))
     | Some (rb, t) \<Rightarrow> owns (live h) h' (rb # table_blocks t) \<and> table_ok t \<and>
         (\<exists>lines. file = Some lines \<and> ((\<forall>b. \<not> oom h b) \<longrightarrow> table_map t = first_symbols lines))" by blast
  have "\<exists>h''. free_kernel_symbols h' r = Some h'' \<and> owns (live h) h'' []"
  proof (cases r)
    case None
    with o show ?thesis by (simp add: free_kernel_symbols_def)
  next
    case (Some p)
    obtain rb t where p: "p = (rb, t)" by (cases p)
    with o Some have "owns (live h) h' (rb # table_blocks t)" by simp
    then have "owns (live h) h' (table_blocks t @ [rb])" by (rule owns_perm) simp
    from owns_free_list[OF this] obtain h1 where h1: "free_list h' (table_blocks t) = Some h1"
        "owns (live h) h1 [rb]" by blast
    with owns_free_hd[OF h1(2)] Some p show ?thesis
      by (auto simp: free_kernel_symbols_def free_entries_list table_blocks_def)
  qed
  with l owns_empty show ?thesis by blast
qed

definition kallsyms_example :: "string list" where
  "kallsyms_example = [''ffff0010 T start'', ''ffff0020 t helper'', ''ffff0010 T alias'', ''ffff0030 D data'']"

lemma kallsyms_example_symbols:
  "first_symbols kallsyms_example = [0xffff0010 \<mapsto> (CHR ''T'', ''start''), 0xffff0020 \<mapsto> (CHR ''t'', ''helper'')]"
  by (simp add: first_symbols_def kallsyms_example_def note_symbol_def text_symbol_def parse_kallsyms_line_def
      scan_hex_def scan_sign_def scan_prefix_def skip_space_def c_isspace_def is_digit_def digit_value_def
      to_ulong_def scan_char_def scan_word_def Let_def)

theorem kernel_lookup_correct_witness:
  "\<exists>h' r. load_kernel_symbols empty_heap (Some kallsyms_example) = Some (h', r) \<and>
     find_kernel_symbol (map_option snd r) 0xffff0025 = ''helper'' \<and>
     find_kernel_symbol (map_option snd r) 0xffff0013 = ''start'' \<and>
     find_kernel_symbol (map_option snd r) 0x10 = ''unknown_kernel_function''"
proof -
  have no: "\<forall>b. \<not> oom empty_heap b" by (simp add: empty_heap_def)
  from load_kernel_symbols_ok[OF heap_ok_empty, of "Some kallsyms_example"] obtain h' r where
    l: "load_kernel_symbols empty_heap (Some kallsyms_example) = Some (h', r)" by blast
  have d: "dom (first_symbols kallsyms_example) = {0xffff0010, 0xffff0020}"
    by (auto simp: kallsyms_example_symbols)
  have a: "{a \<in> {0xffff0010, 0xffff0020}. a \<le> 0xffff0025} = {0xffff0010, 0xffff0020 :: u64}"
      "{a \<in> {0xffff0010, 0xffff0020}. a \<le> 0xffff0013} = {0xffff0010 :: u64}"
      "{a \<in> {0xffff0010, 0xffff0020}. a \<le> 0x10} = ({} :: u64 set)" by auto
  note lk = kernel_lookup_correct[OF heap_ok_empty no l, unfolded d]
  have "find_kernel_symbol (map_option snd r) 0xffff0025 = ''helper''"
    unfolding lk a by (simp add: kallsyms_example_symbols)
  moreover have "find_kernel_symbol (map_option snd r) 0xffff0013 = ''start''"
    unfolding lk a by (simp add: kallsyms_example_symbols)
  moreover have "find_kernel_symbol (map_option snd r) 0x10 = ''unknown_kernel_function''"
    unfolding lk a by simp
  ultimately show ?thesis using l by blast
qed

theorem kernel_symbols_no_leak_witness:
  "\<exists>h' r h''. load_kernel_symbols (empty_heap\<lparr>oom := (\<lambda>b. b = 3)\<rparr>) (Some kallsyms_example) = Some (h', r) \<and>
    free_kernel_symbols h' r = Some h'' \<and> live h'' = (\<lambda>_. None)"
  using kernel_symbols_no_leak[of "empty_heap\<lparr>oom := (\<lambda>b. b = 3)\<rparr>" "Some kallsyms_example"]
  by (auto simp: heap_ok_def empty_heap_def)

end
