(* ===== verification/Vma_Map.thy ===== *)
theory Vma_Map
  imports Index_Memory C_Text
begin

text \<open>
  The memory map of a process (src/elf/vma.c and \<open>find_vma_from_process\<close> of
  src/core/process.c): parsing /proc/<pid>/maps into a red-black tree of regions ordered by
  their start, the lookup of the region that holds an address, the translation of a run-time
  address to an offset in the mapped file, and freeing the tree. The file is given by its
  contents, which the loop reads with \<open>fgets\<close> into a buffer of 512 bytes.
\<close>

section \<open>Model\<close>

record virtual_memory_area =
  start_addr :: u64
  end_addr :: u64
  vm_flags :: u32
  file_offset :: u64
  mapping_name :: "string option"
  elf_file :: "string option"
  vma_block :: block
  name_blk :: "block option"

abbreviation READ :: u32 where "READ \<equiv> 1"
abbreviation WRITE :: u32 where "WRITE \<equiv> 2"
abbreviation EXECUTE :: u32 where "EXECUTE \<equiv> 4"

text \<open>
  \<open>sscanf(line, "%lx-%lx %4s %lx %*s %*d %255s", ...)\<close>: the fields converted before the first
  mismatch are stored, the others keep the zeros they were initialised with.
\<close>

record maps_fields =
  mf_start :: u64
  mf_end :: u64
  mf_perm :: string
  mf_offset :: u64
  mf_name :: string

definition no_fields :: maps_fields where
  "no_fields = \<lparr>mf_start = 0, mf_end = 0, mf_perm = [], mf_offset = 0, mf_name = []\<rparr>"

definition scan_maps_line :: "string \<Rightarrow> maps_fields" where
  "scan_maps_line line =
     (case scan_hex line of None \<Rightarrow> no_fields | Some (a, s) \<Rightarrow>
      (let f = no_fields\<lparr>mf_start := a\<rparr> in
      case scan_literal CHR ''-'' s of None \<Rightarrow> f | Some s \<Rightarrow>
     (case scan_hex s of None \<Rightarrow> f | Some (b, s) \<Rightarrow>
      (let f = f\<lparr>mf_end := b\<rparr> in
      case scan_word 4 s of None \<Rightarrow> f | Some (p, s) \<Rightarrow>
      (let f = f\<lparr>mf_perm := p\<rparr> in
      case scan_hex s of None \<Rightarrow> f | Some (off, s) \<Rightarrow>
      (let f = f\<lparr>mf_offset := off\<rparr> in
      case skip_word s of None \<Rightarrow> f | Some s \<Rightarrow>
     (case skip_decimal s of None \<Rightarrow> f | Some s \<Rightarrow>
     (case scan_word 255 s of None \<Rightarrow> f | Some (nm, s) \<Rightarrow> f\<lparr>mf_name := nm\<rparr>))))))))"

text \<open>\<open>perm\<close> is a zeroed array of five characters; reading past the scanned ones gives NUL.\<close>

definition perm_flags :: "string \<Rightarrow> u32" where
  "perm_flags perm =
     (let at = (\<lambda>i. if i < length perm then Some (perm ! i) else None) in
      (if at 0 = Some CHR ''r'' then READ else 0) OR
      (if at 1 = Some CHR ''w'' then WRITE else 0) OR
      (if at 2 = Some CHR ''x'' then EXECUTE else 0))"

definition vma_turn :: "virtual_memory_area \<Rightarrow> virtual_memory_area \<Rightarrow> turn" where
  "vma_turn vma self = (if start_addr vma < start_addr self then GoLeft else GoRight)"

definition insert_vma :: "virtual_memory_area rbt \<Rightarrow> virtual_memory_area \<Rightarrow> virtual_memory_area rbt" where
  "insert_vma t vma = (case tree_insert (vma_turn vma) vma t of Some t' \<Rightarrow> t' | None \<Rightarrow> t)"

text \<open>One line: \<open>None\<close> when \<open>calloc\<close> fails and the function gives up.\<close>

definition parse_maps_line :: "c_heap \<Rightarrow> virtual_memory_area rbt \<Rightarrow> string \<Rightarrow>
    c_heap \<times> virtual_memory_area rbt option" where
  "parse_maps_line h t line =
     (case malloc h 72 of
        (h, None) \<Rightarrow> (h, None)
      | (h, Some vb) \<Rightarrow>
          (let f = scan_maps_line line in
           case (if mf_name f \<noteq> [] then malloc h (length (mf_name f) + 1) else (h, None)) of
             (h, nb) \<Rightarrow>
               (h, Some (insert_vma t
                 \<lparr>start_addr = mf_start f, end_addr = mf_end f, vm_flags = perm_flags (mf_perm f),
                  file_offset = mf_offset f,
                  mapping_name = (case nb of None \<Rightarrow> None | Some b \<Rightarrow> Some (mf_name f)),
                  elf_file = None, vma_block = vb, name_blk = nb\<rparr>))))"

text \<open>The result code is 0 for success and 1 for failure; a failure leaves the regions read so far.\<close>

fun parse_maps_loop :: "c_heap \<Rightarrow> virtual_memory_area rbt \<Rightarrow> string list \<Rightarrow>
    c_heap \<times> virtual_memory_area rbt \<times> int" where
  "parse_maps_loop h t [] = (h, t, 0)"
| "parse_maps_loop h t (line # lines) =
     (case parse_maps_line h t line of
        (h, None) \<Rightarrow> (h, t, 1)
      | (h, Some t) \<Rightarrow> parse_maps_loop h t lines)"

definition parse_process_memory_maps :: "c_heap \<Rightarrow> virtual_memory_area rbt \<Rightarrow> string option \<Rightarrow>
    c_heap \<times> virtual_memory_area rbt \<times> int" where
  "parse_process_memory_maps h tree file =
     (case file of
        None \<Rightarrow> (h, tree, 1)
      | Some contents \<Rightarrow> parse_maps_loop h Leaf (fgets_all 511 contents))"

definition vma_look :: "u64 \<Rightarrow> virtual_memory_area \<Rightarrow> turn" where
  "vma_look real_addr vma =
     (if real_addr < start_addr vma then GoLeft
      else if real_addr \<ge> end_addr vma then GoRight
      else Found)"

text \<open>The process is given by its tree; \<open>None\<close> is a NULL process.\<close>

definition find_vma_from_process :: "virtual_memory_area rbt option \<Rightarrow> u64 \<Rightarrow> virtual_memory_area option" where
  "find_vma_from_process proc real_addr =
     (case proc of None \<Rightarrow> None | Some t \<Rightarrow> tree_search (vma_look real_addr) t)"

definition get_relative_address :: "u64 \<Rightarrow> virtual_memory_area option \<Rightarrow> u64" where
  "get_relative_address real_addr vma =
     (case vma of
        None \<Rightarrow> 0
      | Some v \<Rightarrow>
          if real_addr < start_addr v \<or> real_addr \<ge> end_addr v then 0
          else real_addr - start_addr v + file_offset v)"

definition vma_blocks :: "virtual_memory_area \<Rightarrow> block list" where
  "vma_blocks v = (case name_blk v of None \<Rightarrow> [] | Some b \<Rightarrow> [b]) @ [vma_block v]"

text \<open>Children first, then the name (freeing NULL does nothing) and the node.\<close>

fun free_vma_nodes :: "c_heap \<Rightarrow> virtual_memory_area rbt \<Rightarrow> c_heap option" where
  "free_vma_nodes h Leaf = Some h"
| "free_vma_nodes h (Node c l v r) =
     do { h \<leftarrow> free_vma_nodes h l; h \<leftarrow> free_vma_nodes h r; free_list h (vma_blocks v) }"

text \<open>The root is reset after the NULL test, so a NULL root is a fault.\<close>

definition free_vma_tree :: "c_heap \<Rightarrow> virtual_memory_area rbt option \<Rightarrow>
    (c_heap \<times> virtual_memory_area rbt) option" where
  "free_vma_tree h root =
     (case root of
        None \<Rightarrow> None
      | Some t \<Rightarrow> do { h \<leftarrow> free_vma_nodes h t; Some (h, Leaf) })"

section \<open>The index\<close>

interpretation vi: ordered_index start_addr vma_turn
  by unfold_locales (auto simp: vma_turn_def split: if_splits)

interpretation vs: interval_search start_addr end_addr vma_look
  by unfold_locales (auto simp: vma_look_def)

lemma vma_turn_total: "find_link (vma_turn v) t k \<noteq> None"
  by (induction t arbitrary: k) (auto simp: vma_turn_def)

lemma insert_vma_ok:
  assumes "indexed start_addr t"
  shows "indexed start_addr (insert_vma t v) \<and> mset (inorder (insert_vma t v)) = add_mset v (mset (inorder t))"
proof -
  obtain t' where "tree_insert (vma_turn v) v t = Some t'"
    using vma_turn_total[of v t "[]"] by (auto simp: tree_insert_def)
  with vi.insert_ok[OF assms this] show ?thesis by (simp add: insert_vma_def)
qed

text \<open>A region that starts at or above all others goes to the end.\<close>

lemma insert_vma_last:
  assumes "\<forall>u\<in>set (inorder t). start_addr u \<le> start_addr v"
  shows "inorder (insert_vma t v) = inorder t @ [v]"
proof -
  have "\<exists>k'. find_link (vma_turn v) t k = Some k' \<and> after k' = after k" for k
    using assms by (induction t arbitrary: k) (simp, fastforce simp: vma_turn_def)
  then obtain k where k: "find_link (vma_turn v) t [] = Some k" "after k = []" by fastforce
  with find_link_inorder[OF k(1)] show ?thesis
    by (simp add: insert_vma_def tree_insert_def inorder_link_color)
qed

section \<open>Memory\<close>

definition tree_blocks :: "virtual_memory_area rbt \<Rightarrow> block list" where
  "tree_blocks t = concat (map vma_blocks (inorder t))"

lemma free_vma_nodes_ok:
  "owns base h (tree_blocks t @ bs) \<Longrightarrow> \<exists>h'. free_vma_nodes h t = Some h' \<and> owns base h' bs"
proof (induction t arbitrary: h bs)
  case Leaf
  then show ?case by (simp add: tree_blocks_def)
next
  case (Node c l v r)
  have "owns base h (tree_blocks l @ (vma_blocks v @ tree_blocks r @ bs))"
    using Node.prems by (simp add: tree_blocks_def)
  from Node.IH(1)[OF this] obtain h1 where h1: "free_vma_nodes h l = Some h1"
      "owns base h1 (vma_blocks v @ tree_blocks r @ bs)" by blast
  have "owns base h1 (tree_blocks r @ (vma_blocks v @ bs))"
    by (rule owns_perm[OF h1(2)]) simp
  from Node.IH(2)[OF this] obtain h2 where h2: "free_vma_nodes h1 r = Some h2"
      "owns base h2 (vma_blocks v @ bs)" by blast
  with owns_free_list[OF h2(2)] h1 show ?case by simp
qed

lemma tree_blocks_insert:
  "mset (inorder t') = add_mset v (mset (inorder t)) \<Longrightarrow>
    mset (tree_blocks t') = mset (vma_blocks v @ tree_blocks t)"
  unfolding tree_blocks_def by (rule blocks_add)

text \<open>The data of a region as a reader sees it, and as a line of the file gives it.\<close>

definition vma_data :: "virtual_memory_area \<Rightarrow> u64 \<times> u64 \<times> u32 \<times> u64 \<times> string option" where
  "vma_data v = (start_addr v, end_addr v, vm_flags v, file_offset v, mapping_name v)"

definition line_data :: "string \<Rightarrow> u64 \<times> u64 \<times> u32 \<times> u64 \<times> string option" where
  "line_data line = (let f = scan_maps_line line in
     (mf_start f, mf_end f, perm_flags (mf_perm f), mf_offset f,
      if mf_name f = [] then None else Some (mf_name f)))"

lemma parse_maps_line_ok:
  assumes "owns base h (tree_blocks t @ bs)" and "indexed start_addr t"
  shows "\<exists>h' r. parse_maps_line h t line = (h', r) \<and> oom h' = oom h \<and>
    (case r of
       None \<Rightarrow> owns base h' (tree_blocks t @ bs) \<and> (\<exists>b. oom h b)
     | Some t' \<Rightarrow> owns base h' (tree_blocks t' @ bs) \<and> indexed start_addr t' \<and>
         (\<exists>v. t' = insert_vma t v \<and> ((\<forall>b. \<not> oom h b) \<longrightarrow> vma_data v = line_data line)))"
proof -
  obtain h1 r1 where h1: "malloc h 72 = (h1, r1)" by (cases "malloc h 72")
  have oom1: "oom h1 = oom h" "r1 = None \<longrightarrow> (\<exists>b. oom h b)"
    using h1 by (auto simp: malloc_def split: if_splits)
  show ?thesis
  proof (cases r1)
    case None
    with h1 oom1 owns_malloc_None[OF assms(1)] show ?thesis by (simp add: parse_maps_line_def)
  next
    case (Some vb)
    have o1: "owns base h1 (vb # tree_blocks t @ bs)" using owns_malloc[OF assms(1)] h1 Some by simp
    let ?f = "scan_maps_line line"
    obtain h2 nb where h2: "(if mf_name ?f \<noteq> [] then malloc h1 (length (mf_name ?f) + 1) else (h1, None)) = (h2, nb)"
      by (cases "if mf_name ?f \<noteq> [] then malloc h1 (length (mf_name ?f) + 1) else (h1, None)")
    let ?v = "\<lparr>start_addr = mf_start ?f, end_addr = mf_end ?f, vm_flags = perm_flags (mf_perm ?f),
                  file_offset = mf_offset ?f,
                  mapping_name = (case nb of None \<Rightarrow> None | Some b \<Rightarrow> Some (mf_name ?f)),
                  elf_file = None, vma_block = vb, name_blk = nb\<rparr>"
    have oom2: "oom h2 = oom h" "mf_name ?f \<noteq> [] \<and> nb = None \<longrightarrow> (\<exists>b. oom h b)" "mf_name ?f = [] \<longrightarrow> nb = None"
      using h2 oom1(1) by (auto simp: malloc_def split: if_splits)
    have o2: "owns base h2 ((case nb of None \<Rightarrow> [] | Some b \<Rightarrow> [b]) @ vb # tree_blocks t @ bs)"
      using h2 o1 owns_malloc[OF o1] owns_malloc_None[OF o1] by (cases nb) (auto split: if_splits)
    note iv = insert_vma_ok[OF assms(2), of ?v]
    have "owns base h2 (tree_blocks (insert_vma t ?v) @ bs)"
      by (rule owns_perm[OF o2]) (use tree_blocks_insert[of "insert_vma t ?v" ?v t] iv in \<open>simp add: vma_blocks_def\<close>)
    moreover have "(\<forall>b. \<not> oom h b) \<longrightarrow> vma_data ?v = line_data line"
      using oom2 by (cases nb) (auto simp: vma_data_def line_data_def Let_def)
    moreover have "parse_maps_line h t line = (h2, Some (insert_vma t ?v))"
      using h1 Some h2 by (simp add: parse_maps_line_def Let_def)
    ultimately show ?thesis using iv oom2(1) by (intro exI[of _ h2] exI[of _ "Some (insert_vma t ?v)"]) auto
  qed
qed

lemma parse_maps_loop_ok:
  assumes "owns base h (tree_blocks t @ bs)" and "indexed start_addr t"
  shows "\<exists>h' t' rc. parse_maps_loop h t lines = (h', t', rc) \<and> owns base h' (tree_blocks t' @ bs) \<and>
    indexed start_addr t' \<and> oom h' = oom h \<and> ((\<forall>b. \<not> oom h b) \<longrightarrow> rc = 0)"
  using assms
proof (induction lines arbitrary: h t)
  case (Cons line lines)
  from parse_maps_line_ok[OF Cons.prems, of line] obtain h1 r where
    p: "parse_maps_line h t line = (h1, r)" "oom h1 = oom h"
    and c: "case r of
       None \<Rightarrow> owns base h1 (tree_blocks t @ bs) \<and> (\<exists>b. oom h b)
     | Some t' \<Rightarrow> owns base h1 (tree_blocks t' @ bs) \<and> indexed start_addr t' \<and>
         (\<exists>v. t' = insert_vma t v \<and> ((\<forall>b. \<not> oom h b) \<longrightarrow> vma_data v = line_data line))" by blast
  show ?case
  proof (cases r)
    case None
    with p c Cons.prems(2) show ?thesis by auto
  next
    case (Some t1)
    with p c Cons.IH[of h1 t1] show ?thesis by auto
  qed
qed simp

text \<open>
  Lines in the order of their start addresses, as the kernel writes them: the tree holds the
  regions of the lines, in that order.
\<close>

lemma parse_maps_loop_data:
  assumes "owns base h (tree_blocks t @ bs)" and "indexed start_addr t" and "\<forall>b. \<not> oom h b"
    and "sorted (map start_addr (inorder t) @ map (fst \<circ> line_data) lines)"
  shows "\<exists>h' t'. parse_maps_loop h t lines = (h', t', 0) \<and>
    map vma_data (inorder t') = map vma_data (inorder t) @ map line_data lines"
  using assms
proof (induction lines arbitrary: h t)
  case (Cons line lines)
  from parse_maps_line_ok[OF Cons.prems(1,2), of line] Cons.prems(3) obtain h1 v where
    p: "parse_maps_line h t line = (h1, Some (insert_vma t v))" "oom h1 = oom h"
      "owns base h1 (tree_blocks (insert_vma t v) @ bs)" "indexed start_addr (insert_vma t v)"
      "vma_data v = line_data line"
    by (auto split: option.splits)
  have st: "start_addr v = fst (line_data line)" using p(5) by (simp add: vma_data_def prod_eq_iff)
  have "\<forall>u\<in>set (inorder t). start_addr u \<le> start_addr v"
    using Cons.prems(4) st by (auto simp: sorted_append)
  then have io: "inorder (insert_vma t v) = inorder t @ [v]" by (rule insert_vma_last)
  have "sorted (map start_addr (inorder (insert_vma t v)) @ map (fst \<circ> line_data) lines)"
    using Cons.prems(4) io st by (simp add: comp_def)
  from Cons.IH[OF p(3,4) _ this] p io Cons.prems(3) show ?case by simp
qed simp

section \<open>Properties\<close>

text \<open>The regions are ascending and do not overlap, as /proc/<pid>/maps lists them.\<close>

definition regions_apart :: "(u64 \<times> u64 \<times> u32 \<times> u64 \<times> string option) list \<Rightarrow> bool" where
  "regions_apart ds = sorted_wrt (\<lambda>x y. fst x \<le> fst y \<and> fst (snd x) \<le> fst y) ds"

definition region_of :: "u64 \<Rightarrow> (u64 \<times> u64 \<times> u32 \<times> u64 \<times> string option) list \<Rightarrow>
    (u64 \<times> u64 \<times> u32 \<times> u64 \<times> string option) option" where
  "region_of a ds = find (\<lambda>d. fst d \<le> a \<and> a < fst (snd d)) ds"

lemma regions_apart_unique:
  assumes "regions_apart ds" "d \<in> set ds" "fst d \<le> a" "a < fst (snd d)"
  shows "region_of a ds = Some d"
  using assms
proof (induction ds)
  case (Cons x ds)
  show ?case
  proof (cases "d = x")
    case True
    with Cons.prems show ?thesis by (simp add: region_of_def)
  next
    case False
    with Cons.prems have "d \<in> set ds" "fst (snd x) \<le> fst d" by (auto simp: regions_apart_def)
    with Cons.prems Cons.IH show ?thesis by (auto simp: region_of_def regions_apart_def)
  qed
qed simp

text \<open>
  C9. Resolving an address of a process: after parsing a memory map whose regions are ascending
  and disjoint, \<open>find_vma_from_process\<close> finds the region of the file that holds the address,
  whichever it is, and none when there is none; and \<open>get_relative_address\<close> then gives the
  offset in the mapped file.
\<close>
theorem vma_resolution:
  assumes "heap_ok h" and "\<forall>b. \<not> oom h b"
    and "regions_apart (map line_data (fgets_all 511 contents))"
  shows "\<exists>h' t. parse_process_memory_maps h tree (Some contents) = (h', t, 0) \<and>
    (\<forall>a. map_option vma_data (find_vma_from_process (Some t) a) =
           region_of a (map line_data (fgets_all 511 contents)) \<and>
         get_relative_address a (find_vma_from_process (Some t) a) =
           (case region_of a (map line_data (fgets_all 511 contents)) of
              None \<Rightarrow> 0 | Some (s, e, fl, off, nm) \<Rightarrow> a - s + off))"
proof -
  let ?ds = "map line_data (fgets_all 511 contents)"
  have ow: "owns (live h) h (tree_blocks Leaf @ [])" using owns_start[OF assms(1)] by (simp add: tree_blocks_def)
  have "sorted_wrt (\<lambda>x y. fst x \<le> fst y) ?ds"
    using assms(3) unfolding regions_apart_def by (rule sorted_wrt_mono_rel[rotated]) simp
  then have "sorted (map start_addr (inorder Leaf) @ map (fst \<circ> line_data) (fgets_all 511 contents))"
    by (simp add: sorted_wrt_map)
  from parse_maps_loop_data[OF ow vi.index_Leaf assms(2) this] obtain h' t where
    p: "parse_process_memory_maps h tree (Some contents) = (h', t, 0)" and
    d: "map vma_data (inorder t) = ?ds" by (auto simp: parse_process_memory_maps_def)
  have "regions_apart (map vma_data (inorder t))" using d assms(3) by simp
  then have ap: "apart start_addr end_addr t"
    by (simp add: regions_apart_def apart_def sorted_wrt_map vma_data_def)
  have "map_option vma_data (find_vma_from_process (Some t) a) = region_of a ?ds \<and>
      get_relative_address a (find_vma_from_process (Some t) a) =
        (case region_of a ?ds of None \<Rightarrow> 0 | Some (s, e, fl, off, nm) \<Rightarrow> a - s + off)" for a
  proof (cases "find_vma_from_process (Some t) a")
    case None
    have "region_of a ?ds = None"
    proof (cases "region_of a ?ds")
      case (Some x)
      then have "x \<in> set (map vma_data (inorder t))" "fst x \<le> a" "a < fst (snd x)"
        using d by (auto simp: region_of_def find_Some_iff nth_mem)
      then obtain v where "v \<in> set (inorder t)" "start_addr v \<le> a" "a < end_addr v"
        by (auto simp: vma_data_def)
      with vs.search_complete[OF ap] None show ?thesis by (simp add: find_vma_from_process_def)
    qed
    with None show ?thesis by (simp add: get_relative_address_def)
  next
    case (Some v)
    then have v: "v \<in> set (inorder t)" "start_addr v \<le> a" "a < end_addr v"
      using vs.search_sound by (auto simp: find_vma_from_process_def)
    then have "vma_data v \<in> set ?ds" using d by (metis image_eqI list.set_map)
    from regions_apart_unique[OF assms(3) this, of a] v have "region_of a ?ds = Some (vma_data v)"
      by (simp add: vma_data_def)
    with Some v show ?thesis by (auto simp: get_relative_address_def vma_data_def)
  qed
  with p show ?thesis by blast
qed

definition maps_example :: string where
  "maps_example = ''1000-2000 r-xp 300 8:1 5 /b'' @ [newline] @ ''3000-4000 rw-p 0 0:0 0'' @ [newline]"

lemma maps_example_data:
  "map line_data (fgets_all 511 maps_example) =
    [(0x1000, 0x2000, READ OR EXECUTE, 0x300, Some ''/b''), (0x3000, 0x4000, READ OR WRITE, 0, None)]"
proof -
  have "maps_example = concat (map (\<lambda>l. l @ [newline]) [''1000-2000 r-xp 300 8:1 5 /b'', ''3000-4000 rw-p 0 0:0 0''])"
    by (simp add: maps_example_def)
  then have "fgets_all 511 maps_example =
      map (\<lambda>l. l @ [newline]) [''1000-2000 r-xp 300 8:1 5 /b'', ''3000-4000 rw-p 0 0:0 0'']"
    using fgets_all_lines[of "[''1000-2000 r-xp 300 8:1 5 /b'', ''3000-4000 rw-p 0 0:0 0'']" 511]
    by (simp add: newline_def)
  then show ?thesis
    by (simp add: line_data_def scan_maps_line_def scan_hex_def scan_sign_def scan_prefix_def skip_space_def
        c_isspace_def is_digit_def digit_value_def to_ulong_def scan_literal_def scan_word_def skip_word_def
        skip_decimal_def no_fields_def perm_flags_def newline_def Let_def)
qed

theorem vma_resolution_witness:
  "\<exists>h' t. parse_process_memory_maps empty_heap Leaf (Some maps_example) = (h', t, 0) \<and>
     get_relative_address 0x1010 (find_vma_from_process (Some t) 0x1010) = 0x310 \<and>
     find_vma_from_process (Some t) 0x2000 = None"
proof -
  have "regions_apart (map line_data (fgets_all 511 maps_example))"
    unfolding maps_example_data by (simp add: regions_apart_def)
  moreover have "\<forall>b. \<not> oom empty_heap b" by (simp add: empty_heap_def)
  ultimately obtain h' t where t: "parse_process_memory_maps empty_heap Leaf (Some maps_example) = (h', t, 0)"
    "\<forall>a. map_option vma_data (find_vma_from_process (Some t) a) = region_of a (map line_data (fgets_all 511 maps_example)) \<and>
       get_relative_address a (find_vma_from_process (Some t) a) =
         (case region_of a (map line_data (fgets_all 511 maps_example)) of
            None \<Rightarrow> 0 | Some (s, e, fl, off, nm) \<Rightarrow> a - s + off)"
    using vma_resolution[OF heap_ok_empty, of maps_example Leaf] by blast
  have "region_of 0x2000 (map line_data (fgets_all 511 maps_example)) = None"
      "region_of 0x1010 (map line_data (fgets_all 511 maps_example)) =
        Some (0x1000, 0x2000, READ OR EXECUTE, 0x300, Some ''/b'')"
    unfolding maps_example_data by (simp_all add: region_of_def)
  with t(1) t(2)[rule_format, of "0x2000"] t(2)[rule_format, of "0x1010"] show ?thesis by simp
qed

text \<open>
  A line of /proc/<pid>/maps as the kernel prints it (bounds and offset in hexadecimal, four
  permission characters, device, inode, name) is parsed back to exactly its region, for names
  without blanks of at most 255 characters.
\<close>
theorem maps_line_roundtrip:
  assumes "s < 2 ^ 64" "e < 2 ^ 64" "off < 2 ^ 64" "ino < 2 ^ 64"
    and "length perm = 4" "\<forall>c\<in>set perm. \<not> c_isspace c"
    and "dev \<noteq> []" "\<forall>c\<in>set dev. \<not> c_isspace c"
    and "\<forall>c\<in>set nm. \<not> c_isspace c" "length nm \<le> 255"
  shows "line_data (print_hex s @ ''-'' @ print_hex e @ '' '' @ perm @ '' '' @ print_hex off @ '' '' @ dev @
      '' '' @ print_dec ino @ '' '' @ nm @ [newline]) =
    (of_nat s, of_nat e, perm_flags perm, of_nat off, if nm = [] then None else Some nm)"
proof -
  let ?r5 = "CHR '' '' # nm @ [newline]"
  let ?r4 = "CHR '' '' # print_dec ino @ ?r5"
  let ?r3 = "CHR '' '' # print_hex off @ CHR '' '' # dev @ ?r4"
  have sp: "c_isspace CHR '' ''" "c_isspace newline" "\<not> is_digit 16 CHR '' ''" "\<not> is_digit 10 CHR '' ''"
      "\<not> is_digit 16 CHR ''-''"
    by (simp_all add: c_isspace_def newline_def is_digit_def digit_value_def)
  have "scan_hex (print_hex s @ CHR ''-'' # print_hex e @ CHR '' '' # perm @ ?r3) =
      Some (of_nat s, CHR ''-'' # print_hex e @ CHR '' '' # perm @ ?r3)"
    using scan_hex_print[OF assms(1)] sp by simp
  moreover have "scan_hex (print_hex e @ CHR '' '' # perm @ ?r3) = Some (of_nat e, CHR '' '' # perm @ ?r3)"
    using scan_hex_print[OF assms(2)] sp by simp
  moreover have "scan_word 4 (perm @ ?r3) = Some (perm, ?r3)"
    using assms(5,6) sp by (intro scan_word_word) auto
  moreover have "scan_hex (print_hex off @ CHR '' '' # dev @ ?r4) = Some (of_nat off, CHR '' '' # dev @ ?r4)"
    using scan_hex_print[OF assms(3)] sp by simp
  moreover have "skip_word (dev @ ?r4) = Some ?r4"
    using assms(7,8) sp by (intro scan_word_word(2)[where n = "length dev"]) auto
  moreover have "skip_decimal (print_dec ino @ ?r5) = Some ?r5"
    using print_dec_digits[OF assms(4)] sp by (intro skip_decimal_digits) auto
  moreover have "scan_word 255 (nm @ [newline]) = (if nm = [] then None else Some (nm, [newline]))"
  proof (cases "nm = []")
    case True
    then show ?thesis using sp by (simp add: scan_word_def skip_space_def)
  next
    case False
    then show ?thesis using assms(9,10) sp by (subst scan_word_word(1)) auto
  qed
  ultimately show ?thesis
    by (simp add: line_data_def scan_maps_line_def scan_literal_def no_fields_def Let_def)
qed

theorem maps_line_roundtrip_witness:
  "line_data (print_hex 4096 @ ''-'' @ print_hex 8192 @ '' '' @ ''r-xp'' @ '' '' @ print_hex 16 @ '' '' @ ''08:01'' @
      '' '' @ print_dec 7 @ '' '' @ ''/lib/libc.so.6'' @ [newline]) =
    (4096, 8192, perm_flags ''r-xp'', 16, Some ''/lib/libc.so.6'')"
  using maps_line_roundtrip[of 4096 8192 16 7 "''r-xp''" "''08:01''" "''/lib/libc.so.6''"]
  by (simp add: c_isspace_def)

text \<open>
  Parsing a memory map and freeing the tree again leaves the heap as it was and the tree
  empty, also when the parsing stopped half way for lack of memory.
\<close>
theorem vma_tree_no_leak:
  assumes "heap_ok h"
  shows "\<exists>h' t rc h''. parse_process_memory_maps h Leaf file = (h', t, rc) \<and>
    free_vma_tree h' (Some t) = Some (h'', Leaf) \<and> live h'' = live h"
proof (cases "file")
  case None
  with assms show ?thesis by (simp add: parse_process_memory_maps_def free_vma_tree_def)
next
  case (Some contents)
  have "owns (live h) h (tree_blocks Leaf @ [])" using owns_start[OF assms] by (simp add: tree_blocks_def)
  from parse_maps_loop_ok[OF this vi.index_Leaf] obtain h' t rc where
    p: "parse_maps_loop h Leaf (fgets_all 511 contents) = (h', t, rc)" "owns (live h) h' (tree_blocks t @ [])"
    by blast
  from free_vma_nodes_ok[OF p(2)] obtain h'' where "free_vma_nodes h' t = Some h''" "owns (live h) h'' []"
    by blast
  with p Some owns_empty show ?thesis by (auto simp: parse_process_memory_maps_def free_vma_tree_def)
qed

theorem vma_tree_no_leak_witness:
  "\<exists>h' t rc h''. parse_process_memory_maps (empty_heap\<lparr>oom := (\<lambda>b. b = 2)\<rparr>) Leaf (Some maps_example) = (h', t, rc) \<and>
    free_vma_tree h' (Some t) = Some (h'', Leaf) \<and> live h'' = (\<lambda>_. None)"
  using vma_tree_no_leak[of "empty_heap\<lparr>oom := (\<lambda>b. b = 2)\<rparr>" "Some maps_example"]
  by (auto simp: heap_ok_def empty_heap_def)

end
