(* ===== verification/Processes.thy ===== *)
theory Processes
  imports Vma_Map Hash_Tables
begin

text \<open>
  The process table (src/core/process.c): the lazily filled hash table from process ids to
  what is known of a process, its name, command line, start time and memory map. What the
  functions read from /proc is the parameter \<open>env\<close>, the contents of the files of every
  process (\<open>None\<close>: cannot be opened) and whether it is alive. Every allocation is explicit.
\<close>

section \<open>Model\<close>

record proc_files =
  stat_file :: "string option"
  comm_file :: "string option"
  cmdline_file :: "string option"
  maps_file :: "string option"
  alive :: bool

type_synonym pid = "32 word"
type_synonym proc_env = "pid \<Rightarrow> proc_files"

record process_info =
  process_id :: pid
  start_time :: u64
  process_name :: cstr
  command_line :: cstr
  executable_path :: cstr
  memory_map_tree :: "virtual_memory_area rbt"
  node_block :: block

type_synonym process_hash_table = "process_info list list"

text \<open>The conversions of the format up to field 22 of /proc/<pid>/stat.\<close>

datatype stat_conv = SkipD | SkipS | SkipC

fun skip_conv :: "stat_conv \<Rightarrow> string \<Rightarrow> string option" where
  "skip_conv SkipD s = skip_decimal s"
| "skip_conv SkipS s = skip_word s"
| "skip_conv SkipC s = map_option snd (scan_char (skip_space s))"

fun skip_convs :: "stat_conv list \<Rightarrow> string \<Rightarrow> string option" where
  "skip_convs [] s = Some s"
| "skip_convs (c # cs) s = do { s \<leftarrow> skip_conv c s; skip_convs cs s }"

definition stat_format :: "stat_conv list" where
  "stat_format = [SkipD, SkipS, SkipC, SkipD, SkipD, SkipD, SkipD, SkipD, SkipD, SkipD, SkipD,
     SkipD, SkipD, SkipD, SkipD, SkipD, SkipD, SkipD, SkipD, SkipD, SkipD]"

definition get_process_start_time :: "string option \<Rightarrow> u64" where
  "get_process_start_time stat =
     (case stat of
        None \<Rightarrow> 0
      | Some s \<Rightarrow>
          (case do { s \<leftarrow> skip_convs stat_format s; scan_decimal s } of
             None \<Rightarrow> 0
           | Some (start, _) \<Rightarrow> of_nat start))"

text \<open>
  Reading a file of /proc into a fresh buffer of 4096 bytes; a trailing newline of \<open>comm\<close> is cut
  and the NULs that separate the arguments of \<open>cmdline\<close> become blanks.
\<close>

definition read_proc_file :: "c_heap \<Rightarrow> string option \<Rightarrow> string \<Rightarrow> (c_heap \<times> cstr) option" where
  "read_proc_file h contents file_name =
     (case contents of
        None \<Rightarrow> Some (h, None)
      | Some data \<Rightarrow>
          (case malloc h 4096 of
             (h, None) \<Rightarrow> Some (h, None)
           | (h, Some buffer) \<Rightarrow>
               (let bytes = take 4095 data in
                if bytes = [] then do { h \<leftarrow> free_block h buffer; Some (h, None) }
                else
                  (let bytes = (if file_name = ''comm'' \<and> last bytes = newline then butlast bytes else bytes);
                       bytes = (if file_name = ''cmdline''
                                then map (\<lambda>c. if c = CHR 0x00 then CHR '' '' else c) (butlast bytes) @ [last bytes]
                                else bytes)
                   in Some (h, Some (buffer, c_str bytes))))))"

definition find_process :: "process_hash_table \<Rightarrow> pid \<Rightarrow> process_info option" where
  "find_process table pid = ht_find hash_pid process_id table pid"

text \<open>The name: from \<open>comm\<close>, else the base name of the first argument, else a default.\<close>

definition choose_name :: "c_heap \<Rightarrow> pid \<Rightarrow> cstr \<Rightarrow> cstr \<Rightarrow> (c_heap \<times> cstr) option" where
  "choose_name h pid comm cmd =
     (case comm of
        None \<Rightarrow>
          (case cmd of
             Some (b, c # cs) \<Rightarrow>
               (let token = takeWhile (\<lambda>x. x \<noteq> CHR '' '') (c # cs);
                    base = (if CHR ''/'' \<in> set token then rev (takeWhile (\<lambda>x. x \<noteq> CHR ''/'') (rev token)) else token)
                in Some (strdup h base))
           | _ \<Rightarrow> Some (strdup h ''unknown''))
      | Some (b, nm) \<Rightarrow>
          (let nm = takeWhile (\<lambda>x. x \<noteq> newline) nm in
           if nm = [] \<or> nm = [newline] then
             do { h \<leftarrow> free_block h b; Some (strdup h (''pid_'' @ print_int (sint pid))) }
           else Some (h, Some (b, nm))))"

text \<open>The command line falls back to the name; duplicating a NULL name is a fault.\<close>

definition choose_command :: "c_heap \<Rightarrow> cstr \<Rightarrow> cstr \<Rightarrow> (c_heap \<times> cstr) option" where
  "choose_command h nm cmd =
     (case cmd of
        Some (b, c # cs) \<Rightarrow> Some (h, cmd)
      | _ \<Rightarrow>
          do { h \<leftarrow> free_str h cmd;
               case nm of None \<Rightarrow> None | Some (b, s) \<Rightarrow> Some (strdup h s) })"

definition find_new_process :: "c_heap \<Rightarrow> proc_env \<Rightarrow> process_hash_table \<Rightarrow> pid \<Rightarrow>
    (c_heap \<times> process_hash_table \<times> process_info option) option" where
  "find_new_process h env table pid =
     (case find_process table pid of
        Some proc \<Rightarrow> Some (h, table, Some proc)
      | None \<Rightarrow>
          (case malloc h 56 of
             (h, None) \<Rightarrow> Some (h, table, None)
           | (h, Some node) \<Rightarrow>
               do { let start = get_process_start_time (stat_file (env pid));
                    (h, comm) \<leftarrow> read_proc_file h (comm_file (env pid)) ''comm'';
                    (h, cmd) \<leftarrow> read_proc_file h (cmdline_file (env pid)) ''cmdline'';
                    (h, nm) \<leftarrow> choose_name h pid comm cmd;
                    (h, cmd) \<leftarrow> choose_command h nm cmd;
                    if \<not> alive (env pid) then
                      do { h \<leftarrow> free_str h nm; h \<leftarrow> free_str h cmd; h \<leftarrow> free_block h node;
                           Some (h, table, None) }
                    else
                      (case parse_process_memory_maps h Leaf (maps_file (env pid)) of
                         (h, tree, rc) \<Rightarrow>
                           if rc \<noteq> 0 then do { h \<leftarrow> free_block h node; Some (h, table, None) }
                           else
                             (let proc = \<lparr>process_id = pid, start_time = start, process_name = nm,
                                    command_line = cmd, executable_path = None, memory_map_tree = tree,
                                    node_block = node\<rparr>
                              in Some (h, ht_insert hash_pid process_id table proc, Some proc))) }))"

text \<open>What is freed with a process: its memory map, its strings, its node.\<close>

definition free_process :: "c_heap \<Rightarrow> process_info \<Rightarrow> c_heap option" where
  "free_process h p = do {
     (h, _) \<leftarrow> free_vma_tree h (Some (memory_map_tree p));
     h \<leftarrow> free_str h (process_name p);
     h \<leftarrow> free_str h (command_line p);
     h \<leftarrow> free_str h (executable_path p);
     free_block h (node_block p) }"

definition remove_process :: "c_heap \<Rightarrow> process_hash_table \<Rightarrow> pid \<Rightarrow> (c_heap \<times> process_hash_table) option" where
  "remove_process h table pid =
     (case find_process table pid of
        None \<Rightarrow> Some (h, table)
      | Some p \<Rightarrow> do { h \<leftarrow> free_process h p; Some (h, ht_remove hash_pid process_id table pid) })"

fun cleanup_chain :: "(pid \<Rightarrow> bool) \<Rightarrow> c_heap \<Rightarrow> process_info list \<Rightarrow> (c_heap \<times> process_info list) option" where
  "cleanup_chain alv h [] = Some (h, [])"
| "cleanup_chain alv h (node # nodes) =
     (if \<not> alv (process_id node) then
        do { h \<leftarrow> free_process h node; cleanup_chain alv h nodes }
      else
        do { (h, nodes) \<leftarrow> cleanup_chain alv h nodes; Some (h, node # nodes) })"

fun cleanup_dead_processes :: "(pid \<Rightarrow> bool) \<Rightarrow> c_heap \<Rightarrow> process_hash_table \<Rightarrow>
    (c_heap \<times> process_hash_table) option" where
  "cleanup_dead_processes alv h [] = Some (h, [])"
| "cleanup_dead_processes alv h (chain # buckets) =
     do { (h, chain) \<leftarrow> cleanup_chain alv h chain;
          (h, buckets) \<leftarrow> cleanup_dead_processes alv h buckets;
          Some (h, chain # buckets) }"

fun free_processes :: "c_heap \<Rightarrow> process_info list \<Rightarrow> c_heap option" where
  "free_processes h [] = Some h"
| "free_processes h (p # ps) = do { h \<leftarrow> free_process h p; free_processes h ps }"

definition free_process_hash_table :: "c_heap \<Rightarrow> (block \<times> process_hash_table) option \<Rightarrow> c_heap option" where
  "free_process_hash_table h table =
     (case table of
        None \<Rightarrow> Some h
      | Some (tb, buckets) \<Rightarrow> do { h \<leftarrow> free_processes h (concat buckets); free_block h tb })"

section \<open>The table as a map\<close>

interpretation pt: chained_table hash_pid process_id HASHTABLE_SIZE
  by unfold_locales (rule hash_pid_bound)

abbreviation ptable_ok :: "process_hash_table \<Rightarrow> bool" where
  "ptable_ok table \<equiv> ht_ok hash_pid process_id HASHTABLE_SIZE table"

section \<open>Memory\<close>

definition process_blocks :: "process_info \<Rightarrow> block list" where
  "process_blocks p = tree_blocks (memory_map_tree p) @ str_blocks (process_name p) @
     str_blocks (command_line p) @ str_blocks (executable_path p) @ [node_block p]"

abbreviation ptable_blocks :: "process_info list \<Rightarrow> block list" where
  "ptable_blocks ps \<equiv> concat (map process_blocks ps)"

lemma oom_free_vma_nodes: "free_vma_nodes h t = Some h' \<Longrightarrow> oom h' = oom h"
  by (induction t arbitrary: h h') (auto dest: oom_free_list split: bind_splits)

lemma free_process_ok:
  assumes "owns base h (process_blocks p @ bs)"
  shows "\<exists>h'. free_process h p = Some h' \<and> owns base h' bs \<and> oom h' = oom h"
proof -
  let ?n = "str_blocks (process_name p)" and ?c = "str_blocks (command_line p)"
  let ?e = "str_blocks (executable_path p)"
  have "owns base h (tree_blocks (memory_map_tree p) @ (?n @ ?c @ ?e @ node_block p # bs))"
    using assms by (simp add: process_blocks_def)
  from free_vma_nodes_ok[OF this] obtain h1 where h1: "free_vma_nodes h (memory_map_tree p) = Some h1"
      "owns base h1 (?n @ ?c @ ?e @ node_block p # bs)" by blast
  from owns_free_str[OF h1(2)] obtain h2 where h2: "free_str h1 (process_name p) = Some h2"
      "owns base h2 (?c @ ?e @ node_block p # bs)" "oom h2 = oom h1" by blast
  from owns_free_str[OF h2(2)] obtain h3 where h3: "free_str h2 (command_line p) = Some h3"
      "owns base h3 (?e @ node_block p # bs)" "oom h3 = oom h2" by blast
  from owns_free_str[OF h3(2)] obtain h4 where h4: "free_str h3 (executable_path p) = Some h4"
      "owns base h4 (node_block p # bs)" "oom h4 = oom h3" by blast
  from owns_free_hd[OF h4(2)] obtain h5 where h5: "free_block h4 (node_block p) = Some h5" "owns base h5 bs"
    by blast
  have "oom h5 = oom h"
    using oom_free_vma_nodes[OF h1(1)] h2(3) h3(3) h4(3) oom_free_block[OF h5(1)] by simp
  with h1 h2 h3 h4 h5 show ?thesis by (simp add: free_process_def free_vma_tree_def)
qed

lemma free_processes_ok:
  "owns base h (ptable_blocks ps @ bs) \<Longrightarrow> \<exists>h'. free_processes h ps = Some h' \<and> owns base h' bs"
proof (induction ps arbitrary: h)
  case (Cons p ps)
  have "owns base h (process_blocks p @ ptable_blocks ps @ bs)" using Cons.prems by simp
  from free_process_ok[OF this] Cons.IH show ?case by fastforce
qed simp

lemma cleanup_chain_ok:
  "owns base h (ptable_blocks ps @ bs) \<Longrightarrow>
    \<exists>h'. cleanup_chain alv h ps = Some (h', filter (\<lambda>p. alv (process_id p)) ps) \<and>
      owns base h' (ptable_blocks (filter (\<lambda>p. alv (process_id p)) ps) @ bs) \<and> oom h' = oom h"
proof (induction ps arbitrary: h bs)
  case (Cons p ps)
  show ?case
  proof (cases "alv (process_id p)")
    case True
    have "owns base h (ptable_blocks ps @ (process_blocks p @ bs))"
      using Cons.prems by (rule owns_perm) simp
    from Cons.IH[OF this] obtain h' where h':
      "cleanup_chain alv h ps = Some (h', filter (\<lambda>p. alv (process_id p)) ps)"
      "owns base h' (ptable_blocks (filter (\<lambda>p. alv (process_id p)) ps) @ (process_blocks p @ bs))"
      "oom h' = oom h" by blast
    have "owns base h' (ptable_blocks (filter (\<lambda>p. alv (process_id p)) (p # ps)) @ bs)"
      using h'(2) by (rule owns_perm) (use True in simp)
    with h' True show ?thesis by simp
  next
    case False
    have "owns base h (process_blocks p @ ptable_blocks ps @ bs)" using Cons.prems by simp
    from free_process_ok[OF this] obtain h1 where "free_process h p = Some h1"
        "owns base h1 (ptable_blocks ps @ bs)" "oom h1 = oom h" by blast
    with Cons.IH[of h1 bs] False show ?thesis by simp
  qed
qed simp

lemma cleanup_ok:
  "owns base h (ptable_blocks (concat tbl) @ bs) \<Longrightarrow>
    \<exists>h'. cleanup_dead_processes alv h tbl = Some (h', map (filter (\<lambda>p. alv (process_id p))) tbl) \<and>
      owns base h' (ptable_blocks (concat (map (filter (\<lambda>p. alv (process_id p))) tbl)) @ bs) \<and> oom h' = oom h"
proof (induction tbl arbitrary: h bs)
  case (Cons c tbl)
  let ?F = "filter (\<lambda>p. alv (process_id p))"
  have "owns base h (ptable_blocks c @ (ptable_blocks (concat tbl) @ bs))" using Cons.prems by simp
  from cleanup_chain_ok[OF this] obtain h1 where h1: "cleanup_chain alv h c = Some (h1, ?F c)"
      "owns base h1 (ptable_blocks (?F c) @ (ptable_blocks (concat tbl) @ bs))" "oom h1 = oom h" by blast
  have "owns base h1 (ptable_blocks (concat tbl) @ (ptable_blocks (?F c) @ bs))"
    using h1(2) by (rule owns_perm) simp
  from Cons.IH[OF this] obtain h2 where h2: "cleanup_dead_processes alv h1 tbl = Some (h2, map ?F tbl)"
      "owns base h2 (ptable_blocks (concat (map ?F tbl)) @ (ptable_blocks (?F c) @ bs))" "oom h2 = oom h1" by blast
  have "owns base h2 (ptable_blocks (concat (map ?F (c # tbl))) @ bs)"
    using h2(2) by (rule owns_perm) simp
  with h1 h2 show ?case by simp
qed simp

lemma read_proc_file_ok:
  assumes "owns base h bs"
  shows "\<exists>h' p. read_proc_file h contents nm = Some (h', p) \<and> owns base h' (str_blocks p @ bs) \<and> oom h' = oom h"
proof (cases contents)
  case None
  with assms show ?thesis by (simp add: read_proc_file_def str_blocks_def)
next
  case (Some data)
  obtain h1 r where m: "malloc h 4096 = (h1, r)" by (cases "malloc h 4096")
  note om = oom_malloc[OF m]
  show ?thesis
  proof (cases r)
    case None
    with m Some om owns_malloc_None[OF assms] show ?thesis by (simp add: read_proc_file_def str_blocks_def)
  next
    case b: (Some b)
    have o: "owns base h1 (b # bs)" using owns_malloc[OF assms] m b by simp
    show ?thesis
    proof (cases "take 4095 data = []")
      case True
      from owns_free_hd[OF o] obtain h2 where "free_block h1 b = Some h2" "owns base h2 bs" by blast
      with True m Some b om oom_free_block[of h1 b h2] show ?thesis
        by (simp add: read_proc_file_def str_blocks_def)
    next
      case False
      with m Some b om o show ?thesis by (simp add: read_proc_file_def str_blocks_def Let_def)
    qed
  qed
qed

lemma choose_name_ok:
  assumes "owns base h (str_blocks cmd @ str_blocks comm @ bs)"
  shows "\<exists>h' nm. choose_name h pid comm cmd = Some (h', nm) \<and>
    owns base h' (str_blocks nm @ str_blocks cmd @ bs) \<and> oom h' = oom h \<and> (nm = None \<longrightarrow> (\<exists>b. oom h b))"
proof (cases comm)
  case None
  then have o: "owns base h (str_blocks cmd @ bs)" using assms by (simp add: str_blocks_def)
  obtain s where s: "choose_name h pid comm cmd = Some (strdup h s)"
  proof (cases "\<exists>b c cs. cmd = Some (b, c # cs)")
    case True
    with None that show ?thesis unfolding choose_name_def Let_def by force
  next
    case False
    have "choose_name h pid comm cmd = Some (strdup h ''unknown'')"
    proof (cases cmd)
      case (Some x)
      with False show ?thesis using None by (cases x; cases "snd x") (auto simp: choose_name_def)
    qed (simp add: None choose_name_def)
    with that show ?thesis by blast
  qed
  obtain h' p where "strdup h s = (h', p)" by (cases "strdup h s")
  with owns_strdup[OF o this] s show ?thesis by simp
next
  case (Some x)
  obtain b n where x: "x = (b, n)" by (cases x)
  let ?n = "takeWhile (\<lambda>x. x \<noteq> newline) n"
  have o: "owns base h (b # str_blocks cmd @ bs)"
    using assms by (rule owns_perm) (simp add: Some x str_blocks_def)
  show ?thesis
  proof (cases "?n = [] \<or> ?n = [newline]")
    case True
    from owns_free_hd[OF o] obtain h1 where h1: "free_block h b = Some h1" "owns base h1 (str_blocks cmd @ bs)"
      by blast
    obtain h' p where "strdup h1 (''pid_'' @ print_int (sint pid)) = (h', p)"
      by (cases "strdup h1 (''pid_'' @ print_int (sint pid))")
    with owns_strdup[OF h1(2) this] oom_free_block[OF h1(1)] h1 Some x True show ?thesis
      by (auto simp: choose_name_def Let_def)
  next
    case False
    with o Some x show ?thesis by (auto simp: choose_name_def str_blocks_def Let_def)
  qed
qed

lemma choose_command_ok:
  assumes "owns base h (str_blocks nm @ str_blocks cmd @ bs)" and "nm \<noteq> None"
  shows "\<exists>h' c. choose_command h nm cmd = Some (h', c) \<and>
    owns base h' (str_blocks nm @ str_blocks c @ bs) \<and> oom h' = oom h"
proof -
  have keep: ?thesis if "choose_command h nm cmd = Some (h, cmd)" using that assms(1) by blast
  have dup: ?thesis
    if c: "choose_command h nm cmd = do { h \<leftarrow> free_str h cmd; Some (strdup h (snd (the nm))) }"
  proof -
    have "owns base h (str_blocks cmd @ str_blocks nm @ bs)" using assms(1) by (rule owns_perm) simp
    from owns_free_str[OF this] obtain h1 where h1: "free_str h cmd = Some h1"
        "owns base h1 (str_blocks nm @ bs)" "oom h1 = oom h" by blast
    obtain h2 p where h2: "strdup h1 (snd (the nm)) = (h2, p)" by (cases "strdup h1 (snd (the nm))")
    note sd = owns_strdup[OF h1(2) h2]
    then have "owns base h2 (str_blocks p @ str_blocks nm @ bs)" by blast
    then have "owns base h2 (str_blocks nm @ str_blocks p @ bs)" by (rule owns_perm) simp
    moreover have "choose_command h nm cmd = Some (h2, p)" unfolding c h1(1) by (simp add: h2)
    ultimately show ?thesis using sd h1(3) by (intro exI[of _ h2] exI[of _ p]) simp
  qed
  obtain b n where nm: "nm = Some (b, n)" using assms(2) by (cases nm) auto
  show ?thesis
  proof (cases "\<exists>b c cs. cmd = Some (b, c # cs)")
    case True
    then show ?thesis by (intro keep) (auto simp: choose_command_def)
  next
    case False
    have "choose_command h nm cmd = do { h \<leftarrow> free_str h cmd; Some (strdup h (snd (the nm))) }"
    proof (cases cmd)
      case (Some x)
      with False show ?thesis using nm by (cases x; cases "snd x") (auto simp: choose_command_def)
    qed (simp add: nm choose_command_def)
    then show ?thesis by (rule dup)
  qed
qed

text \<open>
  Creating a process entry when memory suffices: no fault; the table gains the process and its
  blocks, or stays as it is. The one leak is explicit: when the memory map cannot be read, the
  strings and the regions read so far stay allocated although nothing refers to them.
\<close>

definition leaks :: "proc_env \<Rightarrow> pid \<Rightarrow> bool" where
  "leaks env pid \<longleftrightarrow> alive (env pid) \<and> maps_file (env pid) = None"

lemma find_new_process_ok:
  assumes "owns base h (ptable_blocks (concat table) @ bs)" and "ptable_ok table"
    and "\<forall>b. \<not> oom h b" and "\<not> leaks env pid"
  shows "\<exists>h' table' r. find_new_process h env table pid = Some (h', table', r) \<and>
    owns base h' (ptable_blocks (concat table') @ bs) \<and> ptable_ok table' \<and> oom h' = oom h \<and>
    (r = None \<longrightarrow> table' = table \<and> find_process table pid = None \<and> \<not> alive (env pid)) \<and>
    (\<forall>p. r = Some p \<longrightarrow> process_id p = pid \<and> find_process table' = (find_process table)(pid \<mapsto> p))"
proof (cases "find_process table pid")
  case (Some p)
  then have "process_id p = pid"
    using pt.find_entries[OF assms(2), of pid p] by (simp add: find_process_def)
  with Some assms show ?thesis by (auto simp: find_new_process_def)
next
  case None
  let ?ob = "ptable_blocks (concat table) @ bs"
  obtain h1 nb where h1: "malloc h 56 = (h1, Some nb)"
    using assms(3) by (auto simp: malloc_def)
  have o1: "owns base h1 (nb # ?ob)" using owns_malloc[OF assms(1) h1] .
  from read_proc_file_ok[OF o1, of "comm_file (env pid)" "''comm''"] obtain h2 comm where
    h2: "read_proc_file h1 (comm_file (env pid)) ''comm'' = Some (h2, comm)"
      "owns base h2 (str_blocks comm @ nb # ?ob)" "oom h2 = oom h1" by blast
  from read_proc_file_ok[OF h2(2), of "cmdline_file (env pid)" "''cmdline''"] obtain h3 cmd where
    h3: "read_proc_file h2 (cmdline_file (env pid)) ''cmdline'' = Some (h3, cmd)"
      "owns base h3 (str_blocks cmd @ str_blocks comm @ nb # ?ob)" "oom h3 = oom h2" by auto
  have oom3: "oom h3 = oom h" using h2(3) h3(3) oom_malloc[OF h1] by simp
  from choose_name_ok[OF h3(2), of pid] obtain h4 nm where
    h4: "choose_name h3 pid comm cmd = Some (h4, nm)" "owns base h4 (str_blocks nm @ str_blocks cmd @ nb # ?ob)"
      "oom h4 = oom h3" "nm \<noteq> None" using assms(3) oom3 by auto
  from choose_command_ok[OF h4(2,4)] obtain h5 cl where
    h5: "choose_command h4 nm cmd = Some (h5, cl)" "owns base h5 (str_blocks nm @ str_blocks cl @ nb # ?ob)"
      "oom h5 = oom h4" by auto
  have oom5: "oom h5 = oom h" using oom3 h4(3) h5(3) by simp
  show ?thesis
  proof (cases "alive (env pid)")
    case False
    from owns_free_str[OF h5(2)] obtain h6 where h6: "free_str h5 nm = Some h6"
        "owns base h6 (str_blocks cl @ nb # ?ob)" "oom h6 = oom h5" by blast
    from owns_free_str[OF h6(2)] obtain h7 where h7: "free_str h6 cl = Some h7"
        "owns base h7 (nb # ?ob)" "oom h7 = oom h6" by blast
    from owns_free_hd[OF h7(2)] obtain h8 where h8: "free_block h7 nb = Some h8" "owns base h8 ?ob" by blast
    have "oom h8 = oom h" using oom5 h6(3) h7(3) oom_free_block[OF h8(1)] by simp
    moreover have "find_new_process h env table pid = Some (h8, table, None)"
      using None False h1 h2(1) h3(1) h4(1) h5(1) h6(1) h7(1) h8(1) by (simp add: find_new_process_def Let_def)
    ultimately show ?thesis using h8(2) assms(2) None False by simp
  next
    case True
    with assms(4) obtain contents where c: "maps_file (env pid) = Some contents"
      by (auto simp: leaks_def)
    have "owns base h5 (tree_blocks Leaf @ (str_blocks nm @ str_blocks cl @ nb # ?ob))"
      using h5(2) by (simp add: tree_blocks_def)
    from parse_maps_loop_ok[OF this vi.index_Leaf, of "fgets_all 511 contents"] obtain h6 t where
      h6: "parse_maps_loop h5 Leaf (fgets_all 511 contents) = (h6, t, 0)"
        "owns base h6 (tree_blocks t @ (str_blocks nm @ str_blocks cl @ nb # ?ob))" "oom h6 = oom h5"
      using assms(3) oom5 by auto
    let ?p = "\<lparr>process_id = pid, start_time = get_process_start_time (stat_file (env pid)), process_name = nm,
      command_line = cl, executable_path = None, memory_map_tree = t, node_block = nb\<rparr>"
    let ?tbl = "ht_insert hash_pid process_id table ?p"
    have run: "find_new_process h env table pid = Some (h6, ?tbl, Some ?p)"
      using None True c h1 h2(1) h3(1) h4(1) h5(1) h6(1)
      by (simp add: find_new_process_def parse_process_memory_maps_def Let_def)
    have new: "ht_find hash_pid process_id table (process_id ?p) = None" using None by (simp add: find_process_def)
    note ins = pt.insert_ok[OF assms(2) new]
    have "mset (ptable_blocks (concat ?tbl)) = mset (process_blocks ?p @ ptable_blocks (concat table))"
      by (rule blocks_add[OF ins(3)])
    then have "owns base h6 (ptable_blocks (concat ?tbl) @ bs)"
      by (intro owns_perm[OF h6(2)]) (simp add: process_blocks_def str_blocks_def)
    moreover have "find_process ?tbl = (find_process table)(pid \<mapsto> ?p)"
      using ins(2) by (simp add: find_process_def fun_eq_iff)
    ultimately show ?thesis using run ins(1) oom5 h6(3) by simp
  qed
qed

section \<open>Runs\<close>

text \<open>The calls the profiler makes on the table, in any order.\<close>

datatype proc_op = Lookup pid proc_env | Discard pid | Cleanup "pid \<Rightarrow> bool"

fun proc_step :: "c_heap \<times> process_hash_table \<Rightarrow> proc_op \<Rightarrow> (c_heap \<times> process_hash_table) option" where
  "proc_step (h, table) (Lookup pid env) =
     do { (h, table, r) \<leftarrow> find_new_process h env table pid; Some (h, table) }"
| "proc_step (h, table) (Discard pid) = remove_process h table pid"
| "proc_step (h, table) (Cleanup alv) = cleanup_dead_processes alv h table"

fun proc_run :: "c_heap \<times> process_hash_table \<Rightarrow> proc_op list \<Rightarrow> (c_heap \<times> process_hash_table) option" where
  "proc_run s [] = Some s"
| "proc_run s (op # ops) = do { s \<leftarrow> proc_step s op; proc_run s ops }"

fun op_leaks :: "proc_op \<Rightarrow> bool" where
  "op_leaks (Lookup pid env) = leaks env pid"
| "op_leaks _ = False"

definition proc_inv :: "(block \<Rightarrow> nat option) \<Rightarrow> block list \<Rightarrow> c_heap \<times> process_hash_table \<Rightarrow> bool" where
  "proc_inv base bs s \<longleftrightarrow> owns base (fst s) (ptable_blocks (concat (snd s)) @ bs) \<and>
     ptable_ok (snd s) \<and> (\<forall>b. \<not> oom (fst s) b)"

lemma remove_process_ok:
  assumes "owns base h (ptable_blocks (concat table) @ bs)" and "ptable_ok table"
  shows "\<exists>h' table'. remove_process h table pid = Some (h', table') \<and>
    owns base h' (ptable_blocks (concat table') @ bs) \<and> ptable_ok table' \<and> oom h' = oom h \<and>
    find_process table' = (find_process table)(pid := None)"
proof (cases "find_process table pid")
  case None
  then have "(find_process table)(pid := None) = find_process table" by (simp add: fun_upd_idem)
  with None assms show ?thesis by (simp add: remove_process_def)
next
  case (Some p)
  let ?t = "ht_remove hash_pid process_id table pid"
  note rm = pt.remove_ok[OF assms(2), of pid]
  have "mset (concat table) = add_mset p (mset (concat ?t))"
    using rm(3) Some by (simp add: find_process_def)
  then have "mset (ptable_blocks (concat table)) = mset (process_blocks p @ ptable_blocks (concat ?t))"
    by (rule blocks_add)
  then have "owns base h (process_blocks p @ (ptable_blocks (concat ?t) @ bs))"
    by (intro owns_perm[OF assms(1)]) simp
  from free_process_ok[OF this] obtain h' where "free_process h p = Some h'"
      "owns base h' (ptable_blocks (concat ?t) @ bs)" "oom h' = oom h" by blast
  with Some rm show ?thesis by (auto simp: remove_process_def find_process_def)
qed

lemma proc_step_inv:
  assumes "proc_inv base bs s" and "\<not> op_leaks op"
  shows "\<exists>s'. proc_step s op = Some s' \<and> proc_inv base bs s'"
proof -
  obtain h table where s: "s = (h, table)" by (cases s)
  with assms(1) have i: "owns base h (ptable_blocks (concat table) @ bs)" "ptable_ok table" "\<forall>b. \<not> oom h b"
    by (auto simp: proc_inv_def)
  show ?thesis
  proof (cases op)
    case (Lookup pid env)
    with assms(2) have "\<not> leaks env pid" by simp
    from find_new_process_ok[OF i this] obtain h' table' r where
      "find_new_process h env table pid = Some (h', table', r)"
      "owns base h' (ptable_blocks (concat table') @ bs)" "ptable_ok table'" "oom h' = oom h" by blast
    with s Lookup i(3) show ?thesis by (simp add: proc_inv_def)
  next
    case (Discard pid)
    from remove_process_ok[OF i(1,2), of pid] obtain h' table' where
      "remove_process h table pid = Some (h', table')"
      "owns base h' (ptable_blocks (concat table') @ bs)" "ptable_ok table'" "oom h' = oom h" by blast
    with s Discard i(3) show ?thesis by (simp add: proc_inv_def)
  next
    case (Cleanup alv)
    from cleanup_ok[OF i(1), of alv] pt.filter_ok(1)[OF i(2), of alv] i(3) s Cleanup show ?thesis
      by (auto simp: proc_inv_def)
  qed
qed

lemma proc_run_inv:
  "proc_inv base bs s \<Longrightarrow> \<forall>op\<in>set ops. \<not> op_leaks op \<Longrightarrow> \<exists>s'. proc_run s ops = Some s' \<and> proc_inv base bs s'"
proof (induction ops arbitrary: s)
  case (Cons op ops)
  from proc_step_inv[OF Cons.prems(1), of op] Cons.prems(2) obtain s1 where
    "proc_step s op = Some s1" "proc_inv base bs s1" by auto
  with Cons show ?case by simp
qed simp

section \<open>Properties\<close>


text \<open>A process with a one-region map, dead or alive.\<close>

definition example_env :: "bool \<Rightarrow> proc_env" where
  "example_env alv pid = \<lparr>stat_file = None, comm_file = Some (''sh'' @ [newline]), cmdline_file = None,
     maps_file = Some maps_example, alive = alv\<rparr>"


text \<open>
  \<open>find_new_process\<close> on every branch, when memory suffices: a process already in the table is
  returned as it is; a process that is not alive is not entered; any other is entered under its
  id, so that the next lookup finds it, and no other entry changes.
\<close>
theorem find_new_process_functional:
  assumes "heap_ok h" and "\<forall>b. \<not> oom h b" and "ptable_ok table"
    and "\<forall>p\<in>set (concat table). set (process_blocks p) \<subseteq> dom (live h)"
    and "distinct (ptable_blocks (concat table))" and "\<not> leaks env pid"
  shows "\<exists>h' table' r. find_new_process h env table pid = Some (h', table', r) \<and> ptable_ok table' \<and>
    (case find_process table pid of
       Some p \<Rightarrow> r = Some p \<and> table' = table
     | None \<Rightarrow> if alive (env pid)
         then \<exists>p. r = Some p \<and> process_id p = pid \<and> find_process table' = (find_process table)(pid \<mapsto> p)
         else r = None \<and> table' = table)"
proof -
  let ?bs = "ptable_blocks (concat table)"
  let ?base = "\<lambda>b. if b \<in> set ?bs then None else live h b"
  have "owns ?base h (?bs @ [])" using assms(1,4,5) by (auto simp: owns_def)
  from find_new_process_ok[OF this assms(3,2,6)] obtain h' table' r where
    f: "find_new_process h env table pid = Some (h', table', r)" "ptable_ok table'"
      "r = None \<longrightarrow> table' = table \<and> find_process table pid = None \<and> \<not> alive (env pid)"
      "\<forall>p. r = Some p \<longrightarrow> process_id p = pid \<and> find_process table' = (find_process table)(pid \<mapsto> p)" by blast
  show ?thesis
  proof (cases "find_process table pid")
    case (Some p)
    then have "find_new_process h env table pid = Some (h, table, Some p)" by (simp add: find_new_process_def)
    with Some assms(3) show ?thesis by simp
  next
    case None
    have "r = None" if "\<not> alive (env pid)"
      using f(1) None that
      by (auto simp: find_new_process_def Let_def split: prod.splits option.splits bind_splits if_splits)
    with f None show ?thesis by (cases r) auto
  qed
qed

lemma empty_table: "find_process (replicate HASHTABLE_SIZE []) pid = None"
    "concat (replicate HASHTABLE_SIZE []) = ([] :: process_info list)"
proof -
  have "concat (replicate n []) = ([] :: process_info list)" for n by (induction n) auto
  then show "concat (replicate HASHTABLE_SIZE []) = ([] :: process_info list)" .
  show "find_process (replicate HASHTABLE_SIZE []) pid = None"
    using hash_pid_bound[of pid] by (simp add: find_process_def ht_find_def)
qed

theorem find_new_process_functional_witness:
  "\<exists>h' table' p. find_new_process empty_heap (example_env True) (replicate HASHTABLE_SIZE []) 7 = Some (h', table', Some p) \<and>
     process_id p = 7 \<and> find_process table' 7 = Some p \<and> find_process table' 1031 = None"
proof -
  have "\<forall>b. \<not> oom empty_heap b" "\<not> leaks (example_env True) 7" "alive (example_env True 7)"
    by (simp_all add: empty_heap_def leaks_def example_env_def)
  then show ?thesis
    using find_new_process_functional[OF heap_ok_empty _ pt.ok_empty, of "example_env True" 7]
    by (auto simp: empty_table)
qed

text \<open>
  \<open>cleanup_dead_processes\<close> removes exactly the entries of the processes that are not alive
  and frees their memory; every other entry stays as it is.
\<close>
theorem cleanup_functional:
  assumes "ptable_ok table" and "owns base h (ptable_blocks (concat table))"
  shows "\<exists>h' table'. cleanup_dead_processes alv h table = Some (h', table') \<and> ptable_ok table' \<and>
    find_process table' = (\<lambda>pid. if alv pid then find_process table pid else None) \<and>
    owns base h' (ptable_blocks (concat table'))"
proof -
  from cleanup_ok[of base h table "[]" alv] assms(2) obtain h' where
    "cleanup_dead_processes alv h table = Some (h', map (filter (\<lambda>p. alv (process_id p))) table)"
    "owns base h' (ptable_blocks (concat (map (filter (\<lambda>p. alv (process_id p))) table)))" by auto
  with pt.filter_ok[OF assms(1), of alv] show ?thesis by (simp add: find_process_def fun_eq_iff)
qed

theorem cleanup_functional_witness:
  "\<exists>h' table'. cleanup_dead_processes (\<lambda>_. True) empty_heap (replicate HASHTABLE_SIZE []) = Some (h', table') \<and>
    find_process table' 7 = None"
proof -
  have "owns (live empty_heap) empty_heap (ptable_blocks (concat (replicate HASHTABLE_SIZE [])))"
    using owns_start[OF heap_ok_empty] by (simp add: empty_table)
  from cleanup_functional[OF pt.ok_empty this, of "\<lambda>_. True"] empty_table(1)[of 7] show ?thesis by auto
qed

text \<open>
  The error path of \<open>find_new_process\<close> leaks: for a process that is alive but whose memory
  map cannot be opened, the call returns NULL and enters nothing, and the strings it had
  allocated for the name and the command line stay allocated.
\<close>
theorem find_new_process_leak:
  "\<exists>h'. find_new_process empty_heap ((example_env True)(7 := (example_env True 7)\<lparr>maps_file := None\<rparr>))
       (replicate HASHTABLE_SIZE []) 7 = Some (h', replicate HASHTABLE_SIZE [], None) \<and>
     live h' 1 = Some 4096 \<and> live h' 2 = Some 3"
  by (simp add: find_new_process_def empty_table(1) malloc_def empty_heap_def Let_def read_proc_file_def
      example_env_def newline_def c_str_def choose_name_def choose_command_def free_str_def strdup_def
      parse_process_memory_maps_def free_block_def)

text \<open>
  \<open>get_process_start_time\<close> reads field 22 of /proc/<pid>/stat only when the command name in
  field 2 has no blank: with a name such as \<open>(a b)\<close> the conversions fail and the start time is
  reported as 0.
\<close>
theorem start_time_blank_in_name:
  "get_process_start_time (Some ''7 (ab) S 1 1 1 0 -1 4 1 1 1 1 1 1 1 1 20 0 1 0 555 9'') = 555 \<and>
   get_process_start_time (Some ''7 (a b) S 1 1 1 0 -1 4 1 1 1 1 1 1 1 1 20 0 1 0 555 9'') = 0"
  by (simp add: get_process_start_time_def stat_format_def skip_decimal_def skip_word_def
      scan_decimal_def scan_sign_def skip_space_def c_isspace_def is_digit_def digit_value_def to_ulong_def
      scan_char_def Let_def)

end
