(* ===== verification/Symbolizer.thy ===== *)
theory Symbolizer
  imports Kernel_Symbols Processes Elf_Lifecycle Config Samples
begin

text \<open>
  From a sample to the line that is stored (src/core/handler.c, symbolize_sample). The function
  looks up the process, resolves every address through the kernel symbols, or through the
  memory map and the ELF cache, and joins the names. The outside world (the files of /proc, the
  files libelf opens) is a parameter. The pointers the code keeps are names here: a process is
  the entry of the table for its id, an ELF object the entry of the cache for its build id.
\<close>

section \<open>Model\<close>

record sym_world =
  w_procs :: proc_env
  w_open :: "string \<Rightarrow> elf_handle option"
  w_note :: note_reader
  w_filter :: filter_mode

record sym_sys =
  sy_heap :: c_heap
  process_table :: process_hash_table
  elf_table :: elf_cache
  kernel_symbols :: "kernel_symbol rbt option"

definition PERF_CONTEXT_MAX :: u64 where
  "PERF_CONTEXT_MAX = - 4095"

definition valid_ips :: "callchain_result \<Rightarrow> u64 list" where
  "valid_ips cc =
     (if cc_ip cc \<noteq> 0 \<and> cc_ip cc < PERF_CONTEXT_MAX then [cc_ip cc] else []) @
     filter (\<lambda>a. a < PERF_CONTEXT_MAX) (take (cc_nr cc) (cc_ips cc))"

definition is_kernel_addr :: "u64 \<Rightarrow> bool" where
  "is_kernel_addr ip \<longleftrightarrow> ip AND 0x8000000000000000 \<noteq> 0"

definition filtered_out :: "filter_mode \<Rightarrow> u64 \<Rightarrow> bool" where
  "filtered_out m ip =
     (case m of
        FILTER_USER \<Rightarrow> is_kernel_addr ip
      | FILTER_KERNEL \<Rightarrow> \<not> is_kernel_addr ip
      | FILTER_ALL \<Rightarrow> False)"

definition shown_name :: "process_info option \<Rightarrow> string" where
  "shown_name p = (case p of None \<Rightarrow> ''unknown'' | Some p \<Rightarrow>
     (case process_name p of None \<Rightarrow> ''unknown'' | Some (b, nm) \<Rightarrow> nm))"

text \<open>The store \<open>vma_info->elf_file = ...\<close>, through the process that is in the table.\<close>

definition set_vma_elf :: "process_hash_table \<Rightarrow> process_info \<Rightarrow> virtual_memory_area \<Rightarrow> string option \<Rightarrow> process_hash_table" where
  "set_vma_elf table p v r =
     ht_update hash_pid process_id table
       (p\<lparr>memory_map_tree := map_rbt (\<lambda>x. if vma_block x = vma_block v then x\<lparr>elf_file := r\<rparr> else x) (memory_map_tree p)\<rparr>)"

text \<open>The ELF object of a region: the one it refers to, or a newly acquired one.\<close>

definition vma_elf :: "sym_world \<Rightarrow> sym_sys \<Rightarrow> pid \<Rightarrow> process_info \<Rightarrow> virtual_memory_area \<Rightarrow>
    (sym_sys \<times> string option) option" where
  "vma_elf w sys pid p v =
     (case elf_file v of
        Some b \<Rightarrow> Some (sys, Some b)
      | None \<Rightarrow>
          do { (h, cache, r) \<leftarrow> find_or_create_elf (sy_heap sys) (w_open w) (w_note w) (elf_table sys) pid (mapping_name v);
               Some (sys\<lparr>sy_heap := h, elf_table := cache, process_table := set_vma_elf (process_table sys) p v r\<rparr>, r) })"

text \<open>The name for an address in user space; the process is known.\<close>

definition user_frame :: "sym_world \<Rightarrow> sym_sys \<Rightarrow> pid \<Rightarrow> process_info \<Rightarrow> u64 \<Rightarrow> (sym_sys \<times> string) option" where
  "user_frame w sys pid p ip =
     (if memory_map_tree p = Leaf then Some (sys, ''[vma_unavailable]'')
      else
        (case find_vma_from_process (Some (memory_map_tree p)) ip of
           None \<Rightarrow> Some (sys, ''[unknown_vma]'')
         | Some v \<Rightarrow>
             (case mapping_name v of
                None \<Rightarrow> Some (sys, clip 512 ''[anonymous]'')
              | Some nm \<Rightarrow>
                  if nm = [] \<or> hd nm = CHR ''['' then Some (sys, clip 512 nm)
                  else
                    do { (sys, r) \<leftarrow> vma_elf w sys pid p v;
                         case r of
                           None \<Rightarrow> Some (sys, clip 512 (''[unknown_elf:'' @ nm @ '']''))
                         | Some b \<Rightarrow>
                             do { obj \<leftarrow> find_elf_in_table (elf_table sys) b;
                                  s \<leftarrow> find_symbol_name_from_elf (Some obj) (get_relative_address ip (Some v));
                                  if length s > 0 then Some (sys, clip 512 s)
                                  else Some (sys, clip 512 (''[unknown_symbol:'' @
                                         (case file_path obj of None \<Rightarrow> ''(null)'' | Some (_, f) \<Rightarrow> f) @ '']'')) } })))"

text \<open>The state of the loop: is the process known, its name, the line so far and its length.\<close>

record walk =
  wk_sys :: sym_sys
  wk_known :: bool
  wk_name :: string
  flame :: string
  flame_len :: nat

abbreviation FLAME_SIZE :: nat where "FLAME_SIZE \<equiv> 16384"

definition add_frame :: "walk \<Rightarrow> string \<Rightarrow> walk" where
  "add_frame wk s =
     (if flame_len wk + length s + 2 < FLAME_SIZE
      then wk\<lparr>flame := flame wk @ '';'' @ s, flame_len := flame_len wk + length s + 1\<rparr>
      else wk)"

text \<open>The append without a check after a recycled process: past the end of the buffer it is a fault.\<close>

definition add_unchecked :: "walk \<Rightarrow> string \<Rightarrow> walk option" where
  "add_unchecked wk s =
     (if length (flame wk) + 1 + length s + 1 \<le> FLAME_SIZE
      then Some (wk\<lparr>flame := flame wk @ '';'' @ s, flame_len := flame_len wk + length s + 1\<rparr>)
      else None)"

definition add_user_frame :: "sym_world \<Rightarrow> pid \<Rightarrow> process_info \<Rightarrow> u64 \<Rightarrow> walk \<Rightarrow> walk option" where
  "add_user_frame w pid p ip wk =
     do { (sys, s) \<leftarrow> user_frame w (wk_sys wk) pid p ip; Some (add_frame (wk\<lparr>wk_sys := sys\<rparr>) s) }"

text \<open>A process whose start time has changed is removed and looked up again.\<close>

definition refresh_process :: "sym_world \<Rightarrow> sym_sys \<Rightarrow> pid \<Rightarrow> (sym_sys \<times> process_info option) option" where
  "refresh_process w sys pid =
     do { (h, table) \<leftarrow> remove_process (sy_heap sys) (process_table sys) pid;
          (h, table, r) \<leftarrow> find_new_process h (w_procs w) table pid;
          Some (sys\<lparr>sy_heap := h, process_table := table\<rparr>, r) }"

definition symbolize_ip :: "sym_world \<Rightarrow> pid \<Rightarrow> u64 \<Rightarrow> walk \<Rightarrow> walk option" where
  "symbolize_ip w pid ip wk =
     (if filtered_out (w_filter w) ip then Some wk
      else if is_kernel_addr ip then
        Some (add_frame wk (clip 512 (find_kernel_symbol (kernel_symbols (wk_sys wk)) ip @ '' [kernel]'')))
      else if \<not> wk_known wk then Some (add_frame wk ''[unknown_process]'')
      else
        do { p \<leftarrow> find_process (process_table (wk_sys wk)) pid;
             if start_time p \<noteq> get_process_start_time (stat_file (w_procs w pid)) then
               do { (sys, r) \<leftarrow> refresh_process w (wk_sys wk) pid;
                    let wk = wk\<lparr>wk_sys := sys, wk_known := r \<noteq> None, wk_name := shown_name r\<rparr> in
                    case r of
                      None \<Rightarrow> add_unchecked wk ''[process_recycled]''
                    | Some p \<Rightarrow> add_user_frame w pid p ip wk }
             else add_user_frame w pid p ip wk })"

fun symbolize_ips :: "sym_world \<Rightarrow> pid \<Rightarrow> u64 list \<Rightarrow> walk \<Rightarrow> walk option" where
  "symbolize_ips w pid [] wk = Some wk"
| "symbolize_ips w pid (ip # ips) wk = do { wk \<leftarrow> symbolize_ip w pid ip wk; symbolize_ips w pid ips wk }"

text \<open>
  The second loop formats the stack with indentation into a buffer that is not used further. Only
  the running length matters: once it exceeds the size, the remaining size wraps around and the
  next \<open>snprintf\<close> writes past the end.
\<close>

definition display_add :: "nat \<Rightarrow> nat \<Rightarrow> nat option" where
  "display_add display_len n = (if display_len \<le> FLAME_SIZE then Some (display_len + n) else None)"

fun display_indent :: "nat \<Rightarrow> nat \<Rightarrow> nat option" where
  "display_indent display_len 0 = Some display_len"
| "display_indent display_len (Suc j) = do { l \<leftarrow> display_add display_len 2; display_indent l j }"

definition display_line :: "sym_sys \<Rightarrow> bool \<Rightarrow> u64 \<Rightarrow> nat" where
  "display_line sys known ip =
     (if is_kernel_addr ip then length (find_kernel_symbol (kernel_symbols sys) ip) + 10
      else if known then 16 else 18)"

fun display_loop :: "sym_sys \<Rightarrow> bool \<Rightarrow> nat \<Rightarrow> u64 list \<Rightarrow> nat \<Rightarrow> nat option" where
  "display_loop sys known i [] display_len = Some display_len"
| "display_loop sys known i (ip # ips) display_len =
     do { l \<leftarrow> display_indent display_len i;
          l \<leftarrow> display_add l (display_line sys known ip);
          display_loop sys known (Suc i) ips l }"

definition format_stack :: "pid \<Rightarrow> string \<Rightarrow> string \<Rightarrow> string" where
  "format_stack pid nm stack = clip (FLAME_SIZE + 256) (print_int (sint pid) @ ''|'' @ nm @ ''|'' @ stack)"

definition symbolize_sample :: "sym_world \<Rightarrow> sym_sys \<Rightarrow> callchain_result \<Rightarrow> (sym_sys \<times> string) option" where
  "symbolize_sample w sys cc =
     do { let pid = cc_pid cc;
          (h, table, r) \<leftarrow> find_new_process (sy_heap sys) (w_procs w) (process_table sys) pid;
          let nm = shown_name r;
          let start = nm @ ''['' @ print_int (sint pid) @ '']'';
          wk \<leftarrow> symbolize_ips w pid (valid_ips cc)
                 \<lparr>wk_sys = sys\<lparr>sy_heap := h, process_table := table\<rparr>, wk_known = (r \<noteq> None), wk_name = nm,
                  flame = clip FLAME_SIZE start, flame_len = length start\<rparr>;
          _ \<leftarrow> display_loop (wk_sys wk) (wk_known wk) 0 (valid_ips cc) 0;
          Some (wk_sys wk, format_stack pid (wk_name wk) (flame wk)) }"

definition realtime_timestamp :: "u64 \<Rightarrow> u64 \<Rightarrow> u64 \<Rightarrow> u64" where
  "realtime_timestamp monotonic_start_ns realtime_start_ns timestamp_ns =
     (if monotonic_start_ns \<noteq> 0 \<and> realtime_start_ns \<noteq> 0
      then timestamp_ns - monotonic_start_ns + realtime_start_ns else timestamp_ns)"

section \<open>The components together\<close>

text \<open>Every symbol has its name, as is the case when memory suffices.\<close>

definition named :: "elf_symbol_collection \<Rightarrow> bool" where
  "named c \<longleftrightarrow> (\<forall>s\<in>set (inorder (symbol_tree c)). symbol_name s \<noteq> None)"

text \<open>The ELF objects the memory maps refer to.\<close>

definition vma_refs :: "process_info \<Rightarrow> string set" where
  "vma_refs p = {b. \<exists>v\<in>set (inorder (memory_map_tree p)). elf_file v = Some b}"

definition elf_refs :: "process_hash_table \<Rightarrow> string set" where
  "elf_refs table = (\<Union>p\<in>set (concat table). vma_refs p)"

text \<open>
  The process table and the ELF cache own their memory side by side, are well formed, and every
  object a region refers to is held in the cache.
\<close>

definition sys_inv :: "(block \<Rightarrow> nat option) \<Rightarrow> block list \<Rightarrow> sym_sys \<Rightarrow> string list \<Rightarrow> bool" where
  "sys_inv base bs sys held \<longleftrightarrow>
     owns base (sy_heap sys) (ptable_blocks (concat (process_table sys)) @ cache_blocks (elf_table sys) @ bs) \<and>
     (\<forall>b. \<not> oom (sy_heap sys) b) \<and> ptable_ok (process_table sys) \<and> cache_ok (elf_table sys) \<and>
     refs_ok (elf_table sys) held \<and> (\<forall>b e. find_elf_in_table (elf_table sys) b = Some e \<longrightarrow> named (symbols e)) \<and>
     elf_refs (process_table sys) \<subseteq> set held"

lemma sys_inv_elf:
  assumes "sys_inv base bs sys held"
  shows "elf_inv (\<lambda>_. named) (\<lambda>_. False) base (ptable_blocks (concat (process_table sys)) @ bs) (sy_heap sys) (elf_table sys) held"
proof -
  have "owns base (sy_heap sys) (cache_blocks (elf_table sys) @ ptable_blocks (concat (process_table sys)) @ bs)"
    by (rule owns_perm[of _ _ "ptable_blocks (concat (process_table sys)) @ cache_blocks (elf_table sys) @ bs"])
      (use assms in \<open>simp_all add: sys_inv_def\<close>)
  moreover have "oom (sy_heap sys) = (\<lambda>_. False)" using assms by (auto simp: sys_inv_def)
  ultimately show ?thesis using assms by (simp add: sys_inv_def elf_inv_def)
qed

lemma files_ok_named:
  assumes "\<And>p e. elf_open p = Some e \<Longrightarrow> sane_elf e"
  shows "files_ok (\<lambda>_. named) (\<lambda>_. False) elf_open getnote"
  unfolding files_ok_def
proof (intro allI impI conjI)
  fix p e assume e: "elf_open p = Some e"
  then show "sane_elf e" by (rule assms)
  fix b c assume "built_from (\<lambda>_. False) e c"
  then have m: "mset (map sdata (inorder (symbol_tree c))) = mset (map gdata (elf_functions e))" by (simp add: built_from_def)
  have fn: "st_name g \<noteq> None" if "g \<in> set (elf_functions e)" for g
  proof -
    from that obtain sec where sec: "sec \<in> set (sections e)" "symbol_section sec" "g \<in> set (the (section_symbols sec))" "is_function g"
      by (auto simp: elf_functions_def)
    with assms[OF e] show ?thesis by (auto simp: sane_elf_def sane_section_def)
  qed
  show "named c"
    unfolding named_def
  proof
    fix s assume "s \<in> set (inorder (symbol_tree c))"
    then have "sdata s \<in> set (map gdata (elf_functions e))" using m by (metis image_eqI list.set_map mset_eq_setD)
    then obtain g where "g \<in> set (elf_functions e)" "sdata s = gdata g" by auto
    with fn[of g] show "symbol_name s \<noteq> None" by (auto simp: sdata_def gdata_def)
  qed
qed

text \<open>A memory map that was just read refers to no ELF object.\<close>

lemma insert_vma_set: "set (inorder (insert_vma t v)) \<subseteq> insert v (set (inorder t))"
proof -
  have "find_link (vma_turn v) t k \<noteq> None" for k by (induction t arbitrary: k) (auto simp: vma_turn_def)
  then obtain t' where t': "tree_insert (vma_turn v) v t = Some t'" by (fastforce simp: tree_insert_def)
  from tree_insert_Some(2)[OF this] obtain xs ys where "inorder t = xs @ ys" "inorder t' = xs @ v # ys" by blast
  with t' show ?thesis by (auto simp: insert_vma_def)
qed

lemma parse_maps_loop_elf:
  "parse_maps_loop h t lines = (h', t', rc) \<Longrightarrow> \<forall>v\<in>set (inorder t). elf_file v = None \<Longrightarrow> \<forall>v\<in>set (inorder t'). elf_file v = None"
proof (induction h t lines rule: parse_maps_loop.induct)
  case (2 h t line lines)
  obtain h1 r where l: "parse_maps_line h t line = (h1, r)" by (cases "parse_maps_line h t line")
  show ?case
  proof (cases r)
    case None
    with 2 l show ?thesis by auto
  next
    case (Some t1)
    with l obtain v where "t1 = insert_vma t v" "elf_file v = None"
      by (auto simp: parse_maps_line_def Let_def split: prod.splits option.splits)
    with insert_vma_set[of t v] "2.prems"(2) have "\<forall>v\<in>set (inorder t1). elf_file v = None" by blast
    with 2 l Some show ?thesis by auto
  qed
qed simp

lemma find_new_process_refs:
  assumes "find_new_process h env table pid = Some (h', table', r)" and "ptable_ok table"
  shows "elf_refs table' \<subseteq> elf_refs table"
proof (cases "table' = table")
  case False
  with assms(1) obtain p h1 h2 rc where p: "table' = ht_insert hash_pid process_id table p"
      "parse_process_memory_maps h1 Leaf (maps_file (env pid)) = (h2, memory_map_tree p, rc)"
    by (auto simp: find_new_process_def Let_def split: option.splits prod.splits bind_splits if_splits)
  then have "\<forall>v\<in>set (inorder (memory_map_tree p)). elf_file v = None"
    using parse_maps_loop_elf by (auto simp: parse_process_memory_maps_def split: option.splits)
  then have "vma_refs p = {}" by (auto simp: vma_refs_def)
  moreover have "set (concat table') \<subseteq> insert p (set (concat table))"
  proof -
    let ?i = "hash_pid (process_id p)"
    have i: "?i < length table" using hash_pid_bound[of "process_id p"] assms(2) by (simp add: ht_ok_def)
    have "set (table[?i := p # table ! ?i]) \<subseteq> insert (p # table ! ?i) (set table)" by (rule set_update_subset_insert)
    moreover have "table ! ?i \<in> set table" using i by simp
    ultimately show ?thesis unfolding p(1) ht_insert_def Let_def by auto
  qed
  ultimately show ?thesis unfolding elf_refs_def by blast
qed simp

lemma remove_process_refs:
  assumes "remove_process h table pid = Some (h', table')" and "ptable_ok table"
  shows "elf_refs table' \<subseteq> elf_refs table"
proof -
  have "table' = table \<or> table' = ht_remove hash_pid process_id table pid"
    using assms(1) by (auto simp: remove_process_def split: option.splits bind_splits)
  moreover have "set (concat (ht_remove hash_pid process_id table pid)) \<subseteq> set (concat table)"
  proof -
    let ?c = "unlink (\<lambda>e. process_id e = pid) (table ! hash_pid pid)"
    have i: "table ! hash_pid pid \<in> set table" using hash_pid_bound[of pid] assms(2) by (simp add: ht_ok_def)
    have "set (table[hash_pid pid := ?c]) \<subseteq> insert ?c (set table)" by (rule set_update_subset_insert)
    with set_unlink[of "\<lambda>e. process_id e = pid" "table ! hash_pid pid"] i show ?thesis
      unfolding ht_remove_def by auto
  qed
  ultimately show ?thesis unfolding elf_refs_def by blast
qed

text \<open>Storing an ELF pointer in a region changes neither the table nor its memory.\<close>

lemma inorder_map_rbt [simp]: "inorder (map_rbt f t) = map f (inorder t)"
  by (induction t) auto

lemma set_vma_elf_ok:
  assumes "ptable_ok table" and "find_process table pid = Some p"
  shows "ptable_ok (set_vma_elf table p v r)" "ptable_blocks (concat (set_vma_elf table p v r)) = ptable_blocks (concat table)"
    "\<exists>q. find_process (set_vma_elf table p v r) = (find_process table)(pid \<mapsto> q)"
    "elf_refs (set_vma_elf table p v r) \<subseteq> elf_refs table \<union> set_option r"
proof -
  let ?f = "\<lambda>x. if vma_block x = vma_block v then x\<lparr>elf_file := r\<rparr> else x"
  let ?q = "p\<lparr>memory_map_tree := map_rbt ?f (memory_map_tree p)\<rparr>" and ?i = "hash_pid pid"
  have pid: "process_id p = pid" "p \<in> set (concat table)"
    using assms pt.find_entries[OF assms(1), of pid p] by (auto simp: find_process_def)
  have nn: "ht_find hash_pid process_id table (process_id ?q) \<noteq> None"
    using assms(2) pid by (simp add: find_process_def)
  note up = pt.update_ok[OF assms(1) nn]
  show "ptable_ok (set_vma_elf table p v r)" using up(1) by (simp add: set_vma_elf_def)
  show "\<exists>q. find_process (set_vma_elf table p v r) = (find_process table)(pid \<mapsto> q)"
    using up(2) pid by (intro exI[of _ ?q]) (auto simp: set_vma_elf_def find_process_def fun_eq_iff)
  have bk: "distinct (map process_id (table ! ?i))" "?i < length table" using pt.bucket_ok[OF assms(1), of pid] by auto
  have "vma_blocks (?f x) = vma_blocks x" for x by (simp add: vma_blocks_def)
  then have "vma_blocks \<circ> ?f = vma_blocks" by (simp only: fun_eq_iff comp_apply) blast
  then have pb: "process_blocks ?q = process_blocks p"
    by (simp add: process_blocks_def tree_blocks_def del: comp_apply)
  have same: "process_blocks (if process_id x = pid then ?q else x) = process_blocks x" if "x \<in> set (table ! ?i)" for x
    using that assms(2) find_key[OF bk(1), of pid x] find_key[OF bk(1), of pid p] pb
    by (auto simp: find_process_def ht_find_def)
  have sv: "set_vma_elf table p v r = table[?i := map (\<lambda>x. if process_id x = pid then ?q else x) (table ! ?i)]"
    by (simp add: set_vma_elf_def ht_update_def pid)
  show "ptable_blocks (concat (set_vma_elf table p v r)) = ptable_blocks (concat table)"
  proof -
    let ?c = "map (\<lambda>x. if process_id x = pid then ?q else x) (table ! ?i)"
    have c: "map process_blocks ?c = map process_blocks (table ! ?i)" using same by simp
    have cb: "ptable_blocks (concat tbl) = concat (map (\<lambda>es. concat (map process_blocks es)) tbl)" for tbl
      by (induction tbl) auto
    have "map (\<lambda>es. concat (map process_blocks es)) (table[?i := ?c]) = map (\<lambda>es. concat (map process_blocks es)) table"
      unfolding map_update c using bk(2) by (metis (no_types, lifting) list_update_id nth_map)
    then show ?thesis unfolding sv cb by simp
  qed
  show "elf_refs (set_vma_elf table p v r) \<subseteq> elf_refs table \<union> set_option r"
  proof -
    have q: "vma_refs ?q \<subseteq> vma_refs p \<union> set_option r" by (auto simp: vma_refs_def split: if_splits)
    have "set (concat (set_vma_elf table p v r)) \<subseteq> insert ?q (set (concat table))"
    proof -
      let ?c = "map (\<lambda>x. if process_id x = pid then ?q else x) (table ! ?i)"
      have "set (table[?i := ?c]) \<subseteq> insert ?c (set table)" by (rule set_update_subset_insert)
      moreover have "table ! ?i \<in> set table" using bk(2) by simp
      then have "set ?c \<subseteq> insert ?q (set (concat table))" by auto
      ultimately show ?thesis unfolding sv by (simp only: set_concat) blast
    qed
    with q pid(2) show ?thesis unfolding elf_refs_def by blast
  qed
qed

lemma vma_elf_ok:
  assumes inv: "sys_inv base bs sys held" and p: "find_process (process_table sys) pid = Some p"
    and v: "v \<in> set (inorder (memory_map_tree p))" and files: "\<And>p e. w_open w p = Some e \<Longrightarrow> sane_elf e"
  shows "\<exists>sys' r held'. vma_elf w sys pid p v = Some (sys', r) \<and> sys_inv base bs sys' held' \<and>
    (\<forall>b. r = Some b \<longrightarrow> b \<in> set held') \<and> kernel_symbols sys' = kernel_symbols sys \<and>
    find_process (process_table sys') pid \<noteq> None"
proof (cases "elf_file v")
  case (Some b)
  have "p \<in> set (concat (process_table sys))"
    using inv p pt.find_entries[of "process_table sys" pid p] by (auto simp: sys_inv_def find_process_def)
  then have "b \<in> elf_refs (process_table sys)" using v Some by (auto simp: elf_refs_def vma_refs_def)
  then have "b \<in> set held" using inv by (auto simp: sys_inv_def)
  with Some inv p show ?thesis by (auto simp: vma_elf_def)
next
  case None
  from find_or_create_ok[OF sys_inv_elf[OF inv] files_ok_named, of "w_open w" "w_note w" pid "mapping_name v"] files
  obtain h' c' r where
    f: "find_or_create_elf (sy_heap sys) (w_open w) (w_note w) (elf_table sys) pid (mapping_name v) = Some (h', c', r)"
      "elf_inv (\<lambda>_. named) (\<lambda>_. False) base (ptable_blocks (concat (process_table sys)) @ bs) h' c'
         (case r of None \<Rightarrow> held | Some b \<Rightarrow> b # held)" by blast
  let ?held = "case r of None \<Rightarrow> held | Some b \<Rightarrow> b # held"
  let ?sys = "sys\<lparr>sy_heap := h', elf_table := c', process_table := set_vma_elf (process_table sys) p v r\<rparr>"
  have tb: "ptable_ok (process_table sys)" using inv by (simp add: sys_inv_def)
  note sv = set_vma_elf_ok[OF tb p, of v r]
  have e: "owns base h' (cache_blocks c' @ ptable_blocks (concat (process_table sys)) @ bs)" "oom h' = (\<lambda>_. False)" "cache_ok c'"
      "refs_ok c' ?held" "\<forall>b e. find_elf_in_table c' b = Some e \<longrightarrow> named (symbols e)"
    using f(2) by (auto simp: elf_inv_def)
  have "owns base h' (ptable_blocks (concat (process_table ?sys)) @ cache_blocks c' @ bs)"
    by (rule owns_perm[OF e(1)]) (simp add: sv(2))
  moreover have "elf_refs (process_table ?sys) \<subseteq> set ?held"
    using sv(4) inv by (cases r) (auto simp: sys_inv_def)
  ultimately have "sys_inv base bs ?sys ?held" using e(2-5) sv(1) by (simp add: sys_inv_def)
  moreover have "vma_elf w sys pid p v = Some (?sys, r)" using None f(1) by (simp add: vma_elf_def)
  moreover have "find_process (process_table ?sys) pid \<noteq> None" using sv(3) by auto
  moreover have "\<forall>b. r = Some b \<longrightarrow> b \<in> set ?held" by auto
  ultimately show ?thesis by (intro exI[of _ ?sys] exI[of _ r] exI[of _ ?held]) simp
qed

lemma find_symbol_named:
  assumes "named (symbols obj)"
  shows "\<exists>s. find_symbol_name_from_elf (Some obj) a = Some s"
proof (cases "rb_search_symbol (symbol_tree (symbols obj)) a")
  case (Some g)
  then have "g \<in> set (inorder (symbol_tree (symbols obj)))"
    using ei.search_sound[of a "symbol_tree (symbols obj)" g] by (simp add: rb_search_symbol_def)
  with assms have "symbol_name g \<noteq> None" by (auto simp: named_def)
  with Some show ?thesis by (auto simp: find_symbol_name_from_elf_def)
qed (simp add: find_symbol_name_from_elf_def)

lemma user_frame_ok:
  assumes inv: "sys_inv base bs sys held" and p: "find_process (process_table sys) pid = Some p"
    and files: "\<And>p e. w_open w p = Some e \<Longrightarrow> sane_elf e"
  shows "\<exists>sys' s held'. user_frame w sys pid p ip = Some (sys', s) \<and> sys_inv base bs sys' held' \<and>
    length s < 512 \<and> kernel_symbols sys' = kernel_symbols sys \<and> find_process (process_table sys') pid \<noteq> None"
proof -
  have stay: ?thesis if "user_frame w sys pid p ip = Some (sys, s)" "length s < 512" for s
    using that inv p by auto
  show ?thesis
  proof (cases "memory_map_tree p = Leaf")
    case True
    then show ?thesis by (intro stay[of "''[vma_unavailable]''"]) (simp_all add: user_frame_def)
  next
    case nl: False
    show ?thesis
    proof (cases "find_vma_from_process (Some (memory_map_tree p)) ip")
      case None
      with nl show ?thesis by (intro stay[of "''[unknown_vma]''"]) (simp_all add: user_frame_def)
    next
      case v: (Some v)
      have vin: "v \<in> set (inorder (memory_map_tree p))"
        using v vs.search_sound[of ip "memory_map_tree p" v] by (simp add: find_vma_from_process_def)
      show ?thesis
      proof (cases "\<exists>nm. mapping_name v = Some nm \<and> nm \<noteq> [] \<and> hd nm \<noteq> CHR ''[''")
        case False
        then obtain s where "user_frame w sys pid p ip = Some (sys, clip 512 s)"
          using nl v by (cases "mapping_name v") (auto simp: user_frame_def)
        from stay[OF this] clip_length[of 512 s] show ?thesis by simp
      next
        case True
        then obtain nm where nm: "mapping_name v = Some nm" "\<not> (nm = [] \<or> hd nm = CHR ''['')" by auto
        from vma_elf_ok[OF inv p vin, where w = w] files obtain sys' r held' where
          e: "vma_elf w sys pid p v = Some (sys', r)" "sys_inv base bs sys' held'" "\<forall>b. r = Some b \<longrightarrow> b \<in> set held'"
            "kernel_symbols sys' = kernel_symbols sys" "find_process (process_table sys') pid \<noteq> None" by blast
        have "\<exists>s. user_frame w sys pid p ip = Some (sys', clip 512 s)"
        proof (cases r)
          case None
          with nl v nm e(1) show ?thesis by (auto simp: user_frame_def)
        next
          case (Some b)
          with e(3) have "b \<in> set held'" by simp
          with e(2) obtain obj where o: "find_elf_in_table (elf_table sys') b = Some obj" "named (symbols obj)"
            unfolding sys_inv_def refs_ok_def by (cases "find_elf_in_table (elf_table sys') b") (auto dest!: spec[of _ b])
          from find_symbol_named[OF o(2)] obtain s where "find_symbol_name_from_elf (Some obj) (get_relative_address ip (Some v)) = Some s" by blast
          with nl v nm e(1) Some o(1) show ?thesis by (cases "length s > 0") (auto simp: user_frame_def)
        qed
        with e(2,4,5) clip_length[of 512] show ?thesis by fastforce
      qed
    qed
  qed
qed

text \<open>Looking a process up, and looking it up again, keep the system well formed.\<close>

lemma sys_inv_processes:
  assumes "sys_inv base bs sys held" and "owns base h (ptable_blocks (concat table) @ cache_blocks (elf_table sys) @ bs)"
    and "ptable_ok table" and "oom h = oom (sy_heap sys)" and "elf_refs table \<subseteq> elf_refs (process_table sys)"
  shows "sys_inv base bs (sys\<lparr>sy_heap := h, process_table := table\<rparr>) held"
  using assms by (auto simp: sys_inv_def)

lemma lookup_ok:
  assumes inv: "sys_inv base bs sys held" and nl: "\<not> leaks (w_procs w) pid"
  shows "\<exists>h table r. find_new_process (sy_heap sys) (w_procs w) (process_table sys) pid = Some (h, table, r) \<and>
    sys_inv base bs (sys\<lparr>sy_heap := h, process_table := table\<rparr>) held \<and>
    (r = None \<longrightarrow> find_process (process_table sys) pid = None \<and> \<not> alive (w_procs w pid)) \<and>
    (\<forall>p. r = Some p \<longrightarrow> find_process table pid = Some p)"
proof -
  have i: "owns base (sy_heap sys) (ptable_blocks (concat (process_table sys)) @ cache_blocks (elf_table sys) @ bs)"
      "ptable_ok (process_table sys)" "\<forall>b. \<not> oom (sy_heap sys) b"
    using inv by (auto simp: sys_inv_def)
  from find_new_process_ok[OF i nl] obtain h table r where
    f: "find_new_process (sy_heap sys) (w_procs w) (process_table sys) pid = Some (h, table, r)"
      "owns base h (ptable_blocks (concat table) @ cache_blocks (elf_table sys) @ bs)" "ptable_ok table" "oom h = oom (sy_heap sys)"
      "r = None \<longrightarrow> find_process (process_table sys) pid = None \<and> \<not> alive (w_procs w pid)"
      "\<forall>p. r = Some p \<longrightarrow> find_process table = (find_process (process_table sys))(pid \<mapsto> p)" by blast
  from sys_inv_processes[OF inv f(2-4) find_new_process_refs[OF f(1) i(2)]] f(1,5,6) show ?thesis by auto
qed

lemma dead_not_entered:
  assumes "find_new_process h env table pid = Some (h', table', r)" and "\<not> alive (env pid)" and "find_process table pid = None"
  shows "r = None"
  using assms by (auto simp: find_new_process_def Let_def split: prod.splits option.splits bind_splits if_splits)

lemma refresh_ok:
  assumes inv: "sys_inv base bs sys held" and "\<not> leaks (w_procs w) pid" and "alive (w_procs w pid)"
  shows "\<exists>sys' p. refresh_process w sys pid = Some (sys', Some p) \<and> sys_inv base bs sys' held \<and>
    kernel_symbols sys' = kernel_symbols sys \<and> find_process (process_table sys') pid = Some p"
proof -
  have i: "owns base (sy_heap sys) (ptable_blocks (concat (process_table sys)) @ cache_blocks (elf_table sys) @ bs)"
      "ptable_ok (process_table sys)" using inv by (auto simp: sys_inv_def)
  from remove_process_ok[OF i, of pid] obtain h1 t1 where
    r1: "remove_process (sy_heap sys) (process_table sys) pid = Some (h1, t1)"
      "owns base h1 (ptable_blocks (concat t1) @ cache_blocks (elf_table sys) @ bs)" "ptable_ok t1" "oom h1 = oom (sy_heap sys)" by blast
  let ?sys = "sys\<lparr>sy_heap := h1, process_table := t1\<rparr>"
  have "sys_inv base bs ?sys held" using sys_inv_processes[OF inv r1(2-4) remove_process_refs[OF r1(1) i(2)]] .
  from lookup_ok[OF this assms(2)] obtain h2 t2 r where
    r2: "find_new_process h1 (w_procs w) t1 pid = Some (h2, t2, r)"
      "sys_inv base bs (?sys\<lparr>sy_heap := h2, process_table := t2\<rparr>) held"
      "r = None \<longrightarrow> \<not> alive (w_procs w pid)" "\<forall>p. r = Some p \<longrightarrow> find_process t2 pid = Some p" by auto
  from r2(3) assms(3) obtain p where p: "r = Some p" by (cases r) auto
  have "refresh_process w sys pid = Some (sys\<lparr>sy_heap := h2, process_table := t2\<rparr>, Some p)"
    using r1(1) r2(1) p by (simp add: refresh_process_def)
  with r2(2,4) p show ?thesis by auto
qed

text \<open>
  Between two addresses: the system is well formed, a known process is in the table, and the line
  is the start followed by frames of bounded size, within the buffer. Once the start alone
  exceeds the buffer, the recorded length keeps every frame out.
\<close>

definition frames :: "string list \<Rightarrow> string" where
  "frames fs = concat (map (\<lambda>f. '';'' @ f) fs)"

lemma frames_append [simp]: "frames (fs @ [f]) = frames fs @ '';'' @ f"
  by (simp add: frames_def)

definition walk_inv :: "(block \<Rightarrow> nat option) \<Rightarrow> block list \<Rightarrow> sym_world \<Rightarrow> pid \<Rightarrow> string \<Rightarrow> nat \<Rightarrow> walk \<Rightarrow> bool" where
  "walk_inv base bs w pid start n wk \<longleftrightarrow>
     (\<exists>held. sys_inv base bs (wk_sys wk) held) \<and>
     (wk_known wk \<longrightarrow> find_process (process_table (wk_sys wk)) pid \<noteq> None \<and> alive (w_procs w pid)) \<and>
     (\<exists>fs. flame wk = clip FLAME_SIZE start @ frames fs \<and> (\<forall>f\<in>set fs. length f < 512) \<and> length fs \<le> n) \<and>
     length (flame wk) < FLAME_SIZE \<and> (flame_len wk = length (flame wk) \<or> FLAME_SIZE \<le> flame_len wk)"

lemma add_frame_ok:
  assumes "walk_inv base bs w pid start n wk" and "length s < 512"
  shows "walk_inv base bs w pid start (Suc n) (add_frame wk s)"
proof -
  from assms(1) obtain fs where fs: "flame wk = clip FLAME_SIZE start @ frames fs" "\<forall>f\<in>set fs. length f < 512" "length fs \<le> n"
    unfolding walk_inv_def by blast
  show ?thesis
  proof (cases "flame_len wk + length s + 2 < FLAME_SIZE")
    case True
    then have l: "flame_len wk = length (flame wk)" using assms(1) by (auto simp: walk_inv_def)
    have "flame (add_frame wk s) = clip FLAME_SIZE start @ frames (fs @ [s])" "\<forall>f\<in>set (fs @ [s]). length f < 512"
      "length (fs @ [s]) \<le> Suc n"
      using True fs assms(2) by (auto simp: add_frame_def)
    then have "\<exists>fs. flame (add_frame wk s) = clip FLAME_SIZE start @ frames fs \<and> (\<forall>f\<in>set fs. length f < 512) \<and> length fs \<le> Suc n"
      by blast
    with True l assms(1) show ?thesis unfolding walk_inv_def by (auto simp: add_frame_def)
  next
    case False
    with fs assms(1) le_SucI[OF fs(3)] show ?thesis unfolding walk_inv_def by (auto simp: add_frame_def)
  qed
qed

lemma walk_inv_mono: "walk_inv base bs w pid start n wk \<Longrightarrow> n \<le> m \<Longrightarrow> walk_inv base bs w pid start m wk"
  unfolding walk_inv_def by (meson order_trans)

lemma add_user_frame_ok:
  assumes wi: "walk_inv base bs w pid start n wk" and inv: "sys_inv base bs (wk_sys wk) held"
    and p: "find_process (process_table (wk_sys wk)) pid = Some p"
    and files: "\<And>p e. w_open w p = Some e \<Longrightarrow> sane_elf e"
  shows "\<exists>wk'. add_user_frame w pid p ip wk = Some wk' \<and> walk_inv base bs w pid start (Suc n) wk' \<and>
    kernel_symbols (wk_sys wk') = kernel_symbols (wk_sys wk)"
proof -
  from user_frame_ok[OF inv p, where w = w and ip = ip] files obtain sys' s held' where
    u: "user_frame w (wk_sys wk) pid p ip = Some (sys', s)" "sys_inv base bs sys' held'" "length s < 512"
      "kernel_symbols sys' = kernel_symbols (wk_sys wk)" "find_process (process_table sys') pid \<noteq> None" by blast
  have "walk_inv base bs w pid start n (wk\<lparr>wk_sys := sys'\<rparr>)" using wi u(2,5) unfolding walk_inv_def by auto
  from add_frame_ok[OF this u(3)] u(1,4) show ?thesis by (auto simp: add_user_frame_def add_frame_def)
qed

lemma symbolize_ip_ok:
  assumes wi: "walk_inv base bs w pid start n wk" and nl: "\<not> leaks (w_procs w) pid"
    and files: "\<And>p e. w_open w p = Some e \<Longrightarrow> sane_elf e"
  shows "\<exists>wk'. symbolize_ip w pid ip wk = Some wk' \<and> walk_inv base bs w pid start (Suc n) wk' \<and>
    kernel_symbols (wk_sys wk') = kernel_symbols (wk_sys wk)"
proof -
  consider (skip) "filtered_out (w_filter w) ip" | (kernel) "\<not> filtered_out (w_filter w) ip" "is_kernel_addr ip"
    | (unknown) "\<not> filtered_out (w_filter w) ip" "\<not> is_kernel_addr ip" "\<not> wk_known wk"
    | (user) "\<not> filtered_out (w_filter w) ip" "\<not> is_kernel_addr ip" "wk_known wk" by blast
  then show ?thesis
  proof cases
    case skip
    with walk_inv_mono[OF wi, of "Suc n"] show ?thesis by (simp add: symbolize_ip_def)
  next
    case kernel
    with add_frame_ok[OF wi clip_length[of 512]] show ?thesis by (simp add: symbolize_ip_def) (simp add: add_frame_def)
  next
    case unknown
    with add_frame_ok[OF wi, of "''[unknown_process]''"] show ?thesis by (simp add: symbolize_ip_def) (simp add: add_frame_def)
  next
    case user
    with wi obtain p held where p: "find_process (process_table (wk_sys wk)) pid = Some p" "alive (w_procs w pid)"
        "sys_inv base bs (wk_sys wk) held" by (auto simp: walk_inv_def)
    show ?thesis
    proof (cases "start_time p = get_process_start_time (stat_file (w_procs w pid))")
      case True
      then have "symbolize_ip w pid ip wk = add_user_frame w pid p ip wk" using user p by (simp add: symbolize_ip_def)
      with add_user_frame_ok[OF wi p(3,1), where ip = ip] files show ?thesis by auto
    next
      case False
      from refresh_ok[OF p(3) nl p(2)] obtain sys' q where
        r: "refresh_process w (wk_sys wk) pid = Some (sys', Some q)" "sys_inv base bs sys' held"
          "kernel_symbols sys' = kernel_symbols (wk_sys wk)" "find_process (process_table sys') pid = Some q" by blast
      let ?wk = "wk\<lparr>wk_sys := sys', wk_known := True, wk_name := shown_name (Some q)\<rparr>"
      have "walk_inv base bs w pid start n ?wk" using wi r(2,4) p(2) unfolding walk_inv_def by auto
      moreover have "symbolize_ip w pid ip wk = add_user_frame w pid q ip ?wk"
        using user p False r(1) by (simp add: symbolize_ip_def)
      ultimately show ?thesis using add_user_frame_ok[of base bs w pid start n ?wk held q ip] r files by auto
    qed
  qed
qed

lemma symbolize_ips_ok:
  assumes "walk_inv base bs w pid start n wk" and "\<not> leaks (w_procs w) pid"
    and files: "\<And>p e. w_open w p = Some e \<Longrightarrow> sane_elf e"
  shows "\<exists>wk'. symbolize_ips w pid ips wk = Some wk' \<and> walk_inv base bs w pid start (n + length ips) wk' \<and>
    kernel_symbols (wk_sys wk') = kernel_symbols (wk_sys wk)"
  using assms(1)
proof (induction ips arbitrary: wk n)
  case (Cons ip ips)
  from symbolize_ip_ok[OF Cons.prems assms(2), where ip = ip] files obtain wk1 where
    1: "symbolize_ip w pid ip wk = Some wk1" "walk_inv base bs w pid start (Suc n) wk1"
      "kernel_symbols (wk_sys wk1) = kernel_symbols (wk_sys wk)" by auto
  from Cons.IH[OF 1(2)] 1 show ?case by auto
qed auto

section \<open>The display buffer\<close>

text \<open>The bytes the second loop formats, from the frame at depth \<open>i\<close> on.\<close>

fun display_need :: "sym_sys \<Rightarrow> bool \<Rightarrow> nat \<Rightarrow> u64 list \<Rightarrow> nat" where
  "display_need sys known i [] = 0"
| "display_need sys known i (ip # ips) = 2 * i + display_line sys known ip + display_need sys known (Suc i) ips"

lemma display_indent_ok: "d + 2 * j \<le> FLAME_SIZE \<Longrightarrow> display_indent d j = Some (d + 2 * j)"
  by (induction j arbitrary: d) (auto simp: display_add_def)

lemma display_loop_ok:
  "d + display_need sys known i ips \<le> FLAME_SIZE \<Longrightarrow> display_loop sys known i ips d = Some (d + display_need sys known i ips)"
  by (induction ips arbitrary: i d) (auto simp: display_indent_ok display_add_def)

lemma display_indent_Some: "display_indent d j = Some e \<Longrightarrow> e = d + 2 * j"
  by (induction j arbitrary: d) (fastforce simp: display_add_def split: if_splits)+

lemma display_line_pos: "10 \<le> display_line sys known ip"
  by (simp add: display_line_def)

text \<open>When the loop gets through, all but the last line fit.\<close>

lemma display_loop_Some:
  "display_loop sys known i (ips @ [ip]) d = Some e \<Longrightarrow> d + 2 * i + length ips * (2 * i + 11 + length ips) \<le> FLAME_SIZE"
proof (induction ips arbitrary: i d)
  case Nil
  then show ?case by (auto simp: display_add_def dest!: display_indent_Some split: bind_splits if_splits)
next
  case (Cons a ips)
  then have "display_loop sys known (Suc i) (ips @ [ip]) (d + 2 * i + display_line sys known a) = Some e"
    by (auto simp: display_add_def dest!: display_indent_Some split: bind_splits if_splits)
  from Cons.IH[OF this] display_line_pos[of sys known a]
  have "d + 2 * i + 10 + 2 * Suc i + length ips * (2 * Suc i + 11 + length ips) \<le> FLAME_SIZE" by linarith
  then show ?case by (simp add: algebra_simps)
qed

section \<open>Properties\<close>

lemma walk_start_ok:
  assumes "sys_inv base bs sys held" and "known \<longrightarrow> find_process (process_table sys) pid \<noteq> None \<and> alive (w_procs w pid)"
  shows "walk_inv base bs w pid start 0 \<lparr>wk_sys = sys, wk_known = known, wk_name = nm, flame = clip FLAME_SIZE start, flame_len = length start\<rparr>"
proof -
  have "length (clip FLAME_SIZE start) = length start \<or> FLAME_SIZE \<le> length start" by (auto simp: clip_def)
  moreover have "clip FLAME_SIZE start @ frames [] = clip FLAME_SIZE start" by (simp add: frames_def)
  ultimately show ?thesis using assms clip_length[of FLAME_SIZE start] unfolding walk_inv_def by auto
qed

lemma symbolize_sample_ok:
  assumes "sys_inv base bs sys held" and "\<forall>p e. w_open w p = Some e \<longrightarrow> sane_elf e"
    and "alive (w_procs w (cc_pid cc)) \<or> find_process (process_table sys) (cc_pid cc) = None"
    and "\<not> leaks (w_procs w) (cc_pid cc)"
    and "\<forall>known. display_need sys known 0 (valid_ips cc) \<le> FLAME_SIZE"
  shows "\<exists>sys' held' nm0 nm fs. sys_inv base bs sys' held' \<and> kernel_symbols sys' = kernel_symbols sys \<and>
    (let stack = clip FLAME_SIZE (nm0 @ ''['' @ print_int (sint (cc_pid cc)) @ '']'') @ frames fs
     in symbolize_sample w sys cc = Some (sys', format_stack (cc_pid cc) nm stack) \<and>
        length stack < FLAME_SIZE \<and> length fs \<le> length (valid_ips cc) \<and> (\<forall>f\<in>set fs. length f < 512))"
proof -
  let ?pid = "cc_pid cc" and ?ips = "valid_ips cc"
  from lookup_ok[OF assms(1,4)] obtain h table r where
    f: "find_new_process (sy_heap sys) (w_procs w) (process_table sys) ?pid = Some (h, table, r)"
      "sys_inv base bs (sys\<lparr>sy_heap := h, process_table := table\<rparr>) held"
      "r = None \<longrightarrow> find_process (process_table sys) ?pid = None \<and> \<not> alive (w_procs w ?pid)"
      "\<forall>p. r = Some p \<longrightarrow> find_process table ?pid = Some p" by blast
  have dead: "r = None" if "\<not> alive (w_procs w ?pid)" using dead_not_entered[OF f(1) that] assms(3) that by auto
  let ?sys = "sys\<lparr>sy_heap := h, process_table := table\<rparr>"
  let ?start = "shown_name r @ ''['' @ print_int (sint ?pid) @ '']''"
  let ?wk = "\<lparr>wk_sys = ?sys, wk_known = (r \<noteq> None), wk_name = shown_name r, flame = clip FLAME_SIZE ?start, flame_len = length ?start\<rparr>"
  have "r \<noteq> None \<longrightarrow> find_process (process_table ?sys) ?pid \<noteq> None \<and> alive (w_procs w ?pid)" using f(4) dead by auto
  from walk_start_ok[OF f(2) this] have "walk_inv base bs w ?pid ?start 0 ?wk" .
  from symbolize_ips_ok[OF this assms(4), of ?ips] assms(2) obtain wk where
    s: "symbolize_ips w ?pid ?ips ?wk = Some wk" "walk_inv base bs w ?pid ?start (0 + length ?ips) wk"
      "kernel_symbols (wk_sys wk) = kernel_symbols sys" by auto
  from s(2) obtain held' fs where wk: "sys_inv base bs (wk_sys wk) held'" "flame wk = clip FLAME_SIZE ?start @ frames fs"
      "\<forall>f\<in>set fs. length f < 512" "length fs \<le> length ?ips" "length (flame wk) < FLAME_SIZE"
    by (auto simp: walk_inv_def)
  have dl: "display_line (wk_sys wk) known ip = display_line sys known ip" for known ip by (simp add: display_line_def s(3))
  have "display_need (wk_sys wk) known i ips = display_need sys known i ips" for known i ips
    by (induction ips arbitrary: i) (simp_all add: dl)
  then have "display_loop (wk_sys wk) (wk_known wk) 0 ?ips 0 \<noteq> None"
    using display_loop_ok[of 0 "wk_sys wk" "wk_known wk" 0 ?ips] assms(5) by simp
  then have "symbolize_sample w sys cc = Some (wk_sys wk, format_stack ?pid (wk_name wk) (flame wk))"
    using f(1) s(1) by (auto simp: symbolize_sample_def Let_def)
  with wk show ?thesis by (intro exI[of _ "wk_sys wk"] exI[of _ held'] exI[of _ "shown_name r"] exI[of _ "wk_name wk"] exI[of _ fs]) (simp add: Let_def s(3))
qed


text \<open>
  C39. The second loop of \<open>symbolize_sample\<close> does not check its buffer: a sample with 124 or more
  valid addresses, at any addresses, makes it write past the end (the ring buffer delivers up to
  128 stack addresses and the instruction pointer).
\<close>

theorem display_overflow:
  assumes "124 \<le> length (valid_ips cc)"
  shows "symbolize_sample w sys cc = None"
proof -
  obtain ips ip where ips: "valid_ips cc = ips @ [ip]" using assms by (cases "valid_ips cc" rule: rev_cases) auto
  with assms have l: "123 \<le> length ips" by simp
  then have "123 * (11 + 123) \<le> length ips * (11 + length ips)" by (intro mult_le_mono) auto
  with ips display_loop_Some[of s known 0 ips ip 0] have "display_loop s known 0 (valid_ips cc) 0 = None" for s known
    by (cases "display_loop s known 0 (valid_ips cc) 0") (auto dest: display_loop_Some)
  then show ?thesis by (auto simp: symbolize_sample_def Let_def split: bind_splits)
qed

text \<open>A system without processes, and a live process with two regions.\<close>

definition example_world :: sym_world where
  "example_world = \<lparr>w_procs = example_env True, w_open = example_open, w_note = example_note, w_filter = FILTER_ALL\<rparr>"

definition example_sys :: sym_sys where
  "example_sys = \<lparr>sy_heap = empty_heap, process_table = replicate HASHTABLE_SIZE [], elf_table = empty_cache, kernel_symbols = None\<rparr>"

definition example_chain :: "u64 list \<Rightarrow> callchain_result" where
  "example_chain ips = \<lparr>cc_timestamp = 0, cc_pid = 7, cc_tid = 7, cc_ip = 0x1010, cc_nr = length ips, cc_ips = ips\<rparr>"

lemma example_sys_inv: "sys_inv (live empty_heap) [] example_sys []"
proof -
  have "elf_inv (\<lambda>_. named) (oom empty_heap) (live empty_heap) [] empty_heap empty_cache []"
    by (rule elf_inv_empty[OF heap_ok_empty])
  moreover have "elf_refs (replicate HASHTABLE_SIZE []) = {}" by (simp add: elf_refs_def empty_table(2))
  ultimately show ?thesis
    using pt.ok_empty unfolding sys_inv_def elf_inv_def example_sys_def
    by (simp add: empty_table(2)) (simp add: empty_heap_def)
qed


theorem display_overflow_witness: "symbolize_sample example_world example_sys (example_chain (replicate 123 0x401000)) = None"
  by (rule display_overflow) (simp add: valid_ips_def example_chain_def PERF_CONTEXT_MAX_def)

section \<open>Kernel stacks\<close>

definition kernel_frame :: "sym_sys \<Rightarrow> u64 \<Rightarrow> string" where
  "kernel_frame sys ip = clip 512 (find_kernel_symbol (kernel_symbols sys) ip @ '' [kernel]'')"

lemma symbolize_kernel_ips:
  assumes "\<forall>ip\<in>set ips. filtered_out (w_filter w) ip \<or> is_kernel_addr ip"
    and "flame_len wk + length (frames (map (kernel_frame (wk_sys wk)) (filter (\<lambda>ip. \<not> filtered_out (w_filter w) ip) ips))) + 1 < FLAME_SIZE"
  shows "\<exists>n. symbolize_ips w pid ips wk = Some (wk\<lparr>flame := flame wk @
    frames (map (kernel_frame (wk_sys wk)) (filter (\<lambda>ip. \<not> filtered_out (w_filter w) ip) ips)), flame_len := n\<rparr>)"
  using assms
proof (induction ips arbitrary: wk)
  case Nil
  then show ?case by (intro exI[of _ "flame_len wk"]) (simp add: frames_def)
next
  case (Cons ip ips)
  show ?case
  proof (cases "filtered_out (w_filter w) ip")
    case True
    with Cons show ?thesis by (simp add: symbolize_ip_def)
  next
    case False
    let ?wk = "wk\<lparr>flame := flame wk @ '';'' @ kernel_frame (wk_sys wk) ip, flame_len := flame_len wk + length (kernel_frame (wk_sys wk) ip) + 1\<rparr>"
    have "flame_len wk + length (kernel_frame (wk_sys wk) ip) + 2 < FLAME_SIZE"
      using Cons.prems(2) False by (simp add: frames_def)
    then have "symbolize_ip w pid ip wk = Some ?wk"
      using False Cons.prems(1) by (simp add: symbolize_ip_def add_frame_def kernel_frame_def)
    with Cons.IH[of ?wk] Cons.prems False show ?thesis by (auto simp: frames_def)
  qed
qed

text \<open>
  C20. A stack of kernel addresses (or one in which the filter leaves only these) is written frame by
  frame, in order: behind the process name and id comes, for every address that is not filtered
  out, the name of the kernel symbol that \<open>find_kernel_symbol\<close> gives, marked and cut to the
  size of the name buffer, and the name in the line is the one of the process, when all of it fits.
\<close>

theorem kernel_stack_line:
  assumes "\<forall>ip\<in>set (valid_ips cc). filtered_out (w_filter w) ip \<or> is_kernel_addr ip"
    and "find_new_process (sy_heap sys) (w_procs w) (process_table sys) (cc_pid cc) = Some (h, table, r)"
    and "start = shown_name r @ ''['' @ print_int (sint (cc_pid cc)) @ '']''"
    and "shown = filter (\<lambda>ip. \<not> filtered_out (w_filter w) ip) (valid_ips cc)"
    and "length start + length (frames (map (kernel_frame sys) shown)) + 1 < FLAME_SIZE"
    and "display_need sys (r \<noteq> None) 0 (valid_ips cc) \<le> FLAME_SIZE"
  shows "symbolize_sample w sys cc =
    Some (sys\<lparr>sy_heap := h, process_table := table\<rparr>,
      format_stack (cc_pid cc) (shown_name r) (start @ frames (map (kernel_frame sys) shown)))"
proof -
  let ?sys = "sys\<lparr>sy_heap := h, process_table := table\<rparr>"
  let ?wk = "\<lparr>wk_sys = ?sys, wk_known = (r \<noteq> None), wk_name = shown_name r, flame = clip FLAME_SIZE start, flame_len = length start\<rparr>"
  have kf: "kernel_frame ?sys = kernel_frame sys" by (simp add: kernel_frame_def fun_eq_iff)
  have "clip FLAME_SIZE start = start" using assms(5) by (simp add: clip_def)
  with symbolize_kernel_ips[OF assms(1), of ?wk "cc_pid cc"] assms(4,5) kf obtain n where
    w: "symbolize_ips w (cc_pid cc) (valid_ips cc) ?wk =
      Some (?wk\<lparr>flame := start @ frames (map (kernel_frame sys) shown), flame_len := n\<rparr>)" by auto
  have "display_line ?sys known ip = display_line sys known ip" for known ip by (simp add: display_line_def)
  then have "display_need ?sys known i ips = display_need sys known i ips" for known i ips
    by (induction ips arbitrary: i) simp_all
  then have "display_loop ?sys (r \<noteq> None) 0 (valid_ips cc) 0 \<noteq> None"
    using display_loop_ok[of 0 ?sys "r \<noteq> None" 0 "valid_ips cc"] assms(6) by simp
  then show ?thesis using assms(2) w unfolding assms(3)[symmetric] by (auto simp: symbolize_sample_def Let_def assms(3))
qed

theorem kernel_stack_line_witness:
  "\<exists>sys'. symbolize_sample \<lparr>w_procs = example_env False, w_open = example_open, w_note = example_note, w_filter = FILTER_KERNEL\<rparr>
      example_sys (example_chain [0x3000, 0xffffffff81000000]) =
    Some (sys', format_stack 7 ''unknown'' ''unknown[7];unknown_kernel_function [kernel]'')"
proof -
  let ?w = "\<lparr>w_procs = example_env False, w_open = example_open, w_note = example_note, w_filter = FILTER_KERNEL\<rparr>"
  let ?cc = "example_chain [0x3000, 0xffffffff81000000]"
  have v: "valid_ips ?cc = [0x1010, 0x3000, 0xffffffff81000000]" and cp: "cc_pid ?cc = 7"
    by (simp_all add: valid_ips_def example_chain_def PERF_CONTEXT_MAX_def)
  have "\<not> leaks (w_procs ?w) 7" by (simp add: leaks_def example_env_def)
  from lookup_ok[OF example_sys_inv this] obtain h table r where
    f: "find_new_process (sy_heap example_sys) (w_procs ?w) (process_table example_sys) 7 = Some (h, table, r)" by blast
  have nm: "shown_name r = ''unknown''"
    using dead_not_entered[OF f] by (simp add: example_env_def example_sys_def empty_table(1) shown_name_def)
  have k: "kernel_frame example_sys a = ''unknown_kernel_function [kernel]''" for a
    by (simp add: kernel_frame_def find_kernel_symbol_def example_sys_def clip_def)
  have sh: "filter (\<lambda>ip. \<not> filtered_out (w_filter ?w) ip) (valid_ips ?cc) = [0xffffffff81000000]"
    unfolding v by (simp add: filtered_out_def is_kernel_addr_def)
  have "\<forall>ip\<in>set (valid_ips ?cc). filtered_out (w_filter ?w) ip \<or> is_kernel_addr ip" by (simp add: filtered_out_def)
  moreover have "display_need example_sys (r \<noteq> None) 0 (valid_ips ?cc) \<le> FLAME_SIZE"
    unfolding v by (simp add: display_line_def find_kernel_symbol_def example_sys_def)
  moreover have "print_int 7 = ''7''" by code_simp
  ultimately show ?thesis
    using kernel_stack_line[of ?cc ?w example_sys h table r _ _, OF _ _ refl refl] f
    unfolding cp sh by (simp add: nm k frames_def)
qed

end
