(* ===== verification/Pipeline.thy ===== *)
theory Pipeline
  imports Sample_Path Symbolizer Db_Writer
begin

text \<open>
  The symbolizer thread (src/core/handler.c, symbolizer_thread_func) joins the sample queue, the
  symbolizer and the database writer. Each component keeps its own part of the heap here: their
  blocks are apart, and none of them touches a block of another.
\<close>

section \<open>The line between symbolizer and database\<close>

lemma takeWhile_bar: "CHR ''|'' \<notin> set xs \<Longrightarrow> takeWhile (\<lambda>c. c \<noteq> CHR ''|'') (xs @ CHR ''|'' # ys) = xs"
  by (induction xs) auto

lemma strtok_bar:
  assumes "xs \<noteq> []" and "CHR ''|'' \<notin> set xs"
  shows "strtok_r ''|'' (xs @ CHR ''|'' # ys) = (Some xs, ys)"
proof -
  have "dropWhile (\<lambda>c. c = CHR ''|'') (xs @ CHR ''|'' # ys) = xs @ CHR ''|'' # ys"
    using assms by (cases xs) auto
  then show ?thesis using takeWhile_bar[OF assms(2), of ys] by (simp add: strtok_r_def)
qed

lemma strtok_rest: "strtok_r [] s = (if s = [] then None else Some s, [])"
proof -
  have t: "takeWhile (\<lambda>c. True) s = s" by (induction s) auto
  have d: "dropWhile (\<lambda>c. False) s = s" by (cases s) auto
  show ?thesis by (auto simp: strtok_r_def Let_def t d)
qed

lemma print_int_bar:
  assumes "- (2 ^ 31) \<le> i" "i < 2 ^ 31"
  shows "print_int i \<noteq> []" "CHR ''|'' \<notin> set (print_int i)"
proof -
  have b: "\<not> is_digit 10 CHR ''|''" by (simp add: is_digit_def digit_value_def)
  have "print_dec n \<noteq> [] \<and> CHR ''|'' \<notin> set (print_dec n)" if "n < 2 ^ 64" for n
    using print_dec_digits[OF that] b by (auto simp: list_all_iff)
  then show "print_int i \<noteq> []" "CHR ''|'' \<notin> set (print_int i)" using assms by (auto simp: print_int_def)
qed

text \<open>The row of an entry has its time and, whatever the name is, its process.\<close>

lemma parse_entry_pid:
  "row_time (parse_entry \<lparr>entry_time = t, stack_str = format_stack pid nm stack\<rparr>) = sint t"
  "row_pid (parse_entry \<lparr>entry_time = t, stack_str = format_stack pid nm stack\<rparr>) = sint pid"
proof -
  have r: "- (2 ^ 31) \<le> sint pid" "sint pid < 2 ^ 31"
    using sint_greater_eq[of pid] sint_less[of pid] by simp_all
  have l: "length (print_int (sint pid)) \<le> 11" using print_int_length[OF r] .
  obtain rest where f: "format_stack pid nm stack = print_int (sint pid) @ CHR ''|'' # rest"
  proof -
    have "take (Suc (length (print_int (sint pid)))) (format_stack pid nm stack) = print_int (sint pid) @ ''|''"
      using l by (simp add: format_stack_def clip_def min_def)
    then have "format_stack pid nm stack = (print_int (sint pid) @ ''|'') @ drop (Suc (length (print_int (sint pid)))) (format_stack pid nm stack)"
      by (metis append_take_drop_id)
    with that show thesis by simp
  qed
  show "row_time (parse_entry \<lparr>entry_time = t, stack_str = format_stack pid nm stack\<rparr>) = sint t"
    by (simp add: parse_entry_def split: prod.splits)
  show "row_pid (parse_entry \<lparr>entry_time = t, stack_str = format_stack pid nm stack\<rparr>) = sint pid"
    using strtok_bar[OF print_int_bar[OF r], of rest] atoi_print_int[OF r, of "[]"]
    by (simp add: parse_entry_def f split: prod.splits)
qed



section \<open>The symbolizer thread\<close>

record pipeline =
  pl_path :: sample_path
  pl_sys :: sym_sys
  pl_db :: db_writer
  monotonic_start_ns :: u64
  realtime_start_ns :: u64

definition sample_chain :: "raw_sample \<Rightarrow> callchain_result" where
  "sample_chain r = \<lparr>cc_timestamp = rs_timestamp r, cc_pid = rs_pid r, cc_tid = rs_tid r, cc_ip = rs_ip r,
     cc_nr = rs_nr r, cc_ips = rs_ips r\<rparr>"

text \<open>
  One round of the loop: \<open>Some (s, True)\<close> to go on, \<open>Some (s, False)\<close> at the end of the thread,
  \<open>None\<close> a fault or a wait for a sample or for room in the queue of the writer.
\<close>

definition symbolizer_round :: "profiling_config \<Rightarrow> sym_world \<Rightarrow> db_env \<Rightarrow> pipeline \<Rightarrow> (pipeline \<times> bool) option" where
  "symbolizer_round config w env s =
     (case queue_pop (symbolizer_queue (pl_path s)) of
        Done q RetNull _ \<Rightarrow> Some (s, False)
      | Done q (RetItem b) _ \<Rightarrow>
          do { let cc = sample_chain (chunks (pl_path s) b);
               (sys, line) \<leftarrow> symbolize_sample w (pl_sys s) cc;
               d \<leftarrow> db_writer_push_stack config env
                 (realtime_timestamp (monotonic_start_ns s) (realtime_start_ns s) (cc_timestamp cc)) line (pl_db s);
               (h, mp) \<leftarrow> mempool_free (path_heap (pl_path s)) (sample_pool (pl_path s)) (Some b);
               Some (s\<lparr>pl_path := (pl_path s)\<lparr>path_heap := h, sample_pool := mp, symbolizer_queue := q\<rparr>,
                       pl_sys := sys, pl_db := d\<rparr>, True) }
      | _ \<Rightarrow> None)"

text \<open>A sample the symbolizer can deal with: see \<open>symbolize_sample\<close> and the size of its display buffer.\<close>

definition sample_sane :: "sym_world \<Rightarrow> sym_sys \<Rightarrow> callchain_result \<Rightarrow> bool" where
  "sample_sane w sys cc \<longleftrightarrow> (\<forall>p e. w_open w p = Some e \<longrightarrow> sane_elf e) \<and>
     (alive (w_procs w (cc_pid cc)) \<or> find_process (process_table sys) (cc_pid cc) = None) \<and>
     \<not> leaks (w_procs w) (cc_pid cc) \<and> (\<forall>known. display_need sys known 0 (valid_ips cc) \<le> FLAME_SIZE)"

text \<open>The time of a sample on the clock of the database.\<close>

definition sample_time :: "pipeline \<Rightarrow> u64 \<Rightarrow> u64" where
  "sample_time s t = realtime_timestamp (monotonic_start_ns s) (realtime_start_ns s) t"

text \<open>A round that does not complete waits for room in the queue of the writer.\<close>

lemma symbolizer_round_cases:
  assumes path: "path_inv pbase psz (pl_path s) out" and q: "queue_contents (symbolizer_queue (pl_path s)) = b # rest"
    and cc: "cc = sample_chain (chunks (pl_path s) b)"
    and sys: "sys_inv sbase bs (pl_sys s) held" "sample_sane w (pl_sys s) cc"
    and d: "dw_inv dbase sz P lt config rows (pl_db s)" "dw_running (pl_db s)" "\<not> shutdown (dw_queue (pl_db s))"
      "SIZEOF_DB_ENTRY + FLAME_SIZE + 256 \<le> sz" "db_path (output_dir (pl_db s)) lt (sample_time s (cc_timestamp cc)) = P"
  shows "case symbolizer_round config w env s of
      None \<Rightarrow> int (capacity (dw_queue (pl_db s))) - int (size (dw_queue (pl_db s))) < flush_threshold config
    | Some (s', go) \<Rightarrow> go \<and> (\<exists>held' nm stack. path_inv pbase psz (pl_path s') (remove1 b out) \<and>
        queue_contents (symbolizer_queue (pl_path s')) = rest \<and> chunks (pl_path s') = chunks (pl_path s) \<and>
        capacity (symbolizer_queue (pl_path s')) = capacity (symbolizer_queue (pl_path s)) \<and>
        sys_inv sbase bs (pl_sys s') held' \<and> kernel_symbols (pl_sys s') = kernel_symbols (pl_sys s) \<and>
        dw_inv dbase sz P lt config rows (pl_db s') \<and> same_writer (pl_db s) (pl_db s') \<and> sample_time s' = sample_time s \<and>
        pending (pl_db s') = pending (pl_db s) @
          [\<lparr>entry_time = sample_time s (cc_timestamp cc), stack_str = format_stack (cc_pid cc) nm stack\<rparr>])"
proof -
  let ?p = "pl_path s" and ?ts = "sample_time s (cc_timestamp cc)"
  let ?q = "symbolizer_queue ?p"
  from path obtain mp where mp: "sample_pool ?p = Some mp" "pool_inv pbase psz (path_heap ?p) mp out"
    and pi: "\<forall>b. \<not> oom (path_heap ?p) b" "queue_ok ?q" "\<not> shutdown ?q" "distinct (b # rest)" "set (b # rest) \<subseteq> set out"
    by (auto simp: path_inv_def q)
  have "size ?q \<noteq> 0" using length_queue_contents[of ?q] q by auto
  then obtain q' r wk where pop: "queue_pop ?q = Done q' r wk" by (cases "take_head ?q") (auto simp: queue_pop_def)
  from queue_pop_done[OF pi(2) pop] \<open>size ?q \<noteq> 0\<close> q pi(3) have
    q': "r = RetItem b" "queue_ok q'" "queue_contents q' = rest" "\<not> shutdown q'" "capacity q' = capacity ?q"
    by (auto simp: conserves_def added_def)
  from symbolize_sample_ok[of sbase bs "pl_sys s" held w cc] sys obtain sys' held' nm stack where
    y: "sys_inv sbase bs sys' held'" "symbolize_sample w (pl_sys s) cc = Some (sys', format_stack (cc_pid cc) nm stack)"
      "kernel_symbols sys' = kernel_symbols (pl_sys s)"
    by (auto simp: Let_def sample_sane_def)
  let ?e = "\<lparr>entry_time = ?ts, stack_str = format_stack (cc_pid cc) nm stack\<rparr>"
  have "length (format_stack (cc_pid cc) nm stack) < FLAME_SIZE + 256"
    unfolding format_stack_def by (rule clip_length) simp
  then have "SIZEOF_DB_ENTRY + length (format_stack (cc_pid cc) nm stack) + 1 \<le> sz" using d(4) by simp
  note push = push_ok[OF d(1-3) this d(5), of env]
  from mempool_free_inv[OF mp(2), of b] pi(5) obtain h mp' where
    f: "mempool_free (path_heap ?p) (Some mp) (Some b) = Some (h, Some mp')" "pool_inv pbase psz h mp' (remove1 b out)" by auto
  have round: "symbolizer_round config w env s =
      map_option (\<lambda>ctx. (s\<lparr>pl_path := ?p\<lparr>path_heap := h, sample_pool := Some mp', symbolizer_queue := q'\<rparr>, pl_sys := sys', pl_db := ctx\<rparr>, True))
        (db_writer_push_stack config env ?ts (format_stack (cc_pid cc) nm stack) (pl_db s))"
    using pop q'(1) y(2) f(1) mp(1) cc
    by (cases "db_writer_push_stack config env ?ts (format_stack (cc_pid cc) nm stack) (pl_db s)")
       (simp_all add: symbolizer_round_def Let_def sample_time_def)
  show ?thesis
  proof (cases "db_writer_push_stack config env ?ts (format_stack (cc_pid cc) nm stack) (pl_db s)")
    case None
    with push show ?thesis by (simp add: round)
  next
    case (Some ctx)
    with push have p: "dw_inv dbase sz P lt config rows ctx" "same_writer (pl_db s) ctx" "pending ctx = pending (pl_db s) @ [?e]" by simp_all
    let ?s' = "s\<lparr>pl_path := ?p\<lparr>path_heap := h, sample_pool := Some mp', symbolizer_queue := q'\<rparr>, pl_sys := sys', pl_db := ctx\<rparr>"
    have "distinct out" using mp(2) by (simp add: pool_inv_def)
    then have "path_inv pbase psz (pl_path ?s') (remove1 b out)"
      using f(2) q'(2-4) pi(1,4,5) mempool_free_oom[OF f(1)] by (auto simp: path_inv_def)
    moreover have "sample_time ?s' = sample_time s" by (simp add: fun_eq_iff sample_time_def)
    ultimately show ?thesis using Some q'(3,5) y(1,3) p by (auto simp: round)
  qed
qed

text \<open>
  One round of the symbolizer thread with a sample at the head of the queue, when memory
  suffices, the files libelf opens are consistent, the process is alive with a readable memory map
  or unknown, the display fits its buffer, the chunks of the writer hold the longest line and
  its queue has room for a batch: the round completes; the sample leaves the queue and its chunk
  goes back to the pool; the tables stay well formed; and exactly one entry reaches the writer,
  behind those already there, with the time of the sample and the line of its process.
\<close>

theorem symbolizer_round_ok:
  assumes path: "path_inv pbase psz (pl_path s) out" and q: "queue_contents (symbolizer_queue (pl_path s)) = b # rest"
    and cc: "cc = sample_chain (chunks (pl_path s) b)"
    and sys: "sys_inv sbase bs (pl_sys s) held" "\<forall>p e. w_open w p = Some e \<longrightarrow> sane_elf e"
      "alive (w_procs w (cc_pid cc)) \<or> find_process (process_table (pl_sys s)) (cc_pid cc) = None"
      "\<not> leaks (w_procs w) (cc_pid cc)" "\<forall>known. display_need (pl_sys s) known 0 (valid_ips cc) \<le> FLAME_SIZE"
    and d: "dw_inv dbase sz P lt config rows (pl_db s)" "dw_running (pl_db s)" "\<not> shutdown (dw_queue (pl_db s))"
      "SIZEOF_DB_ENTRY + FLAME_SIZE + 256 \<le> sz"
      "db_path (output_dir (pl_db s)) lt (realtime_timestamp (monotonic_start_ns s) (realtime_start_ns s) (cc_timestamp cc)) = P"
      "flush_threshold config \<le> int (capacity (dw_queue (pl_db s))) - int (size (dw_queue (pl_db s)))"
  shows "\<exists>s' held' nm stack. symbolizer_round config w env s = Some (s', True) \<and>
    path_inv pbase psz (pl_path s') (remove1 b out) \<and> queue_contents (symbolizer_queue (pl_path s')) = rest \<and>
    sys_inv sbase bs (pl_sys s') held' \<and> dw_inv dbase sz P lt config rows (pl_db s') \<and>
    pending (pl_db s') = pending (pl_db s) @
      [\<lparr>entry_time = realtime_timestamp (monotonic_start_ns s) (realtime_start_ns s) (cc_timestamp cc),
        stack_str = format_stack (cc_pid cc) nm stack\<rparr>]"
proof -
  have "sample_sane w (pl_sys s) cc" using sys(2-5) by (simp add: sample_sane_def)
  from symbolizer_round_cases[OF path q cc sys(1) this d(1-4) d(5)[folded sample_time_def], of env] d(6) show ?thesis
    by (auto simp: sample_time_def split: option.splits)
qed

theorem symbolizer_round_ok_witness:
  "\<exists>path dw s' nm stack.
    dispatch_sample_event False (example_chain (replicate 128 0)) (encode_sample False small_sample) small_path = Some path \<and>
    symbolizer_round example_db_config example_world example_db_env
      \<lparr>pl_path = path, pl_sys = example_sys, pl_db = dw, monotonic_start_ns = 0, realtime_start_ns = 0\<rparr> = Some (s', True) \<and>
    queue_contents (symbolizer_queue (pl_path s')) = [] \<and>
    pending (pl_db s') = [\<lparr>entry_time = 5, stack_str = format_stack 77 nm stack\<rparr>]"
proof -
  have room: "size (symbolizer_queue small_path) < capacity (symbolizer_queue small_path)" "queued small_path = []"
    by (simp_all add: small_path_def fresh_queue_def queued_def queue_contents_def)
  have sz: "sample_size False small_sample < 2 ^ 16" using small_sample_size by simp
  from dispatch_sample_ok[OF small_path_inv room(1) sz, of "example_chain (replicate 128 0)"] room(2) obtain path b where
    d: "dispatch_sample_event False (example_chain (replicate 128 0)) (encode_sample False small_sample) small_path = Some path"
      "path_inv (live empty_heap) 64 path [b]" "queued path = [sample_expected False small_sample]"
    by (auto simp: example_chain_def)
  then obtain b1 where b1: "queue_contents (symbolizer_queue path) = [b1]" "sample_view (chunks path b1) = sample_expected False small_sample"
    by (auto simp: queued_def)
  let ?cc = "sample_chain (chunks path b1)"
  have cc: "cc_pid ?cc = 77" "cc_timestamp ?cc = 5" "valid_ips ?cc = [0x401000, 0x401000]"
    using b1(2) by (simp_all add: sample_view_def sample_expected_def sample_chain_def small_sample_def example_sample_def
        sample_ips_def valid_ips_def PERF_CONTEXT_MAX_def)
  have world: "\<forall>p e. w_open example_world p = Some e \<longrightarrow> sane_elf e" "alive (w_procs example_world (cc_pid ?cc))"
      "\<not> leaks (w_procs example_world) (cc_pid ?cc)" "\<forall>known. display_need example_sys known 0 (valid_ips ?cc) \<le> FLAME_SIZE"
    using example_sane by (auto simp: example_world_def example_env_def leaks_def cc display_line_def is_kernel_addr_def)
  have om: "\<forall>b. \<not> oom empty_heap b" by (simp add: empty_heap_def)
  from example_writer_init obtain h0 ctx0 where init: "db_writer_init example_db_config True empty_heap = Some (h0, Some ctx0)" by blast
  let ?P = "db_path (output_dir ctx0) (localtime example_db_env) 5" and ?dw = "db_writer_start (Some 1) ctx0"
  from init_ok[OF heap_ok_empty om init, of ?P "localtime example_db_env"] obtain base where
    i: "dw_inv base 16721 ?P (localtime example_db_env) example_db_config [] ctx0" "\<not> shutdown (dw_queue ctx0)"
      "capacity (dw_queue ctx0) = QUEUE_CAPACITY" "size (dw_queue ctx0) = 0" "pending ctx0 = []"
    by (auto simp: example_db_config_def)
  have dw: "dw_inv base 16721 ?P (localtime example_db_env) example_db_config [] ?dw" "dw_running ?dw" "\<not> shutdown (dw_queue ?dw)"
      "flush_threshold example_db_config \<le> int (capacity (dw_queue ?dw)) - int (size (dw_queue ?dw))" "pending ?dw = []"
      "output_dir ?dw = output_dir ctx0"
    using i by (auto simp: db_writer_start_def dw_inv_def pending_def pending_blocks_def db_state_def flush_threshold_def
        example_db_config_def default_config_def)
  let ?s = "\<lparr>pl_path = path, pl_sys = example_sys, pl_db = ?dw, monotonic_start_ns = 0, realtime_start_ns = 0\<rparr>"
  have "\<exists>s' held' nm stack. symbolizer_round example_db_config example_world example_db_env ?s = Some (s', True) \<and>
      path_inv (live empty_heap) 64 (pl_path s') (remove1 b1 [b]) \<and> queue_contents (symbolizer_queue (pl_path s')) = [] \<and>
      sys_inv (live empty_heap) [] (pl_sys s') held' \<and> dw_inv base 16721 ?P (localtime example_db_env) example_db_config [] (pl_db s') \<and>
      pending (pl_db s') = pending (pl_db ?s) @
        [\<lparr>entry_time = realtime_timestamp (monotonic_start_ns ?s) (realtime_start_ns ?s) (cc_timestamp ?cc),
          stack_str = format_stack (cc_pid ?cc) nm stack\<rparr>]"
    by (rule symbolizer_round_ok[where cc = ?cc])
      (use d(2) b1(1) world dw example_sys_inv cc in \<open>simp_all add: realtime_timestamp_def\<close>)
  with d(1) dw(5) show ?thesis by (auto simp: cc realtime_timestamp_def)
qed

end
