(* ===== verification/System.thy ===== *)
theory System
  imports Pipeline
begin

text \<open>
  The system context (src/core/system.c): set-up and tear-down of the process table, the ELF cache
  and the kernel symbols, around the work of the symbolizer and the cleanup of dead processes.
\<close>

section \<open>Model\<close>

record system_context =
  sc_sys :: sym_sys
  process_block :: block
  elf_block :: block
  kernel_table :: "(block \<times> kernel_symbol rbt) option"
  sc_monotonic :: u64
  sc_realtime :: u64

text \<open>\<open>clock_gettime\<close>: seconds and nanoseconds, or a failure.\<close>

definition clock_ns :: "(u64 \<times> u64) option \<Rightarrow> u64" where
  "clock_ns t = (case t of None \<Rightarrow> 0 | Some (sec, nsec) \<Rightarrow> sec * 1000000000 + nsec)"

definition free_opt :: "c_heap \<Rightarrow> block option \<Rightarrow> c_heap option" where
  "free_opt h p = (case p of None \<Rightarrow> Some h | Some b \<Rightarrow> free_block h b)"

definition initialize_system :: "c_heap \<Rightarrow> bool \<Rightarrow> string list option \<Rightarrow> (u64 \<times> u64) option \<Rightarrow> (u64 \<times> u64) option \<Rightarrow>
    (c_heap \<times> system_context option) option" where
  "initialize_system h elf_version_ok kallsyms monotonic realtime =
     (if \<not> elf_version_ok then Some (h, None)
      else case malloc h 8192 of (h, pb) \<Rightarrow> case malloc h 8192 of (h, eb) \<Rightarrow>
        (case (pb, eb) of
           (Some pb, Some eb) \<Rightarrow>
             do { (h, table) \<leftarrow> load_kernel_symbols h kallsyms;
                  Some (h, Some \<lparr>sc_sys = \<lparr>sy_heap = h, process_table = replicate HASHTABLE_SIZE [],
                      elf_table = replicate HASHTABLE_SIZE [], kernel_symbols = map_option snd table\<rparr>,
                    process_block = pb, elf_block = eb, kernel_table = table,
                    sc_monotonic = clock_ns monotonic, sc_realtime = clock_ns realtime\<rparr>) }
         | _ \<Rightarrow> do { h \<leftarrow> free_opt h pb; h \<leftarrow> free_opt h eb; Some (h, None) }))"

definition cleanup_system :: "system_context option \<Rightarrow> c_heap \<Rightarrow> c_heap option" where
  "cleanup_system ctx h =
     (case ctx of
        None \<Rightarrow> Some h
      | Some ctx \<Rightarrow>
          do { h \<leftarrow> free_kernel_symbols h (kernel_table ctx);
               (h, _) \<leftarrow> clear_elf_cache h (Some (elf_table (sc_sys ctx)));
               h \<leftarrow> free_block h (elf_block ctx);
               free_process_hash_table h (Some (process_block ctx, process_table (sc_sys ctx))) })"

section \<open>Between set-up and tear-down\<close>

text \<open>A sample is symbolized, or the processes that are gone are removed.\<close>

datatype sys_event = Symbolize sym_world callchain_result | CleanupDead "pid \<Rightarrow> bool"

fun sys_step :: "sym_sys \<Rightarrow> sys_event \<Rightarrow> sym_sys option" where
  "sys_step sys (Symbolize w cc) = map_option fst (symbolize_sample w sys cc)"
| "sys_step sys (CleanupDead alv) =
     do { (h, table) \<leftarrow> cleanup_dead_processes alv (sy_heap sys) (process_table sys);
          Some (sys\<lparr>sy_heap := h, process_table := table\<rparr>) }"

fun sys_run :: "sym_sys \<Rightarrow> sys_event list \<Rightarrow> sym_sys option" where
  "sys_run sys [] = Some sys"
| "sys_run sys (ev # evs) = do { sys \<leftarrow> sys_step sys ev; sys_run sys evs }"

text \<open>A sample of a live process with a readable memory map, and a display that fits its buffer.\<close>

fun event_sane :: "sym_sys \<Rightarrow> sys_event \<Rightarrow> bool" where
  "event_sane sys (Symbolize w cc) \<longleftrightarrow> (\<forall>p e. w_open w p = Some e \<longrightarrow> sane_elf e) \<and> alive (w_procs w (cc_pid cc)) \<and>
     \<not> leaks (w_procs w) (cc_pid cc) \<and> (\<forall>known. display_need sys known 0 (valid_ips cc) \<le> FLAME_SIZE)"
| "event_sane sys (CleanupDead alv) \<longleftrightarrow> True"

lemma display_need_kernel:
  assumes "kernel_symbols sys' = kernel_symbols sys"
  shows "display_need sys' known i ips = display_need sys known i ips"
  by (induction ips arbitrary: i) (simp_all add: display_line_def assms)

lemma cleanup_dead_ok:
  assumes inv: "sys_inv base bs sys held"
  shows "\<exists>h. let t = map (filter (\<lambda>p. alv (process_id p))) (process_table sys) in
    cleanup_dead_processes alv (sy_heap sys) (process_table sys) = Some (h, t) \<and>
    sys_inv base bs (sys\<lparr>sy_heap := h, process_table := t\<rparr>) held \<and>
    find_process t = (\<lambda>p. if alv p then find_process (process_table sys) p else None)"
proof -
  let ?t = "map (filter (\<lambda>p. alv (process_id p))) (process_table sys)"
  have i: "owns base (sy_heap sys) (ptable_blocks (concat (process_table sys)) @ cache_blocks (elf_table sys) @ bs)"
      "ptable_ok (process_table sys)" using inv by (auto simp: sys_inv_def)
  from cleanup_ok[OF i(1), of alv] obtain h where
    c: "cleanup_dead_processes alv (sy_heap sys) (process_table sys) = Some (h, ?t)"
      "owns base h (ptable_blocks (concat ?t) @ cache_blocks (elf_table sys) @ bs)" "oom h = oom (sy_heap sys)" by blast
  have "elf_refs ?t \<subseteq> elf_refs (process_table sys)" by (auto simp: elf_refs_def)
  from sys_inv_processes[OF inv c(2) pt.filter_ok(1)[OF i(2)] c(3) this] c(1) pt.filter_ok(2)[OF i(2), of alv] show ?thesis
    by (intro exI[of _ h]) (simp add: Let_def find_process_def fun_eq_iff)
qed

lemma sys_step_ok:
  assumes inv: "sys_inv base bs sys held" and ev: "event_sane sys ev"
  shows "\<exists>sys' held'. sys_step sys ev = Some sys' \<and> sys_inv base bs sys' held' \<and> kernel_symbols sys' = kernel_symbols sys"
proof (cases ev)
  case (Symbolize w cc)
  with ev have "\<forall>p e. w_open w p = Some e \<longrightarrow> sane_elf e" "alive (w_procs w (cc_pid cc)) \<or> find_process (process_table sys) (cc_pid cc) = None"
    "\<not> leaks (w_procs w) (cc_pid cc)" "\<forall>known. display_need sys known 0 (valid_ips cc) \<le> FLAME_SIZE" by simp_all
  from symbolize_sample_ok[OF inv this] Symbolize show ?thesis by (auto simp: Let_def)
next
  case (CleanupDead alv)
  with cleanup_dead_ok[OF inv, of alv] show ?thesis by (auto simp: Let_def)
qed

lemma sys_run_ok:
  assumes "sys_inv base bs sys held" and "\<forall>ev\<in>set evs. event_sane sys ev"
  shows "\<exists>sys' held'. sys_run sys evs = Some sys' \<and> sys_inv base bs sys' held'"
  using assms
proof (induction evs arbitrary: sys held)
  case (Cons ev evs)
  from sys_step_ok[OF Cons.prems(1), of ev] Cons.prems(2) obtain sys1 held1 where
    s: "sys_step sys ev = Some sys1" "sys_inv base bs sys1 held1" "kernel_symbols sys1 = kernel_symbols sys" by auto
  have "event_sane sys1 e = event_sane sys e" for e by (cases e) (simp_all add: display_need_kernel[OF s(3)])
  with Cons.IH[OF s(2)] Cons.prems(2) s(1) show ?case by auto
qed auto

section \<open>Set-up and tear-down\<close>

lemma owns_trans:
  assumes "owns base h1 bs1" and "owns (live h1) h2 bs2"
  shows "owns base h2 (bs2 @ bs1)"
  unfolding owns_def
proof (intro conjI ballI allI impI)
  show "heap_ok h2" using assms(2) by (simp add: owns_def)
  have "x \<notin> set bs1" if "x \<in> set bs2" for x using that assms by (auto simp: owns_def)
  then show "distinct (bs2 @ bs1)" using assms by (auto simp: owns_def)
  show "base b = None" "live h2 b \<noteq> None" if "b \<in> set (bs2 @ bs1)" for b
    using that assms by (cases "b \<in> set bs1"; cases "b \<in> set bs2"; force simp: owns_def)+
  show "live h2 b = base b" if "b \<notin> set (bs2 @ bs1)" for b using that assms by (simp add: owns_def)
qed

definition kernel_blocks :: "(block \<times> kernel_symbol rbt) option \<Rightarrow> block list" where
  "kernel_blocks table = (case table of None \<Rightarrow> [] | Some (rb, t) \<Rightarrow> rb # table_blocks t)"

lemma load_kernel_symbols_oom: "load_kernel_symbols h f = Some (h', r) \<Longrightarrow> oom h' = oom h"
proof -
  have l: "load_line h t line = Some (h', t') \<Longrightarrow> oom h' = oom h" for h t line h' t'
    by (auto simp: load_line_def dest!: oom_malloc oom_free_block split: option.splits prod.splits bind_splits)
  have ls: "load_lines h t lines = Some (h', t') \<Longrightarrow> oom h' = oom h" for h t lines h' t'
    by (induction lines arbitrary: h t) (auto dest!: l split: bind_splits)
  show "load_kernel_symbols h f = Some (h', r) \<Longrightarrow> oom h' = oom h"
    by (auto simp: load_kernel_symbols_def dest!: oom_malloc ls split: option.splits prod.splits bind_splits)
qed

lemma free_kernel_ok:
  assumes "owns base h (kernel_blocks table @ bs)"
  shows "\<exists>h'. free_kernel_symbols h table = Some h' \<and> owns base h' bs"
proof (cases table)
  case None
  with assms show ?thesis by (simp add: free_kernel_symbols_def kernel_blocks_def)
next
  case (Some p)
  obtain rb t where p: "p = (rb, t)" by (cases p)
  have "owns base h (table_blocks t @ rb # bs)" by (rule owns_perm[OF assms]) (simp add: Some p kernel_blocks_def)
  from owns_free_list[OF this] obtain h1 where h1: "free_list h (table_blocks t) = Some h1" "owns base h1 (rb # bs)" by blast
  from owns_free_hd[OF h1(2)] h1(1) Some p show ?thesis
    by (auto simp: free_kernel_symbols_def free_entries_list table_blocks_def)
qed

lemma initialize_ok:
  assumes "heap_ok h" and "\<forall>b. \<not> oom h b"
  shows "\<exists>ctx. initialize_system h True kallsyms t1 t2 = Some (sy_heap (sc_sys ctx), Some ctx) \<and>
    sys_inv (live h) (kernel_blocks (kernel_table ctx) @ [elf_block ctx, process_block ctx]) (sc_sys ctx) [] \<and>
    kernel_symbols (sc_sys ctx) = map_option snd (kernel_table ctx)"
proof -
  obtain h1 pb where m1: "malloc h 8192 = (h1, Some pb)" using assms(2) by (auto simp: malloc_def)
  have o1: "oom h1 = oom h" "owns (live h) h1 [pb]" using oom_malloc[OF m1] owns_malloc[OF owns_start[OF assms(1)] m1] by auto
  obtain h2 eb where m2: "malloc h1 8192 = (h2, Some eb)" using assms(2) o1 by (auto simp: malloc_def)
  have o2: "oom h2 = oom h" "owns (live h) h2 [eb, pb]" using oom_malloc[OF m2] owns_malloc[OF o1(2) m2] o1(1) by auto
  from load_kernel_symbols_ok[OF owns_heap_ok[OF o2(2)], of kallsyms] obtain h3 r where
    l: "load_kernel_symbols h2 kallsyms = Some (h3, r)" "owns (live h2) h3 (kernel_blocks r)"
    by (auto simp: kernel_blocks_def split: option.splits)
  have o3: "owns (live h) h3 (kernel_blocks r @ [eb, pb])" by (rule owns_trans[OF o2(2) l(2)])
  let ?sys = "\<lparr>sy_heap = h3, process_table = replicate HASHTABLE_SIZE [], elf_table = replicate HASHTABLE_SIZE [],
    kernel_symbols = map_option snd r\<rparr>"
  let ?ctx = "\<lparr>sc_sys = ?sys, process_block = pb, elf_block = eb, kernel_table = r, sc_monotonic = clock_ns t1, sc_realtime = clock_ns t2\<rparr>"
  have "elf_inv (\<lambda>_. named) (oom h3) (live h3) [] h3 empty_cache []" by (rule elf_inv_empty[OF owns_heap_ok[OF o3]])
  then have e: "cache_blocks empty_cache = []" "cache_ok empty_cache" "refs_ok empty_cache []"
      "\<forall>b e. find_elf_in_table empty_cache b = Some e \<longrightarrow> named (symbols e)"
    by (auto simp: elf_inv_def owns_def)
  have "elf_refs (replicate HASHTABLE_SIZE []) = {}" by (simp add: elf_refs_def empty_table(2))
  then have "sys_inv (live h) (kernel_blocks r @ [eb, pb]) ?sys []"
    unfolding sys_inv_def using o3 e pt.ok_empty load_kernel_symbols_oom[OF l(1)] o2(1) assms(2) by (simp add: empty_table(2))
  moreover have "initialize_system h True kallsyms t1 t2 = Some (h3, Some ?ctx)"
    using m1 m2 l(1) by (simp add: initialize_system_def)
  ultimately show ?thesis by (intro exI[of _ ?ctx]) simp
qed

lemma cleanup_system_ok:
  assumes inv: "sys_inv base (kernel_blocks (kernel_table ctx) @ [elf_block ctx, process_block ctx]) sys held"
  shows "\<exists>h. cleanup_system (Some (ctx\<lparr>sc_sys := sys\<rparr>)) (sy_heap sys) = Some h \<and> live h = base"
proof -
  let ?pt = "ptable_blocks (concat (process_table sys))" and ?cb = "cache_blocks (elf_table sys)"
  let ?rest = "[elf_block ctx, process_block ctx]"
  have o: "owns base (sy_heap sys) (?pt @ ?cb @ kernel_blocks (kernel_table ctx) @ ?rest)" and c: "cache_ok (elf_table sys)"
    using inv by (auto simp: sys_inv_def)
  have "owns base (sy_heap sys) (kernel_blocks (kernel_table ctx) @ ?cb @ ?rest @ ?pt)" by (rule owns_perm[OF o]) simp
  from free_kernel_ok[OF this] obtain h1 where
    1: "free_kernel_symbols (sy_heap sys) (kernel_table ctx) = Some h1" "owns base h1 (?cb @ ?rest @ ?pt)" by blast
  from clear_elf_cache_ok[OF 1(2) c] obtain h2 where
    2: "clear_elf_cache h1 (Some (elf_table sys)) = Some (h2, Some (replicate HASHTABLE_SIZE []))" "owns base h2 (?rest @ ?pt)" by blast
  from owns_free_hd[of base h2 "elf_block ctx"] 2(2) obtain h3 where
    3: "free_block h2 (elf_block ctx) = Some h3" "owns base h3 (process_block ctx # ?pt)" by auto
  have "owns base h3 (?pt @ [process_block ctx])" by (rule owns_perm[OF 3(2)]) simp
  from free_processes_ok[OF this] obtain h4 where
    4: "free_processes h3 (concat (process_table sys)) = Some h4" "owns base h4 [process_block ctx]" by blast
  from owns_free_hd[OF 4(2)] obtain h5 where 5: "free_block h4 (process_block ctx) = Some h5" "owns base h5 []" by blast
  from owns_empty[OF 5(2)] 1(1) 2(1) 3(1) 4(1) 5(1) show ?thesis
    by (simp add: cleanup_system_def free_process_hash_table_def)
qed

section \<open>Properties\<close>



end
