(* ===== verification/Main_Loop.thy ===== *)
theory Main_Loop
  imports System
begin

text \<open>
  The main loop (src/core/main_loop.c, main_loop): each round empties the ring buffers of all
  processors through the sample callback; a round without events removes dead processes when
  the cleanup interval has passed, and sleeps. The loop itself never ends.
\<close>

section \<open>Model\<close>

record main_state =
  ml_events :: "perf_event_fd list"
  ml_path :: sample_path
  ml_sys :: sym_sys
  last_cleanup_time :: int

fun consume_events :: "bool \<Rightarrow> callchain_result \<Rightarrow> perf_event_fd list \<Rightarrow> sample_path option \<Rightarrow>
    (perf_event_fd list \<times> sample_path option \<times> nat) option" where
  "consume_events lbr locals [] ctx = Some ([], ctx, 0)"
| "consume_events lbr locals (ev # evs) ctx =
     do { (ev, ctx, n) \<leftarrow> perf_event_consume_ring_buffer (sample_handler lbr locals) ctx ev;
          (evs, ctx, m) \<leftarrow> consume_events lbr locals evs ctx;
          Some (ev # evs, ctx, n + m) }"

text \<open>\<open>alv\<close> says which processes exist and \<open>current_time\<close> is the clock at the end of the round.\<close>

definition main_round :: "profiling_config \<Rightarrow> callchain_result \<Rightarrow> (pid \<Rightarrow> bool) \<Rightarrow> int \<Rightarrow> main_state \<Rightarrow> main_state option" where
  "main_round config locals alv current_time s =
     do { (evs, path, total) \<leftarrow> consume_events (use_lbr config) locals (ml_events s) (Some (ml_path s));
          path \<leftarrow> path;
          let s = s\<lparr>ml_events := evs, ml_path := path\<rparr>;
          if total = 0 \<and> current_time - last_cleanup_time s \<ge> cleanup_interval config then
            do { (h, table) \<leftarrow> cleanup_dead_processes alv (sy_heap (ml_sys s)) (process_table (ml_sys s));
                 Some (s\<lparr>ml_sys := (ml_sys s)\<lparr>sy_heap := h, process_table := table\<rparr>, last_cleanup_time := current_time\<rparr>) }
          else Some s }"

section \<open>A round\<close>

text \<open>What the kernel has written into the unread part of a ring buffer.\<close>

definition holds_samples :: "bool \<Rightarrow> perf_event_fd \<Rightarrow> perf_sample list \<Rightarrow> bool" where
  "holds_samples lbr ev ss \<longleftrightarrow> event_ok ev \<and> (\<forall>s\<in>set ss. sample_size lbr s \<le> temp_buf_len) \<and>
     length (concat (map (encode_sample lbr) ss)) < length (ring_data ev) \<and>
     stored (ring_data ev) (unat (data_tail ev) mod length (ring_data ev)) (concat (map (encode_sample lbr) ss)) \<and>
     data_head ev = data_tail ev + of_nat (length (concat (map (encode_sample lbr) ss)))"

lemma queued_size: "length (queued ctx) = size (symbolizer_queue ctx)"
  by (simp add: queued_def)

lemma consume_events_ok:
  assumes "list_all2 (holds_samples lbr) evs sss" and "path_inv base sz ctx out"
    and "size (symbolizer_queue ctx) + length (concat sss) \<le> capacity (symbolizer_queue ctx)"
    and loc: "length (cc_ips locals) = MAX_STACK_DEPTH_COPY"
  shows "\<exists>ctx' out'. consume_events lbr locals evs (Some ctx) =
      Some (map (\<lambda>ev. ev\<lparr>data_tail := data_head ev\<rparr>) evs, Some ctx', length (concat sss)) \<and>
    path_inv base sz ctx' out' \<and> queued ctx' = queued ctx @ map (sample_expected lbr) (concat sss)"
  using assms(1-3)
proof (induction evs sss arbitrary: ctx out rule: list_all2_induct)
  case (Cons ev evs ss sss)
  have h: "event_ok ev" "\<forall>s\<in>set ss. sample_size lbr s \<le> temp_buf_len"
      "length (concat (map (encode_sample lbr) ss)) < length (ring_data ev)"
      "stored (ring_data ev) (unat (data_tail ev) mod length (ring_data ev)) (concat (map (encode_sample lbr) ss))"
      "data_head ev = data_tail ev + of_nat (length (concat (map (encode_sample lbr) ss)))"
    using Cons.hyps(1) by (auto simp: holds_samples_def)
  have "size (symbolizer_queue ctx) + length ss \<le> capacity (symbolizer_queue ctx)" using Cons.prems(2) by simp
  from consume_samples_ok[OF h Cons.prems(1) this loc] obtain ctx1 out1 where
    c: "perf_event_consume_ring_buffer (sample_handler lbr locals) (Some ctx) ev = Some (ev\<lparr>data_tail := data_head ev\<rparr>, Some ctx1, length ss)"
      "path_inv base sz ctx1 out1" "queued ctx1 = queued ctx @ map (sample_expected lbr) ss"
      "capacity (symbolizer_queue ctx1) = capacity (symbolizer_queue ctx)" by blast
  have "size (symbolizer_queue ctx1) + length (concat sss) \<le> capacity (symbolizer_queue ctx1)"
    using Cons.prems(2) c(3,4) queued_size[of ctx1] queued_size[of ctx] by simp
  from Cons.IH[OF c(2) this] obtain ctx' out' where
    "consume_events lbr locals evs (Some ctx1) = Some (map (\<lambda>ev. ev\<lparr>data_tail := data_head ev\<rparr>) evs, Some ctx', length (concat sss))"
      "path_inv base sz ctx' out'" "queued ctx' = queued ctx1 @ map (sample_expected lbr) (concat sss)" by blast
  with c show ?case by auto
qed auto

text \<open>
  C12. One round of the main loop over all processors, when the queue has room and memory
  suffices: every ring buffer is read to its head; the queue holds, behind what it held, the samples
  of all processors in the order of the processors and of each buffer; and the process table
  changes only in a round without events after the cleanup interval, by the removal of exactly the
  processes that are gone.
\<close>

theorem main_round_delivers:
  assumes "list_all2 (holds_samples (use_lbr config)) (ml_events s) sss" and "path_inv base sz (ml_path s) out"
    and "size (symbolizer_queue (ml_path s)) + length (concat sss) \<le> capacity (symbolizer_queue (ml_path s))"
    and "length (cc_ips locals) = MAX_STACK_DEPTH_COPY" and "sys_inv sbase bs (ml_sys s) held"
  shows "\<exists>s' out'. main_round config locals alv now s = Some s' \<and> path_inv base sz (ml_path s') out' \<and>
    queued (ml_path s') = queued (ml_path s) @ map (sample_expected (use_lbr config)) (concat sss) \<and>
    ml_events s' = map (\<lambda>ev. ev\<lparr>data_tail := data_head ev\<rparr>) (ml_events s) \<and> sys_inv sbase bs (ml_sys s') held \<and>
    (if concat sss = [] \<and> now - last_cleanup_time s \<ge> cleanup_interval config
     then last_cleanup_time s' = now \<and>
       find_process (process_table (ml_sys s')) = (\<lambda>p. if alv p then find_process (process_table (ml_sys s)) p else None)
     else ml_sys s' = ml_sys s \<and> last_cleanup_time s' = last_cleanup_time s)"
proof -
  define ss where "ss = concat sss"
  from consume_events_ok[OF assms(1-4)] obtain path out' where
    c: "consume_events (use_lbr config) locals (ml_events s) (Some (ml_path s)) =
        Some (map (\<lambda>ev. ev\<lparr>data_tail := data_head ev\<rparr>) (ml_events s), Some path, length ss)"
      "path_inv base sz path out'" "queued path = queued (ml_path s) @ map (sample_expected (use_lbr config)) ss"
    unfolding ss_def by blast
  let ?s = "s\<lparr>ml_events := map (\<lambda>ev. ev\<lparr>data_tail := data_head ev\<rparr>) (ml_events s), ml_path := path\<rparr>"
  show ?thesis
  proof (cases "ss = [] \<and> now - last_cleanup_time s \<ge> cleanup_interval config")
    case False
    then have "main_round config locals alv now s = Some ?s" using c(1) by (auto simp: main_round_def Let_def)
    with False c(2,3) assms(5) show ?thesis
      unfolding ss_def[symmetric] by (intro exI[of _ ?s] exI[of _ out']) auto
  next
    case True
    let ?t = "map (filter (\<lambda>p. alv (process_id p))) (process_table (ml_sys s))"
    from cleanup_dead_ok[OF assms(5), of alv] obtain h where
      h: "cleanup_dead_processes alv (sy_heap (ml_sys s)) (process_table (ml_sys s)) = Some (h, ?t)"
        "sys_inv sbase bs ((ml_sys s)\<lparr>sy_heap := h, process_table := ?t\<rparr>) held"
        "find_process ?t = (\<lambda>p. if alv p then find_process (process_table (ml_sys s)) p else None)" by (auto simp: Let_def)
    let ?s' = "?s\<lparr>ml_sys := (ml_sys s)\<lparr>sy_heap := h, process_table := ?t\<rparr>, last_cleanup_time := now\<rparr>"
    have "main_round config locals alv now s = Some ?s'" using c(1) h(1) True by (simp add: main_round_def Let_def)
    with True c(2,3) h(2,3) show ?thesis
      unfolding ss_def[symmetric] by (intro exI[of _ ?s'] exI[of _ out']) auto
  qed
qed

theorem main_round_delivers_witness:
  "\<exists>s'. main_round default_config (example_chain (replicate 128 0)) (\<lambda>_. True) 0
      \<lparr>ml_events = [small_event], ml_path = small_path, ml_sys = example_sys, last_cleanup_time = 0\<rparr> = Some s' \<and>
    queued (ml_path s') = queued small_path @ [sample_expected False small_sample] \<and>
    ml_events s' = [small_event\<lparr>data_tail := data_head small_event\<rparr>] \<and> ml_sys s' = example_sys"
proof -
  note sz = small_sample_size
  have st: "stored (ring_data small_event) (unat (data_tail small_event) mod length (ring_data small_event))
      (concat (map (encode_sample False) [small_sample]))"
    using sz by (simp add: stored_def small_event_def nth_append)
  have "holds_samples False small_event [small_sample]"
    unfolding holds_samples_def using st sz by (auto simp: event_ok_def small_event_def)
  then have h: "list_all2 (holds_samples (use_lbr default_config)) [small_event] [[small_sample]]" by (simp add: default_config_def)
  from main_round_delivers[of default_config _ "[[small_sample]]" "live empty_heap" 64 "[]" "example_chain (replicate 128 0)" "live empty_heap" "[]" "[]" "\<lambda>_. True" 0,
      of "\<lparr>ml_events = [small_event], ml_path = small_path, ml_sys = example_sys, last_cleanup_time = 0\<rparr>"]
    h small_path_inv example_sys_inv show ?thesis
    by (auto simp: default_config_def example_chain_def small_path_def fresh_queue_def)
qed

end
