(* ===== verification/Program_Start.thy ===== *)
theory Program_Start
  imports Http_Server Perf_Events Main_Loop
begin

text \<open>
  The program (src/main.c): the stages of \<open>main\<close> from the command line to the main loop, what
  each stage undoes when it fails, and the tear-down at the end. The file system, the threads and
  the clocks are parameters; the log itself and the signal handlers are not modelled. \<open>None\<close> is
  a fault.
\<close>

section \<open>Model\<close>

record main_env =
  me_realpath :: "string option"
  me_mkdir :: bool
  me_realpath_again :: "string option"
  me_log_opens :: bool
  me_elf_version :: bool
  me_db_mkdir :: bool
  me_writer_thread :: "nat option"
  me_db :: db_env
  me_http :: "int \<Rightarrow> bool"
  me_perf :: perf_env
  me_kallsyms :: "string list option"
  me_monotonic :: "(u64 \<times> u64) option"
  me_realtime :: "(u64 \<times> u64) option"
  me_symbolizer_thread :: bool

text \<open>Stage 0: the resolved path of the log directory, which replaces the configured one, and the log file.\<close>

definition resolve_log_dir :: "main_env \<Rightarrow> string option" where
  "resolve_log_dir env = (case me_realpath env of
     Some p \<Rightarrow> Some p
   | None \<Rightarrow> if me_mkdir env then me_realpath_again env else None)"

definition init_log :: "main_env \<Rightarrow> profiling_config \<Rightarrow> c_heap \<Rightarrow> c_heap \<times> profiling_config option" where
  "init_log env config h = (case resolve_log_dir env of
     None \<Rightarrow> (h, None)
   | Some p \<Rightarrow>
       (case strdup h p of
          (h, None) \<Rightarrow> (h, None)
        | (h, Some (b, s)) \<Rightarrow>
            (h, if me_log_opens env then Some (config\<lparr>log_output_dir := (Some b, s)\<rparr>) else None)))"

text \<open>The directory of the histograms: only the copy of the path touches memory.\<close>

definition histogram_dir :: "profiling_config \<Rightarrow> c_heap \<Rightarrow> c_heap option" where
  "histogram_dir config h = (case histogram_log_path config of
     None \<Rightarrow> Some h
   | Some (_, path) \<Rightarrow>
       if path = [] then Some h
       else (case strdup h path of (h, p) \<Rightarrow> free_str h p))"

text \<open>\<open>db_writer_stop\<close> and \<open>db_writer_wait\<close>, which joins the thread after it emptied the queue.\<close>

definition stop_writer :: "profiling_config \<Rightarrow> db_env \<Rightarrow> db_writer \<Rightarrow> c_heap \<Rightarrow> c_heap option" where
  "stop_writer config env ctx h = do {
     ctx \<leftarrow> db_writer_stop config env (ctx\<lparr>dw_heap := h\<rparr>);
     ctx \<leftarrow> (if thread_id ctx = 0 then Some ctx
            else db_writer_thread_func (size (dw_queue ctx) + 1) config env ctx);
     (h, log) \<leftarrow> db_writer_wait (size (dw_queue ctx) + 1) ctx;
     Some h }"

definition symbolizer_init :: "bool \<Rightarrow> c_heap \<Rightarrow> (c_heap \<times> block cqueue option) option" where
  "symbolizer_init thread h = do {
     (h, q) \<leftarrow> queue_init h 1024;
     case q of
       None \<Rightarrow> Some (h, None)
     | Some q \<Rightarrow> if thread then Some (h, Some q) else do { h \<leftarrow> queue_destroy h (Some q); Some (h, None) } }"

record running =
  ru_config :: profiling_config
  ru_db :: db_writer
  ru_http :: http_context
  ru_manager :: perf_event_manager
  ru_system :: system_context
  ru_pool :: mempool_s
  ru_queue :: "block cqueue"

datatype main_result = Exited int | Running running

text \<open>Stages 4 to 5.5: events, system context, sample pool, symbolizer; each failure undoes the earlier ones.\<close>

definition start_sampling :: "main_env \<Rightarrow> profiling_config \<Rightarrow> db_writer \<Rightarrow> http_context \<Rightarrow> perf_os \<Rightarrow> (perf_os \<times> main_result) option" where
  "start_sampling env config ctx http os = do {
     (os, manager) \<leftarrow> perf_event_init_with_config (me_perf env) os (Some config);
     case manager of
       None \<Rightarrow> do { h \<leftarrow> stop_writer config (me_db env) ctx (heap os); Some (os\<lparr>heap := h\<rparr>, Exited 1) }
     | Some m \<Rightarrow> do {
         (h, sys) \<leftarrow> initialize_system (heap os) (me_elf_version env) (me_kallsyms env) (me_monotonic env) (me_realtime env);
         let os = os\<lparr>heap := h\<rparr>;
         case sys of
           None \<Rightarrow> do {
             os \<leftarrow> perf_event_cleanup_manager os (Some m);
             h \<leftarrow> stop_writer config (me_db env) ctx (heap os);
             Some (os\<lparr>heap := h\<rparr>, Exited 1) }
         | Some sys \<Rightarrow> do {
             (h, mp) \<leftarrow> mempool_create (heap os) (nat (sample_pool_size config)) 1056;
             let os = os\<lparr>heap := h\<rparr>;
             case mp of
               None \<Rightarrow> do {
                 os \<leftarrow> perf_event_cleanup_manager os (Some m);
                 h \<leftarrow> stop_writer config (me_db env) ctx (heap os);
                 h \<leftarrow> cleanup_system (Some sys) h;
                 Some (os\<lparr>heap := h\<rparr>, Exited 1) }
             | Some mp \<Rightarrow> do {
                 (h, q) \<leftarrow> symbolizer_init (me_symbolizer_thread env) (heap os);
                 let os = os\<lparr>heap := h\<rparr>;
                 case q of
                   None \<Rightarrow> do {
                     os \<leftarrow> perf_event_cleanup_manager os (Some m);
                     h \<leftarrow> stop_writer config (me_db env) ctx (heap os);
                     h \<leftarrow> cleanup_system (Some sys) h;
                     h \<leftarrow> mempool_destroy h (Some mp);
                     Some (os\<lparr>heap := h\<rparr>, Exited 1) }
                 | Some q \<Rightarrow> Some (os, Running \<lparr>ru_config = config, ru_db = ctx, ru_http = http, ru_manager = m,
                     ru_system = sys, ru_pool = mp, ru_queue = q\<rparr>) } } } }"

text \<open>Stages 1 to 3.5: libelf, the checks of the configuration, the database writer and the HTTP server.\<close>

definition start_services :: "main_env \<Rightarrow> profiling_config \<Rightarrow> perf_os \<Rightarrow> (perf_os \<times> main_result) option" where
  "start_services env config os =
     (if \<not> me_elf_version env then Some (os, Exited 1)
      else if validate_config (Some config) \<noteq> 0 then Some (os, Exited 1)
      else do {
        (h, ctx) \<leftarrow> db_writer_init config (me_db_mkdir env) (heap os);
        case ctx of
          None \<Rightarrow> Some (os\<lparr>heap := h\<rparr>, Exited 1)
        | Some ctx \<Rightarrow> do {
            let ctx = db_writer_start (me_writer_thread env) ctx;
            h \<leftarrow> histogram_dir config h;
            (h, http) \<leftarrow> http_server_start (me_http env) (http_port config) (Some ctx) h;
            case http of
              None \<Rightarrow> do { h \<leftarrow> stop_writer config (me_db env) ctx h; Some (os\<lparr>heap := h\<rparr>, Exited 1) }
            | Some http \<Rightarrow> start_sampling env config ctx http (os\<lparr>heap := h\<rparr>) } })"

definition main_start :: "main_env \<Rightarrow> string list \<Rightarrow> perf_os \<Rightarrow> (perf_os \<times> main_result) option" where
  "main_start env argv os = do {
     (h, r) \<leftarrow> parse_command_line (heap os) argv;
     case r of
       Rejected \<Rightarrow> Some (os\<lparr>heap := h\<rparr>, Exited 1)
     | Exits \<Rightarrow> Some (os\<lparr>heap := h\<rparr>, Exited 0)
     | Parsed config \<Rightarrow>
         (case init_log env config h of
            (h, None) \<Rightarrow> Some (os\<lparr>heap := h\<rparr>, Exited 1)
          | (h, Some config) \<Rightarrow> start_services env config (os\<lparr>heap := h\<rparr>)) }"

text \<open>Stage 7, after the main loop.\<close>

definition main_end :: "main_env \<Rightarrow> running \<Rightarrow> perf_os \<Rightarrow> perf_os option" where
  "main_end env r os = do {
     h \<leftarrow> http_server_stop (Some (ru_http r)) (heap os);
     h \<leftarrow> cleanup_system (Some (ru_system r)) h;
     os \<leftarrow> perf_event_cleanup_manager (os\<lparr>heap := h\<rparr>) (Some (ru_manager r));
     h \<leftarrow> stop_writer (ru_config r) (me_db env) (ru_db r) (heap os);
     h \<leftarrow> (case log_output_dir (ru_config r) of (None, s) \<Rightarrow> Some h | (Some b, s) \<Rightarrow> free_block h b);
     Some (os\<lparr>heap := h\<rparr>) }"

section \<open>Stopping a writer that has nothing to write\<close>

lemma stop_writer_ok:
  assumes inv: "dw_inv base sz P (localtime env) config rows ctx" and "\<not> shutdown (dw_queue ctx)"
    and "thread_id ctx \<noteq> 0" and "size (dw_queue ctx) + length (producer_batch ctx) \<le> capacity (dw_queue ctx)"
    and env: "\<forall>l c. sqlite env l c" "0 < db_batch_size config" and ext: "extends base0 (writer_blocks ctx) base"
  shows "\<exists>h. stop_writer config env ctx (dw_heap ctx) = Some h \<and> live h = base0"
proof -
  from stop_ok[OF inv assms(2,4), of env] obtain ctx2 where
    s: "db_writer_stop config env ctx = Some ctx2" "dw_inv base sz P (localtime env) config rows ctx2"
      "producer_batch ctx2 = []" "shutdown (dw_queue ctx2)" "\<not> dw_running ctx2"
      "same_writer ctx (ctx2\<lparr>dw_running := dw_running ctx, dw_queue := (dw_queue ctx2)\<lparr>shutdown := False\<rparr>\<rparr>)" by auto
  from thread_ok[OF s(2,5,3) env, of "size (dw_queue ctx2) + 1"] obtain ctx3 rows' where
    t: "db_writer_thread_func (size (dw_queue ctx2) + 1) config env ctx2 = Some ctx3" "same_writer ctx2 ctx3"
      "pending_blocks ctx3 = []" "dw_inv base sz P (localtime env) config rows' ctx3" by auto
  have sh: "shutdown (dw_queue ctx3)" "thread_id ctx3 \<noteq> 0" "thread_id ctx2 \<noteq> 0" "writer_blocks ctx3 = writer_blocks ctx"
    using s(4,6) t(2) assms(3) by (auto simp: same_writer_def writer_blocks_def)
  have "size (dw_queue ctx3) = 0"
    using t(3) length_queue_contents[of "dw_queue ctx3"] by (simp add: pending_blocks_def)
  with wait_ok[OF t(4,3) sh(1,2), of base0] ext sh(4) obtain h log where
    "db_writer_wait (size (dw_queue ctx3) + 1) ctx3 = Some (h, log)" "live h = base0" by auto
  moreover have "ctx\<lparr>dw_heap := dw_heap ctx\<rparr> = ctx" by simp
  ultimately show ?thesis using s(1) t(1) sh(3) by (simp add: stop_writer_def)
qed

section \<open>A start that fails\<close>

lemma dw_inv_owns:
  assumes "dw_inv base sz P lt config rows ctx" and "owns (live (dw_heap ctx)) h bs" and "oom h = oom (dw_heap ctx)"
  shows "dw_inv (\<lambda>b. if b \<in> set bs then live h b else base b) sz P lt config rows (ctx\<lparr>dw_heap := h\<rparr>)"
proof (rule dw_inv_heap[OF assms(1) _ assms(3)])
  fix mp assume i: "pool_inv base sz (dw_heap ctx) mp (pending_blocks ctx)"
  have n: "b \<notin> set bs" if "b \<in> set (mp_block mp # pool_block mp # avail mp @ pending_blocks ctx)" for b
    using that i assms(2) by (auto simp: pool_inv_def owns_def split: if_splits)
  have l: "live h b = live (dw_heap ctx) b" if "b \<notin> set bs" for b using that assms(2) by (simp add: owns_def)
  show "pool_inv (\<lambda>b. if b \<in> set bs then live h b else base b) sz h mp (pending_blocks ctx)"
    using i n owns_heap_ok[OF assms(2)] l by (auto simp: pool_inv_def fun_eq_iff)
qed

lemma extends_owns:
  assumes "extends base0 ws base" and "\<forall>b\<in>set ws. b \<notin> set bs" 
  shows "extends (\<lambda>b. if b \<in> set bs then f b else base0 b) ws (\<lambda>b. if b \<in> set bs then f b else base b)"
  using assms by (auto simp: extends_def)

lemma writer_blocks_live:
  assumes "dw_inv base sz P lt config rows ctx" and "extends base0 (writer_blocks ctx) base" and "b \<in> set (writer_blocks ctx)"
  shows "live (dw_heap ctx) b \<noteq> None"
  using assms by (auto simp: dw_inv_def pool_inv_def extends_def split: option.splits)

lemma stop_fresh_writer:
  assumes h: "heap_ok h" "\<forall>b. \<not> oom h b" and init: "db_writer_init config True h = Some (h0, Some ctx)"
    and env: "\<forall>l c. sqlite env l c" "0 < db_batch_size config" and tid: "0 < tid"
    and own: "owns (live h0) h1 bs" "oom h1 = oom h0"
  shows "\<exists>h2. stop_writer config env (db_writer_start (Some tid) ctx) h1 = Some h2 \<and>
    live h2 = (\<lambda>b. if b \<in> set bs then live h1 b else live h b) \<and> (\<forall>b\<in>set bs. live h b = None)"
proof -
  let ?sz = "SIZEOF_DB_ENTRY + nat (max_stack_depth config * 257)"
  let ?c = "db_writer_start (Some tid) ctx" and ?over = "\<lambda>f b. if b \<in> set bs then live h1 b else f b"
  have hp: "dw_heap ctx = h0"
    using init by (auto simp: db_writer_init_def split: if_splits bind_splits option.splits prod.splits)
  from init_ok[OF h init, of "[]" "localtime env"] obtain base where
    i: "dw_inv base ?sz [] (localtime env) config [] ctx" "extends (live h) (writer_blocks ctx) base" "pending ctx = []"
      "\<not> shutdown (dw_queue ctx)" "capacity (dw_queue ctx) = QUEUE_CAPACITY" "size (dw_queue ctx) = 0" by blast
  have pb: "producer_batch ctx = []" using i(3) by (simp add: pending_def pending_blocks_def)
  have c: "dw_inv base ?sz [] (localtime env) config [] ?c" "thread_id ?c \<noteq> 0" "writer_blocks ?c = writer_blocks ctx"
      "dw_queue ?c = dw_queue ctx" "dw_heap ?c = h0" "producer_batch ?c = []"
    using i(1) tid hp pb by (auto simp: db_writer_start_def dw_inv_def pending_def pending_blocks_def db_state_def writer_blocks_def)
  have disj: "\<forall>b\<in>set (writer_blocks ctx). b \<notin> set bs"
  proof (intro ballI notI)
    fix b assume b: "b \<in> set (writer_blocks ctx)" "b \<in> set bs"
    from writer_blocks_live[OF i(1,2) b(1)] own(1) hp b(2) show False by (simp add: owns_def)
  qed
  have "dw_inv (?over base) ?sz [] (localtime env) config [] (?c\<lparr>dw_heap := h1\<rparr>)"
    using dw_inv_owns[OF c(1), of h1 bs] own c(5) by simp
  from stop_writer_ok[OF this _ _ _ env, of "?over (live h)"] extends_owns[OF i(2) disj, of "live h1"] c i(4-6)
  obtain h2 where "stop_writer config env (?c\<lparr>dw_heap := h1\<rparr>) h1 = Some h2" "live h2 = ?over (live h)"
    by (auto simp: writer_blocks_def)
  moreover have "stop_writer config env (?c\<lparr>dw_heap := h1\<rparr>) h1 = stop_writer config env ?c h1" by (simp add: stop_writer_def)
  moreover have "live h b = None" if "b \<in> set bs" for b
  proof -
    have "live h0 b = None" "b \<notin> set (writer_blocks ctx)" using that own(1) disj by (auto simp: owns_def)
    then show ?thesis using i(1,2) hp by (auto simp: dw_inv_def pool_inv_def extends_def split: if_splits)
  qed
  ultimately show ?thesis by auto
qed

lemma histogram_dir_ok:
  assumes "owns base h bs"
  shows "\<exists>h'. histogram_dir config h = Some h' \<and> owns base h' bs \<and> oom h' = oom h"
proof (cases "histogram_log_path config")
  case (Some p)
  obtain b path where p: "p = (b, path)" by (cases p)
  obtain h1 r where s: "strdup h path = (h1, r)" by (cases "strdup h path")
  note o = owns_strdup[OF assms s]
  from owns_free_str[of base h1 r bs] o obtain h2 where "free_str h1 r = Some h2" "owns base h2 bs" "oom h2 = oom h1" by auto
  with Some p s o assms show ?thesis by (simp add: histogram_dir_def)
qed (use assms in \<open>simp add: histogram_dir_def\<close>)

text \<open>The kernel refuses the event of the first processor.\<close>

lemma perf_init_refused:
  assumes own: "owns base (heap os) bs" "\<forall>b. \<not> oom (heap os) b" and "kernel_ok env (build_perf_attr config) (use_lbr config)"
    and "0 < nprocs env" and "perf_event_open env (build_perf_attr config) 0 = Inr errno"
  shows "\<exists>h. perf_event_init_with_config env os (Some config) = Some (os\<lparr>heap := h\<rparr>, None) \<and> owns base h bs \<and> oom h = oom (heap os)"
proof -
  let ?n = "nat (nprocs env)"
  have n: "[0..<?n] = 0 # [1..<?n]" using assms(4) by (simp add: upt_rec)
  have e: "\<not> (use_lbr config \<and> (errno = EINVAL \<or> errno = EOPNOTSUPP))"
    using assms(3)[unfolded kernel_ok_def, rule_format, of 0] assms(5) by simp
  obtain h1 mb where m1: "malloc (heap os) 16 = (h1, Some mb)" using own(2) by (auto simp: malloc_def)
  note o1 = owns_malloc[OF own(1) m1] oom_malloc[OF m1]
  obtain h2 eb where m2: "malloc h1 (?n * 48) = (h2, Some eb)" using own(2) o1 by (auto simp: malloc_def)
  note o2 = owns_malloc[OF o1(1) m2] oom_malloc[OF m2]
  from owns_free_hd[OF o2(1)] obtain h3 where f3: "free_block h2 eb = Some h3" "owns base h3 (mb # bs)" by blast
  from owns_free_hd[OF f3(2)] obtain h4 where f4: "free_block h3 mb = Some h4" "owns base h4 bs" by blast
  have l: "live h2 mb \<noteq> None" "live h2 eb \<noteq> None" using o2(1) by (auto simp: owns_def)
  show ?thesis using assms(4,5) n e m1 m2 f3(1) f4 l o1(2) o2(2) oom_free_block[OF f3(1)] oom_free_block[OF f4(1)]
    by (auto simp: perf_event_init_with_config_def Let_def initialize_manager_def cleanup_events_def manager_live_def free_manager_def)
qed




text \<open>A start on a machine that allows no perf events, with and without a free port.\<close>

definition example_main :: "bool \<Rightarrow> main_env" where
  "example_main port = \<lparr>me_realpath = Some ''/log'', me_mkdir = True, me_realpath_again = None, me_log_opens = True,
     me_elf_version = True, me_db_mkdir = True, me_writer_thread = Some 7, me_db = example_db_env, me_http = (\<lambda>_. port),
     me_perf = Perf_Events.example_env\<lparr>perf_event_open := (\<lambda>_ _. Inr 13)\<rparr>, me_kallsyms = None, me_monotonic = None, me_realtime = None,
     me_symbolizer_thread = True\<rparr>"


end
