(* ===== verification/Main_Thread.thy ===== *)
theory Main_Thread
  imports Main_Loop
begin

text \<open>
  The main thread in small steps (src/core/main_loop.c, main_loop, and the loop of
  src/perf/perf.c, perf_event_consume_ring_buffer): one step looks at the next ring, handles one record or
  gives a ring back to the kernel, so that the other threads and the kernel can act in between. Left
  alone, the steps do what \<open>main_round\<close> does (\<open>main_round_steps\<close>). The second part is what a step does to the records
  the kernel wrote, also while it writes more.
\<close>

section \<open>Model\<close>

text \<open>One turn of the loop over the records of a ring; without a next position the loop is left.\<close>

definition read_step :: "(u8 list \<Rightarrow> 'c \<Rightarrow> 'c) \<Rightarrow> u8 list \<Rightarrow> nat \<Rightarrow> 'c \<Rightarrow> nat \<Rightarrow> (nat option \<times> 'c \<times> nat) option" where
  "read_step handler ring cur ctx processed =
     do { hdr \<leftarrow> read_header ring cur;
          let sz = hdr_size hdr in
          if sz = 0 then Some (None, ctx, processed)
          else if cur + sz > length ring then
            (let first_part = length ring - cur in
             if sz \<le> temp_buf_len then do {
               rest \<leftarrow> read_bytes ring 0 (sz - first_part);
               Some (Some (sz - first_part), handler (drop cur ring @ rest) ctx, processed + 1) }
             else Some (Some (sz - first_part), ctx, processed))
          else
            Some (Some (if cur + sz = length ring then 0 else cur + sz), handler (take sz (drop cur ring)) ctx, processed + 1) }"

text \<open>
  Where the main thread is: before the ring \<open>i\<close> with the number of records found in this round, or in
  the ring \<open>i\<close> at a position, with the end position and the head that were read before.
\<close>

datatype main_pc = Scan nat nat | Reading nat nat nat u64 nat nat

text \<open>The head of the loop over the events, and the end of a round.\<close>

definition scan_step :: "profiling_config \<Rightarrow> (pid \<Rightarrow> bool) \<Rightarrow> int \<Rightarrow> nat \<Rightarrow> nat \<Rightarrow> main_state \<Rightarrow> (main_state \<times> main_pc) option" where
  "scan_step config alv current_time i found s =
     (if i < length (ml_events s) then
        (let ev = ml_events s ! i; buf_size = mmap_size ev - pagesize ev; tl_at = data_tail ev; hd_at = data_head ev in
         if sint (pagesize ev) \<le> 0 then Some (s, Scan (Suc i) found)
         else if tl_at = hd_at then Some (s, Scan (Suc i) found)
         else if buf_size = 0 then None
         else Some (s, Reading i (unat (tl_at mod buf_size)) (unat (hd_at mod buf_size)) hd_at 0 found))
      else if found = 0 \<and> current_time - last_cleanup_time s \<ge> cleanup_interval config then
        do { (h, table) \<leftarrow> cleanup_dead_processes alv (sy_heap (ml_sys s)) (process_table (ml_sys s));
             Some (s\<lparr>ml_sys := (ml_sys s)\<lparr>sy_heap := h, process_table := table\<rparr>, last_cleanup_time := current_time\<rparr>, Scan 0 0) }
      else Some (s, Scan 0 0))"

text \<open>The store of the tail.\<close>

definition finish_ring :: "nat \<Rightarrow> u64 \<Rightarrow> main_state \<Rightarrow> main_state" where
  "finish_ring i hd_at s = s\<lparr>ml_events := (ml_events s)[i := (ml_events s ! i)\<lparr>data_tail := hd_at\<rparr>]\<rparr>"

text \<open>A step; \<open>None\<close> is a fault or, in the callback, a wait for room in the queue.\<close>

definition main_step :: "profiling_config \<Rightarrow> callchain_result \<Rightarrow> (pid \<Rightarrow> bool) \<Rightarrow> int \<Rightarrow> main_state \<times> main_pc \<Rightarrow> (main_state \<times> main_pc) option" where
  "main_step config locals alv current_time st =
     (case st of
        (s, Scan i found) \<Rightarrow> scan_step config alv current_time i found s
      | (s, Reading i cur stop hd_at n found) \<Rightarrow>
          if cur = stop then Some (finish_ring i hd_at s, Scan (Suc i) (found + n))
          else do {
            (c, path, n) \<leftarrow> read_step (sample_handler (use_lbr config) locals) (ring_data (ml_events s ! i)) cur (Some (ml_path s)) n;
            path \<leftarrow> path;
            let s = s\<lparr>ml_path := path\<rparr>;
            Some (case c of
              None \<Rightarrow> (finish_ring i hd_at s, Scan (Suc i) (found + n))
            | Some cur \<Rightarrow> (s, Reading i cur stop hd_at n found)) })"

section \<open>The steps make up a round\<close>

inductive main_steps :: "profiling_config \<Rightarrow> callchain_result \<Rightarrow> (pid \<Rightarrow> bool) \<Rightarrow> int \<Rightarrow> main_state \<times> main_pc \<Rightarrow> main_state \<times> main_pc \<Rightarrow> bool"
  for config locals alv now where
  none: "main_steps config locals alv now st st"
| more: "main_step config locals alv now st = Some st' \<Longrightarrow> main_steps config locals alv now st' st'' \<Longrightarrow> main_steps config locals alv now st st''"

lemma main_steps_trans:
  "main_steps config locals alv now a b \<Longrightarrow> main_steps config locals alv now b c \<Longrightarrow> main_steps config locals alv now a c"
  by (induction rule: main_steps.induct) (auto intro: more)

lemma read_step_None:
  "read_step (sample_handler lbr locals) ring cur None n = Some (c, ctx, m) \<Longrightarrow> ctx = None"
  by (auto simp: read_step_def Let_def sample_handler_def split: if_splits bind_splits)

text \<open>The loop over one ring, in small steps. A callback that blocks stays blocked.\<close>

lemma consume_loop_steps:
  assumes "consume_loop handler ring stop cur ctx n = Some r" and "handler = sample_handler (use_lbr config) locals"
  shows "(ctx = None \<longrightarrow> fst r = None) \<and>
    (\<forall>s path' m. r = (Some path', m) \<longrightarrow> ctx = Some (ml_path s) \<longrightarrow> ring = ring_data (ml_events s ! i) \<longrightarrow>
      main_steps config locals alv now (s, Reading i cur stop hd_at n found)
        (finish_ring i hd_at (s\<lparr>ml_path := path'\<rparr>), Scan (Suc i) (found + m)))"
proof -
  let ?P = "\<lambda>handler ring stop cur ctx n r. handler = sample_handler (use_lbr config) locals \<longrightarrow> (ctx = None \<longrightarrow> fst r = None) \<and>
    (\<forall>s path' m. r = (Some path', m) \<longrightarrow> ctx = Some (ml_path s) \<longrightarrow> ring = ring_data (ml_events s ! i) \<longrightarrow>
      main_steps config locals alv now (s, Reading i cur stop hd_at n found)
        (finish_ring i hd_at (s\<lparr>ml_path := path'\<rparr>), Scan (Suc i) (found + m)))"
  have "?P handler ring stop cur ctx n r"
  proof (rule consume_loop.raw_induct[OF _ assms(1), where P = ?P], rule impI, goal_cases)
  case (1 loop handler ring stop cur ctx n r)
  let ?steps = "main_steps config locals alv now"
  note IH = 1(1)[THEN mp, OF _ 1(3)]
  have body: "(if cur = stop then Some (ctx, n) else do { (c, ctx, n) \<leftarrow> read_step handler ring cur ctx n;
      case c of None \<Rightarrow> Some (ctx, n) | Some cur \<Rightarrow> loop handler ring stop cur ctx n }) = Some r"
    using 1(2) by (auto simp: read_step_def Let_def split: if_splits bind_splits)
  have ?case if True: "cur = stop"
  proof -
    from body True have r: "r = (ctx, n)" by simp
    have "?steps (s, Reading i cur stop hd_at n found) (finish_ring i hd_at s, Scan (Suc i) (found + n))" for s
      by (rule more[OF _ none]) (simp add: main_step_def True)
    then show ?case unfolding r True by auto
  qed
  moreover have ?case if False: "cur \<noteq> stop"
  proof -
    from body False obtain c ctx1 n1 where rs: "read_step handler ring cur ctx n = Some (c, ctx1, n1)"
      and k: "(case c of None \<Rightarrow> Some (ctx1, n1) | Some cur \<Rightarrow> loop handler ring stop cur ctx1 n1) = Some r" by (auto split: bind_splits)
    have N: "ctx1 = None \<Longrightarrow> fst r = None" 
      using k IH by (cases c) auto
    show ?case
    proof (intro conjI allI impI)
      assume "ctx = None"
      with rs 1(3) read_step_None N show "fst r = None" by blast
    next
      fix s :: main_state and path' m assume a: "r = (Some path', m)" "ctx = Some (ml_path s)" "ring = ring_data (ml_events s ! i)"
      with N obtain p where p: "ctx1 = Some p" by (cases ctx1) auto
      let ?s = "s\<lparr>ml_path := p\<rparr>"
      have st: "main_step config locals alv now (s, Reading i cur stop hd_at n found) = Some (case c of
          None \<Rightarrow> (finish_ring i hd_at ?s, Scan (Suc i) (found + n1)) | Some cur \<Rightarrow> (?s, Reading i cur stop hd_at n1 found))"
        using rs[unfolded 1(3) a(2,3) p] False by (simp add: main_step_def Let_def)
      show "?steps (s, Reading i cur stop hd_at n found) (finish_ring i hd_at (s\<lparr>ml_path := path'\<rparr>), Scan (Suc i) (found + m))"
      proof (cases c)
        case None
        with k a(1) p have "p = path'" "n1 = m" by auto
        with more[OF st none] None show ?thesis by simp
      next
        case (Some cur')
        with k have "loop handler ring stop cur' ctx1 n1 = Some r" by simp
        from IH[OF this, THEN conjunct2, THEN spec[of _ ?s]] a(1,3) p have "?steps (?s, Reading i cur' stop hd_at n1 found)
            (finish_ring i hd_at (?s\<lparr>ml_path := path'\<rparr>), Scan (Suc i) (found + m))" by simp
        with more[OF st] Some show ?thesis by simp
      qed
    qed
  qed
  ultimately show ?case by blast
  qed
  with assms(2) show ?thesis by blast
qed

lemma consume_ring_None:
  fixes config :: profiling_config
  shows "perf_event_consume_ring_buffer (sample_handler (use_lbr config) locals) None ev = Some (ev', ctx, n) \<Longrightarrow> ctx = None"
  using consume_loop_steps(1)[OF _ refl, of config locals "ring_data ev" _ _ None]
  by (fastforce simp: perf_event_consume_ring_buffer_def Let_def split: if_splits bind_splits)

lemma consume_events_blocked:
  fixes config :: profiling_config
  shows "consume_events (use_lbr config) locals evs None = Some (evs', ctx, n) \<Longrightarrow> ctx = None"
proof (induction evs arbitrary: evs' n)
  case (Cons ev evs)
  then obtain ev1 c m evs2 k where "perf_event_consume_ring_buffer (sample_handler (use_lbr config) locals) None ev = Some (ev1, c, m)"
    "consume_events (use_lbr config) locals evs c = Some (evs2, ctx, k)" by (auto split: bind_splits)
  with Cons.IH consume_ring_None show ?case by metis
qed simp

lemma consume_ring_steps:
  assumes run: "perf_event_consume_ring_buffer (sample_handler (use_lbr config) locals) (Some (ml_path s)) (ml_events s ! i) = Some (ev', Some path', n)"
    and i: "i < length (ml_events s)"
  shows "main_steps config locals alv now (s, Scan i found)
    (s\<lparr>ml_events := (ml_events s)[i := ev'], ml_path := path'\<rparr>, Scan (Suc i) (found + n))"
proof (cases "sint (pagesize (ml_events s ! i)) \<le> 0 \<or> data_tail (ml_events s ! i) = data_head (ml_events s ! i)")
  case True
  with run have "ev' = ml_events s ! i" "path' = ml_path s" "n = 0"
    by (auto simp: perf_event_consume_ring_buffer_def Let_def split: if_splits)
  then have "s\<lparr>ml_events := (ml_events s)[i := ev'], ml_path := path'\<rparr> = s" by simp
  moreover have "main_step config locals alv now (s, Scan i found) = Some (s, Scan (Suc i) found)"
    using True i by (auto simp: main_step_def scan_step_def Let_def)
  ultimately show ?thesis using \<open>n = 0\<close> by (auto intro: more none)
next
  case False
  let ?ev = "ml_events s ! i"
  let ?b = "mmap_size ?ev - pagesize ?ev"
  let ?pc = "Reading i (unat (data_tail ?ev mod ?b)) (unat (data_head ?ev mod ?b)) (data_head ?ev) 0 found"
  from run False have l: "?b \<noteq> 0" "consume_loop (sample_handler (use_lbr config) locals) (ring_data ?ev) (unat (data_head ?ev mod ?b))
      (unat (data_tail ?ev mod ?b)) (Some (ml_path s)) 0 = Some (Some path', n)" "ev' = ?ev\<lparr>data_tail := data_head ?ev\<rparr>"
    by (auto simp: perf_event_consume_ring_buffer_def Let_def split: if_splits bind_splits)
  have "main_step config locals alv now (s, Scan i found) = Some (s, ?pc)"
    using False i l(1) by (simp add: main_step_def scan_step_def Let_def)
  moreover have "main_steps config locals alv now (s, ?pc) (finish_ring i (data_head ?ev) (s\<lparr>ml_path := path'\<rparr>), Scan (Suc i) (found + n))"
    using consume_loop_steps[OF l(2) refl] by blast
  moreover have "finish_ring i (data_head ?ev) (s\<lparr>ml_path := path'\<rparr>) = s\<lparr>ml_events := (ml_events s)[i := ev'], ml_path := path'\<rparr>"
    by (simp add: finish_ring_def l(3))
  ultimately show ?thesis using more by metis
qed

lemma consume_events_steps:
  assumes "consume_events (use_lbr config) locals evs (Some (ml_path s)) = Some (evs', Some path', n)" and "ml_events s = pre @ evs"
  shows "main_steps config locals alv now (s, Scan (length pre) found)
    (s\<lparr>ml_events := pre @ evs', ml_path := path'\<rparr>, Scan (length (pre @ evs)) (found + n))"
  using assms
proof (induction evs arbitrary: pre s found evs' n)
  case Nil
  then have "s\<lparr>ml_events := pre @ evs', ml_path := path'\<rparr> = s" "n = 0" by auto
  then show ?case by (simp add: none)
next
  case (Cons ev evs)
  from Cons.prems(1) obtain ev1 ctx1 n1 evs1 n2 where c: "perf_event_consume_ring_buffer (sample_handler (use_lbr config) locals)
      (Some (ml_path s)) ev = Some (ev1, ctx1, n1)" "consume_events (use_lbr config) locals evs ctx1 = Some (evs1, Some path', n2)"
      "evs' = ev1 # evs1" "n = n1 + n2" by (auto split: bind_splits)
  from c(2) obtain p1 where p1: "ctx1 = Some p1" by (cases ctx1) (auto dest: consume_events_blocked)
  have "main_steps config locals alv now (s, Scan (length pre) found)
      (s\<lparr>ml_events := (ml_events s)[length pre := ev1], ml_path := p1\<rparr>, Scan (Suc (length pre)) (found + n1))"
    by (rule consume_ring_steps) (use c(1) p1 Cons.prems(2) in simp_all)
  moreover have "(ml_events s)[length pre := ev1] = (pre @ [ev1]) @ evs" using Cons.prems(2) by simp
  moreover have "main_steps config locals alv now (s\<lparr>ml_events := (pre @ [ev1]) @ evs, ml_path := p1\<rparr>, Scan (length (pre @ [ev1])) (found + n1))
      (s\<lparr>ml_events := pre @ evs', ml_path := path'\<rparr>, Scan (length (pre @ ev # evs)) (found + n))"
    using Cons.IH[of "s\<lparr>ml_events := (pre @ [ev1]) @ evs, ml_path := p1\<rparr>" evs1 n2 "pre @ [ev1]" "found + n1"] c(2-4) p1 by (simp add: add.assoc)
  ultimately show ?case using main_steps_trans by force
qed

lemma consume_events_length: "consume_events lbr locals evs ctx = Some (evs', ctx', n) \<Longrightarrow> length evs' = length evs"
  by (induction evs arbitrary: ctx evs' n) (auto split: bind_splits)

text \<open>A round of \<open>Main_Loop\<close> is what the steps do when nothing interferes.\<close>

lemma main_round_steps:
  assumes "main_round config locals alv now s = Some s'"
  shows "main_steps config locals alv now (s, Scan 0 0) (s', Scan 0 0)"
proof -
  from assms obtain evs path n where c: "consume_events (use_lbr config) locals (ml_events s) (Some (ml_path s)) = Some (evs, Some path, n)"
    by (auto simp: main_round_def split: bind_splits)
  let ?s = "s\<lparr>ml_events := evs, ml_path := path\<rparr>"
  note l = consume_events_length[OF c]
  have "main_steps config locals alv now (s, Scan 0 0) (?s, Scan (length evs) n)"
    using consume_events_steps[OF c, of "[]" alv now 0] l by simp
  moreover have "main_step config locals alv now (?s, Scan (length evs) n) = Some (s', Scan 0 0)"
    using assms c by (auto simp: main_step_def scan_step_def main_round_def Let_def split: if_splits bind_splits)
  ultimately show ?thesis using main_steps_trans more none by metis
qed

section \<open>The kernel writes into a ring buffer\<close>

text \<open>The kernel stores the bytes of a record behind the head, around the end of the data area, and moves the head.\<close>

fun ring_put :: "u8 list \<Rightarrow> nat \<Rightarrow> u8 list \<Rightarrow> u8 list" where
  "ring_put ring pos [] = ring"
| "ring_put ring pos (b # bs) = ring_put (ring[pos mod length ring := b]) (Suc pos) bs"

definition kernel_writes :: "bool \<Rightarrow> perf_event_fd \<Rightarrow> perf_sample list \<Rightarrow> perf_event_fd" where
  "kernel_writes lbr ev ss =
     (let bs = concat (map (encode_sample lbr) ss) in
      ev\<lparr>ring_data := ring_put (ring_data ev) (unat (data_head ev)) bs, data_head := data_head ev + of_nat (length bs)\<rparr>)"

text \<open>The records fit beside what is unread, without filling the ring, and each fits the temporary buffer of the reader.\<close>

definition ring_room :: "bool \<Rightarrow> perf_event_fd \<Rightarrow> perf_sample list \<Rightarrow> bool" where
  "ring_room lbr ev ss \<longleftrightarrow> (\<forall>s\<in>set ss. sample_size lbr s \<le> temp_buf_len) \<and>
     unat (data_head ev - data_tail ev) + length (concat (map (encode_sample lbr) ss)) < length (ring_data ev)"

lemma ring_put_length [simp]: "length (ring_put ring pos bs) = length ring"
  by (induction bs arbitrary: ring pos) auto

lemma ring_put_cong: "pos mod length ring = pos' mod length ring \<Longrightarrow> ring_put ring pos bs = ring_put ring pos' bs"
proof (induction bs arbitrary: ring pos pos')
  case (Cons b bs)
  have "Suc pos mod length ring = Suc pos' mod length ring" using Cons.prems by (metis mod_Suc)
  then show ?case using Cons.IH[of "Suc pos" "ring[pos mod length ring := b]" "Suc pos'"] Cons.prems by simp
qed simp

lemma mod_offset_inj:
  fixes pos i j n :: nat
  assumes "i < j" "j < n" shows "(pos + i) mod n \<noteq> (pos + j) mod n"
proof
  assume "(pos + i) mod n = (pos + j) mod n"
  moreover have "pos + i \<le> pos + j" using assms by simp
  ultimately have "n dvd (pos + j) - (pos + i)" using mod_eq_dvd_iff_nat[of "pos + i" "pos + j" n] by simp
  then have "n dvd j - i" by simp
  with assms show False using nat_dvd_not_less[of "j - i" n] by simp
qed

lemma stored_put:
  assumes "stored ring pos xs" and "length xs + length bs \<le> length ring"
  shows "stored (ring_put ring (pos + length xs) bs) pos (xs @ bs)"
  using assms
proof (induction bs arbitrary: ring xs)
  case (Cons b bs)
  let ?r = "ring[(pos + length xs) mod length ring := b]"
  have n: "length xs < length ring" using Cons.prems(2) by simp
  have "stored ?r pos (xs @ [b])"
    unfolding stored_def
  proof (intro allI impI)
    fix i assume i: "i < length (xs @ [b])"
    show "?r ! ((pos + i) mod length ?r) = (xs @ [b]) ! i"
    proof (cases "i = length xs")
      case True
      have "(pos + length xs) mod length ring < length ring" using n by (intro mod_less_divisor) linarith
      with True show ?thesis by simp
    next
      case False
      with i n have "(pos + i) mod length ring \<noteq> (pos + length xs) mod length ring" by (intro mod_offset_inj) auto
      with False i Cons.prems(1) show ?thesis by (simp add: stored_def nth_append)
    qed
  qed
  from Cons.IH[OF this] Cons.prems(2) show ?case by simp
qed simp

lemma unread_length:
  assumes "holds_samples lbr ev ss"
  shows "unat (data_head ev - data_tail ev) = length (concat (map (encode_sample lbr) ss))"
proof -
  have "length (concat (map (encode_sample lbr) ss)) < length (ring_data ev)" "length (ring_data ev) dvd 2 ^ 64"
      "data_head ev = data_tail ev + of_nat (length (concat (map (encode_sample lbr) ss)))"
    using assms by (auto simp: holds_samples_def event_ok_def)
  moreover from this(2) have "length (ring_data ev) \<le> 2 ^ 64" by (rule dvd_imp_le) simp
  ultimately show ?thesis by (simp add: unat_of_nat take_bit_nat_eq_self)
qed

lemma kernel_writes_holds:
  assumes h: "holds_samples lbr ev us" and room: "ring_room lbr ev ss"
  shows "holds_samples lbr (kernel_writes lbr ev ss) (us @ ss)"
proof -
  let ?xs = "concat (map (encode_sample lbr) us)" and ?bs = "concat (map (encode_sample lbr) ss)"
  let ?n = "length (ring_data ev)" and ?t = "unat (data_tail ev)"
  have o: "event_ok ev" "\<forall>s\<in>set us. sample_size lbr s \<le> temp_buf_len"
      "stored (ring_data ev) (?t mod ?n) ?xs" "data_head ev = data_tail ev + of_nat (length ?xs)" "?n dvd 2 ^ 64"
    using h by (auto simp: holds_samples_def event_ok_def)
  have r: "\<forall>s\<in>set ss. sample_size lbr s \<le> temp_buf_len" "length ?xs + length ?bs < ?n"
    using room unread_length[OF h] by (auto simp: ring_room_def)
  have "unat (data_head ev) mod ?n = (?t mod ?n + length ?xs) mod ?n" unfolding o(4) by (rule mod_head[OF o(5)])
  then have "ring_put (ring_data ev) (unat (data_head ev)) ?bs = ring_put (ring_data ev) (?t mod ?n + length ?xs) ?bs"
    by (rule ring_put_cong)
  with stored_put[OF o(3), of ?bs] r(2) have "stored (ring_put (ring_data ev) (unat (data_head ev)) ?bs) (?t mod ?n) (?xs @ ?bs)" by simp
  with o(1,2,4) r show ?thesis by (auto simp: holds_samples_def kernel_writes_def event_ok_def Let_def add.assoc)
qed

section \<open>A turn on what the kernel wrote\<close>

lemma read_step_record:
  assumes "record_ok r" and st: "stored ring pos r" and pos: "pos < length ring" and len: "length r < length ring"
    and small: "length r \<le> temp_buf_len"
  shows "read_step handler ring pos ctx n = Some (Some ((pos + length r) mod length ring), handler r ctx, n + 1)"
proof -
  have r: "header_len \<le> length r" using assms(1) by (simp add: record_ok_def)
  note h = record_header[OF assms(1)]
  have "stored ring pos (take header_len r)" using stored_prefix[of ring pos "take header_len r" "drop header_len r"] st by simp
  then have hd: "read_header ring pos = Some (take header_len r)"
    using h r len pos by (intro read_header_stored) auto
  have nz: "length r \<noteq> 0" using r by auto
  show ?thesis
  proof (cases "pos + length r > length ring")
    case True
    have m: "(pos + length r) mod length ring = length r - (length ring - pos)"
      using True pos len mod_wrap[of "length ring" "pos + length r"] by simp
    have "read_bytes ring 0 (length r - (length ring - pos)) = Some (take (length r - (length ring - pos)) ring)"
      using len by (simp add: read_bytes_def)
    with True nz hd h small stored_wrap[OF st pos True] len show ?thesis
      unfolding m by (simp add: read_step_def Let_def)
  next
    case False
    then have m: "(if pos + length r = length ring then 0 else pos + length r) = (pos + length r) mod length ring" by auto
    from False nz hd h stored_flat[OF st] show ?thesis by (simp add: read_step_def Let_def m)
  qed
qed

definition encoded :: "bool \<Rightarrow> perf_sample list \<Rightarrow> u8 list" where
  "encoded lbr ss = concat (map (encode_sample lbr) ss)"

lemma encoded_simps [simp]:
  "encoded lbr [] = []" "encoded lbr (s # ss) = encode_sample lbr s @ encoded lbr ss"
  "encoded lbr (xs @ ys) = encoded lbr xs @ encoded lbr ys"
  by (simp_all add: encoded_def)

lemma holds_samples_encoded: "holds_samples lbr ev ss \<longleftrightarrow> event_ok ev \<and> (\<forall>s\<in>set ss. sample_size lbr s \<le> temp_buf_len) \<and>
     length (encoded lbr ss) < length (ring_data ev) \<and>
     stored (ring_data ev) (unat (data_tail ev) mod length (ring_data ev)) (encoded lbr ss) \<and>
     data_head ev = data_tail ev + of_nat (length (encoded lbr ss))"
  by (simp add: holds_samples_def encoded_def)

text \<open>
  The main thread reads a ring that holds \<open>old @ todo @ new\<close>: \<open>old\<close> are accepted, \<open>todo\<close> were
  there when it began, \<open>new\<close> were written since.
\<close>

definition reads_at :: "bool \<Rightarrow> perf_event_fd \<Rightarrow> perf_sample list \<Rightarrow> perf_sample list \<Rightarrow> nat \<Rightarrow> nat \<Rightarrow> u64 \<Rightarrow> bool" where
  "reads_at lbr ev old todo cur stop hd_at \<longleftrightarrow>
     cur = (unat (data_tail ev) + length (encoded lbr old)) mod length (ring_data ev) \<and>
     stop = (unat (data_tail ev) + length (encoded lbr (old @ todo))) mod length (ring_data ev) \<and>
     hd_at = data_tail ev + of_nat (length (encoded lbr (old @ todo)))"

lemma reads_at_end:
  assumes h: "holds_samples lbr ev (old @ todo @ new)" and r: "reads_at lbr ev old todo cur stop hd_at"
  shows "cur = stop \<longleftrightarrow> todo = []"
proof
  assume e: "cur = stop"
  show "todo = []"
  proof (rule ccontr)
    let ?n = "length (encoded lbr todo)" and ?N = "length (ring_data ev)"
    assume "todo \<noteq> []"
    then obtain x xs where x: "todo = x # xs" by (cases todo) auto
    have "sample_size lbr x < 2 ^ 16" using h x by (auto simp: holds_samples_def)
    from encode_sample_record(3)[OF this] have "0 < ?n" by (auto simp: x record_ok_def)
    moreover have "?n < ?N" using h by (simp add: holds_samples_encoded)
    ultimately have "(unat (data_tail ev) + length (encoded lbr old) + 0) mod ?N \<noteq> (unat (data_tail ev) + length (encoded lbr old) + ?n) mod ?N"
      using mod_offset_inj by blast
    with e r show False by (simp add: reads_at_def add.assoc)
  qed
qed (use r in \<open>simp add: reads_at_def\<close>)

lemma reads_at_record:
  assumes h: "holds_samples lbr ev (old @ (x # todo) @ new)" and r: "reads_at lbr ev old (x # todo) cur stop hd_at"
  shows "\<exists>cur'. read_step handler (ring_data ev) cur ctx n = Some (Some cur', handler (encode_sample lbr x) ctx, n + 1) \<and>
    reads_at lbr ev (old @ [x]) todo cur' stop hd_at"
proof -
  let ?N = "length (ring_data ev)" and ?x = "encode_sample lbr x"
  have N: "0 < ?N" using h by (simp add: holds_samples_def event_ok_def)
  have sz: "sample_size lbr x < 2 ^ 16" "sample_size lbr x \<le> temp_buf_len" using h by (auto simp: holds_samples_def)
  note e = encode_sample_record[OF sz(1)]
  have "stored (ring_data ev) ((unat (data_tail ev) mod ?N + length (encoded lbr old)) mod ?N) (?x @ encoded lbr (todo @ new))"
    using h stored_suffix[of "ring_data ev" "unat (data_tail ev) mod ?N" "encoded lbr old"] by (simp add: holds_samples_encoded)
  then have st: "stored (ring_data ev) cur ?x"
    using stored_prefix r by (fastforce simp: reads_at_def mod_add_left_eq)
  have "cur < ?N" "length ?x < ?N" using r N h by (auto simp: reads_at_def holds_samples_encoded)
  from read_step_record[OF e(3) st this] e(1) sz(2) r show ?thesis
    by (auto simp: reads_at_def mod_add_left_eq add.assoc)
qed

lemma holds_rest:
  assumes h: "holds_samples lbr ev (old @ new)" and t: "hd_at = data_tail ev + of_nat (length (encoded lbr old))"
  shows "holds_samples lbr (ev\<lparr>data_tail := hd_at\<rparr>) new"
proof -
  let ?N = "length (ring_data ev)"
  have N: "?N dvd 2 ^ 64" using h by (simp add: holds_samples_def event_ok_def)
  have "stored (ring_data ev) ((unat (data_tail ev) mod ?N + length (encoded lbr old)) mod ?N) (encoded lbr new)"
    using h stored_suffix[of "ring_data ev" "unat (data_tail ev) mod ?N" "encoded lbr old"] by (simp add: holds_samples_encoded)
  with h show ?thesis
    unfolding t by (auto simp: holds_samples_encoded event_ok_def mod_head[OF N] add.assoc)
qed

lemma unread_encoded: "holds_samples lbr ev ss \<Longrightarrow> data_head ev = data_tail ev \<Longrightarrow> ss = []"
proof -
  assume h: "holds_samples lbr ev ss" and e: "data_head ev = data_tail ev"
  have "encoded lbr ss = []" using unread_length[OF h] e by (simp add: encoded_def)
  moreover have "\<forall>s\<in>set ss. sample_size lbr s < 2 ^ 16" using h by (auto simp: holds_samples_def)
  ultimately show "ss = []" using encode_sample_record(3) by (cases ss) (fastforce simp: record_ok_def)+
qed

lemma reads_at_start:
  assumes "holds_samples lbr ev ss"
  shows "reads_at lbr ev [] ss (unat (data_tail ev mod (mmap_size ev - pagesize ev))) (unat (data_head ev mod (mmap_size ev - pagesize ev))) (data_head ev)"
    "mmap_size ev - pagesize ev \<noteq> 0"
proof -
  let ?N = "length (ring_data ev)"
  have o: "unat (mmap_size ev - pagesize ev) = ?N" "?N dvd 2 ^ 64" "0 < ?N" using assms by (simp_all add: holds_samples_def event_ok_def)
  have hd: "data_head ev = data_tail ev + of_nat (length (encoded lbr ss))" using assms by (simp add: holds_samples_encoded)
  show "reads_at lbr ev [] ss (unat (data_tail ev mod (mmap_size ev - pagesize ev))) (unat (data_head ev mod (mmap_size ev - pagesize ev))) (data_head ev)"
    using mod_head[OF o(2), of "data_tail ev" "length (encoded lbr ss)"] by (simp add: reads_at_def unat_mod o(1) hd mod_add_left_eq)
  show "mmap_size ev - pagesize ev \<noteq> 0" using o by (metis less_not_refl unat_0)
qed

end
