(* ===== verification/Profiler.thy ===== *)
theory Profiler
  imports Main_Thread Pipeline
begin

text \<open>
  The running profiler as one transition system: the kernel writes samples into the ring buffers
  while the main thread (src/core/main_loop.c), the symbolizer thread (src/core/handler.c) and the
  writer thread (src/utils/database.c) take turns in any order. A turn of the main thread is a step of
  \<open>Main_Thread\<close>, so the others act also while it is in the middle of a ring or waits for room in the queue;
  a turn of the symbolizer or the writer is a completed round, as \<open>Pipeline\<close> and \<open>Db_Writer\<close> model it. The threads
  meet only in the queues and pools, whose operations hold a lock. What \<open>prof_step\<close> adds is the environment: what
  the kernel writes, which processes live, what the files and the clocks say. Every turn keeps
  \<open>accounted\<close>: each written sample is in exactly one place.
\<close>

section \<open>The threads of the profiler\<close>

record profiler =
  pf_pipe :: pipeline
  pf_events :: "perf_event_fd list"
  pf_last_cleanup :: int
  pf_pc :: main_pc

definition main_state_of :: "profiler \<Rightarrow> main_state" where
  "main_state_of s = \<lparr>ml_events = pf_events s, ml_path = pl_path (pf_pipe s), ml_sys = pl_sys (pf_pipe s),
     last_cleanup_time = pf_last_cleanup s\<rparr>"

definition put_main :: "main_state \<times> main_pc \<Rightarrow> profiler \<Rightarrow> profiler" where
  "put_main st s = (case st of (m, pc) \<Rightarrow> s\<lparr>pf_pipe := (pf_pipe s)\<lparr>pl_path := ml_path m, pl_sys := ml_sys m\<rparr>,
     pf_events := ml_events m, pf_last_cleanup := last_cleanup_time m, pf_pc := pc\<rparr>)"

text \<open>The sample at the head of the queue can be dealt with and belongs to the hour of the file \<open>P\<close>.\<close>

definition head_sane :: "db_env \<Rightarrow> string \<Rightarrow> sym_world \<Rightarrow> pipeline \<Rightarrow> bool" where
  "head_sane env P w p \<longleftrightarrow> (case queue_contents (symbolizer_queue (pl_path p)) of
     [] \<Rightarrow> False
   | b # _ \<Rightarrow> (let cc = sample_chain (chunks (pl_path p) b) in
       sample_sane w (pl_sys p) cc \<and> db_path (output_dir (pl_db p)) (localtime env) (sample_time p (cc_timestamp cc)) = P))"

datatype prof_event = Sampled nat "perf_sample list" | MainTurn | SymbolizerTurn | WriterTurn

text \<open>
  One step of the whole: the kernel writes samples of one processor, the main thread makes a step,
  or one of the other threads completes a round. What the outside contributes to a round (the processes that are alive, the
  clock, the files, the latency that is measured) is arbitrary.
\<close>

inductive prof_step :: "profiling_config \<Rightarrow> db_env \<Rightarrow> string \<Rightarrow> profiler \<Rightarrow> prof_event \<Rightarrow> profiler \<Rightarrow> bool" for config env P where
  sampled: "i < length (pf_events s) \<Longrightarrow> ring_room (use_lbr config) (pf_events s ! i) ss \<Longrightarrow>
    prof_step config env P s (Sampled i ss)
      (s\<lparr>pf_events := (pf_events s)[i := kernel_writes (use_lbr config) (pf_events s ! i) ss]\<rparr>)"
| main_turn: "length (cc_ips locals) = MAX_STACK_DEPTH_COPY \<Longrightarrow>
    main_step config locals alv current_time (main_state_of s, pf_pc s) = Some st \<Longrightarrow>
    prof_step config env P s MainTurn (put_main st s)"
| symbolizer_turn: "head_sane env P w (pf_pipe s) \<Longrightarrow>
    symbolizer_round config w (env\<lparr>latency := l, log_time := t\<rparr>) (pf_pipe s) = Some (p, True) \<Longrightarrow>
    prof_step config env P s SymbolizerTurn (s\<lparr>pf_pipe := p\<rparr>)"
| writer_turn: "writer_round config (env\<lparr>latency := l, log_time := t\<rparr>) (pl_db (pf_pipe s)) = Some (d, True) \<Longrightarrow>
    prof_step config env P s WriterTurn (s\<lparr>pf_pipe := (pf_pipe s)\<lparr>pl_db := d\<rparr>\<rparr>)"

inductive prof_run :: "profiling_config \<Rightarrow> db_env \<Rightarrow> string \<Rightarrow> profiler \<Rightarrow> prof_event list \<Rightarrow> profiler \<Rightarrow> bool" for config env P s0 where
  start: "prof_run config env P s0 [] s0"
| step: "prof_run config env P s0 tr s \<Longrightarrow> prof_step config env P s e s' \<Longrightarrow> prof_run config env P s0 (tr @ [e]) s'"

inductive_cases sampled_step: "prof_step config env P s (Sampled i ss) s'"
inductive_cases main_step: "prof_step config env P s MainTurn s'"
inductive_cases symbolizer_step: "prof_step config env P s SymbolizerTurn s'"
inductive_cases writer_step: "prof_step config env P s WriterTurn s'"

text \<open>The samples of processor \<open>i\<close>: those the kernel wrote in a run, and those in a list of tagged samples.\<close>

definition written :: "prof_event list \<Rightarrow> nat \<Rightarrow> perf_sample list" where
  "written tr i = concat (map (\<lambda>e. case e of Sampled j ss \<Rightarrow> if j = i then ss else [] | _ \<Rightarrow> []) tr)"

definition from_cpu :: "nat \<Rightarrow> (nat \<times> perf_sample) list \<Rightarrow> perf_sample list" where
  "from_cpu i A = map snd (filter (\<lambda>x. fst x = i) A)"

lemma from_cpu_append [simp]: "from_cpu i (A @ B) = from_cpu i A @ from_cpu i B"
  by (simp add: from_cpu_def)

text \<open>The row that a sample gives, apart from its stack.\<close>

definition row_of :: "(u64 \<Rightarrow> u64) \<Rightarrow> nat \<times> perf_sample \<Rightarrow> db_row \<Rightarrow> bool" where
  "row_of tm x r \<longleftrightarrow> row_time r = sint (tm (s_time (snd x))) \<and> row_pid r = sint (s_pid (snd x))"

section \<open>What every turn keeps\<close>

definition committed :: "db_writer \<Rightarrow> db_row list" where
  "committed d = fst (replay 0 (sql_log d))"

text \<open>The rows of the samples that the symbolizer has dealt with: those committed and those on their way.\<close>

definition reported :: "profiler \<Rightarrow> db_row list" where
  "reported s = committed (pl_db (pf_pipe s)) @ map parse_entry (pending (pl_db (pf_pipe s)))"

text \<open>
  \<open>A\<close> are the samples that the main thread has accepted, in order, with their processors, \<open>V\<close>
  what each ring buffer holds, and \<open>k\<close> how many of the ring that is being read are accepted.
\<close>

fun reading :: "bool \<Rightarrow> perf_event_fd list \<Rightarrow> perf_sample list list \<Rightarrow> nat \<Rightarrow> nat \<Rightarrow> main_pc \<Rightarrow> bool" where
  "reading lbr evs V k m (Scan i found) = (k = 0 \<and> m = 0)"
| "reading lbr evs V k m (Reading i cur stop hd_at n found) =
     (i < length V \<and> k + m \<le> length (V ! i) \<and> reads_at lbr (evs ! i) (take k (V ! i)) (take m (drop k (V ! i))) cur stop hd_at)"

fun left :: "main_pc \<Rightarrow> perf_sample list list \<Rightarrow> nat \<Rightarrow> nat \<Rightarrow> perf_sample list" where
  "left (Scan i found) V k j = (if j < length V then V ! j else [])"
| "left (Reading i cur stop hd_at n found) V k j = (if j < length V then drop (if j = i then k else 0) (V ! j) else [])"

definition accounted :: "bool \<Rightarrow> (nat \<Rightarrow> perf_sample list) \<Rightarrow> (nat \<times> perf_sample) list \<Rightarrow> perf_sample list list \<Rightarrow> nat \<Rightarrow> nat \<Rightarrow>
    profiler \<Rightarrow> bool" where
  "accounted lbr W A V k m s \<longleftrightarrow> list_all2 (holds_samples lbr) (pf_events s) V \<and> reading lbr (pf_events s) V k m (pf_pc s) \<and>
     (\<forall>i. W i = from_cpu i A @ left (pf_pc s) V k i) \<and> length (reported s) \<le> length A \<and>
     list_all2 (row_of (sample_time (pf_pipe s))) (take (length (reported s)) A) (reported s) \<and>
     queued (pl_path (pf_pipe s)) = map (sample_expected lbr \<circ> snd) (drop (length (reported s)) A)"

definition parts_ok :: "profiling_config \<Rightarrow> db_env \<Rightarrow> string \<Rightarrow> profiler \<Rightarrow> bool" where
  "parts_ok config env P s \<longleftrightarrow> (\<exists>base psz out. path_inv base psz (pl_path (pf_pipe s)) out) \<and>
     (\<exists>base bs held. sys_inv base bs (pl_sys (pf_pipe s)) held) \<and>
     (\<exists>base sz. SIZEOF_DB_ENTRY + FLAME_SIZE + 256 \<le> sz \<and>
       dw_inv base sz P (localtime env) config (committed (pl_db (pf_pipe s))) (pl_db (pf_pipe s))) \<and>
     dw_running (pl_db (pf_pipe s)) \<and> \<not> shutdown (dw_queue (pl_db (pf_pipe s))) \<and>
     capacity (dw_queue (pl_db (pf_pipe s))) = QUEUE_CAPACITY \<and> capacity (symbolizer_queue (pl_path (pf_pipe s))) = 1024"

lemma dw_inv_rows: "dw_inv base sz P lt config rows d \<Longrightarrow> committed d = rows"
  by (simp add: dw_inv_def db_state_def committed_def)

text \<open>What the symbolizer relies on and no turn changes.\<close>

definition same_setting :: "pipeline \<Rightarrow> pipeline \<Rightarrow> bool" where
  "same_setting p p' \<longleftrightarrow> kernel_symbols (pl_sys p') = kernel_symbols (pl_sys p) \<and> sample_time p' = sample_time p \<and>
     output_dir (pl_db p') = output_dir (pl_db p)"

lemma sampled_ok:
  assumes inv: "accounted lbr W A V k m s" "parts_ok config env P s" and i: "i < length (pf_events s)"
    and room: "ring_room lbr (pf_events s ! i) ss"
  shows "accounted lbr (W(i := W i @ ss)) A (V[i := V ! i @ ss]) k m
      (s\<lparr>pf_events := (pf_events s)[i := kernel_writes lbr (pf_events s ! i) ss]\<rparr>)"
    "parts_ok config env P (s\<lparr>pf_events := (pf_events s)[i := kernel_writes lbr (pf_events s ! i) ss]\<rparr>)"
proof -
  let ?e = "(pf_events s)[i := kernel_writes lbr (pf_events s ! i) ss]" and ?V = "V[i := V ! i @ ss]"
  have u: "list_all2 (holds_samples lbr) (pf_events s) V" using inv(1) by (simp add: accounted_def)
  then have n: "i < length V" "length V = length (pf_events s)" "holds_samples lbr (pf_events s ! i) (V ! i)"
    using i by (auto simp: list_all2_conv_all_nth)
  have k: "reading lbr (pf_events s) V k m (pf_pc s)" using inv(1) by (simp add: accounted_def)
  have "reading lbr ?e ?V k m (pf_pc s)"
  proof (cases "pf_pc s")
    case (Reading j cur stop hd_at c found)
    with k i n(2) show ?thesis
      by (cases "j = i") (auto simp: reads_at_def kernel_writes_def Let_def)
  qed (use k in simp)
  moreover have "left (pf_pc s) ?V k j = left (pf_pc s) V k j @ (if j = i then ss else [])" for j
    using k n(1) by (cases "pf_pc s") auto
  ultimately show "accounted lbr (W(i := W i @ ss)) A ?V k m (s\<lparr>pf_events := ?e\<rparr>)"
    using list_all2_update_cong[OF u kernel_writes_holds[OF n(3) room]] inv(1) by (simp add: accounted_def reported_def)
  from inv(2) show "parts_ok config env P (s\<lparr>pf_events := ?e\<rparr>)" by (simp add: parts_ok_def)
qed

text \<open>A turn of the main thread between two rings: nothing moves.\<close>

lemma scan_ok:
  assumes inv: "accounted (use_lbr config) W A V 0 0 s" "parts_ok config env P s" and pc: "pf_pc s = Scan i found"
  shows "\<exists>st. main_step config locals alv now (main_state_of s, Scan i found) = Some st \<and> parts_ok config env P (put_main st s) \<and>
    same_setting (pf_pipe s) (pf_pipe (put_main st s)) \<and> pl_db (pf_pipe (put_main st s)) = pl_db (pf_pipe s) \<and>
    queued (pl_path (pf_pipe (put_main st s))) = queued (pl_path (pf_pipe s)) \<and>
    (if i < length V then (snd st = Scan (Suc i) found \<and> V ! i = [] \<and> accounted (use_lbr config) W A V 0 0 (put_main st s)) \<or>
         (\<exists>cur stop hd_at. snd st = Reading i cur stop hd_at 0 found \<and> accounted (use_lbr config) W A V 0 (length (V ! i)) (put_main st s))
     else snd st = Scan 0 0 \<and> accounted (use_lbr config) W A V 0 0 (put_main st s))"
proof -
  let ?lbr = "use_lbr config" and ?m = "main_state_of s"
  have u: "list_all2 (holds_samples ?lbr) (pf_events s) V" using inv(1) by (simp add: accounted_def)
  have len: "length V = length (pf_events s)" using u by (simp add: list_all2_lengthD)
  have same: "reported (put_main (?m, pc) s) = reported s" "parts_ok config env P (put_main (?m, pc) s)" "pf_events (put_main (?m, pc) s) = pf_events s"
    "pf_pc (put_main (?m, pc) s) = pc" "pl_db (pf_pipe (put_main (?m, pc) s)) = pl_db (pf_pipe s)"
    "sample_time (pf_pipe (put_main (?m, pc) s)) = sample_time (pf_pipe s)" "same_setting (pf_pipe s) (pf_pipe (put_main (?m, pc) s))"
    "pl_path (pf_pipe (put_main (?m, pc) s)) = pl_path (pf_pipe s)" for pc
    using inv(2) by (simp_all add: put_main_def main_state_of_def reported_def parts_ok_def sample_time_def fun_eq_iff same_setting_def)
  have stay: "accounted ?lbr W A V 0 0 (put_main (?m, Scan j c) s)" for j c
    using inv(1) pc by (simp add: accounted_def same)
  show ?thesis
  proof (cases "i < length V")
    case True
    then have h: "holds_samples ?lbr (pf_events s ! i) (V ! i)" using u by (simp add: list_all2_conv_all_nth)
    note r = reads_at_start[OF h]
    have ps: "\<not> sint (pagesize (pf_events s ! i)) \<le> 0" using h by (simp add: holds_samples_def event_ok_def)
    show ?thesis
    proof (cases "data_tail (pf_events s ! i) = data_head (pf_events s ! i)")
      case e: True
      have st: "main_step config locals alv now (?m, Scan i found) = Some (?m, Scan (Suc i) found)"
        using e True len ps by (simp add: main_step_def scan_step_def Let_def main_state_of_def)
      have "V ! i = []" using unread_encoded[OF h] e by simp
      with st stay same True show ?thesis by (intro exI[of _ "(?m, Scan (Suc i) found)"]) simp
    next
      case False
      let ?ev = "pf_events s ! i"
      let ?b = "mmap_size ?ev - pagesize ?ev"
      let ?pc = "Reading i (unat (data_tail ?ev mod ?b)) (unat (data_head ?ev mod ?b)) (data_head ?ev) 0 found"
      have "main_step config locals alv now (?m, Scan i found) = Some (?m, ?pc)"
        using False True len ps r(2) by (simp add: main_step_def scan_step_def Let_def main_state_of_def)
      moreover have "accounted ?lbr W A V 0 (length (V ! i)) (put_main (?m, ?pc) s)"
        using inv(1) pc r(1) True by (auto simp: accounted_def same)
      ultimately show ?thesis using True same by (intro exI[of _ "(?m, ?pc)"]) simp
    qed
  next
    case False
    show ?thesis
    proof (cases "found = 0 \<and> now - pf_last_cleanup s \<ge> cleanup_interval config")
      case True
      from inv(2) obtain sbase bs held where y: "sys_inv sbase bs (pl_sys (pf_pipe s)) held" by (auto simp: parts_ok_def)
      let ?sys = "pl_sys (pf_pipe s)"
      let ?t = "map (filter (\<lambda>p. alv (process_id p))) (process_table ?sys)"
      from cleanup_dead_ok[OF y, of alv] obtain h where c: "cleanup_dead_processes alv (sy_heap ?sys) (process_table ?sys) = Some (h, ?t)"
        "sys_inv sbase bs (?sys\<lparr>sy_heap := h, process_table := ?t\<rparr>) held" by (auto simp: Let_def)
      let ?m' = "?m\<lparr>ml_sys := ?sys\<lparr>sy_heap := h, process_table := ?t\<rparr>, last_cleanup_time := now\<rparr>"
      have st: "main_step config locals alv now (?m, Scan i found) = Some (?m', Scan 0 0)"
        using True False len c(1) by (simp add: main_step_def scan_step_def main_state_of_def)
      have k: "reported (put_main (?m', Scan 0 0) s) = reported s" "pl_path (pf_pipe (put_main (?m', Scan 0 0) s)) = pl_path (pf_pipe s)"
        "pf_events (put_main (?m', Scan 0 0) s) = pf_events s" "pf_pc (put_main (?m', Scan 0 0) s) = Scan 0 0"
        "sample_time (pf_pipe (put_main (?m', Scan 0 0) s)) = sample_time (pf_pipe s)"
        "pl_db (pf_pipe (put_main (?m', Scan 0 0) s)) = pl_db (pf_pipe s)"
        "same_setting (pf_pipe s) (pf_pipe (put_main (?m', Scan 0 0) s))"
        "pl_sys (pf_pipe (put_main (?m', Scan 0 0) s)) = ?sys\<lparr>sy_heap := h, process_table := ?t\<rparr>"
        by (simp_all add: put_main_def main_state_of_def reported_def sample_time_def fun_eq_iff same_setting_def)
      have "accounted ?lbr W A V 0 0 (put_main (?m', Scan 0 0) s)" using inv(1) pc by (simp add: accounted_def k)
      moreover have "parts_ok config env P (put_main (?m', Scan 0 0) s)" using inv(2) c(2) by (auto simp: parts_ok_def k)
      ultimately show ?thesis using st False k by (intro exI[of _ "(?m', Scan 0 0)"]) simp
    next
      case nc: False
      have "main_step config locals alv now (?m, Scan i found) = Some (?m, Scan 0 0)"
        using False len nc by (auto simp: main_step_def scan_step_def main_state_of_def)
      with stay same False show ?thesis by (intro exI[of _ "(?m, Scan 0 0)"]) simp
    qed
  qed
qed

text \<open>A turn in a ring: one sample goes to the queue, or waits for room; after the last one the tail moves.\<close>

lemma finish_ok:
  assumes inv: "accounted (use_lbr config) W A V k 0 s" "parts_ok config env P s" and pc: "pf_pc s = Reading i cur stop hd_at n found"
  shows "\<exists>st. main_step config locals alv now (main_state_of s, pf_pc s) = Some (st, Scan (Suc i) (found + n)) \<and>
    accounted (use_lbr config) W A (V[i := drop k (V ! i)]) 0 0 (put_main (st, Scan (Suc i) (found + n)) s) \<and>
    parts_ok config env P (put_main (st, Scan (Suc i) (found + n)) s) \<and>
    pf_pipe (put_main (st, Scan (Suc i) (found + n)) s) = pf_pipe s"
proof -
  let ?lbr = "use_lbr config" and ?m = "main_state_of s" and ?pc = "Scan (Suc i) (found + n)"
  have u: "list_all2 (holds_samples ?lbr) (pf_events s) V" and r: "i < length V" "k \<le> length (V ! i)"
      "reads_at ?lbr (pf_events s ! i) (take k (V ! i)) [] cur stop hd_at"
    using inv(1) pc by (auto simp: accounted_def)
  have h: "holds_samples ?lbr (pf_events s ! i) (take k (V ! i) @ drop k (V ! i))" using u r(1) by (simp add: list_all2_conv_all_nth)
  have e: "cur = stop" using r(3) by (simp add: reads_at_def)
  have "holds_samples ?lbr ((pf_events s ! i)\<lparr>data_tail := hd_at\<rparr>) (drop k (V ! i))"
    by (rule holds_rest[OF h]) (use r(3) in \<open>simp add: reads_at_def\<close>)
  then have u': "list_all2 (holds_samples ?lbr) ((pf_events s)[i := (pf_events s ! i)\<lparr>data_tail := hd_at\<rparr>]) (V[i := drop k (V ! i)])"
    by (rule list_all2_update_cong[OF u])
  let ?s = "finish_ring i hd_at ?m"
  have k: "pf_pipe (put_main (?s, ?pc) s) = pf_pipe s" "pf_pc (put_main (?s, ?pc) s) = ?pc"
    "pf_events (put_main (?s, ?pc) s) = (pf_events s)[i := (pf_events s ! i)\<lparr>data_tail := hd_at\<rparr>]"
    by (simp_all add: put_main_def main_state_of_def finish_ring_def)
  have "left ?pc (V[i := drop k (V ! i)]) 0 j = left (pf_pc s) V k j" for j by (auto simp: pc nth_list_update)
  then have "accounted ?lbr W A (V[i := drop k (V ! i)]) 0 0 (put_main (?s, ?pc) s)"
    using inv(1) u' by (simp add: accounted_def k reported_def del: left.simps)
  moreover have "parts_ok config env P (put_main (?s, ?pc) s)" using inv(2) by (simp add: parts_ok_def k)
  moreover have "main_step config locals alv now (?m, pf_pc s) = Some (?s, ?pc)" by (simp add: main_step_def pc e)
  ultimately show ?thesis using k(1) by blast
qed

lemma read_ok:
  assumes inv: "accounted (use_lbr config) W A V k (Suc m) s" "parts_ok config env P s" and pc: "pf_pc s = Reading i cur stop hd_at n found"
    and loc: "length (cc_ips locals) = MAX_STACK_DEPTH_COPY"
  shows "case main_step config locals alv now (main_state_of s, pf_pc s) of
      None \<Rightarrow> size (symbolizer_queue (pl_path (pf_pipe s))) = 1024
    | Some (st, pc') \<Rightarrow> (\<exists>cur'. pc' = Reading i cur' stop hd_at (n + 1) found) \<and>
        accounted (use_lbr config) W (A @ [(i, V ! i ! k)]) V (Suc k) m (put_main (st, pc') s) \<and> parts_ok config env P (put_main (st, pc') s) \<and>
        same_setting (pf_pipe s) (pf_pipe (put_main (st, pc') s)) \<and> pl_db (pf_pipe (put_main (st, pc') s)) = pl_db (pf_pipe s)"
proof -
  let ?lbr = "use_lbr config" and ?m = "main_state_of s" and ?x = "V ! i ! k" and ?h = "sample_handler (use_lbr config) locals"
  have u: "list_all2 (holds_samples ?lbr) (pf_events s) V" and r: "i < length V" "k + Suc m \<le> length (V ! i)"
      "reads_at ?lbr (pf_events s ! i) (take k (V ! i)) (take (Suc m) (drop k (V ! i))) cur stop hd_at"
    using inv(1) pc by (auto simp: accounted_def)
  have kl: "k < length (V ! i)" using r(2) by simp
  have d: "drop k (V ! i) = ?x # drop (Suc k) (V ! i)" using Cons_nth_drop_Suc[OF kl] by simp
  have td: "take (Suc m) (drop k (V ! i)) = ?x # take m (drop (Suc k) (V ! i))" by (simp add: d)
  have v: "V ! i = take k (V ! i) @ (?x # take m (drop (Suc k) (V ! i))) @ drop m (drop (Suc k) (V ! i))"
    by (simp del: drop_drop) (simp add: d[symmetric])
  have h: "holds_samples ?lbr (pf_events s ! i) (take k (V ! i) @ (?x # take m (drop (Suc k) (V ! i))) @ drop m (drop (Suc k) (V ! i)))"
    using u r(1) v by (simp add: list_all2_conv_all_nth del: drop_drop)
  have ne: "cur \<noteq> stop" using reads_at_end[OF h r(3)[unfolded td]] by simp
  from reads_at_record[OF h r(3)[unfolded td], of ?h "Some (pl_path (pf_pipe s))" n] obtain cur' where
    c: "read_step ?h (ring_data (pf_events s ! i)) cur (Some (pl_path (pf_pipe s))) n =
        Some (Some cur', ?h (encode_sample ?lbr ?x) (Some (pl_path (pf_pipe s))), n + 1)"
      "reads_at ?lbr (pf_events s ! i) (take k (V ! i) @ [?x]) (take m (drop (Suc k) (V ! i))) cur' stop hd_at" by blast
  have dh: "?h (encode_sample ?lbr ?x) (Some (pl_path (pf_pipe s))) = dispatch_sample_event ?lbr locals (encode_sample ?lbr ?x) (pl_path (pf_pipe s))"
    by (simp add: sample_handler_def)
  have sz: "sample_size ?lbr ?x < 2 ^ 16" using h by (auto simp: holds_samples_def)
  from inv(2) obtain base psz out where p: "path_inv base psz (pl_path (pf_pipe s)) out" by (auto simp: parts_ok_def)
  have cap: "capacity (symbolizer_queue (pl_path (pf_pipe s))) = 1024" using inv(2) by (simp add: parts_ok_def)
  show ?thesis
  proof (cases "size (symbolizer_queue (pl_path (pf_pipe s))) < capacity (symbolizer_queue (pl_path (pf_pipe s)))")
    case False
    with dispatch_full[OF p False sz loc] c(1) ne have "main_step config locals alv now (?m, pf_pc s) = None"
      by (simp add: main_step_def pc main_state_of_def dh)
    with False p cap show ?thesis by (auto simp: path_inv_def queue_ok_def)
  next
    case True
    from dispatch_sample_ok[OF p True sz loc] obtain path' b where
      q: "dispatch_sample_event ?lbr locals (encode_sample ?lbr ?x) (pl_path (pf_pipe s)) = Some path'" "path_inv base psz path' (b # out)"
        "queued path' = queued (pl_path (pf_pipe s)) @ [sample_expected ?lbr ?x]"
        "capacity (symbolizer_queue path') = capacity (symbolizer_queue (pl_path (pf_pipe s)))" by blast
    let ?s = "?m\<lparr>ml_path := path'\<rparr>" and ?pc = "Reading i cur' stop hd_at (Suc n) found"
    have st: "main_step config locals alv now (?m, pf_pc s) = Some (?s, ?pc)"
      using c(1) ne q(1) dh by (simp add: main_step_def pc main_state_of_def)
    have k: "pf_events (put_main (?s, ?pc) s) = pf_events s" "pf_pc (put_main (?s, ?pc) s) = ?pc" "reported (put_main (?s, ?pc) s) = reported s"
      "pl_path (pf_pipe (put_main (?s, ?pc) s)) = path'" "sample_time (pf_pipe (put_main (?s, ?pc) s)) = sample_time (pf_pipe s)"
      "pl_sys (pf_pipe (put_main (?s, ?pc) s)) = pl_sys (pf_pipe s)" "pl_db (pf_pipe (put_main (?s, ?pc) s)) = pl_db (pf_pipe s)"
      "same_setting (pf_pipe s) (pf_pipe (put_main (?s, ?pc) s))"
      by (simp_all add: put_main_def main_state_of_def reported_def sample_time_def fun_eq_iff same_setting_def)
    have "reading ?lbr (pf_events s) V (Suc k) m ?pc" using c(2) r(1,2) kl by (simp add: take_Suc_conv_app_nth)
    moreover have "from_cpu j A @ left (pf_pc s) V k j = from_cpu j (A @ [(i, ?x)]) @ left ?pc V (Suc k) j" for j
      using r(1) d by (auto simp: pc from_cpu_def)
    ultimately have "accounted ?lbr W (A @ [(i, ?x)]) V (Suc k) m (put_main (?s, ?pc) s)"
      using inv(1) q(3) by (simp add: accounted_def k del: left.simps reading.simps from_cpu_append)
    moreover have "parts_ok config env P (put_main (?s, ?pc) s)" using inv(2) q(2,4) by (auto simp: parts_ok_def k)
    ultimately show ?thesis using st k by simp
  qed
qed

text \<open>A round of the symbolizer: the sample at the head becomes an entry of the writer.\<close>

lemma symbolizer_ok:
  assumes inv: "accounted lbr W A V k m s" "parts_ok config env P s" and hd: "head_sane env P w (pf_pipe s)"
    and env: "localtime env' = localtime env"
  shows "case symbolizer_round config w env' (pf_pipe s) of
      None \<Rightarrow> int (capacity (dw_queue (pl_db (pf_pipe s)))) - int (size (dw_queue (pl_db (pf_pipe s)))) < flush_threshold config
    | Some (p, go) \<Rightarrow> go \<and> accounted lbr W A V k m (s\<lparr>pf_pipe := p\<rparr>) \<and> parts_ok config env P (s\<lparr>pf_pipe := p\<rparr>) \<and>
        committed (pl_db p) = committed (pl_db (pf_pipe s)) \<and> chunks (pl_path p) = chunks (pl_path (pf_pipe s)) \<and>
        queue_contents (symbolizer_queue (pl_path p)) = tl (queue_contents (symbolizer_queue (pl_path (pf_pipe s)))) \<and>
        kernel_symbols (pl_sys p) = kernel_symbols (pl_sys (pf_pipe s)) \<and> sample_time p = sample_time (pf_pipe s) \<and>
        output_dir (pl_db p) = output_dir (pl_db (pf_pipe s))"
proof -
  let ?p = "pf_pipe s"
  from hd obtain b rest where q: "queue_contents (symbolizer_queue (pl_path ?p)) = b # rest"
    by (auto simp: head_sane_def split: list.splits)
  let ?cc = "sample_chain (chunks (pl_path ?p) b)"
  have sane: "sample_sane w (pl_sys ?p) ?cc" "db_path (output_dir (pl_db ?p)) (localtime env) (sample_time ?p (cc_timestamp ?cc)) = P"
    using hd q by (simp_all add: head_sane_def Let_def)
  from inv(2) obtain base psz out where p: "path_inv base psz (pl_path ?p) out" by (auto simp: parts_ok_def)
  from inv(2) obtain sbase bs held where y: "sys_inv sbase bs (pl_sys ?p) held" by (auto simp: parts_ok_def)
  from inv(2) obtain dbase sz where d: "SIZEOF_DB_ENTRY + FLAME_SIZE + 256 \<le> sz"
      "dw_inv dbase sz P (localtime env) config (committed (pl_db ?p)) (pl_db ?p)" "dw_running (pl_db ?p)"
      "\<not> shutdown (dw_queue (pl_db ?p))" by (auto simp: parts_ok_def)
  note c = symbolizer_round_cases[OF p q refl y sane(1) d(2-4,1) sane(2), of env']
  show ?thesis
  proof (cases "symbolizer_round config w env' ?p")
    case None
    with c show ?thesis by simp
  next
    case (Some r)
    obtain p' go where r: "r = (p', go)" by (cases r)
    from c Some r obtain held' nm stack where s':
      go "path_inv base psz (pl_path p') (remove1 b out)" "queue_contents (symbolizer_queue (pl_path p')) = rest"
      "chunks (pl_path p') = chunks (pl_path ?p)" "sys_inv sbase bs (pl_sys p') held'"
      "kernel_symbols (pl_sys p') = kernel_symbols (pl_sys ?p)"
      "dw_inv dbase sz P (localtime env) config (committed (pl_db ?p)) (pl_db p')" "same_writer (pl_db ?p) (pl_db p')"
      "sample_time p' = sample_time ?p" "capacity (symbolizer_queue (pl_path p')) = capacity (symbolizer_queue (pl_path ?p))"
      "pending (pl_db p') = pending (pl_db ?p) @
        [\<lparr>entry_time = sample_time ?p (cc_timestamp ?cc), stack_str = format_stack (cc_pid ?cc) nm stack\<rparr>]" by auto
    let ?s' = "s\<lparr>pf_pipe := p'\<rparr>" and ?n = "length (reported s)"
    have com: "committed (pl_db p') = committed (pl_db ?p)" using dw_inv_rows[OF s'(7)] .
    obtain row where row: "reported ?s' = reported s @ [row]"
        "row_time row = sint (sample_time ?p (cc_timestamp ?cc))" "row_pid row = sint (cc_pid ?cc)"
      using s'(11) parse_entry_pid by (auto simp: reported_def com)
    have k: "queued (pl_path ?p) = map (sample_expected lbr \<circ> snd) (drop ?n A)" "?n \<le> length A"
      using inv(1) by (simp_all add: accounted_def)
    have ql: "queued (pl_path ?p) = sample_view (chunks (pl_path ?p) b) # queued (pl_path p')"
      by (simp add: queued_def q s'(3,4))
    with k(1) obtain x xs where x: "drop ?n A = x # xs" "sample_view (chunks (pl_path ?p) b) = sample_expected lbr (snd x)"
        "queued (pl_path p') = map (sample_expected lbr \<circ> snd) xs"
      by (cases "drop ?n A") auto
    have xs: "xs = drop (Suc ?n) A" using x(1) by (simp add: drop_Suc tl_drop[symmetric])
    have n: "?n < length A" using x(1) by (cases "?n < length A") auto
    then have "A ! ?n = x" using x(1) Cons_nth_drop_Suc[OF n] by simp
    moreover have "row_of (sample_time ?p) x row"
      using x(2) row(2,3) by (simp add: row_of_def sample_view_def sample_expected_def sample_chain_def)
    ultimately have "accounted lbr W A V k m ?s'"
      using inv(1) n x(3) by (auto simp: accounted_def row(1) xs s'(9) take_Suc_conv_app_nth intro: list_all2_appendI)
    moreover have "parts_ok config env P ?s'"
      using inv(2) s'(2,5,7,8,10) d(1) by (auto simp: parts_ok_def com same_writer_def)
    ultimately show ?thesis using Some r s' com q by (simp add: same_writer_def)
  qed
qed

lemma writer_ok:
  assumes inv: "accounted lbr W A V k m s" "parts_ok config env P s" and env: "\<forall>l c. sqlite env l c" "0 < db_batch_size config"
  shows "case writer_round config (env\<lparr>latency := l, log_time := t\<rparr>) (pl_db (pf_pipe s)) of
      None \<Rightarrow> size (dw_queue (pl_db (pf_pipe s))) = 0
    | Some (d, go) \<Rightarrow> go \<and> accounted lbr W A V k m (s\<lparr>pf_pipe := (pf_pipe s)\<lparr>pl_db := d\<rparr>\<rparr>) \<and>
        parts_ok config env P (s\<lparr>pf_pipe := (pf_pipe s)\<lparr>pl_db := d\<rparr>\<rparr>) \<and>
        size (dw_queue d) = size (dw_queue (pl_db (pf_pipe s))) - nat (db_batch_size config) \<and>
        output_dir d = output_dir (pl_db (pf_pipe s)) \<and> producer_batch d = producer_batch (pl_db (pf_pipe s))"
proof -
  let ?d = "pl_db (pf_pipe s)" and ?env = "env\<lparr>latency := l, log_time := t\<rparr>"
  from inv(2) obtain base sz where d: "SIZEOF_DB_ENTRY + FLAME_SIZE + 256 \<le> sz"
      "dw_inv base sz P (localtime env) config (committed ?d) ?d" "dw_running ?d" by (auto simp: parts_ok_def)
  note r = round_ok[OF d(2), of ?env]
  show ?thesis
  proof (cases "writer_round config ?env ?d")
    case None
    with r env show ?thesis by simp
  next
    case (Some x)
    obtain d' go where x: "x = (d', go)" by (cases x)
    from r env Some x obtain rows' where r': "dw_inv base sz P (localtime env) config rows' d'" "same_writer ?d d'"
        "rows' @ map parse_entry (pending d') = committed ?d @ map parse_entry (pending ?d)" "producer_batch d' = producer_batch ?d"
        "size (dw_queue d') = size (dw_queue ?d) - nat (db_batch_size config)" "go = (dw_running ?d \<or> 0 < size (dw_queue ?d))" by auto
    let ?s' = "s\<lparr>pf_pipe := (pf_pipe s)\<lparr>pl_db := d'\<rparr>\<rparr>"
    have rep: "reported ?s' = reported s" "sample_time (pf_pipe ?s') = sample_time (pf_pipe s)"
      using r'(3) dw_inv_rows[OF r'(1)] by (simp_all add: reported_def sample_time_def fun_eq_iff)
    have "accounted lbr W A V k m ?s'" using inv(1) by (simp add: accounted_def rep) (simp add: rep(2)[simplified])
    moreover have "parts_ok config env P ?s'"
      using inv(2) r'(1,2) d(1) dw_inv_rows[OF r'(1)] by (auto simp: parts_ok_def same_writer_def)
    ultimately show ?thesis using Some x r'(2,4-6) d(3) by (simp add: same_writer_def)
  qed
qed

end
