(* ===== verification/Profiler_Runs.thy ===== *)
theory Profiler_Runs
  imports Profiler
begin

text \<open>
  Runs of the whole profiler from its start: no sample is lost or duplicated on its way from the
  ring buffers to the rows of the database; from every state the threads can empty the queues, and
  a stop of the writer then commits one row for each sample; and a batch that is larger than the
  queue of the writer stops the pipeline for good.
\<close>

section \<open>The start\<close>

text \<open>
  The state in which \<open>main\<close> enters the main loop: the writer, the system context, the pool of
  samples and the queue are fresh. \<open>garbage\<close> is what the chunks of the pool hold at first.
\<close>

definition start_profiler :: "profiling_config \<Rightarrow> string list option \<Rightarrow> (u64 \<times> u64) option \<Rightarrow> (u64 \<times> u64) option \<Rightarrow>
    perf_event_fd list \<Rightarrow> (block \<Rightarrow> raw_sample) \<Rightarrow> int \<Rightarrow> profiler option" where
  "start_profiler config kallsyms monotonic realtime evs garbage now =
     do { (_, d) \<leftarrow> db_writer_init config True empty_heap; d \<leftarrow> d;
          (_, sys) \<leftarrow> initialize_system empty_heap True kallsyms monotonic realtime; sys \<leftarrow> sys;
          (h, mp) \<leftarrow> mempool_create empty_heap (nat (sample_pool_size config)) 1056; mp \<leftarrow> mp;
          (h, q) \<leftarrow> queue_init h 1024; q \<leftarrow> q;
          Some \<lparr>pf_pipe = \<lparr>pl_path = \<lparr>path_heap = h, sample_pool = Some mp, chunks = garbage, symbolizer_queue = q\<rparr>,
                  pl_sys = sc_sys sys, pl_db = db_writer_start (Some 1) d,
                  monotonic_start_ns = sc_monotonic sys, realtime_start_ns = sc_realtime sys\<rparr>,
                pf_events = evs, pf_last_cleanup = now, pf_pc = Scan 0 0\<rparr> }"

lemma queue_init_pool:
  assumes inv: "pool_inv base sz h mp out" and om: "\<forall>b. \<not> oom h b" and q: "queue_init h 1024 = Some (h', Some q)"
  shows "\<exists>base. pool_inv base sz h' mp out" "\<forall>b. \<not> oom h' b" "queue_ok q" "size q = 0" "\<not> shutdown q" "capacity q = 1024"
proof -
  obtain h1 qb where m1: "malloc h 168 = (h1, Some qb)" using om by (auto simp: malloc_def)
  have o1: "oom h1 = oom h" using oom_malloc[OF m1] by simp
  obtain h2 bb where m2: "malloc h1 (8 * 1024) = (h2, Some bb)" using om o1 by (auto simp: malloc_def)
  have h': "h' = h2" using q m1 m2 by (simp add: queue_init_def)
  from pool_inv_malloc_other(2)[OF pool_inv_malloc_other(2)[OF inv m1] m2] show "\<exists>base. pool_inv base sz h' mp out" unfolding h' by blast
  show "\<forall>b. \<not> oom h' b" using om o1 oom_malloc[OF m2] by (simp add: h')
  from inv have "heap_ok h" by (simp add: pool_inv_def)
  from queue_init_spec[OF this, of 1024] q have "queue_ok q \<and> size q = 0 \<and> \<not> shutdown q \<and> capacity q = 1024"
    by (metis (mono_tags, lifting) option.inject option.simps(5) prod.inject zero_less_numeral)
  then show "queue_ok q" "size q = 0" "\<not> shutdown q" "capacity q = 1024" by simp_all
qed

lemma start_ok:
  assumes start: "start_profiler config kallsyms monotonic realtime evs garbage now = Some s"
    and evs: "\<forall>ev\<in>set evs. holds_samples lbr ev []" and depth: "65 \<le> max_stack_depth config"
  shows "accounted lbr (\<lambda>_. []) [] (replicate (length evs) []) 0 0 s" "parts_ok config env P s" "pf_events s = evs" "pf_pc s = Scan 0 0"
    "\<exists>b. output_dir (pl_db (pf_pipe s)) = Some (b, db_output_dir config)"
proof -
  have om: "\<forall>b. \<not> oom empty_heap b" by (simp add: empty_heap_def)
  from start obtain h0 d sysh sys h1 mp h q where
    i: "db_writer_init config True empty_heap = Some (h0, Some d)"
      "initialize_system empty_heap True kallsyms monotonic realtime = Some (sysh, Some sys)"
      "mempool_create empty_heap (nat (sample_pool_size config)) 1056 = Some (h1, Some mp)"
      "queue_init h1 1024 = Some (h, Some q)"
    and s: "s = \<lparr>pf_pipe = \<lparr>pl_path = \<lparr>path_heap = h, sample_pool = Some mp, chunks = garbage, symbolizer_queue = q\<rparr>,
                  pl_sys = sc_sys sys, pl_db = db_writer_start (Some 1) d,
                  monotonic_start_ns = sc_monotonic sys, realtime_start_ns = sc_realtime sys\<rparr>,
                pf_events = evs, pf_last_cleanup = now, pf_pc = Scan 0 0\<rparr>"
    by (auto simp: start_profiler_def split: bind_splits)
  from init_ok[OF heap_ok_empty om i(1), of P "localtime env"] obtain base where
    d: "dw_inv base (SIZEOF_DB_ENTRY + nat (max_stack_depth config * 257)) P (localtime env) config [] d"
      "pending d = []" "\<not> shutdown (dw_queue d)" "capacity (dw_queue d) = QUEUE_CAPACITY"
      "\<exists>b. output_dir d = Some (b, db_output_dir config)" by blast
  have dw: "dw_inv base (SIZEOF_DB_ENTRY + nat (max_stack_depth config * 257)) P (localtime env) config [] (db_writer_start (Some 1) d)"
    using d(1) by (auto simp: db_writer_start_def dw_inv_def pending_def pending_blocks_def db_state_def)
  have sz: "SIZEOF_DB_ENTRY + FLAME_SIZE + 256 \<le> SIZEOF_DB_ENTRY + nat (max_stack_depth config * 257)" using depth by simp
  from initialize_ok[OF heap_ok_empty om, of kallsyms monotonic realtime] i(2) have
    y: "\<exists>base bs held. sys_inv base bs (sc_sys sys) held" by auto
  have om1: "\<forall>b. \<not> oom h1 b" using om mempool_create_oom[OF i(3)] by simp
  from mempool_create_inv[OF i(3) heap_ok_empty] have "pool_inv (live empty_heap) 1056 h1 mp []" by simp
  note q = queue_init_pool[OF this om1 i(4)]
  have qc: "queue_contents q = []" by (simp add: queue_contents_def q(4))
  have p: "\<exists>base psz out. path_inv base psz (pl_path (pf_pipe s)) out"
    using q qc by (auto simp: path_inv_def s)
  have pd: "pending (db_writer_start (Some 1) d) = []" "committed (db_writer_start (Some 1) d) = []"
    using d(2) dw_inv_rows[OF dw] by (simp_all add: db_writer_start_def pending_def pending_blocks_def)
  show "accounted lbr (\<lambda>_. []) [] (replicate (length evs) []) 0 0 s"
    using evs pd qc by (auto simp: accounted_def reported_def s from_cpu_def queued_def list_all2_conv_all_nth)
  have dwe: "\<exists>base sz. SIZEOF_DB_ENTRY + FLAME_SIZE + 256 \<le> sz \<and> dw_inv base sz P (localtime env) config [] (db_writer_start (Some 1) d)"
    using sz dw by blast
  show "parts_ok config env P s"
    unfolding parts_ok_def using p y d(3,4) q(6) dwe pd(2)
    by (simp add: s db_writer_start_def)
  show "pf_events s = evs" "pf_pc s = Scan 0 0" "\<exists>b. output_dir (pl_db (pf_pipe s)) = Some (b, db_output_dir config)"
    using d(5) by (simp_all add: s db_writer_start_def)
qed

section \<open>Nothing is lost\<close>

lemma written_append: "written (tr @ [e]) i = written tr i @ (case e of Sampled j ss \<Rightarrow> if j = i then ss else [] | _ \<Rightarrow> [])"
  by (simp add: written_def)

lemma main_turn_ok:
  assumes inv: "accounted (use_lbr config) W A V k m s" "parts_ok config env P s" and loc: "length (cc_ips locals) = MAX_STACK_DEPTH_COPY"
    and run: "main_step config locals alv now (main_state_of s, pf_pc s) = Some st"
  shows "\<exists>A V k m. accounted (use_lbr config) W A V k m (put_main st s) \<and> parts_ok config env P (put_main st s) \<and>
    pl_db (pf_pipe (put_main st s)) = pl_db (pf_pipe s)"
proof (cases "pf_pc s")
  case (Scan i found)
  with inv(1) have "accounted (use_lbr config) W A V 0 0 s" by (auto simp: accounted_def)
  from scan_ok[OF this inv(2) Scan, of locals alv now] run show ?thesis by (auto simp: Scan split: if_splits)
next
  case (Reading i cur stop hd_at n found)
  show ?thesis
  proof (cases m)
    case 0
    from finish_ok[OF inv(1)[unfolded 0] inv(2) Reading, of locals alv now] run show ?thesis by auto
  next
    case (Suc m')
    from read_ok[OF inv(1)[unfolded Suc] inv(2) Reading loc, of alv now] run show ?thesis by (cases st) auto
  qed
qed

lemma step_ok:
  assumes inv: "accounted (use_lbr config) (written tr) A V k m s" "parts_ok config env P s" and step: "prof_step config env P s e s'"
    and env: "\<forall>l c. sqlite env l c" "0 < db_batch_size config"
  shows "\<exists>A V k m. accounted (use_lbr config) (written (tr @ [e])) A V k m s' \<and> parts_ok config env P s'"
  using step
proof cases
  case (sampled i ss)
  have "(written tr)(i := written tr i @ ss) = written (tr @ [e])" by (auto simp: fun_eq_iff written_append sampled(1))
  with sampled_ok[OF inv sampled(3,4)] show ?thesis unfolding sampled(2) by metis
next
  case (main_turn locals alv now st)
  have "written (tr @ [e]) = written tr" by (simp add: fun_eq_iff written_append main_turn(1))
  with main_turn_ok[OF inv main_turn(3,4)] show ?thesis unfolding main_turn(2) by auto
next
  case (symbolizer_turn w t l p)
  have "written (tr @ [e]) = written tr" by (simp add: fun_eq_iff written_append symbolizer_turn(1))
  with symbolizer_ok[OF inv symbolizer_turn(3), of "env\<lparr>latency := l, log_time := t\<rparr>"] symbolizer_turn(4) show ?thesis
    unfolding symbolizer_turn(2) by auto
next
  case (writer_turn l t d)
  have "written (tr @ [e]) = written tr" by (simp add: fun_eq_iff written_append writer_turn(1))
  with writer_ok[OF inv env, of l t] writer_turn(3) show ?thesis unfolding writer_turn(2) by auto
qed

lemma run_ok:
  assumes run: "prof_run config env P s0 tr s" and s0: "accounted (use_lbr config) (written []) A0 V0 k0 m0 s0" "parts_ok config env P s0"
    and env: "\<forall>l c. sqlite env l c" "0 < db_batch_size config"
  shows "\<exists>A V k m. accounted (use_lbr config) (written tr) A V k m s \<and> parts_ok config env P s"
  using run
proof induction
  case start
  with s0 show ?case by blast
next
  case (step tr s e s')
  with step_ok[OF _ _ _ env] show ?case by blast
qed

lemma run_from_start:
  assumes "start_profiler config kallsyms monotonic realtime evs garbage now = Some s0"
    and "\<forall>ev\<in>set evs. holds_samples (use_lbr config) ev []" and "65 \<le> max_stack_depth config"
    and "\<forall>l c. sqlite env l c" and "0 < db_batch_size config" and "prof_run config env P s0 tr s"
  shows "\<exists>A V k m. accounted (use_lbr config) (written tr) A V k m s \<and> parts_ok config env P s"
proof -
  have "written [] = (\<lambda>_. [])" by (simp add: written_def fun_eq_iff)
  with start_ok[OF assms(1-3)] have "accounted (use_lbr config) (written []) [] (replicate (length evs) []) 0 0 s0" "parts_ok config env P s0" by simp_all
  from run_ok[OF assms(6) this assms(4,5)] show ?thesis .
qed


section \<open>The queues can be emptied\<close>

lemma run_append:
  "prof_run config env P s1 tr2 s2 \<Longrightarrow> prof_run config env P s0 tr1 s1 \<Longrightarrow> prof_run config env P s0 (tr1 @ tr2) s2"
proof (induction rule: prof_run.induct)
  case (step tr s e s')
  then show ?case using prof_run.step[of config env P s0 "tr1 @ tr" s e s'] by simp
qed simp

lemma run_single: "prof_step config env P s e s' \<Longrightarrow> prof_run config env P s [e] s'"
  using prof_run.step[OF prof_run.start] by force

text \<open>A sample that the symbolizer can deal with, in any state with the kernel symbols, the clock and the directory of \<open>p\<close>.\<close>

definition calm :: "bool \<Rightarrow> db_env \<Rightarrow> string \<Rightarrow> sym_world \<Rightarrow> pipeline \<Rightarrow> perf_sample \<Rightarrow> bool" where
  "calm lbr env P w p x \<longleftrightarrow> (\<forall>f e. w_open w f = Some e \<longrightarrow> sane_elf e) \<and>
     alive (w_procs w (s_pid x)) \<and> \<not> leaks (w_procs w) (s_pid x) \<and>
     (\<forall>known. display_need (pl_sys p) known 0
       (filter (\<lambda>a. a < PERF_CONTEXT_MAX) ((if s_ip x = 0 then [] else [s_ip x]) @ sample_ips lbr x MAX_STACK_DEPTH_COPY)) \<le> FLAME_SIZE) \<and>
     db_path (output_dir (pl_db p)) (localtime env) (sample_time p (s_time x)) = P"

lemma same_setting_refl [simp]: "same_setting p p"
  by (simp add: same_setting_def)

lemma same_setting_trans: "same_setting p q \<Longrightarrow> same_setting q r \<Longrightarrow> same_setting p r"
  by (simp add: same_setting_def)

lemma calm_cong: "same_setting p p' \<Longrightarrow> calm lbr env P w p' x = calm lbr env P w p x"
  using display_need_kernel[of "pl_sys p'" "pl_sys p"] by (simp add: same_setting_def calm_def)

lemma calm_head:
  assumes q: "queue_contents (symbolizer_queue (pl_path p)) = b # rest"
    and v: "sample_view (chunks (pl_path p) b) = sample_expected lbr x" and "calm lbr env P w p x"
  shows "head_sane env P w p"
proof -
  let ?cc = "sample_chain (chunks (pl_path p) b)"
  have "cc_timestamp ?cc = s_time x" "cc_pid ?cc = s_pid x" "valid_ips ?cc =
      filter (\<lambda>a. a < PERF_CONTEXT_MAX) ((if s_ip x = 0 then [] else [s_ip x]) @ sample_ips lbr x MAX_STACK_DEPTH_COPY)"
    using v by (auto simp: sample_view_def sample_expected_def sample_chain_def valid_ips_def)
  with assms(3) q show ?thesis by (simp add: head_sane_def calm_def sample_sane_def Let_def)
qed

text \<open>The three threads alone lead from one state to another, and the setting stays.\<close>

definition onward :: "profiling_config \<Rightarrow> db_env \<Rightarrow> string \<Rightarrow> profiler \<Rightarrow> profiler \<Rightarrow> bool" where
  "onward config env P s s' \<longleftrightarrow> (\<exists>tr. prof_run config env P s tr s' \<and> set tr \<subseteq> {MainTurn, SymbolizerTurn, WriterTurn}) \<and>
     same_setting (pf_pipe s) (pf_pipe s')"

lemma onward_refl: "onward config env P s s"
  unfolding onward_def by (intro conjI exI[of _ "[]"]) (simp_all add: prof_run.start)

lemma onward_trans:
  assumes "onward config env P s1 s2" and "onward config env P s2 s3" shows "onward config env P s1 s3"
proof -
  from assms obtain tr1 tr2 where "prof_run config env P s1 tr1 s2" "set tr1 \<subseteq> {MainTurn, SymbolizerTurn, WriterTurn}"
    "prof_run config env P s2 tr2 s3" "set tr2 \<subseteq> {MainTurn, SymbolizerTurn, WriterTurn}" by (auto simp: onward_def)
  with run_append[of config env P s2 tr2 s3 s1 tr1] assms same_setting_trans show ?thesis
    unfolding onward_def by (intro conjI exI[of _ "tr1 @ tr2"]) auto
qed

lemma onward_step:
  "prof_step config env P s e s' \<Longrightarrow> e \<in> {MainTurn, SymbolizerTurn, WriterTurn} \<Longrightarrow> same_setting (pf_pipe s) (pf_pipe s') \<Longrightarrow> onward config env P s s'"
  unfolding onward_def by (intro conjI exI[of _ "[e]"] run_single) auto

definition all_calm :: "bool \<Rightarrow> db_env \<Rightarrow> string \<Rightarrow> sym_world \<Rightarrow> profiler \<Rightarrow> (nat \<Rightarrow> perf_sample list) \<Rightarrow> bool" where
  "all_calm lbr env P w s W \<longleftrightarrow> (\<forall>i. \<forall>x\<in>set (W i). calm lbr env P w (pf_pipe s) x)"

lemma all_calm_onward: "onward config env P s s' \<Longrightarrow> all_calm lbr env P w s W \<Longrightarrow> all_calm lbr env P w s' W"
  using calm_cong by (auto simp: all_calm_def onward_def)

lemma accounted_written: "accounted lbr W A V k m s \<Longrightarrow> x \<in> set A \<Longrightarrow> snd x \<in> set (W (fst x))"
  by (auto simp: accounted_def from_cpu_def)

lemma writer_empties:
  assumes env: "\<forall>l c. sqlite env l c" "0 < db_batch_size config"
    and "accounted lbr W A V k m s" and "parts_ok config env P s"
  shows "\<exists>s'. onward config env P s s' \<and> accounted lbr W A V k m s' \<and> parts_ok config env P s' \<and>
    size (dw_queue (pl_db (pf_pipe s'))) = 0 \<and> pl_path (pf_pipe s') = pl_path (pf_pipe s) \<and> pf_pc s' = pf_pc s"
  using assms(3,4)
proof (induction "size (dw_queue (pl_db (pf_pipe s)))" arbitrary: s rule: less_induct)
  case less
  show ?case
  proof (cases "size (dw_queue (pl_db (pf_pipe s))) = 0")
    case True
    with less.prems onward_refl show ?thesis by blast
  next
    case False
    let ?env = "env\<lparr>latency := 0, log_time := None\<rparr>"
    from writer_ok[OF less.prems env, where l = 0 and t = None] False obtain d where d:
      "writer_round config ?env (pl_db (pf_pipe s)) = Some (d, True)"
      "accounted lbr W A V k m (s\<lparr>pf_pipe := (pf_pipe s)\<lparr>pl_db := d\<rparr>\<rparr>)"
      "parts_ok config env P (s\<lparr>pf_pipe := (pf_pipe s)\<lparr>pl_db := d\<rparr>\<rparr>)"
      "size (dw_queue d) = size (dw_queue (pl_db (pf_pipe s))) - nat (db_batch_size config)"
      "output_dir d = output_dir (pl_db (pf_pipe s))"
      by (auto split: option.splits)
    let ?s = "s\<lparr>pf_pipe := (pf_pipe s)\<lparr>pl_db := d\<rparr>\<rparr>"
    have o: "onward config env P s ?s"
      by (rule onward_step[OF prof_step.writer_turn[OF d(1)]]) (use d(5) in \<open>simp_all add: same_setting_def sample_time_def fun_eq_iff\<close>)
    have "size (dw_queue (pl_db (pf_pipe ?s))) < size (dw_queue (pl_db (pf_pipe s)))" using d(4) False env(2) by simp
    from less.hyps[OF this d(2,3)] onward_trans[OF o] show ?thesis by auto
  qed
qed

lemma symbolizer_turn_ok:
  assumes inv: "accounted lbr W A V k m s" "parts_ok config env P s" and hd: "head_sane env P w (pf_pipe s)"
    and room: "size (dw_queue (pl_db (pf_pipe s))) = 0" and batch: "flush_threshold config \<le> 1024"
  shows "\<exists>s'. prof_step config env P s SymbolizerTurn s' \<and> accounted lbr W A V k m s' \<and> parts_ok config env P s' \<and>
    pf_pc s' = pf_pc s \<and> same_setting (pf_pipe s) (pf_pipe s') \<and> queue_contents (symbolizer_queue (pl_path (pf_pipe s'))) =
      tl (queue_contents (symbolizer_queue (pl_path (pf_pipe s))))"
proof -
  let ?env = "env\<lparr>latency := 0, log_time := None\<rparr>"
  have "capacity (dw_queue (pl_db (pf_pipe s))) = QUEUE_CAPACITY" using inv(2) by (simp add: parts_ok_def)
  then have "flush_threshold config \<le> int (capacity (dw_queue (pl_db (pf_pipe s)))) - int (size (dw_queue (pl_db (pf_pipe s))))"
    using room batch by simp
  with symbolizer_ok[OF inv hd, of ?env] obtain p where
    "symbolizer_round config w ?env (pf_pipe s) = Some (p, True)" "accounted lbr W A V k m (s\<lparr>pf_pipe := p\<rparr>)"
    "parts_ok config env P (s\<lparr>pf_pipe := p\<rparr>)" "same_setting (pf_pipe s) p"
    "queue_contents (symbolizer_queue (pl_path p)) = tl (queue_contents (symbolizer_queue (pl_path (pf_pipe s))))"
    by (auto simp: same_setting_def split: option.splits)
  with prof_step.symbolizer_turn[OF hd] show ?thesis by (intro exI[of _ "s\<lparr>pf_pipe := p\<rparr>"]) simp
qed

lemma symbolizer_empties:
  assumes env: "\<forall>l c. sqlite env l c" "0 < db_batch_size config" "flush_threshold config \<le> 1024"
    and "accounted lbr W A V k m s" and "parts_ok config env P s" and "all_calm lbr env P w s W"
  shows "\<exists>s'. onward config env P s s' \<and> accounted lbr W A V k m s' \<and> parts_ok config env P s' \<and> pf_pc s' = pf_pc s \<and>
    queue_contents (symbolizer_queue (pl_path (pf_pipe s'))) = [] \<and> size (dw_queue (pl_db (pf_pipe s'))) = 0"
  using assms(4-6)
proof (induction "queue_contents (symbolizer_queue (pl_path (pf_pipe s)))" arbitrary: s)
  case Nil
  from writer_empties[OF env(1,2) Nil.prems(1,2)] Nil.hyps show ?case by metis
next
  case (Cons b rest)
  from writer_empties[OF env(1,2) Cons.prems(1,2)] obtain s1 where s1: "onward config env P s s1"
    "accounted lbr W A V k m s1" "parts_ok config env P s1" "size (dw_queue (pl_db (pf_pipe s1))) = 0"
    "pl_path (pf_pipe s1) = pl_path (pf_pipe s)" "pf_pc s1 = pf_pc s" by blast
  have q: "queue_contents (symbolizer_queue (pl_path (pf_pipe s1))) = b # rest" using Cons.hyps(2) s1(5) by simp
  have "queued (pl_path (pf_pipe s1)) = map (sample_expected lbr \<circ> snd) (drop (length (reported s1)) A)"
    using s1(2) by (simp add: accounted_def)
  then obtain x xs where x: "drop (length (reported s1)) A = x # xs" "sample_view (chunks (pl_path (pf_pipe s1)) b) = sample_expected lbr (snd x)"
    using q by (cases "drop (length (reported s1)) A") (auto simp: queued_def)
  then have "x \<in> set A" by (metis in_set_dropD list.set_intros(1))
  from accounted_written[OF s1(2) this] all_calm_onward[OF s1(1) Cons.prems(3)] have "calm lbr env P w (pf_pipe s1) (snd x)"
    by (auto simp: all_calm_def)
  from symbolizer_turn_ok[OF s1(2,3) calm_head[OF q x(2) this] s1(4) env(3)] q obtain s2 where
    s2: "prof_step config env P s1 SymbolizerTurn s2" "accounted lbr W A V k m s2" "parts_ok config env P s2" "pf_pc s2 = pf_pc s1"
      "same_setting (pf_pipe s1) (pf_pipe s2)" "rest = queue_contents (symbolizer_queue (pl_path (pf_pipe s2)))" by auto
  have o: "onward config env P s s2" using onward_trans[OF s1(1) onward_step[OF s2(1) _ s2(5)]] by simp
  from Cons.hyps(1)[OF s2(6,2,3) all_calm_onward[OF o Cons.prems(3)]] onward_trans[OF o] s1(6) s2(4) show ?case by auto
qed

text \<open>The main thread ends the reading of a ring, and then its round.\<close>

lemma read_empties:
  assumes env: "\<forall>l c. sqlite env l c" "0 < db_batch_size config" "flush_threshold config \<le> 1024"
    and "accounted (use_lbr config) W A V k m s" and "parts_ok config env P s" and "all_calm (use_lbr config) env P w s W"
    and "pf_pc s = Reading i cur stop hd_at n found"
  shows "\<exists>s' A' found'. onward config env P s s' \<and> accounted (use_lbr config) W A' (V[i := drop (k + m) (V ! i)]) 0 0 s' \<and>
    parts_ok config env P s' \<and> pf_pc s' = Scan (Suc i) found'"
  using assms(4-7)
proof (induction m arbitrary: s A k cur n)
  let ?l = "\<lparr>cc_timestamp = 0, cc_pid = 0, cc_tid = 0, cc_ip = 0, cc_nr = 0, cc_ips = replicate MAX_STACK_DEPTH_COPY 0\<rparr>"
  have loc: "length (cc_ips ?l) = MAX_STACK_DEPTH_COPY" by simp
  note step = prof_step.main_turn[OF loc, of config "\<lambda>_. True" 0]
  {
    case 0
    from finish_ok[OF 0(1,2,4), of ?l "\<lambda>_. True" 0] obtain st where st:
      "main_step config ?l (\<lambda>_. True) 0 (main_state_of s, pf_pc s) = Some (st, Scan (Suc i) (found + n))"
      "accounted (use_lbr config) W A (V[i := drop k (V ! i)]) 0 0 (put_main (st, Scan (Suc i) (found + n)) s)"
      "parts_ok config env P (put_main (st, Scan (Suc i) (found + n)) s)"
      "pf_pipe (put_main (st, Scan (Suc i) (found + n)) s) = pf_pipe s" by blast
    have "onward config env P s (put_main (st, Scan (Suc i) (found + n)) s)"
      by (rule onward_step[OF step[OF st(1)]]) (simp_all add: st(4))
    moreover have "pf_pc (put_main (st, Scan (Suc i) (found + n)) s) = Scan (Suc i) (found + n)" by (simp add: put_main_def)
    ultimately show ?case using st(2,3) by auto
  next
    case (Suc m)
    from symbolizer_empties[OF env Suc.prems(1-3)] obtain s1 where s1: "onward config env P s s1" "accounted (use_lbr config) W A V k (Suc m) s1"
      "parts_ok config env P s1" "pf_pc s1 = Reading i cur stop hd_at n found"
      "queue_contents (symbolizer_queue (pl_path (pf_pipe s1))) = []" using Suc.prems(4) by auto
    have "size (symbolizer_queue (pl_path (pf_pipe s1))) = 0" using s1(5) length_queue_contents[of "symbolizer_queue (pl_path (pf_pipe s1))"] by simp
    with read_ok[OF s1(2-4) loc, of "\<lambda>_. True" 0] obtain st cur' where st:
      "main_step config ?l (\<lambda>_. True) 0 (main_state_of s1, pf_pc s1) = Some (st, Reading i cur' stop hd_at (n + 1) found)"
      "accounted (use_lbr config) W (A @ [(i, V ! i ! k)]) V (Suc k) m (put_main (st, Reading i cur' stop hd_at (n + 1) found) s1)"
      "parts_ok config env P (put_main (st, Reading i cur' stop hd_at (n + 1) found) s1)"
      "same_setting (pf_pipe s1) (pf_pipe (put_main (st, Reading i cur' stop hd_at (n + 1) found) s1))"
      by (auto split: option.splits)
    let ?s2 = "put_main (st, Reading i cur' stop hd_at (n + 1) found) s1"
    have o: "onward config env P s ?s2" using onward_trans[OF s1(1) onward_step[OF step[OF st(1)] _ st(4)]] by simp
    have "pf_pc ?s2 = Reading i cur' stop hd_at (n + 1) found" by (simp add: put_main_def)
    from Suc.IH[OF st(2,3) all_calm_onward[OF o Suc.prems(3)] this] onward_trans[OF o] show ?case by auto
  }
qed

lemma scan_empties:
  assumes env: "\<forall>l c. sqlite env l c" "0 < db_batch_size config" "flush_threshold config \<le> 1024"
    and "accounted (use_lbr config) W A V 0 0 s" and "parts_ok config env P s" and "all_calm (use_lbr config) env P w s W"
    and "pf_pc s = Scan i found"
  shows "\<exists>s' A' V'. onward config env P s s' \<and> accounted (use_lbr config) W A' V' 0 0 s' \<and> parts_ok config env P s' \<and> pf_pc s' = Scan 0 0 \<and>
    length V' = length V \<and> (\<forall>j<length V. V' ! j = (if i \<le> j then [] else V ! j))"
  using assms(4-7)
proof (induction "length V - i" arbitrary: i s A V found)
  let ?l = "\<lparr>cc_timestamp = 0, cc_pid = 0, cc_tid = 0, cc_ip = 0, cc_nr = 0, cc_ips = replicate MAX_STACK_DEPTH_COPY 0\<rparr>"
  have loc: "length (cc_ips ?l) = MAX_STACK_DEPTH_COPY" by simp
  note step = prof_step.main_turn[OF loc, of config "\<lambda>_. True" 0]
  {
    case 0
    from scan_ok[OF 0(2,3,5), of ?l "\<lambda>_. True" 0] 0(1) obtain m where m:
      "main_step config ?l (\<lambda>_. True) 0 (main_state_of s, pf_pc s) = Some (m, Scan 0 0)" "parts_ok config env P (put_main (m, Scan 0 0) s)"
      "same_setting (pf_pipe s) (pf_pipe (put_main (m, Scan 0 0) s))" "accounted (use_lbr config) W A V 0 0 (put_main (m, Scan 0 0) s)"
      using 0(5) by auto
    have "pf_pc (put_main (m, Scan 0 0) s) = Scan 0 0" by (simp add: put_main_def)
    with m 0(1) onward_step[OF step[OF m(1)] _ m(3)] show ?case
      by (intro exI[of _ "put_main (m, Scan 0 0) s"] exI[of _ A] exI[of _ V]) auto
  next
    case (Suc d)
    then have i: "i < length V" by simp
    have "\<exists>s1 A1 V1 found1. onward config env P s s1 \<and> accounted (use_lbr config) W A1 V1 0 0 s1 \<and> parts_ok config env P s1 \<and>
        pf_pc s1 = Scan (Suc i) found1 \<and> V1 = V[i := []]"
    proof -
      from scan_ok[OF Suc.prems(1,2,4), of ?l "\<lambda>_. True" 0] i obtain st where st:
        "main_step config ?l (\<lambda>_. True) 0 (main_state_of s, pf_pc s) = Some st" "parts_ok config env P (put_main st s)"
        "same_setting (pf_pipe s) (pf_pipe (put_main st s))"
        "(snd st = Scan (Suc i) found \<and> V ! i = [] \<and> accounted (use_lbr config) W A V 0 0 (put_main st s)) \<or>
         (\<exists>cur stop hd_at. snd st = Reading i cur stop hd_at 0 found \<and> accounted (use_lbr config) W A V 0 (length (V ! i)) (put_main st s))"
        unfolding Suc.prems(4) by auto
      have o: "onward config env P s (put_main st s)" using onward_step[OF step[OF st(1)] _ st(3)] by simp
      have pc: "pf_pc (put_main st s) = snd st" by (cases st) (simp add: put_main_def)
      from st(4) show ?thesis
      proof (elim disjE exE conjE)
        assume "snd st = Scan (Suc i) found" "V ! i = []" "accounted (use_lbr config) W A V 0 0 (put_main st s)"
        with o st(2) pc i show ?thesis by (metis list_update_id)
      next
        fix cur stop hd_at
        assume a: "snd st = Reading i cur stop hd_at 0 found" "accounted (use_lbr config) W A V 0 (length (V ! i)) (put_main st s)"
        from read_empties[OF env a(2) st(2) all_calm_onward[OF o Suc.prems(3)] pc[unfolded a(1)]] obtain s' A' found' where
          "onward config env P (put_main st s) s'" "accounted (use_lbr config) W A' (V[i := []]) 0 0 s'" "parts_ok config env P s'"
          "pf_pc s' = Scan (Suc i) found'" by auto
        with onward_trans[OF o] show ?thesis by blast
      qed
    qed
    then obtain s1 A1 found1 where s1: "onward config env P s s1" "accounted (use_lbr config) W A1 (V[i := []]) 0 0 s1" "parts_ok config env P s1"
        "pf_pc s1 = Scan (Suc i) found1" by blast
    have "d = length (V[i := []]) - Suc i" using Suc.hyps(2) by simp
    from Suc.hyps(1)[OF this s1(2,3) all_calm_onward[OF s1(1) Suc.prems(3)] s1(4)] obtain s' A' V' where
      s': "onward config env P s1 s'" "accounted (use_lbr config) W A' V' 0 0 s'" "parts_ok config env P s'" "pf_pc s' = Scan 0 0"
        "length V' = length V" "\<forall>j<length V. V' ! j = (if Suc i \<le> j then [] else V[i := []] ! j)" by auto
    have "\<forall>j<length V. V' ! j = (if i \<le> j then [] else V ! j)" using s'(6) i by (auto simp: nth_list_update not_less_eq_eq)
    with s'(2-5) onward_trans[OF s1(1) s'(1)] show ?case by blast
  }
qed

text \<open>From any state of the main thread, everything the rings hold is accepted in the end.\<close>

lemma main_empties:
  assumes env: "\<forall>l c. sqlite env l c" "0 < db_batch_size config" "flush_threshold config \<le> 1024"
    and inv: "accounted (use_lbr config) W A V k m s" "parts_ok config env P s" and calm: "all_calm (use_lbr config) env P w s W"
  shows "\<exists>s' A'. onward config env P s s' \<and> accounted (use_lbr config) W A' (replicate (length V) []) 0 0 s' \<and> parts_ok config env P s' \<and>
    pf_pc s' = Scan 0 0"
proof -
  have "\<exists>s1 A1 V1 i found. onward config env P s s1 \<and> accounted (use_lbr config) W A1 V1 0 0 s1 \<and> parts_ok config env P s1 \<and>
      pf_pc s1 = Scan i found \<and> length V1 = length V"
  proof (cases "pf_pc s")
    case (Scan i found)
    with inv(1) have "accounted (use_lbr config) W A V 0 0 s" by (auto simp: accounted_def)
    with inv(2) Scan onward_refl show ?thesis by blast
  next
    case (Reading i cur stop hd_at n found)
    from read_empties[OF env inv calm Reading] show ?thesis by (metis length_list_update)
  qed
  then obtain s1 A1 V1 i found where s1: "onward config env P s s1" "accounted (use_lbr config) W A1 V1 0 0 s1" "parts_ok config env P s1"
      "pf_pc s1 = Scan i found" "length V1 = length V" by blast
  from scan_empties[OF env s1(2,3) all_calm_onward[OF s1(1) calm] s1(4)] obtain s2 A2 V2 where
    s2: "onward config env P s1 s2" "accounted (use_lbr config) W A2 V2 0 0 s2" "parts_ok config env P s2" "pf_pc s2 = Scan 0 0"
      "length V2 = length V1" by blast
  note o2 = onward_trans[OF s1(1) s2(1)]
  from scan_empties[OF env s2(2,3) all_calm_onward[OF o2 calm] s2(4)] obtain s3 A3 V3 where
    s3: "onward config env P s2 s3" "accounted (use_lbr config) W A3 V3 0 0 s3" "parts_ok config env P s3" "pf_pc s3 = Scan 0 0"
      "length V3 = length V2" "\<forall>j<length V2. V3 ! j = []" by auto
  have "V3 = replicate (length V) []" using s1(5) s2(5) s3(5,6) by (intro nth_equalityI) auto
  with s3 onward_trans[OF o2 s3(1)] show ?thesis by blast
qed

lemma accounted_all:
  assumes "accounted lbr W A (replicate n []) k m s" and "pf_pc s = Scan 0 0" and "queue_contents (symbolizer_queue (pl_path (pf_pipe s))) = []"
  shows "W i = from_cpu i A" "list_all2 (row_of (sample_time (pf_pipe s))) A (reported s)"
proof -
  show "W i = from_cpu i A" using assms(1,2) by (simp add: accounted_def)
  have "drop (length (reported s)) A = []" using assms(1,3) by (auto simp: accounted_def queued_def)
  then have "length A \<le> length (reported s)" by simp
  then show "list_all2 (row_of (sample_time (pf_pipe s))) A (reported s)" using assms(1) by (simp add: accounted_def)
qed

lemma stop_commits:
  assumes "parts_ok config env P s" and env: "\<forall>l c. sqlite env l c" "0 < db_batch_size config"
    and batch: "flush_threshold config \<le> 1024" and empty: "size (dw_queue (pl_db (pf_pipe s))) = 0"
  shows "\<exists>d d'. db_writer_stop config env (pl_db (pf_pipe s)) = Some d \<and>
    writer_loop (size (dw_queue d) + 1) config env d = Some d' \<and> committed d' = reported s \<and> pending d' = []"
proof -
  let ?d = "pl_db (pf_pipe s)"
  from assms(1) obtain base sz where d: "dw_inv base sz P (localtime env) config (committed ?d) ?d" "\<not> shutdown (dw_queue ?d)"
      "capacity (dw_queue ?d) = QUEUE_CAPACITY" by (auto simp: parts_ok_def)
  then have "int (length (producer_batch ?d)) < 1024" using batch by (simp add: dw_inv_def)
  then have "size (dw_queue ?d) + length (producer_batch ?d) \<le> capacity (dw_queue ?d)" using empty d(3) by simp
  from stop_ok[OF d(1,2) this, of env] obtain e where e: "db_writer_stop config env ?d = Some e"
      "dw_inv base sz P (localtime env) config (committed ?d) e" "pending e = pending ?d" "producer_batch e = []" "\<not> dw_running e" by blast
  have "size (dw_queue e) < size (dw_queue e) + 1" by simp
  from writer_loop_ok[OF e(2,5,4) env this] obtain d' where
    "writer_loop (size (dw_queue e) + 1) config env e = Some d'" "pending_blocks d' = []"
    "dw_inv base sz P (localtime env) config (committed ?d @ map parse_entry (pending e)) d'" by blast
  with e(1,3) dw_inv_rows[of base sz P "localtime env" config _ d'] show ?thesis
    by (auto simp: reported_def pending_def)
qed


section \<open>A batch that the queue cannot hold\<close>

text \<open>With a batch larger than the queue, the entries stay in the buffer of the producer.\<close>

lemma push_stays:
  assumes "queue_ok (dw_queue ctx)" and "\<not> shutdown (dw_queue ctx)" and "int (capacity (dw_queue ctx)) < flush_threshold config"
    and "db_writer_push_stack config env ts s ctx = Some ctx'"
  shows "dw_queue ctx' = dw_queue ctx"
  using assms by (auto simp: db_writer_push_stack_def Let_def db_writer_flush_def queue_push_batch_def
      split: if_splits option.splits bind_splits prod.splits)

lemma symbolizer_pushes:
  "symbolizer_round config w env p = Some (p', True) \<Longrightarrow> \<exists>ts line. db_writer_push_stack config env ts line (pl_db p) = Some (pl_db p')"
  by (auto simp: symbolizer_round_def Let_def split: outcome.splits ret.splits bind_splits) blast

lemma writer_waits:
  "dw_running d \<Longrightarrow> size (dw_queue d) = 0 \<Longrightarrow> \<not> shutdown (dw_queue d) \<Longrightarrow> writer_round config env d = None"
  by (simp add: writer_round_def queue_pop_batch_def)

lemma oversized_step:
  assumes step: "prof_step config env P s e s'" and inv: "accounted (use_lbr config) W A V k m s" "parts_ok config env P s"
    and big: "1024 < flush_threshold config" and st: "size (dw_queue (pl_db (pf_pipe s))) = 0" "committed (pl_db (pf_pipe s)) = []"
  shows "size (dw_queue (pl_db (pf_pipe s'))) = 0 \<and> committed (pl_db (pf_pipe s')) = [] \<and> e \<noteq> WriterTurn"
  using step
proof cases
  case (symbolizer_turn w t l p)
  let ?d = "pl_db (pf_pipe s)"
  from inv(2) have d: "queue_ok (dw_queue ?d)" "\<not> shutdown (dw_queue ?d)" "int (capacity (dw_queue ?d)) < flush_threshold config"
    using big by (auto simp: parts_ok_def dw_inv_def)
  have "dw_queue (pl_db p) = dw_queue ?d" using symbolizer_pushes[OF symbolizer_turn(4)] push_stays[OF d] by blast
  moreover have "committed (pl_db p) = committed ?d"
    using symbolizer_ok[OF inv symbolizer_turn(3), of "env\<lparr>latency := l, log_time := t\<rparr>"] symbolizer_turn(4) by simp
  ultimately show ?thesis using st symbolizer_turn(1,2) by simp
next
  case (writer_turn l t d)
  with writer_waits st inv(2) show ?thesis by (simp add: parts_ok_def)
next
  case (main_turn locals alv now st')
  from main_turn_ok[OF inv main_turn(3,4)] st show ?thesis unfolding main_turn(1,2) by auto
qed (use st in simp)

lemma oversized_run:
  assumes run: "prof_run config env P s0 tr s" and s0: "accounted (use_lbr config) (written []) A0 V0 k0 m0 s0" "parts_ok config env P s0"
    "size (dw_queue (pl_db (pf_pipe s0))) = 0" "committed (pl_db (pf_pipe s0)) = []"
    and env: "\<forall>l c. sqlite env l c" "0 < db_batch_size config" and big: "1024 < flush_threshold config"
  shows "size (dw_queue (pl_db (pf_pipe s))) = 0 \<and> committed (pl_db (pf_pipe s)) = [] \<and> WriterTurn \<notin> set tr"
  using run
proof induction
  case start
  with s0 show ?case by simp
next
  case (step tr s e s')
  from run_ok[OF step.hyps(1) s0(1,2) env] obtain A V k m where "accounted (use_lbr config) (written tr) A V k m s" "parts_ok config env P s" by blast
  from oversized_step[OF step.hyps(2) this big] step.IH show ?case by auto
qed

text \<open>
  C38. The command line accepts batches of up to 4096 entries, but the queue of the writer holds
  1024: with a larger batch no row is ever committed, the writer never completes a round, and
  fewer samples than one batch are ever symbolized, because the symbolizer then waits for ever.
\<close>

theorem oversized_batch_stalls:
  assumes "start_profiler config kallsyms monotonic realtime evs garbage now = Some s0"
    and "\<forall>ev\<in>set evs. holds_samples (use_lbr config) ev []" and "65 \<le> max_stack_depth config"
    and "\<forall>l c. sqlite env l c" and "0 < db_batch_size config"
    and "1024 < producer_batch_size config" and "producer_batch_size config \<le> MAX_PRODUCER_BATCH_SIZE"
    and "prof_run config env P s0 tr s"
  shows "committed (pl_db (pf_pipe s)) = [] \<and> int (length (reported s)) < producer_batch_size config \<and> WriterTurn \<notin> set tr"
proof -
  have th: "flush_threshold config = producer_batch_size config" using assms(6,7) by (simp add: flush_threshold_def)
  have "written [] = (\<lambda>_. [])" by (simp add: written_def fun_eq_iff)
  with start_ok[OF assms(1-3)] have s0: "accounted (use_lbr config) (written []) [] (replicate (length evs) []) 0 0 s0" "parts_ok config env P s0" by simp_all
  then have "reported s0 = []" by (simp add: accounted_def)
  then have e: "committed (pl_db (pf_pipe s0)) = []" "size (dw_queue (pl_db (pf_pipe s0))) = 0"
    by (auto simp: reported_def pending_def pending_blocks_def queue_contents_def)
  from oversized_run[OF assms(8) s0 e(2,1) assms(4,5)] th assms(6) have
    r: "size (dw_queue (pl_db (pf_pipe s))) = 0" "committed (pl_db (pf_pipe s)) = []" "WriterTurn \<notin> set tr" by simp_all
  from run_from_start[OF assms(1-5,8)] have "parts_ok config env P s" by blast
  then have "int (length (producer_batch (pl_db (pf_pipe s)))) < flush_threshold config" by (auto simp: parts_ok_def dw_inv_def)
  moreover have "length (reported s) = length (producer_batch (pl_db (pf_pipe s)))"
    using r(1,2) by (simp add: reported_def pending_def pending_blocks_def queue_contents_def)
  ultimately show ?thesis using r(2,3) th by simp
qed

section \<open>An example\<close>

definition example_prof_config :: "int \<Rightarrow> profiling_config" where
  "example_prof_config n = example_db_config\<lparr>sample_pool_size := 2, producer_batch_size := n\<rparr>"

definition empty_ring :: perf_event_fd where
  "empty_ring = small_event\<lparr>data_head := 0\<rparr>"

definition example_start :: "int \<Rightarrow> profiler option" where
  "example_start n = start_profiler (example_prof_config n) None None None [empty_ring]
     (\<lambda>_. \<lparr>rs_timestamp = 0, rs_pid = 0, rs_tid = 0, rs_ip = 0, rs_nr = 0, rs_ips = []\<rparr>) 0"

lemma example_prof_config: "65 \<le> max_stack_depth (example_prof_config n)" "0 < db_batch_size (example_prof_config n)"
    "use_lbr (example_prof_config n) = False" "producer_batch_size (example_prof_config n) = n"
  by (simp_all add: example_prof_config_def example_db_config_def default_config_def)

lemma example_ring: "\<forall>ev\<in>set [empty_ring]. holds_samples (use_lbr (example_prof_config n)) ev []"
  by (simp add: holds_samples_def event_ok_def stored_def empty_ring_def small_event_def small_sample_size)

lemma example_ring_room: "ring_room False empty_ring [small_sample]"
  by (simp add: ring_room_def empty_ring_def small_event_def small_sample_size)

lemma example_starts: "\<exists>s. example_start n = Some s \<and> kernel_symbols (pl_sys (pf_pipe s)) = None \<and> sample_time (pf_pipe s) = (\<lambda>t. t)"
proof -
  have om: "\<forall>b. \<not> oom empty_heap b" by (simp add: empty_heap_def)
  obtain h0 d where d: "db_writer_init (example_prof_config n) True empty_heap = Some (h0, Some d)"
    by (simp add: db_writer_init_def example_prof_config_def example_db_config_def default_config_def queue_init_def
        mempool_create_def strdup_def malloc_def empty_heap_def numeral_2_eq_2)
  obtain sysh sys where sys: "initialize_system empty_heap True None None None = Some (sysh, Some sys)" "kernel_symbols (sc_sys sys) = None"
      "sc_monotonic sys = 0"
    by (auto simp: initialize_system_def load_kernel_symbols_def malloc_def empty_heap_def clock_ns_def)
  obtain h mp where mp: "mempool_create empty_heap (nat (sample_pool_size (example_prof_config n))) 1056 = Some (h, Some mp)"
    by (simp add: example_prof_config_def mempool_create_def malloc_def empty_heap_def numeral_2_eq_2)
  have "\<forall>b. \<not> oom h b" using om mempool_create_oom[OF mp] by simp
  then obtain h' and q :: "block cqueue" where q: "queue_init h 1024 = Some (h', Some q)" by (auto simp: queue_init_def malloc_def)
  show ?thesis using d sys mp q
    by (auto simp: example_start_def start_profiler_def sample_time_def realtime_timestamp_def fun_eq_iff)
qed

lemma example_calm:
  assumes "kernel_symbols (pl_sys p) = None"
  shows "calm False env (db_path (output_dir (pl_db p)) (localtime env) (sample_time p 5)) example_world p small_sample"
  using assms example_sane
  by (auto simp: calm_def example_world_def example_env_def leaks_def small_sample_def example_sample_def sample_ips_def
      PERF_CONTEXT_MAX_def display_line_def is_kernel_addr_def)

text \<open>One sample is written, read and symbolized, while the main thread is still in the ring.\<close>

abbreviation example_trace :: "prof_event list" where
  "example_trace \<equiv> [Sampled 0 [small_sample], MainTurn, MainTurn, SymbolizerTurn]"

lemma example_profile:
  "\<exists>s0 P s1 s. example_start 32 = Some s0 \<and> prof_run (example_prof_config 32) example_db_env P s0 [Sampled 0 [small_sample]] s1 \<and>
    prof_run (example_prof_config 32) example_db_env P s0 example_trace s \<and>
    calm False example_db_env P example_world (pf_pipe s1) small_sample"
proof -
  let ?c = "example_prof_config 32" and ?env = example_db_env and ?W = "(\<lambda>_. [])(0 := [small_sample])"
  let ?l = "example_chain (replicate MAX_STACK_DEPTH_COPY 0)"
  have loc: "length (cc_ips ?l) = MAX_STACK_DEPTH_COPY" by (simp add: example_chain_def)
  from example_starts[of 32] obtain s0 where s0: "example_start 32 = Some s0" "kernel_symbols (pl_sys (pf_pipe s0)) = None" by blast
  let ?P = "db_path (output_dir (pl_db (pf_pipe s0))) (localtime ?env) (sample_time (pf_pipe s0) 5)"
  have ev: "pf_events s0 = [empty_ring]" "pf_pc s0 = Scan 0 0" and a0: "accounted False (\<lambda>_. []) [] (replicate 1 []) 0 0 s0" "parts_ok ?c ?env ?P s0"
    using start_ok[OF s0(1)[unfolded example_start_def] example_ring example_prof_config(1)]
    by (simp_all add: example_prof_config)
  let ?s1 = "s0\<lparr>pf_events := (pf_events s0)[0 := kernel_writes False (pf_events s0 ! 0) [small_sample]]\<rparr>"
  have st1: "prof_step ?c ?env ?P s0 (Sampled 0 [small_sample]) ?s1"
    using prof_step.sampled[of 0 s0 ?c "[small_sample]"] example_ring_room by (simp add: ev example_prof_config)
  from sampled_ok[OF a0, of 0 "[small_sample]"] example_ring_room have
    a1: "accounted (use_lbr ?c) ?W [] [[small_sample]] 0 0 ?s1" "parts_ok ?c ?env ?P ?s1" by (simp_all add: ev example_prof_config)
  have calm: "calm False ?env ?P example_world (pf_pipe ?s1) small_sample" using example_calm[OF s0(2)] by simp
  have pc1: "pf_pc ?s1 = Scan 0 0" by (simp add: ev)
  from scan_ok[OF a1 pc1, of ?l "\<lambda>_. True" 0] obtain m cur stop hd_at where
    m: "main_step ?c ?l (\<lambda>_. True) 0 (main_state_of ?s1, pf_pc ?s1) = Some (m, Reading 0 cur stop hd_at 0 0)"
      "accounted (use_lbr ?c) ?W [] [[small_sample]] 0 (Suc 0) (put_main (m, Reading 0 cur stop hd_at 0 0) ?s1)"
      "parts_ok ?c ?env ?P (put_main (m, Reading 0 cur stop hd_at 0 0) ?s1)"
      "same_setting (pf_pipe ?s1) (pf_pipe (put_main (m, Reading 0 cur stop hd_at 0 0) ?s1))"
      "queued (pl_path (pf_pipe (put_main (m, Reading 0 cur stop hd_at 0 0) ?s1))) = queued (pl_path (pf_pipe ?s1))"
    by (auto simp: ev)
  let ?s2 = "put_main (m, Reading 0 cur stop hd_at 0 0) ?s1"
  have st2: "prof_step ?c ?env ?P ?s1 MainTurn ?s2" by (rule prof_step.main_turn[OF loc m(1)])
  have pc2: "pf_pc ?s2 = Reading 0 cur stop hd_at 0 0" by (simp add: put_main_def)
  have "queued (pl_path (pf_pipe ?s2)) = []" using m(5) a1(1) by (simp add: accounted_def)
  then have "size (symbolizer_queue (pl_path (pf_pipe ?s2))) = 0" using queued_size[of "pl_path (pf_pipe ?s2)"] by simp
  with read_ok[OF m(2,3) pc2 loc, of "\<lambda>_. True" 0] obtain m' pc' where
    m': "main_step ?c ?l (\<lambda>_. True) 0 (main_state_of ?s2, pf_pc ?s2) = Some (m', pc')"
      "accounted (use_lbr ?c) ?W [(0, small_sample)] [[small_sample]] 1 0 (put_main (m', pc') ?s2)" "parts_ok ?c ?env ?P (put_main (m', pc') ?s2)"
      "same_setting (pf_pipe ?s2) (pf_pipe (put_main (m', pc') ?s2))" "pl_db (pf_pipe (put_main (m', pc') ?s2)) = pl_db (pf_pipe ?s2)"
    by (auto split: option.splits)
  let ?s3 = "put_main (m', pc') ?s2"
  have st3: "prof_step ?c ?env ?P ?s2 MainTurn ?s3" by (rule prof_step.main_turn[OF loc m'(1)])
  have "reported ?s2 = []" using m(2) by (simp add: accounted_def)
  then have e: "reported ?s3 = []" "size (dw_queue (pl_db (pf_pipe ?s3))) = 0"
    using m'(5) by (auto simp: reported_def pending_def pending_blocks_def queue_contents_def)
  from m'(2) e(1) obtain b where b: "queue_contents (symbolizer_queue (pl_path (pf_pipe ?s3))) = [b]"
      "sample_view (chunks (pl_path (pf_pipe ?s3)) b) = sample_expected False small_sample"
    by (auto simp: accounted_def queued_def example_prof_config)
  have "calm False ?env ?P example_world (pf_pipe ?s3) small_sample" using calm calm_cong[OF same_setting_trans[OF m(4) m'(4)]] by simp
  from symbolizer_turn_ok[OF m'(2)[unfolded example_prof_config(3)] m'(3) calm_head[OF b this] e(2)] obtain s4 where
    st4: "prof_step ?c ?env ?P ?s3 SymbolizerTurn s4"
    by (auto simp: example_prof_config flush_threshold_def)
  have "prof_run ?c ?env ?P s0 ((([Sampled 0 [small_sample]] @ [MainTurn]) @ [MainTurn]) @ [SymbolizerTurn]) s4"
    by (rule prof_run.step[OF prof_run.step[OF prof_run.step[OF run_single[OF st1] st2] st3] st4])
  then have "prof_run ?c ?env ?P s0 example_trace s4" by simp
  with s0(1) run_single[OF st1] calm show ?thesis by blast
qed



theorem oversized_batch_stalls_witness:
  "\<exists>s0 P s. example_start 2000 = Some s0 \<and>
    prof_run (example_prof_config 2000) example_db_env P s0 [Sampled 0 [small_sample]] s \<and> committed (pl_db (pf_pipe s)) = []"
proof -
  from example_starts obtain s0 where s0: "example_start 2000 = Some s0" by blast
  have "pf_events s0 = [empty_ring]" using start_ok(3)[OF s0[unfolded example_start_def] example_ring example_prof_config(1)] .
  then obtain s where s: "prof_run (example_prof_config 2000) example_db_env P s0 [Sampled 0 [small_sample]] s" for P
    using run_single[OF prof_step.sampled[of 0 s0 "example_prof_config 2000" "[small_sample]"]] example_ring_room
    by (auto simp: example_prof_config(3))
  from oversized_batch_stalls[OF s0[unfolded example_start_def] example_ring example_prof_config(1) _ example_prof_config(2) _ _ s] s0 s
    example_setting(2) show ?thesis by (auto simp: example_prof_config(4))
qed

end
