(* ===== verification/Spec2Isabelle.thy ===== *)
theory Spec2Isabelle
  imports Rbtree_Index Rbtree_Cached Elf_Cache_Manager Elf_Descriptors Reporting Program_Start Profiler_Runs
begin

text \<open>
  Verification development of the sampling profiler under src/: a program that samples all
  processors through the perf events of Linux, resolves the sampled addresses to function names
  and stores the call stacks in SQLite databases, one per hour, and a second program that queries
  them. This root theory holds the overview; the model and the theorems are in the other theories.

  \<^bold>\<open>The program.\<close> The main thread (src/core/main_loop.c) empties the ring buffers of the
  perf events (src/perf/perf.c), decodes each sample (src/core/handler.c) and puts a copy, a chunk of
  a memory pool (src/utils/mempool.c), into a bounded queue (src/utils/concurrent_queue.c). The symbolizer thread
  takes the samples, finds the process (src/core/process.c), the mapped region (src/elf/vma.c), the
  symbols of its file (src/elf/elf.c, src/elf/symbol_table.c) or of the kernel
  (src/core/kernel_symbol.c), and hands a line to the database writer (src/utils/database.c), whose
  thread writes batches from a second queue. An HTTP server (src/utils/http_server.c) answers queries
  from the open database; the query tool (config/query_tool.c) asks it or reads the files. All
  ordered indexes are red-black trees (src/utils/rbtree.c, include/rbtree.h), the hash tables use
  src/utils/hash.c, src/utils/elf_cache.c caches blocks of files, config/config.c reads the command line,
  src/core/system.c and main.c set up and tear down.

  \<^bold>\<open>How C is modelled.\<close> State is passed explicitly. A function whose execution may be undefined
  returns an \<open>option\<close>, and \<open>None\<close> stands for the fault: a null or dangling pointer, an access outside
  a buffer, a signed overflow, a free of something that is not allocated. So an equation with \<open>Some\<close>
  states memory safety and termination together. Memory is the record \<open>c_heap\<close> of \<open>C_Heap\<close>: the live
  blocks with their sizes and the requests that fail; \<open>owns base h bs\<close> says which blocks a component
  holds beyond those of \<open>base\<close>, and the theorems on leaks are stated with it. Words keep their width
  where the code depends on it. Loops are structural recursion, functions with a termination proof,
  or \<open>partial_function (option)\<close> with a theorem that they return; the only fuel is the number
  of rounds of the writer thread and of the emptying of its queue, where the number of entries plus one is
  proved to be enough. Files, the kernel, SQLite, libelf, libmicrohttpd, cURL, cJSON, \<open>localtime_r\<close> and the
  clocks are parameters.

  \<^bold>\<open>The theories.\<close>
  \<^item> \<open>Prelude\<close>, \<open>C_Heap\<close>, \<open>C_Text\<close>, \<open>C_Bytes\<close>: machine types, memory, the conversions of \<open>scanf\<close> and
    \<open>printf\<close> that occur, reads of byte buffers.
  \<^item> \<open>Rbtree_Model\<close>: insertion and erasure on trees with a zipper, their balance and order.
    \<open>Rbtree\<close>, \<open>Rbtree_Insert\<close>, \<open>Rbtree_Erase\<close>, \<open>Rbtree_Traverse\<close>, \<open>Rbtree_Cached\<close>: the pointer
    code over a store in which the parent pointer and the color share a word, shown to
    refine the trees; traversal in both directions and in postorder; replacement; trees with a cached
    first node; the loop that empties a tree. \<open>Ordered_Index\<close>, \<open>Rbtree_Index\<close>, \<open>Index_Memory\<close>: the loops that
    the clients run on their trees, with the interfaces \<open>ordered_index\<close>, \<open>interval_search\<close> and
    \<open>floor_search\<close> on the comparison, interpreted for every client.
  \<^item> \<open>Mempool\<close>, \<open>Concurrent_Queue\<close>, \<open>Hash_Tables\<close>: the pool (interface \<open>chunk_pool\<close>), the ring
    buffer (interface \<open>ring_buffer\<close>) and the queue as a step relation of threads with waits, signals and
    spurious wakeups, and the chained tables (interface \<open>chained_table\<close>).
  \<^item> \<open>Kernel_Symbols\<close>, \<open>Vma_Map\<close>, \<open>Elf\<close>, \<open>Elf_Lifecycle\<close>, \<open>Elf_Descriptors\<close>, \<open>Processes\<close>: the tables of the symbolizer with
    loading, lookup, reference counts and release, and the descriptors behind an ELF file.
  \<^item> \<open>Block_Cache\<close>, \<open>Elf_Cache_Manager\<close>: the cache of file blocks and the table of cached files.
  \<^item> \<open>Config\<close>, \<open>Perf_Events\<close>, \<open>Perf_Ring\<close>, \<open>Samples\<close>, \<open>Sample_Path\<close>: the command line, set-up of the
    events, the ring buffer and the way of a sample into the queue.
  \<^item> \<open>Symbolizer\<close>, \<open>Db_Writer\<close>, \<open>Pipeline\<close>, \<open>System\<close>, \<open>Main_Loop\<close>: \<open>symbolize_sample\<close>, the writer with the
    calls it makes to SQLite, the symbolizer thread between them, the life of the system context and a round of the
    main loop.
  \<^item> \<open>Query_Tool\<close>, \<open>Http_Server\<close>, \<open>Reporting\<close>, \<open>Program_Start\<close>: both modes of the query tool, the request handler,
    the way from the pushed stacks to the report, and the stages of \<open>main\<close>.
  \<^item> \<open>Main_Thread\<close>, \<open>Profiler\<close>, \<open>Profiler_Runs\<close>: the main thread record by record, shown to make up the round of
    \<open>Main_Loop\<close>; the running program as a step relation of the kernel, which writes into the ring buffers, of the
    main thread and of the rounds of the other two threads, those of \<open>Pipeline\<close> and \<open>Db_Writer\<close>; its invariant and its
    runs from the state in which \<open>main\<close> enters the main loop.

  \<^bold>\<open>What is shown.\<close>
  \<^item> The whole: in every state the running profiler can reach, each sample the kernel has written is in exactly one place
    between the ring of its processor and the committed rows, in order; the threads can always empty the queues,
    and a stop of the writer then leaves one row per sample. With a batch that is larger than the queue of the writer nothing
    is ever committed.
  \<^item> Trees: insertion and erasure on the pointers return without a fault, keep the nodes in order and the tree
    balanced; iteration visits every node; emptying a tree never reads a freed node.
  \<^item> Queue: the items come out in the order they went in, in every interleaving; no consumer sleeps while there is work;
    after a shutdown the consumers end with the remaining items. Lemmas show where a producer can be left waiting.
  \<^item> Lookup: kernel symbols, regions and ELF symbols resolve an address to the entry a direct search of the
    input gives; the block cache returns the bytes of the file.
  \<^item> Samples: decoding inverts the encoding of the kernel and stays in bounds for any record; the walk over the ring
    equals a fold over the records; a round of the main loop delivers all samples in order.
  \<^item> Memory: pools, tables, caches, events, descriptors, the writer and the system context give back exactly what they took, for every
    sequence of operations.
  \<^item> Database and queries: the committed rows are the pushed stacks; the query opens the file the writer wrote,
    sums every stack up, and the whole way prints every stack with the number of times it was pushed; the server
    binds the filters the query tool sent.
  \<^item> Faults of the program, each a theorem with a concrete instance: the fall back from branch records, the display
    buffer, the change of the hour within a batch, a start that fails; further ones are lemmas of the component.

  \<^bold>\<open>Bounds.\<close> The theorems on memory assume that allocation succeeds where the statement says so; the others
  hold for every pattern of failing requests. Buffer sizes, table sizes and capacities are those of the source.
  In \<open>Pipeline\<close>, \<open>System\<close> and \<open>Profiler\<close> each component has its own part of the heap. In \<open>Profiler\<close> the
  symbolizer and the writer take their turns as whole rounds, all rows belong to the file of one hour, the chunks of the writer hold the longest line
  (65 frames or more), and a ring buffer is never exactly full.

  \<^bold>\<open>Not modelled.\<close> The texts of the usage messages and of the debug output; the redirection of the log and
  the signal handler, which sets a flag that nothing reads; the time measurements of the queue operations;
  data races between the main thread, the symbolizer and the HTTP server on the process table and the
  database handle, which take no lock: each operation is atomic here. The augmented variants of the red-black tree are modelled with
  the callbacks that the program passes, which do nothing.
\<close>

end
